(* ===== verification/Prelude.thy ===== *)
theory Prelude
  imports Main "HOL-Library.Word" "HOL-Library.AList" "HOL-Library.Multiset"
begin

text \<open>
  The shared base of the development: the machine types of the Rust sources, the error
  values of the storage crate, the operations of the Rust standard library that the
  components use (slices, sorted vectors, little-endian byte conversion, UTF-8 strings),
  and the lemmas about them the component theories rest on.
\<close>

section \<open>Machine types and results\<close>

type_synonym u8 = "8 word"
type_synonym u16 = "16 word"
type_synonym u32 = "32 word"
type_synonym u64 = "64 word"

text \<open>
  An \<open>i32\<close>, \<open>i64\<close> or \<open>i128\<close> is an \<open>int\<close>; where the source converts or checks the
  range, the model writes the range out. A \<open>usize\<close> is a \<open>nat\<close> below \<open>2 ^ 64\<close>.
\<close>

definition in_i32 :: "int \<Rightarrow> bool" where
  "in_i32 i \<longleftrightarrow> - (2 ^ 31) \<le> i \<and> i < 2 ^ 31"

definition in_i64 :: "int \<Rightarrow> bool" where
  "in_i64 i \<longleftrightarrow> - (2 ^ 63) \<le> i \<and> i < 2 ^ 63"

definition usize_limit :: nat where
  "usize_limit = 2 ^ 64"

lemma unat_bound: "unat (w :: 'a::len word) < 2 ^ LENGTH('a)"
  by (rule unsigned_less)

named_theorems range_defs \<open>the ranges of the signed machine types\<close>

declare in_i32_def [range_defs] in_i64_def [range_defs]

text \<open>
  The errors the modelled modules return. \<open>Corrupt\<close> carries the fixed part of the
  message the code formats and the values formatted into it.
\<close>

datatype graph_error =
    KeyNotFound string
  | DuplicateKey string
  | Corrupt string "int list"
  | NoRecordedTime
  | TimeBeforeFloor int u64
  | CommitOutOfRange u64 u64 u64

type_synonym 'a res = "graph_error + 'a"

definition bind_res :: "'e + 'a \<Rightarrow> ('a \<Rightarrow> 'e + 'b) \<Rightarrow> 'e + 'b" where
  "bind_res r f = (case r of Inl e \<Rightarrow> Inl e | Inr x \<Rightarrow> f x)"

lemma bind_res_simps [simp]:
  "bind_res (Inl e) f = Inl e"
  "bind_res (Inr x) f = f x"
  by (simp_all add: bind_res_def)

lemma bind_res_Inr_iff:
  "bind_res r f = Inr y \<longleftrightarrow> (\<exists>x. r = Inr x \<and> f x = Inr y)"
  by (cases r) auto

section \<open>Strictly sorted lists\<close>

text \<open>
  The code keeps many vectors sorted and free of duplicates. The predicate is the
  library's \<open>sorted_wrt (<)\<close>, under a name of its own.
\<close>

abbreviation ssorted :: "'a::linorder list \<Rightarrow> bool" where
  "ssorted xs \<equiv> sorted_wrt (<) xs"

lemma ssorted_distinct: "ssorted xs \<Longrightarrow> distinct xs"
  by (induction xs) auto

lemma ssorted_sorted: "ssorted xs \<Longrightarrow> sorted xs"
  by (simp add: strict_sorted_iff)

lemma ssorted_iff: "ssorted xs \<longleftrightarrow> sorted xs \<and> distinct xs"
  by (simp add: strict_sorted_iff)

lemma ssorted_unique: "ssorted xs \<Longrightarrow> ssorted ys \<Longrightarrow> set xs = set ys \<Longrightarrow> xs = ys"
  by (simp add: strict_sorted_equal)

lemma ssorted_filter: "ssorted xs \<Longrightarrow> ssorted (filter P xs)"
  by (induction xs) auto

lemma ssorted_take_drop:
  "ssorted xs \<Longrightarrow> ssorted (take n xs)" "ssorted xs \<Longrightarrow> ssorted (drop n xs)"
  by (simp_all add: sorted_wrt_take sorted_wrt_drop)

text \<open>
  The number of leading elements that satisfy a predicate: where a vector partitioned by
  the predicate turns from true to false.
\<close>

definition leading :: "('a \<Rightarrow> bool) \<Rightarrow> 'a list \<Rightarrow> nat" where
  "leading P xs = length (takeWhile P xs)"

lemma leading_le [simp]: "leading P xs \<le> length xs"
  by (simp add: leading_def length_takeWhile_le)

lemma leading_simps [simp]:
  "leading P [] = 0"
  "leading P (x # xs) = (if P x then Suc (leading P xs) else 0)"
  by (simp_all add: leading_def)

lemma take_leading: "take (leading P xs) xs = takeWhile P xs"
  by (simp add: leading_def takeWhile_eq_take [symmetric])

lemma drop_leading: "drop (leading P xs) xs = dropWhile P xs"
  by (simp add: leading_def dropWhile_eq_drop [symmetric])

lemma nth_before_leading: "i < leading P xs \<Longrightarrow> P (xs ! i)"
  unfolding leading_def by (metis nth_mem set_takeWhileD takeWhile_nth)

lemma nth_leading: "leading P xs < length xs \<Longrightarrow> \<not> P (xs ! leading P xs)"
  unfolding leading_def by (rule nth_length_takeWhile)

lemma leadingI:
  assumes "\<And>i. i < n \<Longrightarrow> P (xs ! i)" "n \<le> length xs" "n < length xs \<Longrightarrow> \<not> P (xs ! n)"
  shows "leading P xs = n"
  using assms
proof (induction xs arbitrary: n)
  case (Cons x xs)
  show ?case
  proof (cases n)
    case 0
    then show ?thesis using Cons.prems(3) by simp
  next
    case (Suc m)
    have "leading P xs = m"
    proof (rule Cons.IH)
      show "P (xs ! i)" if "i < m" for i using Cons.prems(1) [of "Suc i"] that Suc by simp
    qed (use Cons.prems Suc in auto)
    moreover have "P x" using Cons.prems(1) [of 0] Suc by simp
    ultimately show ?thesis using Suc by simp
  qed
qed simp

text \<open>
  \<open>slice::partition_point\<close> as the standard library computes it (the loop of
  \<open>binary_search_by\<close>): it halves the range above the base until one element is left, then
  compares that one. Its documentation leaves the result open on a slice that is not
  partitioned by the predicate; the model is the computation, since one caller depends on
  what it does with a first element out of order.
\<close>

function pp_loop :: "('a \<Rightarrow> bool) \<Rightarrow> 'a list \<Rightarrow> nat \<Rightarrow> nat \<Rightarrow> nat" where
  "pp_loop P xs base sz =
     (if 1 < sz then
        let half = sz div 2; mid = base + half
        in pp_loop P xs (if P (xs ! mid) then mid else base) (sz - half)
      else base)"
  by pat_completeness auto
termination
  by (relation "measure (\<lambda>(P, xs, base, sz). sz)") auto

declare pp_loop.simps [simp del]

definition partition_point :: "('a \<Rightarrow> bool) \<Rightarrow> 'a list \<Rightarrow> nat" where
  "partition_point P xs =
     (if xs = [] then 0
      else let base = pp_loop P xs 0 (length xs)
           in if P (xs ! base) then base + 1 else base)"

definition tail_partitioned :: "('a \<Rightarrow> bool) \<Rightarrow> 'a list \<Rightarrow> bool" where
  "tail_partitioned P xs \<longleftrightarrow> (\<forall>i j. 0 < i \<longrightarrow> i < j \<longrightarrow> j < length xs \<longrightarrow> P (xs ! j) \<longrightarrow> P (xs ! i))"

lemma pp_loop_invariant:
  assumes "tail_partitioned P xs" "0 < sz" "base + sz \<le> length xs" "base = 0 \<or> P (xs ! base)"
    "\<And>j. base + sz \<le> j \<Longrightarrow> j < length xs \<Longrightarrow> \<not> P (xs ! j)"
  shows "let b = pp_loop P xs base sz in
    b < length xs \<and> (b = 0 \<or> P (xs ! b)) \<and> (b + 1 < length xs \<longrightarrow> \<not> P (xs ! (b + 1)))"
  using assms
proof (induction P xs base sz rule: pp_loop.induct)
  case (1 P xs base sz)
  show ?case
  proof (cases "1 < sz")
    case True
    define half where "half = sz div 2"
    have half: "0 < half" "half < sz" using True by (auto simp: half_def)
    have eq: "pp_loop P xs base sz =
        pp_loop P xs (if P (xs ! (base + half)) then base + half else base) (sz - half)"
      using True by (subst pp_loop.simps) (simp add: half_def Let_def)
    have above: "\<not> P (xs ! j)"
      if "(if P (xs ! (base + half)) then base + half else base) + (sz - half) \<le> j" "j < length xs" for j
    proof (cases "P (xs ! (base + half))")
      case True
      then show ?thesis using that half "1.prems"(5) [of j] by simp
    next
      case False
      have "base + half \<le> j" using that(1) False half_def by (auto split: if_splits)
      then show ?thesis
        using False half that(2) "1.prems"(1) unfolding tail_partitioned_def
        by (metis add_pos_nonneg add.commute le_eq_less_or_eq zero_le)
    qed
    show ?thesis
      unfolding eq by (rule "1.IH" [OF True half_def refl _ _ _ _ above]) (use half "1.prems" in auto)
  next
    case False
    then have "sz = 1" using "1.prems"(2) by simp
    then show ?thesis using "1.prems"(3,4) "1.prems"(5) [of "base + 1"] by (subst pp_loop.simps) auto
  qed
qed

lemma partition_point_base:
  assumes "xs \<noteq> []" "tail_partitioned P xs" "b = pp_loop P xs 0 (length xs)"
  shows "b < length xs" "b = 0 \<or> P (xs ! b)" "b + 1 < length xs \<Longrightarrow> \<not> P (xs ! (b + 1))"
    "partition_point P xs = (if P (xs ! b) then b + 1 else b)"
  using pp_loop_invariant [of P xs "length xs" 0] assms
  by (auto simp: Let_def partition_point_def)

text \<open>
  The first element does not matter for the result less one: what counts is where the
  rest of the slice turns.
\<close>

lemma partition_point_tail:
  assumes "xs \<noteq> []" "tail_partitioned P xs"
  shows "partition_point P xs - 1 = leading P (tl xs)"
proof -
  define b where "b = pp_loop P xs 0 (length xs)"
  note b = partition_point_base [OF assms b_def]
  have tl: "tl xs ! i = xs ! Suc i" if "Suc i < length xs" for i
    using that by (cases xs) auto
  have "leading P (tl xs) = b"
  proof (rule leadingI)
    fix i assume i: "i < b"
    then have "P (xs ! Suc i)"
      using assms(2) b(1,2) unfolding tail_partitioned_def
      by (metis Suc_lessI less_nat_zero_code zero_less_Suc)
    then show "P (tl xs ! i)" using tl [of i] i b(1) by simp
  next
    show "b \<le> length (tl xs)" using b(1) by simp
    show "\<not> P (tl xs ! b)" if "b < length (tl xs)" using that b(3) tl [of b] by auto
  qed
  then show ?thesis using b(2,4) by auto
qed

text \<open>On a partitioned slice it is the number of leading elements, as documented.\<close>

lemma partition_point_leading:
  assumes part: "\<And>i j. i < j \<Longrightarrow> j < length xs \<Longrightarrow> P (xs ! j) \<Longrightarrow> P (xs ! i)"
  shows "partition_point P xs = leading P xs"
proof (cases xs)
  case (Cons x ys)
  have tail: "tail_partitioned P xs" using part by (auto simp: tail_partitioned_def)
  define b where "b = pp_loop P xs 0 (length xs)"
  note b = partition_point_base [OF _ tail b_def]
  have "partition_point P xs - 1 = leading P ys"
    using partition_point_tail [OF _ tail] Cons by simp
  moreover have "leading P ys = 0" if "\<not> P x"
    using part [of 0 1] that Cons by (cases ys) auto
  moreover have "b = 0" if "\<not> P x"
    using part [of 0 b] b that Cons by (cases "b = 0") auto
  moreover have "0 < partition_point P xs" if "P x"
    using b(2,4) that Cons by (cases "b = 0") auto
  ultimately show ?thesis using b(4) Cons by (cases "P x") auto
qed (simp add: partition_point_def)

text \<open>
  \<open>binary_search\<close> on a strictly sorted vector: \<open>Inr i\<close> (Rust's \<open>Ok\<close>) for the index of
  the element, \<open>Inl i\<close> (\<open>Err\<close>) for the index where it would be inserted.
\<close>

definition binary_search :: "'a::linorder \<Rightarrow> 'a list \<Rightarrow> nat + nat" where
  "binary_search x xs =
     (let i = leading (\<lambda>y. y < x) xs
      in if i < length xs \<and> xs ! i = x then Inr i else Inl i)"

lemma binary_search_Inr_D:
  "binary_search x xs = Inr i \<Longrightarrow> i < length xs \<and> xs ! i = x"
  by (auto simp: binary_search_def Let_def split: if_splits)

lemma ssorted_split_at:
  assumes "ssorted xs" "i = leading (\<lambda>y. y < x) xs"
  shows "(\<forall>y \<in> set (take i xs). y < x) \<and> (\<forall>y \<in> set (drop i xs). x \<le> y)"
proof
  show "\<forall>y \<in> set (take i xs). y < x"
    using assms(2) by (auto simp: take_leading dest: set_takeWhileD)
  show "\<forall>y \<in> set (drop i xs). x \<le> y"
    using assms(1) unfolding assms(2) drop_leading
    by (induction xs) (auto simp: not_less split: if_splits)
qed

lemma binary_search_found:
  assumes "ssorted xs"
  shows "(\<exists>i. binary_search x xs = Inr i) \<longleftrightarrow> x \<in> set xs"
proof
  assume "\<exists>i. binary_search x xs = Inr i"
  then show "x \<in> set xs"
    using binary_search_Inr_D nth_mem by metis
next
  assume x: "x \<in> set xs"
  define i where "i = leading (\<lambda>y. y < x) xs"
  have split: "(\<forall>y \<in> set (take i xs). y < x) \<and> (\<forall>y \<in> set (drop i xs). x \<le> y)"
    using ssorted_split_at [OF assms i_def] .
  have "x \<in> set (drop i xs)"
    using x split by (metis Un_iff append_take_drop_id less_irrefl set_append)
  moreover obtain y ys where d: "drop i xs = y # ys"
    using calculation by (cases "drop i xs") auto
  ultimately have "x \<le> y" "x \<in> insert y (set ys)" "ssorted (y # ys)"
    using split ssorted_take_drop(2) [OF assms, of i] by auto
  then have "y = x" by force
  moreover have "i < length xs" "xs ! i = y"
    using d by (metis drop_eq_Nil linorder_not_le list.distinct(1), metis d drop_eq_Nil hd_drop_conv_nth linorder_not_le list.distinct(1) list.sel(1))
  ultimately show "\<exists>i. binary_search x xs = Inr i"
    by (auto simp: binary_search_def Let_def i_def [symmetric])
qed

lemma binary_search_Inl_D:
  assumes "ssorted xs" "binary_search x xs = Inl i"
  shows "x \<notin> set xs" "i \<le> length xs"
    "\<And>y. y \<in> set (take i xs) \<Longrightarrow> y < x" "\<And>y. y \<in> set (drop i xs) \<Longrightarrow> x < y"
proof -
  show x: "x \<notin> set xs"
    using assms(2) binary_search_found [OF assms(1), of x] by auto
  have i: "i = leading (\<lambda>y. y < x) xs"
    using assms(2) by (auto simp: binary_search_def Let_def split: if_splits)
  show "i \<le> length xs" by (simp add: i)
  note split = ssorted_split_at [OF assms(1) i]
  show "y < x" if "y \<in> set (take i xs)" for y using split that by blast
  show "x < y" if "y \<in> set (drop i xs)" for y
    using split that x by (metis in_set_dropD order_le_less)
qed

text \<open>\<open>Vec::insert\<close> and \<open>Vec::remove\<close> at an index.\<close>

definition insert_at :: "nat \<Rightarrow> 'a \<Rightarrow> 'a list \<Rightarrow> 'a list" where
  "insert_at i x xs = take i xs @ x # drop i xs"

definition remove_at_index :: "nat \<Rightarrow> 'a list \<Rightarrow> 'a list" where
  "remove_at_index i xs = take i xs @ drop (Suc i) xs"

lemma length_insert_at [simp]: "i \<le> length xs \<Longrightarrow> length (insert_at i x xs) = Suc (length xs)"
  by (simp add: insert_at_def)

lemma set_insert_at [simp]: "set (insert_at i x xs) = insert x (set xs)"
proof -
  have "set xs = set (take i xs) \<union> set (drop i xs)"
    by (metis append_take_drop_id set_append)
  then show ?thesis by (auto simp: insert_at_def)
qed

lemma length_remove_at_index [simp]:
  "i < length xs \<Longrightarrow> length (remove_at_index i xs) = length xs - 1"
  by (simp add: remove_at_index_def)

lemma ssorted_insert_at:
  assumes "ssorted xs" "binary_search x xs = Inl i"
  shows "ssorted (insert_at i x xs)"
  using assms binary_search_Inl_D [OF assms] ssorted_take_drop [OF assms(1), of i]
  by (auto simp: insert_at_def sorted_wrt_append intro: less_trans)

lemma ssorted_remove_at_index:
  assumes "ssorted xs"
  shows "ssorted (remove_at_index i xs)"
proof -
  have "ssorted (take i xs @ drop i xs)" using assms by simp
  then have "ssorted (take i xs @ drop (Suc i) xs)"
    unfolding sorted_wrt_append
    by (metis Suc_n_not_le_n drop_drop add.commute plus_1_eq_Suc in_set_dropD ssorted_take_drop(2))
  then show ?thesis by (simp add: remove_at_index_def)
qed

lemma set_remove_at_index:
  assumes "distinct xs" "i < length xs"
  shows "set (remove_at_index i xs) = set xs - {xs ! i}"
proof -
  have xs: "xs = take i xs @ xs ! i # drop (Suc i) xs"
    using assms(2) by (rule id_take_nth_drop)
  then have "distinct (take i xs @ xs ! i # drop (Suc i) xs)" using assms(1) by simp
  moreover have "set xs = set (take i xs @ xs ! i # drop (Suc i) xs)" using xs by metis
  ultimately show ?thesis by (auto simp: remove_at_index_def)
qed

text \<open>\<open>sort_unstable\<close> followed by \<open>dedup\<close>: the strictly sorted list of the elements.\<close>

definition sort_dedup :: "'a::linorder list \<Rightarrow> 'a list" where
  "sort_dedup xs = remdups_adj (sort xs)"

lemma set_sort_dedup [simp]: "set (sort_dedup xs) = set xs"
  by (simp add: sort_dedup_def)

lemma ssorted_remdups_adj: "sorted xs \<Longrightarrow> ssorted (remdups_adj xs)"
  by (induction xs rule: remdups_adj.induct) (auto simp: less_le)

lemma ssorted_sort_dedup [simp]: "ssorted (sort_dedup xs)"
  by (simp add: sort_dedup_def ssorted_remdups_adj)

lemma sort_dedup_Nil_iff [simp]: "sort_dedup xs = [] \<longleftrightarrow> xs = []"
  by (metis set_empty set_sort_dedup)

section \<open>Sorted association lists\<close>

text \<open>
  The reference ordered map: association lists in strictly ascending key order, with
  insertion and deletion. A search tree is specified by the list of its entries.
\<close>

abbreviation keys :: "('k \<times> 'v) list \<Rightarrow> 'k list" where
  "keys es \<equiv> map fst es"

fun alist_ins :: "'k::linorder \<Rightarrow> 'v \<Rightarrow> ('k \<times> 'v) list \<Rightarrow> ('k \<times> 'v) list" where
  "alist_ins k v [] = [(k, v)]"
| "alist_ins k v ((l, w) # es) =
     (if k < l then (k, v) # (l, w) # es
      else if k = l then (k, v) # es
      else (l, w) # alist_ins k v es)"

definition alist_del :: "'k \<Rightarrow> ('k \<times> 'v) list \<Rightarrow> ('k \<times> 'v) list" where
  "alist_del k es = filter (\<lambda>e. fst e \<noteq> k) es"

lemma map_of_None_keys: "map_of es k = None \<longleftrightarrow> k \<notin> set (keys es)"
  by (simp add: map_of_eq_None_iff)

lemma map_of_alist_ins: "map_of (alist_ins k v es) = (map_of es)(k \<mapsto> v)"
  by (induction k v es rule: alist_ins.induct) auto

lemma map_of_alist_del: "map_of (alist_del k es) = (map_of es)(k := None)"
  by (induction es) (auto simp: alist_del_def)

lemma set_keys_alist_ins: "set (keys (alist_ins k v es)) = insert k (set (keys es))"
  by (induction k v es rule: alist_ins.induct) auto

lemma ssorted_alist_ins: "ssorted (keys es) \<Longrightarrow> ssorted (keys (alist_ins k v es))"
proof (induction k v es rule: alist_ins.induct)
  case (2 k v l w es)
  have "set (keys (alist_ins k v es)) = insert k (set (keys es))" by (rule set_keys_alist_ins)
  with 2 show ?case by (auto intro: less_trans)
qed simp

lemma ssorted_alist_del: "ssorted (keys es) \<Longrightarrow> ssorted (keys (alist_del k es))"
  by (induction es) (auto simp: alist_del_def)

lemma alist_ins_append1:
  "(\<And>l. l \<in> set (keys xs) \<Longrightarrow> l < k) \<Longrightarrow> alist_ins k v (xs @ ys) = xs @ alist_ins k v ys"
  by (induction xs) (force simp: not_less_iff_gr_or_eq)+

lemma alist_ins_append2:
  "(\<And>l. l \<in> set (keys ys) \<Longrightarrow> k < l) \<Longrightarrow> alist_ins k v (xs @ ys) = alist_ins k v xs @ ys"
  by (induction k v xs rule: alist_ins.induct) (cases ys; auto)+

lemma alist_del_append: "alist_del k (xs @ ys) = alist_del k xs @ alist_del k ys"
  by (simp add: alist_del_def)

lemma alist_del_absent: "k \<notin> set (keys xs) \<Longrightarrow> alist_del k xs = xs"
  unfolding alist_del_def by (rule filter_True) auto

lemma length_alist_ins:
  "ssorted (keys es) \<Longrightarrow>
   length (alist_ins k v es) = (if map_of es k = None then Suc (length es) else length es)"
  by (induction k v es rule: alist_ins.induct) (auto simp: map_of_eq_None_iff)

lemma length_alist_del:
  "distinct (keys es) \<Longrightarrow> map_of es k \<noteq> None \<Longrightarrow> Suc (length (alist_del k es)) = length es"
proof (induction es)
  case (Cons e es)
  show ?case
  proof (cases "fst e = k")
    case True
    then have "alist_del k (e # es) = alist_del k es" by (simp add: alist_del_def)
    with True Cons.prems show ?thesis by (simp add: alist_del_absent)
  next
    case False
    then have "alist_del k (e # es) = e # alist_del k es" by (simp add: alist_del_def)
    with False Cons show ?thesis by (cases e) auto
  qed
qed simp

lemma alist_update_new: "k \<notin> set (keys xs) \<Longrightarrow> AList.update k v xs = xs @ [(k, v)]"
  by (induction xs) auto

lemma alist_delete_eq: "AList.delete k xs = alist_del k xs"
  unfolding alist_del_def AList.delete_eq by (rule filter_cong) auto

lemma keys_sort_key: "keys (sort_key fst m) = sort (keys m)"
proof (rule properties_for_sort [symmetric])
  have "mset (sort_key fst m) = mset m" by simp
  then show "mset (keys (sort_key fst m)) = mset (keys m)" by (metis mset_map)
qed simp

section \<open>Bytes\<close>

text \<open>
  Little-endian conversion. \<open>nat_to_le k n\<close> is the \<open>k\<close> low bytes of \<open>n\<close>, least
  significant first; \<open>le_to_nat\<close> reads them back.
\<close>

fun nat_to_le :: "nat \<Rightarrow> nat \<Rightarrow> u8 list" where
  "nat_to_le 0 n = []"
| "nat_to_le (Suc k) n = of_nat (n mod 256) # nat_to_le k (n div 256)"

fun le_to_nat :: "u8 list \<Rightarrow> nat" where
  "le_to_nat [] = 0"
| "le_to_nat (b # bs) = unat b + 256 * le_to_nat bs"

lemma length_nat_to_le [simp]: "length (nat_to_le k n) = k"
  by (induction k arbitrary: n) auto

lemma unat_of_nat_byte: "unat (of_nat (n mod 256) :: u8) = n mod 256"
  by (simp add: unat_of_nat)

lemma le_to_nat_to_le [simp]: "le_to_nat (nat_to_le k n) = n mod 256 ^ k"
proof (induction k arbitrary: n)
  case (Suc k)
  have "n mod 256 + 256 * (n div 256 mod 256 ^ k) = n mod (256 * 256 ^ k)"
    by (simp add: mod_mult2_eq)
  with Suc show ?case by (simp add: unat_of_nat_byte)
qed simp

lemma byte_lt: "unat (b :: u8) < 256"
  using unat_bound [of b] by simp

lemma le_to_nat_bound: "le_to_nat bs < 256 ^ length bs"
proof (induction bs)
  case (Cons b bs)
  have "unat b + 256 * le_to_nat bs < 256 + 256 * le_to_nat bs"
    using byte_lt [of b] by simp
  also have "\<dots> \<le> 256 * 256 ^ length bs" using Cons by simp
  finally show ?case by simp
qed simp

lemma nat_to_le_to_nat [simp]: "nat_to_le (length bs) (le_to_nat bs) = bs"
  by (induction bs) (use byte_lt in auto)

text \<open>\<open>to_le_bytes\<close> and \<open>from_le_bytes\<close> of the unsigned types and of \<open>i64\<close>.\<close>

definition u16_to_le :: "u16 \<Rightarrow> u8 list" where "u16_to_le w = nat_to_le 2 (unat w)"
definition u32_to_le :: "u32 \<Rightarrow> u8 list" where "u32_to_le w = nat_to_le 4 (unat w)"
definition u64_to_le :: "u64 \<Rightarrow> u8 list" where "u64_to_le w = nat_to_le 8 (unat w)"
definition u16_from_le :: "u8 list \<Rightarrow> u16" where "u16_from_le bs = of_nat (le_to_nat bs)"
definition u32_from_le :: "u8 list \<Rightarrow> u32" where "u32_from_le bs = of_nat (le_to_nat bs)"
definition u64_from_le :: "u8 list \<Rightarrow> u64" where "u64_from_le bs = of_nat (le_to_nat bs)"

definition i64_to_le :: "int \<Rightarrow> u8 list" where
  "i64_to_le i = nat_to_le 8 (nat (i mod 2 ^ 64))"

definition i64_from_le :: "u8 list \<Rightarrow> int" where
  "i64_from_le bs =
     (let n = int (le_to_nat bs) in if n < 2 ^ 63 then n else n - 2 ^ 64)"

lemma length_to_le [simp]:
  "length (u16_to_le a) = 2" "length (u32_to_le b) = 4" "length (u64_to_le c) = 8"
  "length (i64_to_le i) = 8"
  by (simp_all add: u16_to_le_def u32_to_le_def u64_to_le_def i64_to_le_def)

lemma u16_le_roundtrip [simp]: "u16_from_le (u16_to_le w) = w"
  using unat_bound [of w] by (simp add: u16_from_le_def u16_to_le_def)

lemma u32_le_roundtrip [simp]: "u32_from_le (u32_to_le w) = w"
  using unat_bound [of w] by (simp add: u32_from_le_def u32_to_le_def)

lemma u64_le_roundtrip [simp]: "u64_from_le (u64_to_le w) = w"
  using unat_bound [of w] by (simp add: u64_from_le_def u64_to_le_def)

lemma i64_le_roundtrip [simp]: "in_i64 i \<Longrightarrow> i64_from_le (i64_to_le i) = i"
proof -
  assume i: "in_i64 i"
  have "int (nat (i mod 2 ^ 64) mod 256 ^ 8) = i mod 2 ^ 64"
    by (simp add: nat_less_iff)
  moreover have "i mod 2 ^ 64 = (if 0 \<le> i then i else i + 2 ^ 64)"
  proof (cases "0 \<le> i")
    case True
    then show ?thesis using i by (simp add: in_i64_def)
  next
    case False
    then have "i mod 2 ^ 64 = (i + 2 ^ 64) mod 2 ^ 64" by simp
    also have "\<dots> = i + 2 ^ 64" using False i by (intro mod_pos_pos_trivial) (auto simp: in_i64_def)
    finally show ?thesis using False by simp
  qed
  ultimately show ?thesis
    using i by (auto simp: i64_from_le_def i64_to_le_def in_i64_def Let_def)
qed

lemma u16_from_le_inverse: "length bs = 2 \<Longrightarrow> u16_to_le (u16_from_le bs) = bs"
  using le_to_nat_bound [of bs] nat_to_le_to_nat [of bs] by (simp add: u16_from_le_def u16_to_le_def unat_of_nat)

lemma u64_from_le_inverse: "length bs = 8 \<Longrightarrow> u64_to_le (u64_from_le bs) = bs"
  using le_to_nat_bound [of bs] nat_to_le_to_nat [of bs] by (simp add: u64_from_le_def u64_to_le_def unat_of_nat)

lemma i64_from_le_range: "length bs = 8 \<Longrightarrow> in_i64 (i64_from_le bs)"
  using le_to_nat_bound [of bs] by (auto simp: i64_from_le_def in_i64_def Let_def)

lemma i64_from_le_inverse: "length bs = 8 \<Longrightarrow> i64_to_le (i64_from_le bs) = bs"
proof -
  assume len: "length bs = 8"
  have b: "int (le_to_nat bs) < 2 ^ 64" using le_to_nat_bound [of bs] len by simp
  have "i64_from_le bs mod 2 ^ 64 = int (le_to_nat bs) mod 2 ^ 64" by (simp add: i64_from_le_def Let_def mod_diff_right_eq [symmetric])
  then have "i64_from_le bs mod 2 ^ 64 = int (le_to_nat bs)" using b by simp
  then show ?thesis using nat_to_le_to_nat [of bs] len by (simp add: i64_to_le_def)
qed

text \<open>\<open>chunks_exact\<close>: the whole chunks of a slice; a shorter rest is left out.\<close>

function chunks_exact :: "nat \<Rightarrow> 'a list \<Rightarrow> 'a list list" where
  "chunks_exact n xs =
     (if n = 0 \<or> length xs < n then [] else take n xs # chunks_exact n (drop n xs))"
  by pat_completeness auto
termination
  by (relation "measure (\<lambda>(n, xs). length xs)") auto

declare chunks_exact.simps [simp del]

lemma chunks_exact_Nil [simp]: "chunks_exact n [] = []"
  by (subst chunks_exact.simps) auto

lemma chunks_exact_append:
  "length x = n \<Longrightarrow> 0 < n \<Longrightarrow> chunks_exact n (x @ xs) = x # chunks_exact n xs"
  by (subst chunks_exact.simps) auto

lemma chunks_exact_concat:
  assumes "\<And>x. x \<in> set xss \<Longrightarrow> length x = n" "0 < n"
  shows "chunks_exact n (concat xss) = xss"
  using assms by (induction xss) (auto simp: chunks_exact_append)

lemma length_chunks_exact: "c \<in> set (chunks_exact n xs) \<Longrightarrow> length c = n"
proof (induction n xs rule: chunks_exact.induct)
  case (1 n xs)
  then show ?case by (subst (asm) (2) chunks_exact.simps) (auto split: if_splits)
qed

lemma concat_chunks_exact: "0 < n \<Longrightarrow> length xs mod n = 0 \<Longrightarrow> concat (chunks_exact n xs) = xs"
proof (induction n xs rule: chunks_exact.induct)
  case (1 n xs)
  show ?case
  proof (cases "length xs < n")
    case True
    then show ?thesis using "1.prems" by (subst chunks_exact.simps) auto
  next
    case False
    then have "length (drop n xs) mod n = 0" using "1.prems" by (simp add: le_mod_geq not_less)
    then have "concat (chunks_exact n (drop n xs)) = drop n xs" using 1 False by simp
    then show ?thesis using False "1.prems" by (subst chunks_exact.simps) auto
  qed
qed

text \<open>\<open>slice::chunks\<close>: like \<open>chunks_exact\<close>, with a shorter last chunk.\<close>

function slice_chunks :: "nat \<Rightarrow> 'a list \<Rightarrow> 'a list list" where
  "slice_chunks n xs = (if n = 0 \<or> xs = [] then [] else take n xs # slice_chunks n (drop n xs))"
  by pat_completeness auto
termination
  by (relation "measure (\<lambda>(n, xs). length xs)") auto

declare slice_chunks.simps [simp del]

lemma chunks_Nil [simp]: "slice_chunks n [] = []"
  by (subst slice_chunks.simps) simp

lemma chunks_append: "length x = n \<Longrightarrow> 0 < n \<Longrightarrow> slice_chunks n (x @ xs) = x # slice_chunks n xs"
  by (subst slice_chunks.simps) auto

lemma chunks_single: "x \<noteq> [] \<Longrightarrow> length x \<le> n \<Longrightarrow> slice_chunks n x = [x]"
  by (cases x; subst slice_chunks.simps) auto

lemma chunks_cases:
  assumes "0 < n" "xs \<noteq> []"
  obtains "length xs \<le> n" "slice_chunks n xs = [xs]"
  | x ys where "length x = n" "ys \<noteq> []" "xs = x @ ys" "slice_chunks n xs = x # slice_chunks n ys"
proof (cases "length xs \<le> n")
  case True
  then show ?thesis using that(1) chunks_single assms by blast
next
  case False
  then have "length (take n xs) = n" "drop n xs \<noteq> []" "xs = take n xs @ drop n xs" by auto
  then show ?thesis using that(2) [of "take n xs" "drop n xs"] chunks_append [of "take n xs" n "drop n xs"] assms(1) by auto
qed

lemma chunks_lengths: "length s = n * k \<Longrightarrow> 0 < n \<Longrightarrow> length (slice_chunks n s) = k \<and> (\<forall>q \<in> set (slice_chunks n s). length q = n) \<and> concat (slice_chunks n s) = s"
proof (induction k arbitrary: s)
  case (Suc k)
  then have len: "length (take n s) = n" "length (drop n s) = n * k" by auto
  have eq: "slice_chunks n s = take n s # slice_chunks n (drop n s)"
    using chunks_append [OF len(1) Suc.prems(2), of "drop n s"] unfolding append_take_drop_id .
  show ?case using Suc.IH [OF len(2) Suc.prems(2)] len(1) unfolding eq by (auto simp del: length_take)
qed simp

section \<open>UTF-8 strings\<close>

text \<open>
  A Rust string is a byte string that is valid UTF-8; the model writes it as a
  \<open>string\<close>, one character per byte. \<open>utf8_valid\<close> is the well-formedness check of the
  standard library: no overlong form, no surrogate, nothing above U+10FFFF.
\<close>

definition as_bytes :: "string \<Rightarrow> u8 list" where
  "as_bytes s = map (\<lambda>c. of_nat (of_char c)) s"

definition of_bytes :: "u8 list \<Rightarrow> string" where
  "of_bytes bs = map (\<lambda>b. char_of (unat b)) bs"

definition is_cont :: "u8 \<Rightarrow> bool" where
  "is_cont b \<longleftrightarrow> 0x80 \<le> b \<and> b \<le> 0xBF"

fun utf8_valid :: "u8 list \<Rightarrow> bool" where
  "utf8_valid [] = True"
| "utf8_valid (a # rest) =
     (if a \<le> 0x7F then utf8_valid rest
      else if 0xC2 \<le> a \<and> a \<le> 0xDF then
        (case rest of b # r1 \<Rightarrow> is_cont b \<and> utf8_valid r1 | _ \<Rightarrow> False)
      else if 0xE0 \<le> a \<and> a \<le> 0xEF then
        (case rest of b # c # r2 \<Rightarrow>
           (if a = 0xE0 then 0xA0 else 0x80) \<le> b \<and> b \<le> (if a = 0xED then 0x9F else 0xBF) \<and>
           is_cont c \<and> utf8_valid r2
         | _ \<Rightarrow> False)
      else if 0xF0 \<le> a \<and> a \<le> 0xF4 then
        (case rest of b # c # d # r3 \<Rightarrow>
           (if a = 0xF0 then 0x90 else 0x80) \<le> b \<and> b \<le> (if a = 0xF4 then 0x8F else 0xBF) \<and>
           is_cont c \<and> is_cont d \<and> utf8_valid r3
         | _ \<Rightarrow> False)
      else False)"

definition from_utf8 :: "u8 list \<Rightarrow> string option" where
  "from_utf8 bs = (if utf8_valid bs then Some (of_bytes bs) else None)"

definition rust_string :: "string \<Rightarrow> bool" where
  "rust_string s \<longleftrightarrow> utf8_valid (as_bytes s)"

lemma unat_of_char_byte [simp]: "unat (of_nat (of_char c) :: u8) = of_char c"
proof -
  have "(of_char c :: nat) < 256" by (rule nat_of_char_less_256)
  then show ?thesis by (simp add: unat_of_nat)
qed

lemma of_bytes_as_bytes [simp]: "of_bytes (as_bytes s) = s"
  by (induction s) (simp_all add: of_bytes_def as_bytes_def)

lemma as_bytes_of_bytes [simp]: "as_bytes (of_bytes bs) = bs"
proof (induction bs)
  case (Cons b bs)
  have "(of_char (char_of (unat b) :: char) :: nat) = unat b"
    using byte_lt [of b] by simp
  with Cons show ?case by (simp add: of_bytes_def as_bytes_def)
qed (simp add: of_bytes_def as_bytes_def)

lemma length_as_bytes [simp]: "length (as_bytes s) = length s"
  by (simp add: as_bytes_def)

lemma from_utf8_as_bytes [simp]: "rust_string s \<Longrightarrow> from_utf8 (as_bytes s) = Some s"
  by (simp add: from_utf8_def rust_string_def)

end
