(* ===== verification/Pack.thy ===== *)
theory Pack
  imports Prelude
begin

text \<open>
  The length-prefixed little-endian packing of snapshot images
  (\<open>crates/core-storage/src/pack.rs\<close>). A writer appends to the output vector; a reader
  takes the source slice and its cursor and returns the value with the moved cursor, or
  the error. The locale \<open>prefix_codec\<close> is the contract a reader and a writer keep
  towards their clients: what was pushed anywhere in an image is read back there, and the
  cursor ends behind it.
\<close>

section \<open>Writers\<close>

definition push_u32 :: "u8 list \<Rightarrow> u32 \<Rightarrow> u8 list" where
  "push_u32 out v = out @ u32_to_le v"

definition push_u64 :: "u8 list \<Rightarrow> u64 \<Rightarrow> u8 list" where
  "push_u64 out v = out @ u64_to_le v"

text \<open>The cast \<open>len as u32\<close> keeps the low 32 bits; the assertion before it is for debug builds.\<close>

definition push_len :: "u8 list \<Rightarrow> nat \<Rightarrow> u8 list" where
  "push_len out len = push_u32 out (of_nat len)"

definition push_u32s :: "u8 list \<Rightarrow> u32 list \<Rightarrow> u8 list" where
  "push_u32s out v = foldl push_u32 (push_len out (length v)) v"

definition push_str :: "u8 list \<Rightarrow> string \<Rightarrow> u8 list" where
  "push_str out s = (let b = as_bytes s in push_len out (length b) @ b)"

section \<open>Readers\<close>

definition read_exact :: "u8 list \<Rightarrow> nat \<Rightarrow> nat \<Rightarrow> (u8 list \<times> nat) res" where
  "read_exact src pos n =
     (if usize_limit \<le> pos + n then Inl (Corrupt ''snapshot: packed length overflow'' [])
      else if pos + n \<le> length src then Inr (take n (drop pos src), pos + n)
      else Inl (Corrupt ''snapshot: truncated packed image'' []))"

definition read_u32 :: "u8 list \<Rightarrow> nat \<Rightarrow> (u32 \<times> nat) res" where
  "read_u32 src pos = bind_res (read_exact src pos 4) (\<lambda>(s, pos). Inr (u32_from_le s, pos))"

definition read_u64 :: "u8 list \<Rightarrow> nat \<Rightarrow> (u64 \<times> nat) res" where
  "read_u64 src pos = bind_res (read_exact src pos 8) (\<lambda>(s, pos). Inr (u64_from_le s, pos))"

text \<open>\<open>usize::saturating_mul\<close>.\<close>

definition saturating_mul :: "nat \<Rightarrow> nat \<Rightarrow> nat" where
  "saturating_mul a b = min (a * b) (usize_limit - 1)"

definition read_u32s :: "u8 list \<Rightarrow> nat \<Rightarrow> (u32 list \<times> nat) res" where
  "read_u32s src pos =
     bind_res (read_u32 src pos) (\<lambda>(n, pos).
     bind_res (read_exact src pos (saturating_mul (unat n) 4)) (\<lambda>(bytes, pos).
     Inr (map u32_from_le (chunks_exact 4 bytes), pos)))"

definition read_i64s :: "u8 list \<Rightarrow> nat \<Rightarrow> (int list \<times> nat) res" where
  "read_i64s src pos =
     bind_res (read_u32 src pos) (\<lambda>(n, pos).
     bind_res (read_exact src pos (saturating_mul (unat n) 8)) (\<lambda>(bytes, pos).
     Inr (map i64_from_le (chunks_exact 8 bytes), pos)))"

text \<open>An \<open>f64\<close> is its bit pattern.\<close>

definition read_f64s :: "u8 list \<Rightarrow> nat \<Rightarrow> (u64 list \<times> nat) res" where
  "read_f64s src pos =
     bind_res (read_u32 src pos) (\<lambda>(n, pos).
     bind_res (read_exact src pos (saturating_mul (unat n) 8)) (\<lambda>(bytes, pos).
     Inr (map u64_from_le (chunks_exact 8 bytes), pos)))"

definition read_str :: "u8 list \<Rightarrow> nat \<Rightarrow> (string \<times> nat) res" where
  "read_str src pos =
     bind_res (read_u32 src pos) (\<lambda>(n, pos).
     bind_res (read_exact src pos (unat n)) (\<lambda>(bytes, pos).
     (case from_utf8 bytes of
        Some s \<Rightarrow> Inr (s, pos)
      | None \<Rightarrow> Inl (Corrupt ''snapshot: packed string utf8'' []))))"

section \<open>The codec contract\<close>

text \<open>The loop \<open>for _ in 0..n\<close> around a reader.\<close>

fun read_n :: "(u8 list \<Rightarrow> nat \<Rightarrow> ('a \<times> nat) res) \<Rightarrow> nat \<Rightarrow> u8 list \<Rightarrow> nat \<Rightarrow> ('a list \<times> nat) res"
where
  "read_n dec 0 src pos = Inr ([], pos)"
| "read_n dec (Suc n) src pos =
     bind_res (dec src pos) (\<lambda>(x, pos).
     bind_res (read_n dec n src pos) (\<lambda>(xs, pos). Inr (x # xs, pos)))"

locale prefix_codec =
  fixes enc :: "'a \<Rightarrow> u8 list"
    and dec :: "u8 list \<Rightarrow> nat \<Rightarrow> ('a \<times> nat) res"
    and ok :: "'a \<Rightarrow> bool"
  assumes dec_enc: "ok x \<Longrightarrow> length pre + length (enc x) + length rest < usize_limit \<Longrightarrow>
      dec (pre @ enc x @ rest) (length pre) = Inr (x, length pre + length (enc x))"
begin

lemma read_n_concat:
  assumes "list_all ok xs"
    and "length pre + length (concat (map enc xs)) + length rest < usize_limit"
  shows "read_n dec (length xs) (pre @ concat (map enc xs) @ rest) (length pre) =
    Inr (xs, length pre + length (concat (map enc xs)))"
  using assms
proof (induction xs arbitrary: pre)
  case (Cons x xs)
  let ?tail = "concat (map enc xs)"
  have step: "dec (pre @ enc x @ ?tail @ rest) (length pre) =
      Inr (x, length pre + length (enc x))"
    by (rule dec_enc) (use Cons.prems in auto)
  have "read_n dec (length xs) ((pre @ enc x) @ ?tail @ rest) (length (pre @ enc x)) =
      Inr (xs, length (pre @ enc x) + length ?tail)"
    by (rule Cons.IH) (use Cons.prems in auto)
  with step show ?case by simp
qed simp

lemma dec_at_end:
  assumes "ok x" "length (enc x) < usize_limit"
  shows "dec (enc x) 0 = Inr (x, length (enc x))"
  using dec_enc [OF assms(1), of "[]" "[]"] assms(2) by simp

end

text \<open>Two codecs in a row read a pair.\<close>

locale codec_pair = a: prefix_codec enc_a dec_a ok_a + b: prefix_codec enc_b dec_b ok_b
  for enc_a :: "'a \<Rightarrow> u8 list" and dec_a ok_a
    and enc_b :: "'b \<Rightarrow> u8 list" and dec_b ok_b
begin

sublocale pair: prefix_codec
  "\<lambda>(x, y). enc_a x @ enc_b y"
  "\<lambda>src pos. bind_res (dec_a src pos) (\<lambda>(x, pos).
     bind_res (dec_b src pos) (\<lambda>(y, pos). Inr ((x, y), pos)))"
  "\<lambda>(x, y). ok_a x \<and> ok_b y"
proof (unfold_locales, goal_cases)
  case (1 xy pre rest)
  obtain x y where xy: "xy = (x, y)" by (cases xy)
  have ok: "ok_a x" "ok_b y"
    and len: "length pre + (length (enc_a x) + length (enc_b y)) + length rest < usize_limit"
    using 1 by (auto simp: xy)
  have "dec_a (pre @ enc_a x @ (enc_b y @ rest)) (length pre) =
      Inr (x, length pre + length (enc_a x))"
    by (rule a.dec_enc) (use ok len in auto)
  moreover have "dec_b ((pre @ enc_a x) @ enc_b y @ rest) (length (pre @ enc_a x)) =
      Inr (y, length (pre @ enc_a x) + length (enc_b y))"
    by (rule b.dec_enc) (use ok len in auto)
  ultimately show ?case by (simp add: xy)
qed

end

section \<open>The packers keep the contract\<close>

named_theorems pack_defs \<open>the readers and writers of snapshot images\<close>

declare push_u32_def [pack_defs] push_u64_def [pack_defs] push_len_def [pack_defs]
  push_u32s_def [pack_defs] push_str_def [pack_defs]

text \<open>Every writer only appends: its output is its argument followed by what it writes on its own.\<close>

lemma foldl_push_u32: "foldl push_u32 out v = out @ concat (map u32_to_le v)"
  by (induction v arbitrary: out) (simp_all add: push_u32_def)

lemma push_u32s_append: "push_u32s out v = out @ push_u32s [] v"
  by (simp add: pack_defs foldl_push_u32)

lemma push_str_append: "push_str out s = out @ push_str [] s"
  by (simp add: pack_defs Let_def)

lemma length_concat_u32 [simp]: "length (concat (map u32_to_le v)) = 4 * length v"
  by (induction v) simp_all

lemma length_concat_u64 [simp]: "length (concat (map u64_to_le v)) = 8 * length v"
  by (induction v) simp_all

lemma length_concat_i64 [simp]: "length (concat (map i64_to_le v)) = 8 * length v"
  by (induction v) simp_all

lemma read_exact_append:
  "length pre + length bs + length rest < usize_limit \<Longrightarrow> n = length bs \<Longrightarrow>
   read_exact (pre @ bs @ rest) (length pre) n = Inr (bs, length pre + length bs)"
  by (simp add: read_exact_def)

text \<open>
  What a successful \<open>read_exact\<close> returns, and when it fails: it never reads past the
  source, so a truncated image is an error and not a panic.
\<close>

lemma read_exact_cases:
  "read_exact src pos n = Inr (bs, pos') \<Longrightarrow>
   pos' = pos + n \<and> pos' \<le> length src \<and> length bs = n \<and> take n (drop pos src) = bs"
  by (auto simp: read_exact_def split: if_splits)

lemma read_exact_truncated:
  "length src < pos + n \<Longrightarrow> \<exists>m. read_exact src pos n = Inl (Corrupt m [])"
  by (simp add: read_exact_def)

interpretation u32_codec: prefix_codec "push_u32 []" read_u32 "\<lambda>_. True"
  by unfold_locales (simp add: read_u32_def push_u32_def read_exact_append)

interpretation u64_codec: prefix_codec "push_u64 []" read_u64 "\<lambda>_. True"
  by unfold_locales (simp add: read_u64_def push_u64_def read_exact_append)

definition fits_u32 :: "'a list \<Rightarrow> bool" where
  "fits_u32 xs \<longleftrightarrow> length xs < 2 ^ 32"

lemma unat_of_nat_u32 [simp]: "fits_u32 xs \<Longrightarrow> unat (of_nat (length xs) :: u32) = length xs"
  by (simp add: fits_u32_def unat_of_nat)

lemma saturating_mul_small: "a * b < usize_limit \<Longrightarrow> saturating_mul a b = a * b"
  by (simp add: saturating_mul_def)

lemma map_from_le_chunks [simp]:
  "map u32_from_le (chunks_exact 4 (concat (map u32_to_le v))) = v"
  by (subst chunks_exact_concat) (auto simp: comp_def)

text \<open>Every sequence is read alike: a length prefix, then a body of that many bytes.\<close>

lemma read_len_body:
  assumes "n < 2 ^ 32" "f n = length b"
    and len: "length pre + 4 + (length b + length rest) < usize_limit"
    and src: "src = pre @ push_len [] n @ b @ rest"
  shows "bind_res (read_u32 src (length pre)) (\<lambda>(m, pos). bind_res (read_exact src pos (f (unat m))) k)
    = k (b, length pre + 4 + length b)"
proof -
  have src': "src = pre @ push_u32 [] (of_nat n) @ (b @ rest)"
    by (simp add: src push_len_def)
  have "read_u32 src (length pre) = Inr (of_nat n, length pre + 4)"
    unfolding src' using u32_codec.dec_enc [where x = "of_nat n" and pre = pre and rest = "b @ rest"] len
    by (simp add: push_u32_def)
  moreover have "read_exact src (length pre + 4) (length b) = Inr (b, length pre + 4 + length b)"
    using read_exact_append [of "pre @ push_len [] n" b rest "length b"] len
    by (simp add: src push_len_def push_u32_def)
  ultimately show ?thesis
    using assms(1,2) by (simp add: unat_of_nat)
qed

interpretation u32s_codec: prefix_codec "push_u32s []" read_u32s fits_u32
proof (unfold_locales, goal_cases)
  case (1 v pre rest)
  let ?b = "concat (map u32_to_le v)"
  have "length pre + 4 + (length ?b + length rest) < usize_limit" "length v < 2 ^ 32"
    using 1 by (simp_all add: pack_defs foldl_push_u32 fits_u32_def)
  then show ?case
    using read_len_body [of "length v" "\<lambda>n. saturating_mul n 4" ?b pre rest,
        where k = "\<lambda>(bytes, pos). Inr (map u32_from_le (chunks_exact 4 bytes), pos)"]
    by (simp add: read_u32s_def push_u32s_def foldl_push_u32 saturating_mul_small push_len_def push_u32_def)
qed

definition packable_str :: "string \<Rightarrow> bool" where
  "packable_str s \<longleftrightarrow> rust_string s \<and> fits_u32 s"

interpretation str_codec: prefix_codec "push_str []" read_str packable_str
proof (unfold_locales, goal_cases)
  case (1 s pre rest)
  let ?src = "pre @ push_len [] (length s) @ as_bytes s @ rest"
  let ?k = "\<lambda>(bytes, pos). case from_utf8 bytes of Some s \<Rightarrow> Inr (s, pos)
    | None \<Rightarrow> Inl (Corrupt ''snapshot: packed string utf8'' [])"
  have "bind_res (read_u32 ?src (length pre)) (\<lambda>(m, pos). bind_res (read_exact ?src pos (unat m)) ?k) =
      ?k (as_bytes s, length pre + 4 + length (as_bytes s))"
    by (rule read_len_body [where f = "\<lambda>n. n"])
      (use 1 in \<open>simp_all add: pack_defs Let_def fits_u32_def packable_str_def\<close>)
  moreover have "from_utf8 (as_bytes s) = Some s"
    using 1 by (simp add: packable_str_def)
  ultimately show ?case
    by (simp add: read_str_def push_str_def Let_def push_len_def push_u32_def)
qed

text \<open>
  The readers of \<open>i64\<close> and \<open>f64\<close> columns have their writer inlined at the pack sites: a
  \<open>push_len\<close> and then each element's little-endian bytes.
\<close>

lemma read_i64s_roundtrip:
  assumes "fits_u32 v" "list_all in_i64 v"
    and "length pre + 4 + (8 * length v + length rest) < usize_limit"
  shows "read_i64s (pre @ push_len [] (length v) @ concat (map i64_to_le v) @ rest) (length pre) =
    Inr (v, length pre + 4 + 8 * length v)"
proof -
  have "map i64_from_le (chunks_exact 8 (concat (map i64_to_le v))) = v"
    using assms(2) by (subst chunks_exact_concat) (auto simp: list_all_iff map_idI)
  then show ?thesis
    using assms read_len_body [of "length v" "\<lambda>n. saturating_mul n 8" "concat (map i64_to_le v)"
        pre rest, where k = "\<lambda>(bytes, pos). Inr (map i64_from_le (chunks_exact 8 bytes), pos)"]
    by (simp add: read_i64s_def saturating_mul_small fits_u32_def)
qed

lemma read_f64s_roundtrip:
  assumes "fits_u32 v"
    and "length pre + 4 + (8 * length v + length rest) < usize_limit"
  shows "read_f64s (pre @ push_len [] (length v) @ concat (map u64_to_le v) @ rest) (length pre) =
    Inr (v, length pre + 4 + 8 * length v)"
proof -
  have "map u64_from_le (chunks_exact 8 (concat (map u64_to_le v))) = v"
    by (subst chunks_exact_concat) (auto simp: map_idI)
  then show ?thesis
    using assms read_len_body [of "length v" "\<lambda>n. saturating_mul n 8" "concat (map u64_to_le v)"
        pre rest, where k = "\<lambda>(bytes, pos). Inr (map u64_from_le (chunks_exact 8 bytes), pos)"]
    by (simp add: read_f64s_def saturating_mul_small fits_u32_def)
qed

end
