(* ===== verification/Interner.thy ===== *)
theory Interner
  imports Prelude
begin

text \<open>
  The symbol table of labels, field names and edge types
  (\<open>crates/core-storage/src/interner.rs\<close>): strings to dense 32-bit symbols and back, with
  the rollback a failed write uses. The locale \<open>symbol_table\<close> is the contract its clients
  rely on; it is interpreted on the interner of the code.
\<close>

section \<open>The interner\<close>

record interner =
  to_sym :: "string \<rightharpoonup> u32"
  to_str :: "string list"

definition interner_new :: interner where
  "interner_new = \<lparr>to_sym = Map.empty, to_str = []\<rparr>"

text \<open>The cast \<open>self.to_str.len() as u32\<close> wraps.\<close>

definition intern :: "interner \<Rightarrow> string \<Rightarrow> interner \<times> u32" where
  "intern i s =
     (case to_sym i s of
        Some y \<Rightarrow> (i, y)
      | None \<Rightarrow>
          (let y = of_nat (length (to_str i))
           in (i\<lparr>to_sym := (to_sym i)(s \<mapsto> y), to_str := to_str i @ [s]\<rparr>, y)))"

definition resolve_sym :: "interner \<Rightarrow> u32 \<Rightarrow> string option" where
  "resolve_sym i y =
     (if unat y < length (to_str i) then Some (to_str i ! unat y) else None)"

definition get_sym :: "interner \<Rightarrow> string \<Rightarrow> u32 option" where
  "get_sym i s = to_sym i s"

definition interner_len :: "interner \<Rightarrow> nat" where
  "interner_len i = length (to_str i)"

definition interner_is_empty :: "interner \<Rightarrow> bool" where
  "interner_is_empty i \<longleftrightarrow> to_str i = []"

definition interner_truncate :: "interner \<Rightarrow> nat \<Rightarrow> interner" where
  "interner_truncate i len =
     (if length (to_str i) \<le> len then i
      else i\<lparr>to_sym := foldl (\<lambda>m s. m(s := None)) (to_sym i) (drop len (to_str i)),
             to_str := take len (to_str i)\<rparr>)"

text \<open>A run of \<open>intern\<close> calls, as a write makes them.\<close>

definition intern_all :: "interner \<Rightarrow> string list \<Rightarrow> interner" where
  "intern_all i ss = foldl (\<lambda>i s. fst (intern i s)) i ss"

section \<open>The contract of a symbol table\<close>

locale symbol_table =
  fixes intern_op :: "'t \<Rightarrow> string \<Rightarrow> 't \<times> u32"
    and resolve_op :: "'t \<Rightarrow> u32 \<Rightarrow> string option"
    and get_op :: "'t \<Rightarrow> string \<Rightarrow> u32 option"
    and size_op :: "'t \<Rightarrow> nat"
    and invar :: "'t \<Rightarrow> bool"
  assumes get_iff_resolve: "invar t \<Longrightarrow> get_op t s = Some y \<longleftrightarrow> resolve_op t y = Some s"
    and invar_intern: "invar t \<Longrightarrow> size_op t < 2 ^ 32 \<Longrightarrow> invar (fst (intern_op t s))"
    and size_intern: "size_op (fst (intern_op t s)) \<le> Suc (size_op t)"
    and resolve_intern: "invar t \<Longrightarrow> size_op t < 2 ^ 32 \<Longrightarrow>
      resolve_op (fst (intern_op t s)) (snd (intern_op t s)) = Some s"
    and resolve_stable: "invar t \<Longrightarrow> size_op t < 2 ^ 32 \<Longrightarrow> resolve_op t y = Some r \<Longrightarrow>
      resolve_op (fst (intern_op t s)) y = Some r"
begin

lemma intern_many:
  assumes "invar t" "size_op t + length ss \<le> 2 ^ 32"
  shows "invar (foldl (\<lambda>t s. fst (intern_op t s)) t ss) \<and>
    (resolve_op t y = Some r \<longrightarrow> resolve_op (foldl (\<lambda>t s. fst (intern_op t s)) t ss) y = Some r)"
  using assms
proof (induction ss arbitrary: t)
  case (Cons s ss)
  have room: "size_op t < 2 ^ 32" using Cons.prems(2) by simp
  have "size_op (fst (intern_op t s)) + length ss \<le> 2 ^ 32"
    using Cons.prems(2) size_intern [of t s] by simp
  with Cons.IH [of "fst (intern_op t s)"] Cons.prems(1) room
  show ?case by (auto simp: invar_intern resolve_stable)
qed simp

lemma symbols_injective:
  assumes "invar t" "get_op t s = Some y" "get_op t s' = Some y"
  shows "s = s'"
  using assms by (simp add: get_iff_resolve)

end

section \<open>The interner keeps the contract\<close>

text \<open>
  The two fields are inverse to each other: the strings are pairwise distinct, and the
  map sends each to its index. The count stays within the symbol space.
\<close>

definition interner_ok :: "interner \<Rightarrow> bool" where
  "interner_ok i \<longleftrightarrow>
     distinct (to_str i) \<and> length (to_str i) \<le> 2 ^ 32 \<and>
     (\<forall>s y. to_sym i s = Some y \<longleftrightarrow> unat y < length (to_str i) \<and> to_str i ! unat y = s)"

lemma interner_ok_new: "interner_ok interner_new"
  by (simp add: interner_ok_def interner_new_def)

lemma interner_ok_dom:
  assumes "interner_ok i" shows "dom (to_sym i) = set (to_str i)"
proof -
  have *: "to_sym i s = Some y \<longleftrightarrow> unat y < length (to_str i) \<and> to_str i ! unat y = s" for s y
    using assms by (simp add: interner_ok_def)
  have "s \<in> dom (to_sym i)" if s: "s \<in> set (to_str i)" for s
  proof -
    obtain k where k: "k < length (to_str i)" "to_str i ! k = s"
      using s by (auto simp: in_set_conv_nth)
    moreover have "unat (of_nat k :: u32) = k"
      using k assms by (simp add: unat_of_nat interner_ok_def)
    ultimately have "to_sym i s = Some (of_nat k)" by (simp add: *)
    then show ?thesis by blast
  qed
  then show ?thesis using * by fastforce
qed

lemma interner_ok_intern:
  assumes ok: "interner_ok i" and room: "length (to_str i) < 2 ^ 32"
  shows "interner_ok (fst (intern i s))"
proof (cases "to_sym i s")
  case None
  let ?n = "length (to_str i)"
  have n: "unat (of_nat ?n :: u32) = ?n" using room by (simp add: unat_of_nat)
  have new: "s \<notin> set (to_str i)" using None interner_ok_dom [OF ok] by blast
  have old: "to_sym i r = Some y \<longleftrightarrow> unat y < ?n \<and> to_str i ! unat y = r" for r y
    using ok by (simp add: interner_ok_def)
  have eq: "of_nat ?n = y \<longleftrightarrow> unat y = ?n" for y :: u32
    using n by (metis unsigned_word_eqI)
  show ?thesis
    using None new ok room
    by (auto simp: interner_ok_def intern_def Let_def old eq nth_append less_Suc_eq n)
qed (use ok in \<open>simp add: intern_def\<close>)

interpretation st: symbol_table intern resolve_sym get_sym interner_len interner_ok
proof (unfold_locales, goal_cases)
  case (1 t s y)
  then show ?case by (auto simp: interner_ok_def resolve_sym_def get_sym_def)
next
  case (2 t s)
  then show ?case by (simp add: interner_ok_intern interner_len_def)
next
  case (3 t s)
  show ?case by (simp add: intern_def interner_len_def Let_def split: option.split)
next
  case (4 t s)
  then have "unat (of_nat (length (to_str t)) :: u32) = length (to_str t)"
    by (simp add: interner_len_def unat_of_nat)
  with 4 show ?case
    by (auto simp: intern_def resolve_sym_def interner_ok_def Let_def split: option.split)
next
  case (5 t y r s)
  then show ?case
    by (auto simp: intern_def resolve_sym_def Let_def nth_append split: option.split if_splits)
qed

section \<open>Rollback\<close>

lemma foldl_map_delete: "foldl (\<lambda>m s. m(s := None)) m ss = m |` (- set ss)"
  by (induction ss arbitrary: m) (auto simp: restrict_map_def fun_eq_iff)

lemma intern_extends:
  assumes "interner_ok i" "length (to_str i) < 2 ^ 32"
  shows "\<exists>ss. to_str (fst (intern i s)) = to_str i @ ss \<and>
    to_sym i \<subseteq>\<^sub>m to_sym (fst (intern i s))"
  by (cases "to_sym i s") (auto simp: intern_def Let_def map_le_def)

lemma intern_all_extends:
  assumes "interner_ok i" "length (to_str i) + length ss \<le> 2 ^ 32"
  shows "interner_ok (intern_all i ss) \<and>
    (\<exists>rs. to_str (intern_all i ss) = to_str i @ rs) \<and> to_sym i \<subseteq>\<^sub>m to_sym (intern_all i ss)"
  using assms
proof (induction ss arbitrary: i)
  case (Cons s ss)
  let ?j = "fst (intern i s)"
  have room: "length (to_str i) < 2 ^ 32" using Cons.prems(2) by simp
  have "length (to_str ?j) + length ss \<le> 2 ^ 32"
    using Cons.prems(2) st.size_intern [of i s] by (simp add: interner_len_def)
  from Cons.IH [OF interner_ok_intern [OF Cons.prems(1) room] this]
    intern_extends [OF Cons.prems(1) room, of s]
  show ?case by (auto simp: intern_all_def intro: map_le_trans)
qed (simp add: intern_all_def)

text \<open>\<open>truncate\<close> is the exact inverse of speculative interning: whatever strings a write
  interned since the length was captured, truncating back to that length restores the
  interner, both its table and its map.
\<close>

theorem truncate_undoes_interning:
  assumes ok: "interner_ok i" and room: "interner_len i + length ss \<le> 2 ^ 32"
  shows "interner_truncate (intern_all i ss) (interner_len i) = i"
proof -
  let ?j = "intern_all i ss"
  obtain rs where j: "interner_ok ?j" "to_str ?j = to_str i @ rs" "to_sym i \<subseteq>\<^sub>m to_sym ?j"
    using intern_all_extends [OF ok] room by (auto simp: interner_len_def)
  have "to_sym ?j |` (- set rs) = to_sym i"
  proof
    fix s
    have "dom (to_sym ?j) = set (to_str i) \<union> set rs" "set (to_str i) \<inter> set rs = {}"
      using j(1,2) interner_ok_dom [OF j(1)] by (auto simp: interner_ok_def)
    moreover have "to_sym i s = None" if "s \<notin> set (to_str i)"
      using that interner_ok_dom [OF ok] by blast
    moreover have "to_sym ?j s = None" if "s \<notin> set (to_str i)" "s \<notin> set rs"
      using that calculation(1) by blast
    ultimately show "(to_sym ?j |` (- set rs)) s = to_sym i s"
      using interner_ok_dom [OF ok] j(3)
      by (cases "s \<in> set (to_str i)") (auto simp: restrict_map_def map_le_def)
  qed
  then show ?thesis
    using j(2) by (cases "rs = []")
      (auto simp: interner_truncate_def interner_len_def foldl_map_delete restrict_map_def)
qed

theorem truncate_undoes_interning_witness:
  "interner_truncate (intern_all (fst (intern interner_new ''Person'')) [''Company'', ''Person''])
     1 = fst (intern interner_new ''Person'')"
proof -
  have ok: "interner_ok (fst (intern interner_new ''Person''))"
    by (rule interner_ok_intern [OF interner_ok_new]) (simp add: interner_new_def)
  have len: "interner_len (fst (intern interner_new ''Person'')) = 1"
    by (simp add: interner_len_def intern_def interner_new_def Let_def)
  show ?thesis
    using truncate_undoes_interning [OF ok, of "[''Company'', ''Person'']"] by (simp add: len)
qed

end
