(* ===== verification/Cow_Vec.thy ===== *)
theory Cow_Vec
  imports Prelude
begin

unbundle bit_operations_syntax

text \<open>
  The chunked vector \<open>CowVec\<close> of \<open>crates/core-storage/src/cow.rs\<close>: a vector kept as chunks
  of 128 elements, so that a clone shares the chunks and a write copies one. Sharing is
  not observable through the operations, so a chunk behind its \<open>Arc\<close> is a list. The locale
  \<open>growable_array\<close> states the vector by the list it stands for; it is interpreted on the
  chunked vector, and the node-key table uses it through that interface only.
\<close>

section \<open>The contract: an array is the list of its elements\<close>

locale growable_array =
  fixes get_op :: "'v \<Rightarrow> nat \<Rightarrow> 'a option"
    and set_op :: "'v \<Rightarrow> nat \<Rightarrow> 'a \<Rightarrow> 'v option"
    and push_op :: "'v \<Rightarrow> 'a \<Rightarrow> 'v"
    and len_op :: "'v \<Rightarrow> nat"
    and list_op :: "'v \<Rightarrow> 'a list"
    and invar :: "'v \<Rightarrow> bool"
  assumes get_list: "invar v \<Longrightarrow>
      get_op v i = (if i < length (list_op v) then Some (list_op v ! i) else None)"
    and set_list: "invar v \<Longrightarrow> i < length (list_op v) \<Longrightarrow>
      \<exists>w. set_op v i x = Some w \<and> invar w \<and> list_op w = (list_op v)[i := x]"
    and set_panics: "invar v \<Longrightarrow> length (list_op v) \<le> i \<Longrightarrow> set_op v i x = None"
    and push_list: "invar v \<Longrightarrow> invar (push_op v x) \<and> list_op (push_op v x) = list_op v @ [x]"
    and len_list: "invar v \<Longrightarrow> len_op v = length (list_op v)"
begin

lemma get_push:
  "invar v \<Longrightarrow> get_op (push_op v x) i = (if i = len_op v then Some x else get_op v i)"
  by (auto simp: get_list push_list len_list nth_append)

lemma get_set:
  "invar v \<Longrightarrow> set_op v i x = Some w \<Longrightarrow>
   get_op w j = (if j = i then Some x else get_op v j) \<and> len_op w = len_op v"
  using set_list [of v i x] set_panics [of v i x]
  by (cases "i < length (list_op v)") (auto simp: get_list len_list nth_list_update)

lemma push_all:
  "invar v \<Longrightarrow> invar (foldl push_op v xs) \<and> list_op (foldl push_op v xs) = list_op v @ xs"
  by (induction xs arbitrary: v) (auto simp: push_list)

end

section \<open>The chunked vector\<close>

definition CHUNK_BITS :: nat where "CHUNK_BITS = 7"
definition CHUNK :: nat where "CHUNK = push_bit CHUNK_BITS 1"
definition CHUNK_MASK :: nat where "CHUNK_MASK = CHUNK - 1"

record 'a cow_vec =
  chunks :: "'a list list"
  vlen :: nat

definition cow_vec_new :: "'a cow_vec" where
  "cow_vec_new = \<lparr>chunks = [], vlen = 0\<rparr>"

definition cow_vec_is_empty :: "'a cow_vec \<Rightarrow> bool" where
  "cow_vec_is_empty v \<longleftrightarrow> vlen v = 0"

text \<open>A slice's \<open>get\<close>: \<open>None\<close> out of range.\<close>

definition slice_get :: "'a list \<Rightarrow> nat \<Rightarrow> 'a option" where
  "slice_get xs i = (if i < length xs then Some (xs ! i) else None)"

definition cow_vec_get :: "'a cow_vec \<Rightarrow> nat \<Rightarrow> 'a option" where
  "cow_vec_get v i =
     (case slice_get (chunks v) (drop_bit CHUNK_BITS i) of
        None \<Rightarrow> None
      | Some c \<Rightarrow> slice_get c (i AND CHUNK_MASK))"

text \<open>
  \<open>get_mut\<close> hands out a place to write to; with the write that follows it, it is a function
  that stores the new element and returns the vector, or \<open>None\<close> when there is no place.
\<close>

definition cow_vec_write :: "'a cow_vec \<Rightarrow> nat \<Rightarrow> 'a \<Rightarrow> 'a cow_vec option" where
  "cow_vec_write v i x =
     (let k = drop_bit CHUNK_BITS i; j = i AND CHUNK_MASK in
      (case slice_get (chunks v) k of
         None \<Rightarrow> None
       | Some c \<Rightarrow>
           if length c \<le> j then None
           else Some (v\<lparr>chunks := (chunks v)[k := c[j := x]]\<rparr>)))"

text \<open>\<open>set\<close> and \<open>replace\<close> panic out of bounds; \<open>None\<close> is the panic.\<close>

definition cow_vec_set :: "'a cow_vec \<Rightarrow> nat \<Rightarrow> 'a \<Rightarrow> 'a cow_vec option" where
  "cow_vec_set v i x = cow_vec_write v i x"

definition cow_vec_replace :: "'a cow_vec \<Rightarrow> nat \<Rightarrow> 'a \<Rightarrow> ('a cow_vec \<times> 'a) option" where
  "cow_vec_replace v i x =
     (case cow_vec_get v i of
        None \<Rightarrow> None
      | Some old \<Rightarrow> map_option (\<lambda>w. (w, old)) (cow_vec_write v i x))"

text \<open>\<open>self.chunks.last_mut()\<close>, with the guard of the match arm.\<close>

definition has_room :: "'a list list \<Rightarrow> bool" where
  "has_room cs \<longleftrightarrow> cs \<noteq> [] \<and> length (last cs) < CHUNK"

definition cow_vec_push :: "'a cow_vec \<Rightarrow> 'a \<Rightarrow> 'a cow_vec" where
  "cow_vec_push v x =
     v\<lparr>chunks := (if has_room (chunks v) then butlast (chunks v) @ [last (chunks v) @ [x]]
                  else chunks v @ [[x]]),
       vlen := vlen v + 1\<rparr>"

function cow_vec_grow_to :: "'a cow_vec \<Rightarrow> nat \<Rightarrow> 'a \<Rightarrow> 'a cow_vec" where
  "cow_vec_grow_to v n fill =
     (if vlen v < n then
        let cs = (if has_room (chunks v) then chunks v else chunks v @ [[]]);
            room = CHUNK - length (last cs);
            add = min room (n - vlen v)
        in cow_vec_grow_to
             \<lparr>chunks = butlast cs @ [last cs @ replicate add fill], vlen = vlen v + add\<rparr> n fill
      else v)"
  by pat_completeness auto
termination
  by (relation "measure (\<lambda>(v, n, fill). n - vlen v)") (auto simp: has_room_def CHUNK_def CHUNK_BITS_def)

declare cow_vec_grow_to.simps [simp del]

definition cow_vec_iter :: "'a cow_vec \<Rightarrow> 'a list" where
  "cow_vec_iter v = concat (chunks v)"

definition cow_vec_from_vec :: "'a list \<Rightarrow> 'a cow_vec" where
  "cow_vec_from_vec v =
     (if length v \<le> CHUNK then \<lparr>chunks = (if length v = 0 then [] else [v]), vlen = length v\<rparr>
      else \<lparr>chunks = slice_chunks CHUNK v, vlen = length v\<rparr>)"

definition cow_vec_from_iter :: "'a list \<Rightarrow> 'a cow_vec" where
  "cow_vec_from_iter xs = foldl cow_vec_push cow_vec_new xs"

definition cow_vec_eq :: "'a cow_vec \<Rightarrow> 'a cow_vec \<Rightarrow> bool" where
  "cow_vec_eq v w \<longleftrightarrow> vlen v = vlen w \<and> cow_vec_iter v = cow_vec_iter w"

section \<open>The invariant\<close>

text \<open>Every chunk but the last is full, and the last is neither empty nor over-full.\<close>

fun chunks_ok :: "'a list list \<Rightarrow> bool" where
  "chunks_ok [] = True"
| "chunks_ok [c] = (0 < length c \<and> length c \<le> CHUNK)"
| "chunks_ok (c # cs) = (length c = CHUNK \<and> chunks_ok cs)"

definition cow_vec_ok :: "'a cow_vec \<Rightarrow> bool" where
  "cow_vec_ok v \<longleftrightarrow> chunks_ok (chunks v) \<and> vlen v = length (concat (chunks v))"

lemma CHUNK_pos [simp]: "0 < CHUNK" "CHUNK \<noteq> 0" "\<not> CHUNK \<le> 0"
  by (simp_all add: CHUNK_def CHUNK_BITS_def)

lemma chunk_index [simp]:
  "drop_bit CHUNK_BITS i = i div CHUNK" "i AND CHUNK_MASK = i mod CHUNK"
proof -
  show "drop_bit CHUNK_BITS i = i div CHUNK"
    by (simp add: CHUNK_def drop_bit_eq_div)
  have "CHUNK_MASK = mask CHUNK_BITS"
    by (simp add: CHUNK_MASK_def CHUNK_def mask_nat_def)
  then have "i AND CHUNK_MASK = take_bit CHUNK_BITS i"
    by (simp only: take_bit_eq_mask)
  then show "i AND CHUNK_MASK = i mod CHUNK"
    by (simp add: CHUNK_def take_bit_eq_mod)
qed

lemma chunks_ok_Cons:
  "chunks_ok (c # cs) \<longleftrightarrow>
     (if cs = [] then 0 < length c \<and> length c \<le> CHUNK else length c = CHUNK \<and> chunks_ok cs)"
  by (cases cs) auto

lemma chunks_ok_snoc:
  "chunks_ok (cs @ [c]) \<longleftrightarrow>
     (\<forall>d \<in> set cs. length d = CHUNK) \<and> 0 < length c \<and> length c \<le> CHUNK"
  by (induction cs) (auto simp: chunks_ok_Cons)

lemma chunks_ok_butlast: "chunks_ok cs \<Longrightarrow> d \<in> set (butlast cs) \<Longrightarrow> length d = CHUNK"
  by (cases cs rule: rev_cases) (auto simp: chunks_ok_snoc)

lemma chunks_ok_full: "chunks_ok cs \<Longrightarrow> \<not> has_room cs \<Longrightarrow> d \<in> set cs \<Longrightarrow> length d = CHUNK"
  by (cases cs rule: rev_cases) (auto simp: chunks_ok_snoc has_room_def)

text \<open>Shifting and masking the index finds the element of the concatenation.\<close>

lemma div_mod_ge_chunk:
  assumes "\<not> i < CHUNK"
  shows "i div CHUNK = Suc ((i - CHUNK) div CHUNK)" "i mod CHUNK = (i - CHUNK) mod CHUNK"
  using assms by (simp_all add: div_if [of i] le_div_geq le_mod_geq)

lemma chunk_lookup:
  assumes "chunks_ok cs"
  shows "(i div CHUNK < length cs \<and> i mod CHUNK < length (cs ! (i div CHUNK))) \<longleftrightarrow>
      i < length (concat cs)"
    and "i < length (concat cs) \<Longrightarrow> cs ! (i div CHUNK) ! (i mod CHUNK) = concat cs ! i"
proof -
  have "((i div CHUNK < length cs \<and> i mod CHUNK < length (cs ! (i div CHUNK))) \<longleftrightarrow>
      i < length (concat cs)) \<and>
    (i < length (concat cs) \<longrightarrow> cs ! (i div CHUNK) ! (i mod CHUNK) = concat cs ! i)"
    using assms
  proof (induction cs arbitrary: i)
    case (Cons c cs)
    show ?case
    proof (cases "i < CHUNK")
      case True
      then show ?thesis using Cons.prems
        by (auto simp: chunks_ok_Cons nth_append split: if_splits)
    next
      case False
      show ?thesis
      proof (cases "cs = []")
        case True
        then show ?thesis
          using False Cons.prems div_mod_ge_chunk(1) [OF False] by (auto simp: chunks_ok_Cons)
      next
        case cs: False
        then have c: "length c = CHUNK" "chunks_ok cs" using Cons.prems by (simp_all add: chunks_ok_Cons)
        from Cons.IH [OF c(2), of "i - CHUNK"] show ?thesis
          using False c(1) by (auto simp: div_mod_ge_chunk nth_append)
      qed
    qed
  qed simp
  then show "(i div CHUNK < length cs \<and> i mod CHUNK < length (cs ! (i div CHUNK))) \<longleftrightarrow>
      i < length (concat cs)"
    and "i < length (concat cs) \<Longrightarrow> cs ! (i div CHUNK) ! (i mod CHUNK) = concat cs ! i"
    by auto
qed

lemma chunk_update:
  assumes "chunks_ok cs" "i < length (concat cs)"
  shows "chunks_ok (cs[i div CHUNK := (cs ! (i div CHUNK))[i mod CHUNK := x]]) \<and>
    concat (cs[i div CHUNK := (cs ! (i div CHUNK))[i mod CHUNK := x]]) = (concat cs)[i := x]"
  using assms
proof (induction cs arbitrary: i)
  case (Cons c cs)
  show ?case
  proof (cases "i < CHUNK")
    case True
    then show ?thesis using Cons.prems
      by (auto simp: chunks_ok_Cons list_update_append split: if_splits)
  next
    case False
    then have c: "cs \<noteq> []" "length c = CHUNK" "chunks_ok cs" "i - CHUNK < length (concat cs)"
      using Cons.prems by (auto simp: chunks_ok_Cons split: if_splits)
    from Cons.IH [OF c(3,4)] show ?thesis
      using False c by (auto simp: div_mod_ge_chunk list_update_append chunks_ok_Cons)
  qed
qed simp

lemma chunks_push:
  assumes "chunks_ok cs"
  shows "chunks_ok (if has_room cs then butlast cs @ [last cs @ [x]] else cs @ [[x]])"
    and "concat (if has_room cs then butlast cs @ [last cs @ [x]] else cs @ [[x]]) = concat cs @ [x]"
proof -
  show "chunks_ok (if has_room cs then butlast cs @ [last cs @ [x]] else cs @ [[x]])"
  proof (cases "has_room cs")
    case True
    with assms show ?thesis by (auto simp: chunks_ok_snoc has_room_def chunks_ok_butlast)
  next
    case False
    with assms chunks_ok_full show ?thesis by (auto simp: chunks_ok_snoc Suc_leI)
  qed
  show "concat (if has_room cs then butlast cs @ [last cs @ [x]] else cs @ [[x]]) = concat cs @ [x]"
    by (cases cs rule: rev_cases) (auto simp: has_room_def)
qed

section \<open>The chunked vector keeps the contract\<close>

lemmas cow_vec_defs = cow_vec_get_def cow_vec_set_def cow_vec_write_def cow_vec_push_def
  cow_vec_iter_def cow_vec_ok_def slice_get_def Let_def

interpretation cv: growable_array
  cow_vec_get cow_vec_set cow_vec_push vlen cow_vec_iter cow_vec_ok
proof (unfold_locales, goal_cases)
  case (1 v i)
  then show ?case
    using chunk_lookup [of "chunks v" i] by (auto simp: cow_vec_defs)
next
  case (2 v i x)
  then have i: "chunks_ok (chunks v)" "i < length (concat (chunks v))"
    by (simp_all add: cow_vec_defs)
  then show ?case
    using 2 chunk_lookup(1) [OF i(1), of i] chunk_update [OF i, of x]
    by (auto simp: cow_vec_defs)
next
  case (3 v i x)
  then show ?case
    using chunk_lookup(1) [of "chunks v" i] by (auto simp: cow_vec_defs)
next
  case (4 v x)
  then show ?case
    using chunks_push [of "chunks v" x] by (auto simp: cow_vec_defs)
next
  case (5 v)
  then show ?case by (simp add: cow_vec_defs)
qed

lemma cow_vec_new_ok [simp]: "cow_vec_ok cow_vec_new" "cow_vec_iter cow_vec_new = []"
  by (simp_all add: cow_vec_new_def cow_vec_ok_def cow_vec_iter_def)

lemma slice_chunks_ok:
  assumes "0 < n" shows "concat (slice_chunks n xs) = xs"
  using assms
proof (induction n xs rule: slice_chunks.induct)
  case (1 n xs)
  then show ?case by (subst slice_chunks.simps) (cases "xs = []", auto)
qed

lemma chunks_ok_slice_chunks: "chunks_ok (slice_chunks CHUNK xs)"
proof (induction CHUNK xs rule: slice_chunks.induct)
  case (1 xs)
  show ?case
  proof (cases "length xs \<le> CHUNK")
    case True
    then have "slice_chunks CHUNK (drop CHUNK xs) = []"
      by (subst slice_chunks.simps) simp
    then show ?thesis
      using True by (subst slice_chunks.simps) (auto simp: min_absorb2)
  next
    case False
    then have "slice_chunks CHUNK (drop CHUNK xs) \<noteq> []" "xs \<noteq> []"
      by (subst slice_chunks.simps, auto)
    then show ?thesis
      using False "1" by (subst slice_chunks.simps) (auto simp: chunks_ok_Cons)
  qed
qed

lemma cow_vec_from_vec_correct:
  "cow_vec_ok (cow_vec_from_vec xs) \<and> cow_vec_iter (cow_vec_from_vec xs) = xs"
  using chunks_ok_slice_chunks [of xs] slice_chunks_ok [of CHUNK xs]
  by (auto simp: cow_vec_from_vec_def cow_vec_ok_def cow_vec_iter_def)

lemma cow_vec_from_iter_correct:
  "cow_vec_ok (cow_vec_from_iter xs) \<and> cow_vec_iter (cow_vec_from_iter xs) = xs"
  using cv.push_all [of cow_vec_new xs] by (simp add: cow_vec_from_iter_def)

lemma cow_vec_eq_iff:
  "cow_vec_ok v \<Longrightarrow> cow_vec_ok w \<Longrightarrow> cow_vec_eq v w \<longleftrightarrow> cow_vec_iter v = cow_vec_iter w"
  by (auto simp: cow_vec_eq_def cv.len_list)

text \<open>One round of the growing loop appends between one and \<open>CHUNK\<close> copies of the filler.\<close>

lemma grow_round_ok:
  assumes "chunks_ok cs" "cs' = (if has_room cs then cs else cs @ [[]])"
    "0 < add" "add \<le> CHUNK - length (last cs')"
  shows "chunks_ok (butlast cs' @ [last cs' @ replicate add x])"
    "concat (butlast cs' @ [last cs' @ replicate add x]) = concat cs @ replicate add x"
proof -
  show "chunks_ok (butlast cs' @ [last cs' @ replicate add x])"
  proof (cases "has_room cs")
    case True
    with assms show ?thesis by (auto simp: chunks_ok_snoc has_room_def chunks_ok_butlast)
  next
    case False
    with assms chunks_ok_full [OF assms(1) False] show ?thesis by (auto simp: chunks_ok_snoc)
  qed
  show "concat (butlast cs' @ [last cs' @ replicate add x]) = concat cs @ replicate add x"
    using assms(2) by (cases cs rule: rev_cases) (auto simp: has_room_def butlast_append)
qed

lemma cow_vec_grow_to_correct:
  assumes "cow_vec_ok v"
  shows "cow_vec_ok (cow_vec_grow_to v n x) \<and>
    cow_vec_iter (cow_vec_grow_to v n x) = cow_vec_iter v @ replicate (n - vlen v) x"
  using assms
proof (induction v n x rule: cow_vec_grow_to.induct)
  case (1 v n x)
  show ?case
  proof (cases "vlen v < n")
    case True
    define cs where "cs = (if has_room (chunks v) then chunks v else chunks v @ [[]])"
    define add where "add = min (CHUNK - length (last cs)) (n - vlen v)"
    let ?w = "\<lparr>chunks = butlast cs @ [last cs @ replicate add x], vlen = vlen v + add\<rparr>"
    have add: "0 < add" "add \<le> CHUNK - length (last cs)" "add \<le> n - vlen v"
      using True by (auto simp: add_def cs_def has_room_def)
    have round: "chunks_ok (chunks ?w)" "concat (chunks ?w) = concat (chunks v) @ replicate add x"
      using grow_round_ok [OF _ cs_def add(1,2), of x] 1(2) by (simp_all add: cow_vec_ok_def)
    then have w: "cow_vec_ok ?w"
      using 1(2) arg_cong [OF round(2), of length] by (simp add: cow_vec_ok_def)
    have eq: "cow_vec_grow_to v n x = cow_vec_grow_to ?w n x"
      using True by (subst cow_vec_grow_to.simps) (simp add: cs_def [symmetric] add_def [symmetric] Let_def)
    have "cow_vec_ok (cow_vec_grow_to ?w n x) \<and>
        cow_vec_iter (cow_vec_grow_to ?w n x) = cow_vec_iter ?w @ replicate (n - vlen ?w) x"
      using 1(1) [OF True cs_def refl add_def w] .
    moreover have "cow_vec_iter ?w = cow_vec_iter v @ replicate add x"
      using round(2) by (simp only: cow_vec_iter_def)
    moreover have "add + (n - (vlen v + add)) = n - vlen v" using add(3) True by simp
    then have "replicate add x @ replicate (n - vlen ?w) x = replicate (n - vlen v) x"
      by (simp add: replicate_add [symmetric])
    ultimately show ?thesis by (simp only: eq append_assoc)
  next
    case False
    then show ?thesis using 1(2) by (subst (1 2) cow_vec_grow_to.simps) simp
  qed
qed

section \<open>Properties\<close>

text \<open>The chunked vector built from any elements, one push at a time or in bulk, reads as
  that list at every index; a push appends, a write changes one place or panics out of range,
  and growing pads with the filler.\<close>

theorem cow_vec_refines_list:
  "let v = cow_vec_from_iter xs in
   cow_vec_iter v = xs \<and> vlen v = length xs \<and> cow_vec_eq v (cow_vec_from_vec xs) \<and>
   cow_vec_get v i = (if i < length xs then Some (xs ! i) else None) \<and>
   cow_vec_iter (cow_vec_push v x) = xs @ [x] \<and>
   cow_vec_iter (cow_vec_grow_to v n x) = xs @ replicate (n - length xs) x \<and>
   map_option cow_vec_iter (cow_vec_set v i x) = (if i < length xs then Some (xs[i := x]) else None)"
proof -
  define v where "v = cow_vec_from_iter xs"
  have v: "cow_vec_ok v" "cow_vec_iter v = xs" using cow_vec_from_iter_correct by (auto simp: v_def)
  have "map_option cow_vec_iter (cow_vec_set v i x) = (if i < length xs then Some (xs[i := x]) else None)"
    using cv.set_list [OF v(1), of i x] cv.set_panics [OF v(1), of i x] v(2) by auto
  then show ?thesis
    using v cv.len_list [OF v(1)] cv.get_list [OF v(1), of i] cv.push_list [OF v(1), of x]
      cow_vec_grow_to_correct [OF v(1), of n x] cow_vec_from_vec_correct [of xs]
      cow_vec_eq_iff [OF v(1), of "cow_vec_from_vec xs"]
    by (simp add: v_def [symmetric] Let_def)
qed

end
