(* ===== verification/Cow_Map.thy ===== *)
theory Cow_Map
  imports Prelude
begin

text \<open>
  The persistent ordered map \<open>CowMap\<close> of \<open>crates/core-storage/src/cow.rs\<close>: a B+tree whose
  nodes hold at most 32 entries, split when full and are dropped when empty. A node behind
  its \<open>Arc\<close> is a value: \<open>make_mut\<close> copies what it is about to change, so a clone is not
  affected by later writes, which is what passing values says. An index out of range and
  an exceeded path array panic; \<open>None\<close> of the outermost option is that panic.

  The tree is specified by the sorted list of its entries. The locale \<open>ordered_map\<close> states
  the operations over that list; it is interpreted on the tree.
\<close>

section \<open>The tree\<close>

definition NODE_MAX :: nat where "NODE_MAX = 32"
definition MAX_DEPTH :: nat where "MAX_DEPTH = 32"

datatype ('k, 'v) node =
    Leaf "'k list" "'v list"
  | Internal "'k list" "('k, 'v) node list"

record ('k, 'v) cow_map =
  root :: "('k, 'v) node option"
  mlen :: nat

fun node_is_empty :: "('k, 'v) node \<Rightarrow> bool" where
  "node_is_empty (Leaf ks vs) = (ks = [])"
| "node_is_empty (Internal bs ns) = (ns = [])"

text \<open>\<open>first_key\<close> indexes position 0; on an empty node that is a panic.\<close>

fun first_key :: "('k, 'v) node \<Rightarrow> 'k option" where
  "first_key (Leaf ks vs) = (case ks of [] \<Rightarrow> None | k # _ \<Rightarrow> Some k)"
| "first_key (Internal bs ns) = (case bs of [] \<Rightarrow> None | b # _ \<Rightarrow> Some b)"

text \<open>The child that \<open>k\<close> belongs in: \<open>partition_point\<close> and then \<open>saturating_sub(1)\<close>.\<close>

definition route :: "'k::linorder list \<Rightarrow> 'k \<Rightarrow> nat" where
  "route bs k = partition_point (\<lambda>b. b \<le> k) bs - 1"

lemma size_nth_less [termination_simp]:
  "i < length ns \<Longrightarrow> size (ns ! i) < Suc (m + size_list size ns)"
proof -
  assume "i < length ns"
  then have "size (ns ! i) \<le> size_list size ns" by (intro size_list_estimation' [OF nth_mem]) auto
  then show ?thesis by simp
qed

section \<open>Lookup\<close>

text \<open>
  \<open>get\<close> walks down the tree. The outer option is the panic of \<open>kids[i]\<close> out of range, the
  inner one the answer.
\<close>

fun node_get :: "('k::linorder, 'v) node \<Rightarrow> 'k \<Rightarrow> 'v option option" where
  "node_get (Leaf ks vs) k =
     (case binary_search k ks of
        Inl _ \<Rightarrow> Some None
      | Inr i \<Rightarrow> if i < length vs then Some (Some (vs ! i)) else None)"
| "node_get (Internal bs ns) k =
     (let i = route bs k in if i < length ns then node_get (ns ! i) k else None)"

definition cow_map_get :: "('k::linorder, 'v) cow_map \<Rightarrow> 'k \<Rightarrow> 'v option option" where
  "cow_map_get m k = (case root m of None \<Rightarrow> Some None | Some n \<Rightarrow> node_get n k)"

definition cow_map_contains_key :: "('k::linorder, 'v) cow_map \<Rightarrow> 'k \<Rightarrow> bool option" where
  "cow_map_contains_key m k = map_option (\<lambda>v. v \<noteq> None) (cow_map_get m k)"

text \<open>
  \<open>find\<close>: the child indices down to the leaf that holds the key and its position there.
  The path is an array of \<open>MAX_DEPTH\<close> entries; writing past it panics.
\<close>

fun node_find :: "('k::linorder, 'v) node \<Rightarrow> 'k \<Rightarrow> nat \<Rightarrow> (nat list \<times> nat) option option" where
  "node_find (Leaf ks vs) k depth =
     (case binary_search k ks of Inl _ \<Rightarrow> Some None | Inr i \<Rightarrow> Some (Some ([], i)))"
| "node_find (Internal bs ns) k depth =
     (let i = route bs k in
      if i < length ns \<and> depth < MAX_DEPTH then
        map_option (map_option (\<lambda>(p, a). (i # p, a))) (node_find (ns ! i) k (Suc depth))
      else None)"

definition cow_map_find :: "('k::linorder, 'v) cow_map \<Rightarrow> 'k \<Rightarrow> (nat list \<times> nat) option option" where
  "cow_map_find m k = (case root m of None \<Rightarrow> Some None | Some n \<Rightarrow> node_find n k 0)"

text \<open>The place \<open>get_mut\<close> hands out, with the value written to it.\<close>

fun node_write_at :: "('k, 'v) node \<Rightarrow> nat list \<Rightarrow> nat \<Rightarrow> 'v \<Rightarrow> ('k, 'v) node option" where
  "node_write_at (Leaf ks vs) [] a v =
     (if a < length vs then Some (Leaf ks (vs[a := v])) else None)"
| "node_write_at (Internal bs ns) (i # p) a v =
     (if i < length ns
      then map_option (\<lambda>n. Internal bs (ns[i := n])) (node_write_at (ns ! i) p a v)
      else None)"
| "node_write_at _ _ _ _ = None"

definition cow_map_write ::
  "('k::linorder, 'v) cow_map \<Rightarrow> 'k \<Rightarrow> 'v \<Rightarrow> ('k, 'v) cow_map option option" where
  "cow_map_write m k v =
     (case cow_map_find m k of
        None \<Rightarrow> None
      | Some None \<Rightarrow> Some None
      | Some (Some (p, a)) \<Rightarrow>
          (case root m of
             None \<Rightarrow> Some None
           | Some n \<Rightarrow> map_option (\<lambda>n. Some (m\<lparr>root := Some n\<rparr>)) (node_write_at n p a v)))"

section \<open>Insertion\<close>

text \<open>
  \<open>insert_into\<close> returns the node as it is after the insert, the value it replaced, and the
  node that split off its right with that node's lower bound.
\<close>

type_synonym ('k, 'v) ins_result =
  "('k, 'v) node \<times> 'v option \<times> ('k \<times> ('k, 'v) node) option"

fun insert_into :: "('k::linorder, 'v) node \<Rightarrow> 'k \<Rightarrow> 'v \<Rightarrow> ('k, 'v) ins_result option" where
  "insert_into (Leaf ks vs) k v =
     (case binary_search k ks of
        Inr i \<Rightarrow> if i < length vs then Some (Leaf ks (vs[i := v]), Some (vs ! i), None) else None
      | Inl i \<Rightarrow>
          (let ks = insert_at i k ks; vs = insert_at i v vs in
           if length ks \<le> NODE_MAX then Some (Leaf ks vs, None, None)
           else let half = length ks div 2;
                    rk = drop half ks; rv = drop half vs
                in Some (Leaf (take half ks) (take half vs), None, Some (hd rk, Leaf rk rv))))"
| "insert_into (Internal bs ns) k v =
     (let i = route bs k in
      if i < length ns then
        (case insert_into (ns ! i) k v of
           None \<Rightarrow> None
         | Some (n, old, split) \<Rightarrow>
             (let ns = ns[i := n];
                  (bs, ns) = (case split of
                      None \<Rightarrow> (bs, ns)
                    | Some (b, right) \<Rightarrow> (insert_at (i + 1) b bs, insert_at (i + 1) right ns))
              in if length ns \<le> NODE_MAX then Some (Internal bs ns, old, None)
                 else let half = length ns div 2;
                          rb = drop half bs; rn = drop half ns
                      in Some (Internal (take half bs) (take half ns), old,
                               Some (hd rb, Internal rb rn))))
      else None)"

definition cow_map_insert ::
  "('k::linorder, 'v) cow_map \<Rightarrow> 'k \<Rightarrow> 'v \<Rightarrow> (('k, 'v) cow_map \<times> 'v option) option" where
  "cow_map_insert m k v =
     (case root m of
        None \<Rightarrow> Some (\<lparr>root = Some (Leaf [k] [v]), mlen = 1\<rparr>, None)
      | Some n \<Rightarrow>
          (case insert_into n k v of
             None \<Rightarrow> None
           | Some (n, old, split) \<Rightarrow>
               (let len = (if old = None then mlen m + 1 else mlen m) in
                case split of
                  None \<Rightarrow> Some (\<lparr>root = Some n, mlen = len\<rparr>, old)
                | Some (b, right) \<Rightarrow>
                    map_option
                      (\<lambda>first. (\<lparr>root = Some (Internal [first, b] [n, right]), mlen = len\<rparr>, old))
                      (first_key n))))"

definition cow_map_new :: "('k, 'v) cow_map" where
  "cow_map_new = \<lparr>root = None, mlen = 0\<rparr>"

text \<open>
  \<open>get_or_insert_with\<close> hands out the place of \<open>k\<close>; the model returns the map and the value
  that is there.
\<close>

fun node_read_at :: "('k, 'v) node \<Rightarrow> nat list \<Rightarrow> nat \<Rightarrow> 'v option" where
  "node_read_at (Leaf ks vs) [] a = (if a < length vs then Some (vs ! a) else None)"
| "node_read_at (Internal bs ns) (i # p) a =
     (if i < length ns then node_read_at (ns ! i) p a else None)"
| "node_read_at _ _ _ = None"

definition cow_map_get_mut :: "('k::linorder, 'v) cow_map \<Rightarrow> 'k \<Rightarrow> 'v option option" where
  "cow_map_get_mut m k =
     (case cow_map_find m k of
        None \<Rightarrow> None
      | Some None \<Rightarrow> Some None
      | Some (Some (p, a)) \<Rightarrow>
          (case root m of
             None \<Rightarrow> Some None
           | Some n \<Rightarrow> map_option Some (node_read_at n p a)))"

definition cow_map_get_or_insert_with ::
  "('k::linorder, 'v) cow_map \<Rightarrow> 'k \<Rightarrow> 'v \<Rightarrow> (('k, 'v) cow_map \<times> 'v) option" where
  "cow_map_get_or_insert_with m k d =
     (case cow_map_contains_key m k of
        None \<Rightarrow> None
      | Some present \<Rightarrow>
          (case (if present then Some m else map_option fst (cow_map_insert m k d)) of
             None \<Rightarrow> None
           | Some m \<Rightarrow>
               (case cow_map_get_mut m k of Some (Some v) \<Rightarrow> Some (m, v) | _ \<Rightarrow> None)))"

section \<open>Removal\<close>

fun remove_at :: "('k, 'v) node \<Rightarrow> nat list \<Rightarrow> nat \<Rightarrow> (('k, 'v) node \<times> 'v) option" where
  "remove_at (Leaf ks vs) p a =
     (if a < length ks \<and> a < length vs
      then Some (Leaf (remove_at_index a ks) (remove_at_index a vs), vs ! a) else None)"
| "remove_at (Internal bs ns) [] a = None"
| "remove_at (Internal bs ns) (i # p) a =
     (if i < length ns then
        (case remove_at (ns ! i) p a of
           None \<Rightarrow> None
         | Some (n, old) \<Rightarrow>
             if node_is_empty n
             then Some (Internal (remove_at_index i bs) (remove_at_index i ns), old)
             else Some (Internal bs (ns[i := n]), old))
      else None)"

text \<open>The loop after a removal: an emptied root goes, a root with one child hands over to it.\<close>

fun collapse_root :: "('k, 'v) node \<Rightarrow> ('k, 'v) node option" where
  "collapse_root (Leaf ks vs) = (if ks = [] then None else Some (Leaf ks vs))"
| "collapse_root (Internal bs []) = None"
| "collapse_root (Internal bs [n]) = collapse_root n"
| "collapse_root (Internal bs ns) = Some (Internal bs ns)"

definition cow_map_remove ::
  "('k::linorder, 'v) cow_map \<Rightarrow> 'k \<Rightarrow> (('k, 'v) cow_map \<times> 'v option) option" where
  "cow_map_remove m k =
     (case cow_map_find m k of
        None \<Rightarrow> None
      | Some None \<Rightarrow> Some (m, None)
      | Some (Some (p, a)) \<Rightarrow>
          (case root m of
             None \<Rightarrow> Some (m, None)
           | Some n \<Rightarrow>
               map_option (\<lambda>(n, old). (\<lparr>root = collapse_root n, mlen = mlen m - 1\<rparr>, Some old))
                 (remove_at n p a)))"

section \<open>The invariant\<close>

text \<open>
  The structural check of the code's test helper \<open>check\<close>: every node non-empty and at most
  \<open>NODE_MAX\<close> wide, keys ascending within a leaf and within the bounds of the children above
  it. The bound of child 0 does not occur: only the bounds of the later children do.
\<close>

definition within :: "'k::linorder option \<Rightarrow> 'k option \<Rightarrow> 'k \<Rightarrow> bool" where
  "within lo hi k \<longleftrightarrow>
     (case lo of None \<Rightarrow> True | Some l \<Rightarrow> l \<le> k) \<and> (case hi of None \<Rightarrow> True | Some h \<Rightarrow> k < h)"

fun node_ok :: "'k::linorder option \<Rightarrow> 'k option \<Rightarrow> ('k, 'v) node \<Rightarrow> bool"
  and kids_ok :: "'k option \<Rightarrow> 'k option \<Rightarrow> 'k list \<Rightarrow> ('k, 'v) node list \<Rightarrow> bool"
where
  "node_ok lo hi (Leaf ks vs) \<longleftrightarrow>
     ks \<noteq> [] \<and> length ks \<le> NODE_MAX \<and> length ks = length vs \<and> ssorted ks \<and>
     list_all (within lo hi) ks"
| "node_ok lo hi (Internal bs ns) \<longleftrightarrow>
     bs \<noteq> [] \<and> length bs = length ns \<and> length ns \<le> NODE_MAX \<and> kids_ok lo hi (tl bs) ns"
| "kids_ok lo hi [] [n] = node_ok lo hi n"
| "kids_ok lo hi (b # bs) (n # ns) \<longleftrightarrow> node_ok lo (Some b) n \<and> kids_ok (Some b) hi bs ns"
| "kids_ok lo hi _ _ = False"

fun entries :: "('k, 'v) node \<Rightarrow> ('k \<times> 'v) list" where
  "entries (Leaf ks vs) = zip ks vs"
| "entries (Internal bs ns) = concat (map entries ns)"

definition cow_map_entries :: "('k, 'v) cow_map \<Rightarrow> ('k \<times> 'v) list" where
  "cow_map_entries m = (case root m of None \<Rightarrow> [] | Some n \<Rightarrow> entries n)"

definition cow_map_ok :: "('k::linorder, 'v) cow_map \<Rightarrow> bool" where
  "cow_map_ok m \<longleftrightarrow>
     (case root m of None \<Rightarrow> True | Some n \<Rightarrow> node_ok None None n) \<and>
     mlen m = length (cow_map_entries m)"

fun height :: "('k, 'v) node \<Rightarrow> nat" where
  "height (Leaf ks vs) = 0"
| "height (Internal bs ns) = Suc (Max (insert 0 (set (map height ns))))"

definition cow_map_height :: "('k, 'v) cow_map \<Rightarrow> nat" where
  "cow_map_height m = (case root m of None \<Rightarrow> 0 | Some n \<Rightarrow> height n)"

section \<open>Entries and bounds\<close>

lemma length_kids: "kids_ok lo hi bs ns \<Longrightarrow> length ns = Suc (length bs)"
  by (induction bs arbitrary: lo ns; case_tac ns) (auto elim: kids_ok.elims)

lemma kids_ok_simps [simp]:
  "kids_ok lo hi [] ns \<longleftrightarrow> (\<exists>n. ns = [n] \<and> node_ok lo hi n)"
  "kids_ok lo hi (b # bs) ns \<longleftrightarrow>
     (\<exists>n ns'. ns = n # ns' \<and> node_ok lo (Some b) n \<and> kids_ok (Some b) hi bs ns')"
   apply (cases ns; cases "tl ns"; auto)
  apply (cases ns; auto)
  done

lemma entries_ok:
  fixes n :: "('k::linorder, 'v) node" and ns :: "('k, 'v) node list"
  shows "node_ok lo hi n \<Longrightarrow>
     entries n \<noteq> [] \<and> ssorted (keys (entries n)) \<and> (\<forall>k \<in> set (keys (entries n)). within lo hi k)"
  "kids_ok lo hi bs ns \<Longrightarrow>
     (let es = concat (map entries ns) in
      es \<noteq> [] \<and> ssorted (keys es) \<and> (\<forall>k \<in> set (keys es). within lo hi k))"
proof (induction lo hi n and lo hi bs ns rule: node_ok_kids_ok.induct)
  case (1 lo hi ks vs)
  then show ?case by (auto simp: list_all_iff dest: set_zip_leftD)
next
  case (2 lo hi bs ns)
  then show ?case by (simp add: Let_def)
next
  case (4 lo hi b bs n ns)
  let ?es = "concat (map entries ns)"
  have prems: "node_ok lo (Some b) n" "kids_ok (Some b) hi bs ns" using "4.prems" by auto
  have n: "entries n \<noteq> []" "ssorted (keys (entries n))"
      "\<And>k. k \<in> set (keys (entries n)) \<Longrightarrow> within lo (Some b) k"
    using "4.IH"(1) [OF prems(1)] by blast+
  have r: "?es \<noteq> []" "ssorted (keys ?es)" "\<And>k. k \<in> set (keys ?es) \<Longrightarrow> within (Some b) hi k"
    using "4.IH"(2) [OF prems(2)] unfolding Let_def by blast+
  obtain k' where k': "k' \<in> set (keys ?es)" using r(1) by (cases ?es) auto
  then have "b \<le> k'" "within None hi k'" using r(3) [OF k'] by (simp_all add: within_def)
  then have lt: "within None hi k" if "k < b" for k
    using that by (auto simp: within_def split: option.splits)
  obtain k0 where k0: "k0 \<in> set (keys (entries n))" using n(1) by (cases "entries n") auto
  then have "within lo None b" using n(3) [OF k0] by (auto simp: within_def split: option.splits)
  then have ge: "within lo None k" if "b \<le> k" for k
    using that by (auto simp: within_def split: option.splits)
  have "k < l" if "k \<in> set (keys (entries n))" "l \<in> set (keys ?es)" for k l
    using n(3) [OF that(1)] r(3) [OF that(2)] by (auto simp: within_def)
  then have "ssorted (keys (entries n) @ keys ?es)"
    using n(2) r(2) by (auto simp: sorted_wrt_append simp del: set_map)
  moreover have "within lo hi k" if "k \<in> set (keys (entries n)) \<union> set (keys ?es)" for k
    using that n(3) [of k] r(3) [of k] lt [of k] ge [of k]
    by (auto simp: within_def simp del: set_map split: option.splits)
  ultimately show ?case using n(1) by (simp add: Let_def del: set_map)
qed simp_all

lemma kids_bounds:
  "kids_ok lo hi bs ns \<Longrightarrow> ssorted bs \<and> (\<forall>b \<in> set bs. \<forall>l. lo = Some l \<longrightarrow> l < b)"
proof (induction bs arbitrary: lo ns)
  case (Cons b bs)
  then obtain n ns' where "ns = n # ns'" and n: "node_ok lo (Some b) n" "kids_ok (Some b) hi bs ns'"
    by auto
  obtain k where k: "k \<in> set (keys (entries n))"
    using entries_ok(1) [OF n(1)] by (cases "entries n") auto
  then have "within lo (Some b) k" using entries_ok(1) [OF n(1)] by blast
  then have "\<forall>l. lo = Some l \<longrightarrow> l < b" by (auto simp: within_def)
  with Cons.IH [OF n(2)] show ?case by (auto intro: less_trans)
qed simp

lemma route_leading:
  assumes "node_ok lo hi (Internal bs ns)"
  shows "route bs k = leading (\<lambda>b. b \<le> k) (tl bs)" "route bs k < length ns"
proof -
  have bs: "bs \<noteq> []" "kids_ok lo hi (tl bs) ns" "length bs = length ns" using assms by simp_all
  have "tail_partitioned (\<lambda>b. b \<le> k) bs"
    unfolding tail_partitioned_def
  proof (intro allI impI)
    fix i j assume ij: "0 < i" "i < j" "j < length bs" "bs ! j \<le> k"
    have "tl bs ! (i - 1) < tl bs ! (j - 1)"
      using kids_bounds [OF bs(2)] ij by (auto simp: sorted_wrt_iff_nth_less)
    then have "bs ! i < bs ! j" using bs(1) ij by (simp add: nth_tl)
    with ij(4) show "bs ! i \<le> k" by simp
  qed
  then show "route bs k = leading (\<lambda>b. b \<le> k) (tl bs)"
    using partition_point_tail [OF bs(1)] by (simp add: route_def)
  also have "\<dots> \<le> length (tl bs)" by (rule leading_le)
  finally show "route bs k < length ns" using length_kids [OF bs(2)] by simp
qed

text \<open>What lies left of the routed child is below the key, what lies right of it above.\<close>

lemma kids_split:
  assumes "kids_ok lo hi bs ns" "i = leading (\<lambda>b. b \<le> k) bs"
  shows "(\<forall>l \<in> set (keys (concat (map entries (take i ns)))). l < k) \<and>
    (\<forall>l \<in> set (keys (concat (map entries (drop (Suc i) ns)))). k < l)"
  using assms
proof (induction bs arbitrary: lo ns i)
  case (Cons b bs)
  then obtain n ns' where n: "ns = n # ns'" "node_ok lo (Some b) n" "kids_ok (Some b) hi bs ns'"
    by auto
  show ?case
  proof (cases "b \<le> k")
    case True
    with Cons.prems(2) have i: "i = Suc (leading (\<lambda>b. b \<le> k) bs)" by simp
    have "l < k" if "l \<in> set (keys (entries n))" for l
    proof -
      have "within lo (Some b) l" using entries_ok(1) [OF n(2)] that by blast
      with True show ?thesis by (auto simp: within_def)
    qed
    with Cons.IH [OF n(3) refl] show ?thesis by (auto simp: n(1) i)
  next
    case False
    then have "i = 0" using Cons.prems(2) by simp
    moreover have "k < l" if "l \<in> set (keys (concat (map entries ns')))" for l
    proof -
      have "within (Some b) hi l" using entries_ok(2) [OF n(3)] that unfolding Let_def by blast
      with False show ?thesis by (auto simp: within_def)
    qed
    ultimately show ?thesis by (auto simp: n(1))
  qed
qed auto

lemma entries_split:
  assumes "i < length ns"
  shows "concat (map entries ns) =
    concat (map entries (take i ns)) @ entries (ns ! i) @ concat (map entries (drop (Suc i) ns))"
proof -
  have "ns = take i ns @ ns ! i # drop (Suc i) ns" using assms by (rule id_take_nth_drop)
  then have "concat (map entries ns) = concat (map entries (take i ns @ ns ! i # drop (Suc i) ns))"
    by (rule arg_cong)
  then show ?thesis by simp
qed

text \<open>
  The routed child fills a hole of the children: its own bounds admit the key, and any
  list of children that fits those bounds can stand in its place.
\<close>

lemma kids_hole:
  assumes "kids_ok lo hi bs ns" "i = leading (\<lambda>b. b \<le> k) bs"
  obtains lo' hi' where
    "node_ok lo' hi' (ns ! i)" "within lo hi k \<Longrightarrow> within lo' hi' k"
    "\<And>bs' ns'. kids_ok lo' hi' bs' ns' \<Longrightarrow>
       kids_ok lo hi (take i bs @ bs' @ drop i bs) (take i ns @ ns' @ drop (Suc i) ns)"
proof -
  have "\<exists>lo' hi'. node_ok lo' hi' (ns ! i) \<and> (within lo hi k \<longrightarrow> within lo' hi' k) \<and>
    (\<forall>bs' ns'. kids_ok lo' hi' bs' ns' \<longrightarrow>
       kids_ok lo hi (take i bs @ bs' @ drop i bs) (take i ns @ ns' @ drop (Suc i) ns))"
    using assms
  proof (induction bs arbitrary: lo ns i)
    case Nil
    then obtain n where "ns = [n]" "node_ok lo hi n" "i = 0" by auto
    then show ?case by (intro exI [of _ lo] exI [of _ hi]) simp
  next
    case (Cons b bs)
    then obtain n ns' where n: "ns = n # ns'" "node_ok lo (Some b) n" "kids_ok (Some b) hi bs ns'"
      by auto
    show ?case
    proof (cases "b \<le> k")
      case True
      with Cons.prems(2) have i: "i = Suc (leading (\<lambda>b. b \<le> k) bs)" by simp
      from Cons.IH [OF n(3) refl] obtain lo' hi' where h:
        "node_ok lo' hi' (ns' ! leading (\<lambda>b. b \<le> k) bs)"
        "within (Some b) hi k \<longrightarrow> within lo' hi' k"
        "\<And>cs ms. kids_ok lo' hi' cs ms \<Longrightarrow> kids_ok (Some b) hi
           (take (leading (\<lambda>b. b \<le> k) bs) bs @ cs @ drop (leading (\<lambda>b. b \<le> k) bs) bs)
           (take (leading (\<lambda>b. b \<le> k) bs) ns' @ ms @ drop (Suc (leading (\<lambda>b. b \<le> k) bs)) ns')"
        by auto
      have "within lo hi k \<longrightarrow> within lo' hi' k" using h(2) True by (simp add: within_def split: option.splits)
      with h(1,3) n(2) show ?thesis by (intro exI [of _ lo'] exI [of _ hi']) (auto simp: n(1) i)
    next
      case False
      then have i: "i = 0" using Cons.prems(2) by simp
      have "kids_ok lo hi (bs' @ b # bs) (ms @ ns')" if "kids_ok lo (Some b) bs' ms" for bs' ms
        using that
      proof (induction bs' arbitrary: lo ms)
        case Nil
        then show ?case using n(3) by auto
      next
        case (Cons c cs)
        then show ?case by fastforce
      qed
      with n(2) False show ?thesis
        by (intro exI [of _ lo] exI [of _ "Some b"]) (auto simp: n(1) i within_def split: option.splits)
    qed
  qed
  with that show ?thesis by blast
qed

lemma kids_append:
  "kids_ok lo (Some b) bs1 ns1 \<Longrightarrow> kids_ok (Some b) hi bs2 ns2 \<Longrightarrow>
   kids_ok lo hi (bs1 @ b # bs2) (ns1 @ ns2)"
  by (induction bs1 arbitrary: lo ns1) auto

lemma kids_split_off:
  assumes "kids_ok lo hi (bs1 @ b # bs2) ns" "h = Suc (length bs1)"
  shows "kids_ok lo (Some b) bs1 (take h ns)" "kids_ok (Some b) hi bs2 (drop h ns)"
proof -
  have "kids_ok lo (Some b) bs1 (take h ns) \<and> kids_ok (Some b) hi bs2 (drop h ns)"
    using assms by (induction bs1 arbitrary: lo ns h) fastforce+
  then show "kids_ok lo (Some b) bs1 (take h ns)" "kids_ok (Some b) hi bs2 (drop h ns)" by auto
qed

section \<open>Lookup finds the entry\<close>

lemma map_of_zip_search:
  assumes "ssorted ks" "length ks = length vs"
  shows "binary_search k ks = Inr i \<Longrightarrow> map_of (zip ks vs) k = Some (vs ! i)"
    "binary_search k ks = Inl j \<Longrightarrow> map_of (zip ks vs) k = None"
proof -
  assume "binary_search k ks = Inr i"
  then have "i < length vs" "ks ! i = k" using binary_search_Inr_D [of k ks i] assms by auto
  then show "map_of (zip ks vs) k = Some (vs ! i)"
    using map_of_zip_nth [OF assms(2) ssorted_distinct [OF assms(1)]] by metis
next
  assume "binary_search k ks = Inl j"
  then show "map_of (zip ks vs) k = None"
    using binary_search_Inl_D(1) [OF assms(1)] assms(2) by (simp add: map_of_zip_is_None)
qed

lemma map_of_middle:
  assumes "\<And>l. l \<in> set (keys xs) \<Longrightarrow> l < k" "\<And>l. l \<in> set (keys zs) \<Longrightarrow> k < (l :: 'k::linorder)"
  shows "map_of (xs @ ys @ zs) k = map_of ys k"
proof -
  have "map_of xs k = None" "map_of zs k = None"
    using assms by (force simp: map_of_eq_None_iff)+
  then show ?thesis by (simp add: map_add_def split: option.split)
qed

text \<open>What an operation does to the entries of a node it does to those of the routed child.\<close>

lemma routed_entries:
  assumes "kids_ok lo hi bs ns" "i = leading (\<lambda>b. b \<le> k) bs" "i < length ns"
  defines "A \<equiv> concat (map entries (take i ns))" and "B \<equiv> concat (map entries (drop (Suc i) ns))"
  shows "map_of (concat (map entries ns)) k = map_of (entries (ns ! i)) k"
    "alist_ins k v (concat (map entries ns)) = A @ alist_ins k v (entries (ns ! i)) @ B"
    "alist_del k (concat (map entries ns)) = A @ alist_del k (entries (ns ! i)) @ B"
proof -
  have A: "\<And>l. l \<in> set (keys A) \<Longrightarrow> l < k" and B: "\<And>l. l \<in> set (keys B) \<Longrightarrow> k < l"
    using kids_split [OF assms(1,2)] unfolding A_def B_def by blast+
  have es: "concat (map entries ns) = A @ entries (ns ! i) @ B"
    unfolding A_def B_def by (rule entries_split [OF assms(3)])
  show "map_of (concat (map entries ns)) k = map_of (entries (ns ! i)) k"
    unfolding es by (rule map_of_middle [OF A B])
  show "alist_ins k v (concat (map entries ns)) = A @ alist_ins k v (entries (ns ! i)) @ B"
    unfolding es by (simp add: alist_ins_append1 [OF A] alist_ins_append2 [OF B] del: set_map)
  have "k \<notin> set (keys A)" "k \<notin> set (keys B)" using A B by blast+
  then show "alist_del k (concat (map entries ns)) = A @ alist_del k (entries (ns ! i)) @ B"
    unfolding es by (simp add: alist_del_append alist_del_absent)
qed

lemma node_get_correct:
  "node_ok lo hi n \<Longrightarrow> node_get n k = Some (map_of (entries n) k)"
proof (induction n k arbitrary: lo hi rule: node_get.induct)
  case (1 ks vs k)
  then have "ssorted ks" "length ks = length vs" by simp_all
  note search = map_of_zip_search [OF this, of k]
  show ?case
  proof (cases "binary_search k ks")
    case (Inl j)
    then show ?thesis using search(2) by simp
  next
    case (Inr i)
    then show ?thesis
      using search(1) binary_search_Inr_D [OF Inr] \<open>length ks = length vs\<close> by simp
  qed
next
  case (2 bs ns k)
  define i where "i = route bs k"
  note r = route_leading [OF "2.prems", of k]
  have kids: "kids_ok lo hi (tl bs) ns" using "2.prems" by simp
  have il: "i = leading (\<lambda>b. b \<le> k) (tl bs)" using r(1) by (simp add: i_def)
  obtain lo' hi' where "node_ok lo' hi' (ns ! i)" using kids_hole [OF kids il] by metis
  then have "node_get (ns ! i) k = Some (map_of (entries (ns ! i)) k)"
    using "2.IH" [OF i_def] r(2) by (simp add: i_def)
  moreover have "map_of (concat (map entries ns)) k = map_of (entries (ns ! i)) k"
    using routed_entries(1) [OF kids il] r(2) by (simp add: i_def)
  ultimately show ?case using r(2) by (simp add: i_def [symmetric] Let_def)
qed

section \<open>Insertion inserts the entry\<close>

lemma zip_insert_at:
  assumes "ssorted ks" "length ks = length vs" "binary_search k ks = Inl i"
  shows "zip (insert_at i k ks) (insert_at i v vs) = alist_ins k v (zip ks vs)"
proof -
  note D = binary_search_Inl_D [OF assms(1,3)]
  have "zip ks vs = zip (take i ks) (take i vs) @ zip (drop i ks) (drop i vs)"
    using assms(2) by (simp add: zip_append1 take_zip [symmetric] drop_zip [symmetric])
  moreover have "keys (zip (take i ks) (take i vs)) = take i ks"
    "keys (zip (drop i ks) (drop i vs)) = drop i ks"
    using assms(2) by simp_all
  ultimately have "alist_ins k v (zip ks vs) =
      zip (take i ks) (take i vs) @ alist_ins k v (zip (drop i ks) (drop i vs))"
    using D(3) by (metis alist_ins_append1)
  moreover have "alist_ins k v (zip (drop i ks) (drop i vs)) = (k, v) # zip (drop i ks) (drop i vs)"
    using alist_ins_append2 [of "zip (drop i ks) (drop i vs)" k v "[]"] D(4) assms(2) by simp
  ultimately show ?thesis using assms(2) by (simp add: insert_at_def)
qed

lemma zip_update:
  assumes "ssorted ks" "length ks = length vs" "binary_search k ks = Inr i"
  shows "zip ks (vs[i := v]) = alist_ins k v (zip ks vs)"
  using assms
proof (induction ks arbitrary: vs i)
  case (Cons l ks)
  obtain w ws where vs: "vs = w # ws" using Cons.prems(2) by (cases vs) auto
  show ?case
  proof (cases "l < k")
    case True
    then obtain j where "binary_search k ks = Inr j" "i = Suc j"
      using Cons.prems(3) by (auto simp: binary_search_def Let_def split: if_splits)
    with Cons.IH [of ws j] Cons.prems True show ?thesis by (auto simp: vs)
  next
    case False
    then have "i = 0" "l = k" using Cons.prems(3) by (auto simp: binary_search_def Let_def split: if_splits)
    then show ?thesis by (simp add: vs)
  qed
qed (simp add: binary_search_def)

text \<open>What an insert leaves of a node: one node, or two with a bound between them.\<close>

fun after_insert :: "('k, 'v) ins_result \<Rightarrow> 'k list \<times> ('k, 'v) node list" where
  "after_insert (n, old, None) = ([], [n])"
| "after_insert (n, old, Some (b, r)) = ([b], [n, r])"

definition ins_ok :: "'k::linorder option \<Rightarrow> 'k option \<Rightarrow> 'k \<Rightarrow> 'v \<Rightarrow> ('k \<times> 'v) list \<Rightarrow>
    ('k, 'v) ins_result \<Rightarrow> bool" where
  "ins_ok lo hi k v es r \<longleftrightarrow>
     fst (snd r) = map_of es k \<and>
     kids_ok lo hi (fst (after_insert r)) (snd (after_insert r)) \<and>
     concat (map entries (snd (after_insert r))) = alist_ins k v es"

lemma list_all_within_half:
  assumes "ssorted ks" "list_all (within lo hi) ks" "h < length ks"
  shows "list_all (within lo (Some (hd (drop h ks)))) (take h ks)"
    "list_all (within (Some (hd (drop h ks))) hi) (drop h ks)"
proof -
  have hd: "hd (drop h ks) = ks ! h" using assms(3) by (simp add: hd_drop_conv_nth)
  have le: "ks ! h \<le> ks ! i" if "h \<le> i" "i < length ks" for i
    using assms(1) that by (metis sorted_nth_mono ssorted_sorted)
  have lt: "ks ! i < ks ! h" if "i < h" for i
    using assms(1,3) that by (simp add: sorted_wrt_iff_nth_less)
  have all: "within lo hi (ks ! i)" if "i < length ks" for i
    using assms(2) that by (simp add: list_all_length)
  show "list_all (within lo (Some (hd (drop h ks)))) (take h ks)"
    using lt all assms(3) by (auto simp: list_all_length hd within_def split: option.splits)
  show "list_all (within (Some (hd (drop h ks))) hi) (drop h ks)"
    using le all assms(3) by (auto simp: list_all_length hd within_def split: option.splits)
qed

lemma insert_leaf_ok:
  assumes ok: "node_ok lo hi (Leaf ks vs)" and k: "within lo hi k"
  shows "\<exists>r. insert_into (Leaf ks vs) k v = Some r \<and> ins_ok lo hi k v (zip ks vs) r"
proof (cases "binary_search k ks")
  case (Inr i)
  then have "i < length vs" using binary_search_Inr_D [of k ks i] ok by simp
  with Inr show ?thesis
    using ok zip_update [of ks vs k i v] map_of_zip_search(1) [of ks vs k i]
    by (auto simp: ins_ok_def)
next
  case (Inl i)
  define ks' vs' where d: "ks' = insert_at i k ks" "vs' = insert_at i v vs"
  have len: "length ks = length vs" and s: "ssorted ks" "length ks \<le> NODE_MAX"
    and w: "list_all (within lo hi) ks" using ok by auto
  have il: "i \<le> length ks" using binary_search_Inl_D(2) [OF s(1) Inl] .
  have p: "length ks' = Suc (length ks)" "length vs' = length ks'" "ssorted ks'"
      "list_all (within lo hi) ks'" "zip ks' vs' = alist_ins k v (zip ks vs)"
    using il len k w ssorted_insert_at [OF s(1) Inl] zip_insert_at [OF s(1) len Inl]
    by (auto simp: d list_all_iff)
  have old: "map_of (zip ks vs) k = None" using map_of_zip_search(2) [OF s(1) len Inl] .
  show ?thesis
  proof (cases "length ks' \<le> NODE_MAX")
    case True
    moreover have "ks' \<noteq> []" using p(1) by auto
    ultimately show ?thesis
      using p old Inl by (auto simp: ins_ok_def d [symmetric] Let_def)
  next
    case False
    define h where "h = length ks' div 2"
    have h: "0 < h" "h < length ks'" "h \<le> NODE_MAX" "length ks' - h \<le> NODE_MAX"
      using False s(2) p(1) by (auto simp: h_def NODE_MAX_def)
    let ?l = "Leaf (take h ks') (take h vs')" and ?r = "Leaf (drop h ks') (drop h vs')"
    have "insert_into (Leaf ks vs) k v = Some (?l, None, Some (hd (drop h ks'), ?r))"
      using Inl False by (simp add: d [symmetric] h_def Let_def)
    moreover have "zip (take h ks') (take h vs') @ zip (drop h ks') (drop h vs') = zip ks' vs'"
      using p(2) by (simp add: take_zip [symmetric] drop_zip [symmetric])
    then have "ins_ok lo hi k v (zip ks vs) (?l, None, Some (hd (drop h ks'), ?r))"
      using h p old list_all_within_half [OF p(3,4) h(2)]
      by (auto simp: ins_ok_def sorted_wrt_take sorted_wrt_drop)
    ultimately show ?thesis by blast
  qed
qed

text \<open>An internal node after its children were replaced: it fits, or it is split in two.\<close>

lemma internal_split_ok:
  assumes "bs \<noteq> []" "kids_ok lo hi (tl bs) ns" "length ns \<le> Suc NODE_MAX"
    and h: "h = length ns div 2"
  shows "length ns \<le> NODE_MAX \<Longrightarrow> node_ok lo hi (Internal bs ns)"
    "\<not> length ns \<le> NODE_MAX \<Longrightarrow>
       node_ok lo (Some (hd (drop h bs))) (Internal (take h bs) (take h ns)) \<and>
       node_ok (Some (hd (drop h bs))) hi (Internal (drop h bs) (drop h ns))"
proof -
  have len: "length bs = length ns" using length_kids [OF assms(2)] assms(1) by (cases bs) auto
  then show "length ns \<le> NODE_MAX \<Longrightarrow> node_ok lo hi (Internal bs ns)" using assms(1,2) by simp
  assume big: "\<not> length ns \<le> NODE_MAX"
  then have hl: "0 < h" "h < length ns" "length ns - h \<le> NODE_MAX" "h \<le> NODE_MAX"
    using assms(3) by (auto simp: h NODE_MAX_def)
  obtain b0 bt where bs: "bs = b0 # bt" using assms(1) by (cases bs) auto
  obtain h' where h': "h = Suc h'" using hl(1) by (cases h) auto
  have "h' < length bt" using hl(2) len h' bs by simp
  then have bt: "bt = take h' bt @ hd (drop h' bt) # tl (drop h' bt)"
    by (metis append_take_drop_id drop_eq_Nil hd_Cons_tl linorder_not_le)
  have "kids_ok lo hi (take h' bt @ hd (drop h' bt) # tl (drop h' bt)) ns"
    using assms(2) bt by (simp add: bs)
  from kids_split_off [OF this, of h]
  have "kids_ok lo (Some (hd (drop h' bt))) (take h' bt) (take h ns)"
    "kids_ok (Some (hd (drop h' bt))) hi (tl (drop h' bt)) (drop h ns)"
    using \<open>h' < length bt\<close> h' by auto
  then show "node_ok lo (Some (hd (drop h bs))) (Internal (take h bs) (take h ns)) \<and>
       node_ok (Some (hd (drop h bs))) hi (Internal (drop h bs) (drop h ns))"
    using hl len \<open>h' < length bt\<close> by (simp add: bs h')
qed

lemma insert_into_ok:
  assumes "node_ok lo hi n" "within lo hi k"
  shows "\<exists>r. insert_into n k v = Some r \<and> ins_ok lo hi k v (entries n) r"
  using assms
proof (induction n k v arbitrary: lo hi rule: insert_into.induct)
  case (1 ks vs k v)
  then show ?case using insert_leaf_ok by fastforce
next
  case (2 bs ns k v)
  define i where "i = route bs k"
  have kids: "kids_ok lo hi (tl bs) ns" "bs \<noteq> []" "length bs = length ns" "length ns \<le> NODE_MAX"
    using "2.prems" by simp_all
  note route = route_leading [OF "2.prems"(1), of k]
  have il: "i = leading (\<lambda>b. b \<le> k) (tl bs)" "i < length ns" using route by (simp_all add: i_def)
  obtain lo' hi' where hole: "node_ok lo' hi' (ns ! i)" "within lo' hi' k"
      "\<And>bs' ns'. kids_ok lo' hi' bs' ns' \<Longrightarrow>
         kids_ok lo hi (take i (tl bs) @ bs' @ drop i (tl bs)) (take i ns @ ns' @ drop (Suc i) ns)"
    using kids_hole [OF kids(1) il(1)] "2.prems"(2) by metis
  obtain n' old split where r: "insert_into (ns ! i) k v = Some (n', old, split)"
      "ins_ok lo' hi' k v (entries (ns ! i)) (n', old, split)"
    using "2.IH" [OF i_def il(2) hole(1,2)] by auto
  obtain cs ms where after: "after_insert (n', old, split) = (cs, ms)" by fastforce
  define bs2 ns2 where new: "bs2 = take (Suc i) bs @ cs @ drop (Suc i) bs"
    "ns2 = take i ns @ ms @ drop (Suc i) ns"
  have code: "(case split of None \<Rightarrow> (bs, ns[i := n'])
      | Some (b, right) \<Rightarrow> (insert_at (i + 1) b bs, insert_at (i + 1) right (ns[i := n']))) = (bs2, ns2)"
    using after il(2) kids(3) append_take_drop_id [of "Suc i" bs]
    by (auto simp: new insert_at_def upd_conv_take_nth_drop min_absorb2
        simp del: append_take_drop_id split: option.splits)
  have "tl bs2 = take i (tl bs) @ cs @ drop i (tl bs)" "bs2 \<noteq> []"
    using kids(2) by (cases bs; simp add: new)+
  then have kids2: "kids_ok lo hi (tl bs2) ns2" "bs2 \<noteq> []"
    using hole(3) r(2) after by (simp_all add: ins_ok_def new)
  have len2: "length ns2 \<le> Suc NODE_MAX"
    using after il(2) kids(4) by (cases split) (auto simp: new)
  have ents: "concat (map entries ns2) = alist_ins k v (concat (map entries ns))"
    and old: "old = map_of (concat (map entries ns)) k"
    using r(2) after routed_entries(1,2) [OF kids(1) il] by (simp_all add: new ins_ok_def)
  note fits = internal_split_ok [OF kids2(2,1) len2 refl]
  show ?case
  proof (cases "length ns2 \<le> NODE_MAX")
    case True
    then have "insert_into (Internal bs ns) k v = Some (Internal bs2 ns2, old, None)"
      using il(2) by (simp add: i_def [symmetric] r(1) code Let_def)
    then show ?thesis using fits(1) [OF True] ents old by (auto simp: ins_ok_def simp del: node_ok.simps)
  next
    case False
    let ?h = "length ns2 div 2"
    have "insert_into (Internal bs ns) k v =
        Some (Internal (take ?h bs2) (take ?h ns2), old,
          Some (hd (drop ?h bs2), Internal (drop ?h bs2) (drop ?h ns2)))"
      using il(2) False by (simp add: i_def [symmetric] r(1) code Let_def)
    moreover have "concat (map entries (take ?h ns2)) @ concat (map entries (drop ?h ns2)) =
        concat (map entries ns2)"
      by (metis append_take_drop_id concat_append map_append)
    ultimately show ?thesis
      using fits(2) [OF False] ents old by (auto simp: ins_ok_def simp del: node_ok.simps)
  qed
qed

lemma cow_map_insert_correct:
  assumes "cow_map_ok m"
  shows "\<exists>m'. cow_map_insert m k v = Some (m', map_of (cow_map_entries m) k) \<and> cow_map_ok m' \<and>
    cow_map_entries m' = alist_ins k v (cow_map_entries m)"
proof (cases "root m")
  case None
  then show ?thesis
    by (auto simp: cow_map_insert_def cow_map_ok_def cow_map_entries_def NODE_MAX_def within_def)
next
  case (Some n)
  then have n: "node_ok None None n" "mlen m = length (entries n)" "cow_map_entries m = entries n"
    using assms by (simp_all add: cow_map_ok_def cow_map_entries_def)
  obtain n' old split where r: "insert_into n k v = Some (n', old, split)"
      "ins_ok None None k v (entries n) (n', old, split)"
    using insert_into_ok [OF n(1), of k v] by (auto simp: within_def)
  have len: "(if old = None then mlen m + 1 else mlen m) = length (alist_ins k v (entries n))"
    using length_alist_ins [of "entries n" k v] entries_ok(1) [OF n(1)] r(2) n(2)
    by (auto simp: ins_ok_def)
  show ?thesis
  proof (cases split)
    case None
    then show ?thesis
      using r Some n(3) len by (auto simp: cow_map_insert_def cow_map_ok_def cow_map_entries_def ins_ok_def)
  next
    case split: (Some br)
    obtain b right where br: "br = (b, right)" by (cases br)
    have kids: "node_ok None (Some b) n'" "node_ok (Some b) None right"
        "entries n' @ entries right = alist_ins k v (entries n)"
      using r(2) by (simp_all add: ins_ok_def split br)
    obtain f where f: "first_key n' = Some f" using kids(1) by (cases n') (auto simp: neq_Nil_conv)
    show ?thesis
      using Some n(3) len kids r f
      by (simp add: cow_map_insert_def cow_map_ok_def cow_map_entries_def ins_ok_def split br
          NODE_MAX_def Let_def del: node_ok.simps(1))
  qed
qed

section \<open>Removal removes the entry\<close>

text \<open>A node that fits narrower bounds fits wider ones.\<close>

lemma weaken_lower:
  fixes n :: "('k::linorder, 'v) node" and ns :: "('k, 'v) node list"
  shows "node_ok lo hi n \<Longrightarrow> lo = Some b \<Longrightarrow> (\<And>l. lo' = Some l \<Longrightarrow> l \<le> b) \<Longrightarrow> node_ok lo' hi n"
    "kids_ok lo hi bs ns \<Longrightarrow> lo = Some b \<Longrightarrow> (\<And>l. lo' = Some l \<Longrightarrow> l \<le> b) \<Longrightarrow> kids_ok lo' hi bs ns"
proof (induction lo hi n and lo hi bs ns rule: node_ok_kids_ok.induct)
  case (1 lo hi ks vs)
  then show ?case by (force simp: list_all_iff within_def split: option.splits)
qed auto

lemma weaken_upper:
  fixes n :: "('k::linorder, 'v) node" and ns :: "('k, 'v) node list"
  shows "node_ok lo hi n \<Longrightarrow> hi = Some b \<Longrightarrow> (\<And>h. hi' = Some h \<Longrightarrow> b \<le> h) \<Longrightarrow> node_ok lo hi' n"
    "kids_ok lo hi bs ns \<Longrightarrow> hi = Some b \<Longrightarrow> (\<And>h. hi' = Some h \<Longrightarrow> b \<le> h) \<Longrightarrow> kids_ok lo hi' bs ns"
proof (induction lo hi n and lo hi bs ns rule: node_ok_kids_ok.induct)
  case (1 lo hi ks vs)
  then show ?case by (force simp: list_all_iff within_def split: option.splits)
qed auto

lemma node_ok_nonempty_range: "node_ok (Some b) (Some h) n \<Longrightarrow> b < h"
  using entries_ok(1) [of "Some b" "Some h" n]
  by (cases "entries n") (auto simp: within_def)

lemma kids_ok_nonempty_range:
  assumes "kids_ok (Some b) (Some h) bs ns" shows "b < h"
proof -
  have "concat (map entries ns) \<noteq> []"
    "\<forall>k \<in> set (keys (concat (map entries ns))). within (Some b) (Some h) k"
    using entries_ok(2) [OF assms] unfolding Let_def by blast+
  then show ?thesis by (cases "concat (map entries ns)") (auto simp: within_def)
qed

lemma kids_remove:
  assumes "kids_ok lo hi bs ns" "i < length ns" "1 < length ns"
  shows "kids_ok lo hi (remove_at_index (i - 1) bs) (remove_at_index i ns)"
  using assms
proof (induction bs arbitrary: lo ns i)
  case (Cons b bs)
  then obtain n ns' where n: "ns = n # ns'" "node_ok lo (Some b) n" "kids_ok (Some b) hi bs ns'"
    by auto
  have lo: "l \<le> b" if "lo = Some l" for l using node_ok_nonempty_range n(2) that by fastforce
  have hi: "b \<le> h" if "hi = Some h" for h using kids_ok_nonempty_range n(3) that by fastforce
  consider "i = 0" | "i = 1" "bs = []" | b' bs' where "i = 1" "bs = b' # bs'" | j where "i = Suc (Suc j)"
    by (cases i; cases "i - 1"; cases bs) auto
  then show ?case
  proof cases
    case 1
    then show ?thesis
      using weaken_lower(2) [OF n(3) refl lo] by (simp add: n(1) remove_at_index_def)
  next
    case 2
    then show ?thesis
      using weaken_upper(1) [OF n(2) refl hi] n(3) by (auto simp: n(1) remove_at_index_def)
  next
    case 3
    then obtain m ms where m: "ns' = m # ms" "node_ok (Some b) (Some b') m" "kids_ok (Some b') hi bs' ms"
      using n(3) by auto
    then have "node_ok lo (Some b') n"
      using weaken_upper(1) [OF n(2) refl] node_ok_nonempty_range [OF m(2)] by fastforce
    then show ?thesis using 3 m by (simp add: n(1) remove_at_index_def)
  next
    case 4
    then have "Suc j < length ns'" "1 < length ns'" using Cons.prems(2) n(1) by simp_all
    then have "kids_ok (Some b) hi (remove_at_index j bs) (remove_at_index (Suc j) ns')"
      using Cons.IH [OF n(3), of "Suc j"] by simp
    then show ?thesis using 4 n by (simp add: remove_at_index_def)
  qed
qed auto

lemma height_kid: "i < length ns \<Longrightarrow> height (ns ! i) < height (Internal bs ns)"
  by (simp add: less_Suc_eq_le)

lemma node_find_correct:
  assumes "node_ok lo hi n" "depth + height n \<le> MAX_DEPTH"
  shows "\<exists>r. node_find n k depth = Some r \<and> (r = None \<longleftrightarrow> map_of (entries n) k = None)"
  using assms
proof (induction n k depth arbitrary: lo hi rule: node_find.induct)
  case (1 ks vs k depth)
  then have *: "ssorted ks" "length ks = length vs" by simp_all
  show ?case
    using map_of_zip_search [OF *, of k] by (cases "binary_search k ks") auto
next
  case (2 bs ns k depth)
  define i where "i = route bs k"
  have kids: "kids_ok lo hi (tl bs) ns" using "2.prems" by simp
  have il: "i = leading (\<lambda>b. b \<le> k) (tl bs)" "i < length ns"
    using route_leading [OF "2.prems"(1), of k] by (simp_all add: i_def)
  obtain lo' hi' where h: "node_ok lo' hi' (ns ! i)" using kids_hole [OF kids il(1)] by metis
  have d: "Suc depth + height (ns ! i) \<le> MAX_DEPTH" "depth < MAX_DEPTH"
    using height_kid [OF il(2), of bs] "2.prems"(2) by simp_all
  obtain r where "node_find (ns ! i) k (Suc depth) = Some r"
      "r = None \<longleftrightarrow> map_of (entries (ns ! i)) k = None"
    using "2.IH" [OF i_def _ h d(1)] il(2) d(2) by auto
  then show ?case
    using il(2) d(2) routed_entries(1) [OF kids il] by (simp add: i_def [symmetric] Let_def)
qed

lemma remove_at_index_zip:
  "length ks = length vs \<Longrightarrow> zip (remove_at_index a ks) (remove_at_index a vs) = remove_at_index a (zip ks vs)"
  by (simp add: remove_at_index_def take_zip drop_zip)

lemma alist_del_nth:
  assumes "distinct (keys es)" "a < length es" "fst (es ! a) = k"
  shows "alist_del k es = remove_at_index a es"
proof -
  have es: "es = take a es @ es ! a # drop (Suc a) es" using assms(2) by (rule id_take_nth_drop)
  then have "distinct (keys (take a es) @ k # keys (drop (Suc a) es))"
    using assms(1,3) by (metis list.simps(9) map_append)
  then have "k \<notin> set (keys (take a es))" "k \<notin> set (keys (drop (Suc a) es))" by auto
  moreover have "alist_del k [es ! a] = []" using assms(3) by (simp add: alist_del_def)
  moreover have "alist_del k es = alist_del k (take a es) @ alist_del k [es ! a] @ alist_del k (drop (Suc a) es)"
    using es by (metis alist_del_append append_Cons append_Nil)
  ultimately show ?thesis by (simp add: alist_del_absent remove_at_index_def)
qed

definition rem_ok :: "'k::linorder option \<Rightarrow> 'k option \<Rightarrow> 'k \<Rightarrow> ('k \<times> 'v) list \<Rightarrow>
    ('k, 'v) node \<times> 'v \<Rightarrow> bool" where
  "rem_ok lo hi k es r \<longleftrightarrow>
     map_of es k = Some (snd r) \<and> entries (fst r) = alist_del k es \<and>
     (if node_is_empty (fst r) then entries (fst r) = [] else node_ok lo hi (fst r))"

lemma remove_leaf_ok:
  assumes "node_ok lo hi (Leaf ks vs)" "binary_search k ks = Inr a"
  shows "rem_ok lo hi k (zip ks vs) (Leaf (remove_at_index a ks) (remove_at_index a vs), vs ! a)"
proof -
  have *: "ssorted ks" "length ks = length vs" "list_all (within lo hi) ks" "length ks \<le> NODE_MAX"
    using assms(1) by simp_all
  have a: "a < length ks" "ks ! a = k" using binary_search_Inr_D [OF assms(2)] by auto
  have "alist_del k (zip ks vs) = remove_at_index a (zip ks vs)"
    by (rule alist_del_nth) (use * a in \<open>auto simp: ssorted_distinct\<close>)
  moreover have "set (remove_at_index a ks) \<subseteq> set ks"
    by (auto simp: remove_at_index_def dest: in_set_takeD in_set_dropD)
  ultimately show ?thesis
    using * a map_of_zip_search(1) [OF *(1,2) assms(2)] ssorted_remove_at_index [OF *(1), of a]
    by (auto simp: rem_ok_def remove_at_index_zip list_all_iff)
qed

lemma remove_at_ok:
  assumes "node_ok lo hi n" "node_find n k depth = Some (Some (p, a))"
  shows "\<exists>r. remove_at n p a = Some r \<and> rem_ok lo hi k (entries n) r"
  using assms
proof (induction n k depth arbitrary: lo hi p rule: node_find.induct)
  case (1 ks vs k depth)
  then have "binary_search k ks = Inr a" by (auto split: sum.splits)
  with 1 show ?case
    using remove_leaf_ok [of lo hi ks vs k a] binary_search_Inr_D [of k ks a] by auto
next
  case (2 bs ns k depth)
  define i where "i = route bs k"
  have kids: "kids_ok lo hi (tl bs) ns" "bs \<noteq> []" "length bs = length ns" "length ns \<le> NODE_MAX"
    using "2.prems" by simp_all
  have il: "i = leading (\<lambda>b. b \<le> k) (tl bs)" "i < length ns"
    using route_leading [OF "2.prems"(1), of k] by (simp_all add: i_def)
  obtain q where q: "p = i # q" "node_find (ns ! i) k (Suc depth) = Some (Some (q, a))" "depth < MAX_DEPTH"
    using "2.prems"(2) by (auto simp: Let_def i_def [symmetric] split: if_splits)
  obtain lo' hi' where hole: "node_ok lo' hi' (ns ! i)"
      "\<And>bs' ns'. kids_ok lo' hi' bs' ns' \<Longrightarrow>
         kids_ok lo hi (take i (tl bs) @ bs' @ drop i (tl bs)) (take i ns @ ns' @ drop (Suc i) ns)"
    using kids_hole [OF kids(1) il(1)] by metis
  obtain n' old where r: "remove_at (ns ! i) q a = Some (n', old)"
      "rem_ok lo' hi' k (entries (ns ! i)) (n', old)"
    using "2.IH" [OF i_def _ hole(1) q(2)] il(2) q(3) by auto
  note routed = routed_entries(1,3) [OF kids(1) il]
  have upd: "concat (map entries (ns[i := n'])) = alist_del k (concat (map entries ns))"
    using r(2) routed(2) il(2) by (simp add: rem_ok_def upd_conv_take_nth_drop)
  show ?case
  proof (cases "node_is_empty n'")
    case True
    then have e: "entries n' = []" using r(2) unfolding rem_ok_def by (metis fst_conv)
    let ?m = "Internal (remove_at_index i bs) (remove_at_index i ns)"
    have "tl (remove_at_index i bs) = remove_at_index (i - 1) (tl bs)" if "1 < length ns"
      using that kids(2,3) by (cases bs; cases "tl bs"; cases i) (auto simp: remove_at_index_def)
    then have "node_ok lo hi ?m" if "1 < length ns"
      using that kids_remove [OF kids(1) il(2)] kids(3,4) il(2)
        length_remove_at_index [of i bs] by (cases "remove_at_index i bs") auto
    moreover have "remove_at_index i ns = []" if "\<not> 1 < length ns"
      using that il(2) by (simp add: remove_at_index_def)
    moreover have "remove_at_index i ns \<noteq> []" if "1 < length ns"
      using that il(2) length_remove_at_index [of i ns] by fastforce
    moreover have "entries ?m = alist_del k (entries (Internal bs ns))"
      using upd e il(2) by (simp add: remove_at_index_def upd_conv_take_nth_drop)
    ultimately show ?thesis
      using True r q(1) routed(1) il(2) by (auto simp: rem_ok_def)
  next
    case False
    then have "node_ok lo' hi' n'" using r(2) by (simp add: rem_ok_def)
    then have "kids_ok lo hi (tl bs) (ns[i := n'])"
      using hole(2) [of "[]" "[n']"] il(2) by (simp add: upd_conv_take_nth_drop)
    then show ?thesis
      using False r q(1) routed(1) upd il(2) kids by (auto simp: rem_ok_def)
  qed
qed

lemma node_ok_not_empty: "node_ok lo hi n \<Longrightarrow> \<not> node_is_empty n"
  by (cases n) auto

lemma collapse_root_ok:
  "(if node_is_empty n then entries n = [] else node_ok None None n) \<Longrightarrow>
   (case collapse_root n of None \<Rightarrow> entries n = []
    | Some m \<Rightarrow> node_ok None None m \<and> entries m = entries n)"
proof (induction n rule: collapse_root.induct)
  case (3 bs n)
  then have "tl bs = []" "kids_ok None None (tl bs) [n]" by (cases bs; auto)+
  then have "node_ok None None n" by simp
  then have "if node_is_empty n then entries n = [] else node_ok None None n"
    by (simp add: node_ok_not_empty)
  from "3.IH" [OF this] show ?case by (auto split: option.splits)
qed (auto split: if_splits)

lemma cow_map_remove_correct:
  assumes "cow_map_ok m" "cow_map_height m \<le> MAX_DEPTH"
  shows "\<exists>m'. cow_map_remove m k = Some (m', map_of (cow_map_entries m) k) \<and> cow_map_ok m' \<and>
    cow_map_entries m' = alist_del k (cow_map_entries m)"
proof (cases "root m")
  case None
  then show ?thesis using assms(1)
    by (simp add: cow_map_remove_def cow_map_find_def cow_map_entries_def alist_del_def)
next
  case (Some n)
  then have n: "node_ok None None n" "mlen m = length (entries n)" "cow_map_entries m = entries n"
    and h: "0 + height n \<le> MAX_DEPTH"
    using assms by (simp_all add: cow_map_ok_def cow_map_entries_def cow_map_height_def)
  obtain r where r: "node_find n k 0 = Some r" "r = None \<longleftrightarrow> map_of (entries n) k = None"
    using node_find_correct [OF n(1) h] by blast
  show ?thesis
  proof (cases r)
    case None
    then have "k \<notin> set (keys (entries n))" using r(2) by (simp add: map_of_eq_None_iff)
    then show ?thesis
      using None r n Some assms(1) by (simp add: cow_map_remove_def cow_map_find_def alist_del_absent)
  next
    case found: (Some pa)
    obtain p a where pa: "pa = (p, a)" by (cases pa)
    then obtain n' old where rem: "remove_at n p a = Some (n', old)"
        "rem_ok None None k (entries n) (n', old)"
      using remove_at_ok [OF n(1), of k 0 p a] r(1) found by auto
    have "distinct (keys (entries n))" using entries_ok(1) [OF n(1)] ssorted_distinct by blast
    moreover have "map_of (entries n) k \<noteq> None" "entries n' = alist_del k (entries n)"
      using rem(2) by (simp_all add: rem_ok_def del: map_of_eq_None_iff)
    ultimately have "Suc (length (entries n')) = mlen m"
      using length_alist_del n(2) by metis
    then have len: "mlen m - 1 = length (entries n')" by simp
    have "case collapse_root n' of None \<Rightarrow> entries n' = []
        | Some m \<Rightarrow> node_ok None None m \<and> entries m = entries n'"
      by (rule collapse_root_ok) (use rem(2) in \<open>auto simp: rem_ok_def\<close>)
    then show ?thesis
      using Some found pa r(1) rem len n(3)
      by (auto simp: cow_map_remove_def cow_map_find_def cow_map_ok_def cow_map_entries_def rem_ok_def
          split: option.splits)
  qed
qed

section \<open>The contract of an ordered map\<close>

locale ordered_map =
  fixes empty_op :: 'm
    and get_op :: "'m \<Rightarrow> 'k::linorder \<Rightarrow> 'v option option"
    and insert_op :: "'m \<Rightarrow> 'k \<Rightarrow> 'v \<Rightarrow> ('m \<times> 'v option) option"
    and remove_op :: "'m \<Rightarrow> 'k \<Rightarrow> ('m \<times> 'v option) option"
    and len_op :: "'m \<Rightarrow> nat"
    and entries_op :: "'m \<Rightarrow> ('k \<times> 'v) list"
    and invar :: "'m \<Rightarrow> bool"
    and shallow :: "'m \<Rightarrow> bool"
  assumes empty: "invar empty_op" "entries_op empty_op = []"
    and get: "invar m \<Longrightarrow> get_op m k = Some (map_of (entries_op m) k)"
    and insert: "invar m \<Longrightarrow> \<exists>m'. insert_op m k v = Some (m', map_of (entries_op m) k) \<and>
      invar m' \<and> entries_op m' = alist_ins k v (entries_op m)"
    and remove: "invar m \<Longrightarrow> shallow m \<Longrightarrow>
      \<exists>m'. remove_op m k = Some (m', map_of (entries_op m) k) \<and>
      invar m' \<and> entries_op m' = alist_del k (entries_op m)"
    and sorted: "invar m \<Longrightarrow> ssorted (keys (entries_op m))"
    and len: "invar m \<Longrightarrow> len_op m = length (entries_op m)"
begin

lemma get_after_insert:
  assumes "invar m" "insert_op m k v = Some (m', old)"
  shows "invar m' \<and> get_op m k = Some old \<and> get_op m' l = (if l = k then Some (Some v) else get_op m l)"
  using insert [OF assms(1), of k v] assms by (auto simp: get map_of_alist_ins)

lemma get_after_remove:
  assumes "invar m" "shallow m" "remove_op m k = Some (m', old)"
  shows "invar m' \<and> get_op m k = Some old \<and> get_op m' l = (if l = k then Some None else get_op m l)"
  using remove [OF assms(1,2), of k] assms by (auto simp: get map_of_alist_del)

lemma len_after_insert:
  assumes "invar m" "insert_op m k v = Some (m', old)"
  shows "len_op m' = (if old = None then Suc (len_op m) else len_op m)"
  using insert [OF assms(1), of k v] assms length_alist_ins [OF sorted [OF assms(1)], of k v]
  by (auto simp: len)

lemma ids_after_insert:
  assumes "invar m" "insert_op m k v = Some (m', old)"
  shows "set (keys (entries_op m')) = Set.insert k (set (keys (entries_op m)))"
  using insert [OF assms(1), of k v] assms set_keys_alist_ins [of k v "entries_op m"] by auto

lemma ids_after_remove:
  assumes "invar m" "shallow m" "remove_op m k = Some (m', old)"
  shows "set (keys (entries_op m')) = set (keys (entries_op m)) - {k}"
  using remove [OF assms(1,2), of k] assms by (auto simp: alist_del_def)

end

definition cow_map_shallow :: "('k, 'v) cow_map \<Rightarrow> bool" where
  "cow_map_shallow m \<longleftrightarrow> cow_map_height m \<le> MAX_DEPTH"

lemma cow_map_get_correct:
  "cow_map_ok m \<Longrightarrow> cow_map_get m k = Some (map_of (cow_map_entries m) k)"
  by (auto simp: cow_map_get_def cow_map_ok_def cow_map_entries_def node_get_correct split: option.splits)

lemma cow_map_sorted: "cow_map_ok m \<Longrightarrow> ssorted (keys (cow_map_entries m))"
  using entries_ok(1) by (auto simp: cow_map_ok_def cow_map_entries_def split: option.splits)

interpretation om: ordered_map
  cow_map_new cow_map_get cow_map_insert cow_map_remove mlen cow_map_entries cow_map_ok cow_map_shallow
proof (unfold_locales, goal_cases)
  case 1
  show ?case by (simp add: cow_map_ok_def cow_map_new_def cow_map_entries_def)
next
  case 2
  show ?case by (simp add: cow_map_new_def cow_map_entries_def)
next
  case (5 m k)
  then show ?case by (simp add: cow_map_remove_correct cow_map_shallow_def)
next
  case (6 m)
  then show ?case by (rule cow_map_sorted)
next
  case (7 m)
  then show ?case by (simp add: cow_map_ok_def)
qed (simp_all add: cow_map_get_correct cow_map_insert_correct)

end
