(* ===== verification/Cow_Map_Build.thy ===== *)
theory Cow_Map_Build
  imports Cow_Map
begin

text \<open>
  Building a \<open>CowMap\<close> from sorted entries (\<open>from_sorted\<close>, \<open>build_parents\<close>) and from any
  entries (\<open>from_iter\<close>), writing through \<open>get_mut\<close>, and \<open>get_or_insert_with\<close>
  (\<open>crates/core-storage/src/cow.rs\<close>).
\<close>

section \<open>The bulk loader\<close>

definition PER :: nat where "PER = NODE_MAX * 3 div 4"

type_synonym ('k, 'v) level = "('k \<times> ('k, 'v) node) list"

text \<open>
  The loop over the entries: keys and values gather in two vectors, and a full leaf (or
  the rest at the end) is flushed to the level with its first key.
\<close>

definition flush_leaf :: "'k list \<Rightarrow> 'v list \<Rightarrow> ('k, 'v) level \<Rightarrow> ('k, 'v) level" where
  "flush_leaf ks vs level = level @ [(hd ks, Leaf ks vs)]"

fun leaf_loop :: "('k \<times> 'v) list \<Rightarrow> 'k list \<Rightarrow> 'v list \<Rightarrow> ('k, 'v) level \<Rightarrow> ('k, 'v) level" where
  "leaf_loop [] ks vs level = (if ks = [] then level else flush_leaf ks vs level)"
| "leaf_loop ((k, v) # es) ks vs level =
     (let ks = ks @ [k]; vs = vs @ [v] in
      if length ks = PER then leaf_loop es [] [] (flush_leaf ks vs level)
      else leaf_loop es ks vs level)"

function build_parents :: "('k, 'v) level \<Rightarrow> ('k, 'v) level" where
  "build_parents level =
     (if level = [] then []
      else let g = take PER level
           in (fst (hd g), Internal (map fst g) (map snd g)) # build_parents (drop PER level))"
  by pat_completeness auto
termination
  by (relation "measure length") (auto simp: PER_def NODE_MAX_def)

declare build_parents.simps [simp del]

lemma PER_pos [simp]: "0 < PER" "PER \<le> NODE_MAX" "Suc 0 < PER"
  by (simp_all add: PER_def NODE_MAX_def)

lemma build_parents_Nil [simp]: "build_parents [] = []"
  by (subst build_parents.simps) simp

lemma length_build_parents: "level \<noteq> [] \<Longrightarrow> length (build_parents level) \<le> (length level + PER - 1) div PER"
proof (induction level rule: build_parents.induct)
  case (1 level)
  have eq: "length (build_parents level) = Suc (length (build_parents (drop PER level)))"
    using 1(2) by (subst build_parents.simps) (simp add: Let_def)
  show ?case
  proof (cases "length level \<le> PER")
    case True
    then have "1 \<le> (length level + PER - 1) div PER"
      using 1(2) by (metis One_nat_def PER_pos(1) add.commute diff_le_mono2 div_le_mono div_self
          le_add_diff_inverse2 length_greater_0_conv less_numeral_extra(3) Suc_leI add_diff_assoc2 le_add2 Nat.add_diff_assoc)
    with True eq show ?thesis by simp
  next
    case False
    then have "length (build_parents (drop PER level)) \<le> (length level - PER + PER - 1) div PER"
      using 1(1) [OF 1(2) refl] by simp
    moreover have "(length level + PER - 1) div PER = Suc ((length level - PER + PER - 1) div PER)"
      using False by (simp add: le_div_geq)
    ultimately show ?thesis using eq by simp
  qed
qed

lemma build_parents_shrinks:
  assumes "1 < length level" shows "length (build_parents level) < length level"
proof -
  have "length (build_parents level) \<le> (length level + PER - 1) div PER"
    using length_build_parents [of level] assms by (cases level) auto
  also have "\<dots> < length level"
    using assms by (subst div_less_iff_less_mult) (auto simp: PER_def NODE_MAX_def)
  finally show ?thesis .
qed

function build_levels :: "('k, 'v) level \<Rightarrow> ('k, 'v) level" where
  "build_levels level = (if 1 < length level then build_levels (build_parents level) else level)"
  by pat_completeness auto
termination
  by (relation "measure length") (auto simp: build_parents_shrinks)

declare build_levels.simps [simp del]

definition cow_map_from_sorted :: "('k \<times> 'v) list \<Rightarrow> ('k, 'v) cow_map" where
  "cow_map_from_sorted es =
     (let level = build_levels (leaf_loop es [] [] []) in
      \<lparr>root = (if level = [] then None else Some (snd (last level))), mlen = length es\<rparr>)"

fun cow_map_extend :: "('k::linorder, 'v) cow_map \<Rightarrow> ('k \<times> 'v) list \<Rightarrow> ('k, 'v) cow_map option" where
  "cow_map_extend m [] = Some m"
| "cow_map_extend m ((k, v) # es) =
     (case cow_map_insert m k v of None \<Rightarrow> None | Some (m, _) \<Rightarrow> cow_map_extend m es)"

definition cow_map_from_iter :: "('k::linorder \<times> 'v) list \<Rightarrow> ('k, 'v) cow_map option" where
  "cow_map_from_iter es = cow_map_extend cow_map_new es"

section \<open>The bulk loader builds the entries it is given\<close>

definition level_ok :: "'k::linorder option \<Rightarrow> 'k option \<Rightarrow> ('k, 'v) level \<Rightarrow> bool" where
  "level_ok lo hi level \<longleftrightarrow> kids_ok lo hi (tl (map fst level)) (map snd level)"

definition level_entries :: "('k, 'v) level \<Rightarrow> ('k \<times> 'v) list" where
  "level_entries level = concat (map entries (map snd level))"

lemma level_ok_nonempty: "level_ok lo hi level \<Longrightarrow> level \<noteq> []"
  using length_kids by (fastforce simp: level_ok_def)

lemma level_ok_Cons:
  assumes "node_ok lo (Some b) n" "level_ok (Some b) hi rest" "fst (hd rest) = b"
  shows "level_ok lo hi ((f, n) # rest)"
proof -
  have "map fst rest = b # tl (map fst rest)"
    using level_ok_nonempty [OF assms(2)] assms(3) by (cases rest) auto
  then show ?thesis using assms(1,2) unfolding level_ok_def
    by (metis kids_ok.simps(2) list.sel(3) list.simps(9) prod.sel(2))
qed

lemma build_parents_ok:
  assumes "level_ok lo hi level"
  shows "level_ok lo hi (build_parents level) \<and> fst (hd (build_parents level)) = fst (hd level) \<and>
    level_entries (build_parents level) = level_entries level"
  using assms
proof (induction level arbitrary: lo rule: build_parents.induct)
  case (1 level)
  note ne = level_ok_nonempty [OF "1.prems"]
  define g r where gr: "g = take PER level" "r = drop PER level"
  let ?n = "Internal (map fst g) (map snd g)"
  have eq: "build_parents level = (fst (hd g), ?n) # build_parents r"
    using ne by (subst build_parents.simps) (simp add: gr Let_def)
  have g: "g \<noteq> []" "hd g = hd level" "length g \<le> NODE_MAX"
    using ne PER_pos by (auto simp: gr min_def simp del: PER_pos)
  have ents: "level_entries level = level_entries g @ level_entries r"
    by (metis append_take_drop_id concat_append gr level_entries_def map_append)
  show ?case
  proof (cases "r = []")
    case True
    then have "g = level" by (metis append_Nil2 append_take_drop_id gr)
    then show ?thesis
      using "1.prems" True g by (auto simp: eq level_ok_def level_entries_def)
  next
    case False
    define b where "b = fst (hd r)"
    have "tl (map fst level) = tl (map fst g) @ b # tl (map fst r)"
      using g False by (metis append_take_drop_id b_def gr hd_map list.collapse list.map_disc_iff map_append tl_append2)
    moreover have "PER < length level" using False by (simp add: gr)
    then have "PER = Suc (length (tl (map fst g)))" using PER_pos(1) by (simp add: gr)
    ultimately have "kids_ok lo (Some b) (tl (map fst g)) (map snd g)" "level_ok (Some b) hi r"
      using kids_split_off [of lo hi "tl (map fst g)" b "tl (map fst r)" "map snd level" PER] "1.prems"
      by (auto simp: level_ok_def gr take_map drop_map)
    moreover have "level_ok (Some b) hi (build_parents r) \<and> fst (hd (build_parents r)) = b \<and>
        level_entries (build_parents r) = level_entries r"
      using "1.IH" [OF ne gr(1)] calculation(2) by (simp add: gr b_def)
    ultimately show ?thesis
      using level_ok_Cons [of lo b ?n hi "build_parents r"] g ents
      by (auto simp: eq level_entries_def)
  qed
qed

lemma leaf_loop_level: "leaf_loop es ks vs level = level @ leaf_loop es ks vs []"
proof (induction es arbitrary: ks vs level)
  case (Cons e es)
  obtain k v where e: "e = (k, v)" by (cases e)
  show ?case
    using Cons [of "[]" "[]" "flush_leaf (ks @ [k]) (vs @ [v]) level"]
      Cons [of "[]" "[]" "flush_leaf (ks @ [k]) (vs @ [v]) []"] Cons [of "ks @ [k]" "vs @ [v]" level]
    by (simp add: e flush_leaf_def Let_def)
qed (simp add: flush_leaf_def)

lemma leaf_loop_ok:
  assumes "length ks = length vs" "length ks < PER" "ks \<noteq> [] \<or> es \<noteq> []"
    "ssorted (ks @ keys es)" "list_all (within lo None) (ks @ keys es)"
  shows "level_ok lo None (leaf_loop es ks vs []) \<and>
    fst (hd (leaf_loop es ks vs [])) = hd (ks @ keys es) \<and>
    level_entries (leaf_loop es ks vs []) = zip ks vs @ es"
  using assms
proof (induction es arbitrary: ks vs lo)
  case Nil
  then show ?case using less_imp_le [OF less_le_trans [OF Nil(2) PER_pos(2)]]
    by (auto simp: flush_leaf_def level_ok_def level_entries_def)
next
  case (Cons e es)
  obtain k v where e: "e = (k, v)" by (cases e)
  define ks' vs' where d: "ks' = ks @ [k]" "vs' = vs @ [v]"
  have l: "length ks' = length vs'" "zip ks' vs' = zip ks vs @ [e]" "ks' \<noteq> []"
      "ks @ keys (e # es) = ks' @ keys es"
    using Cons.prems(1) by (simp_all add: d e)
  have srt: "ssorted (ks' @ keys es)" "list_all (within lo None) (ks' @ keys es)"
    using Cons.prems(4,5) l(4) by metis+
  show ?case
  proof (cases "length ks' = PER")
    case False
    then have "leaf_loop (e # es) ks vs [] = leaf_loop es ks' vs' []" by (simp add: e d Let_def)
    moreover have "length ks' < PER" using False Cons.prems(2) by (simp add: d)
    ultimately show ?thesis
      using Cons.IH [OF l(1) _ _ srt] l(2,3) unfolding l(4) by simp
  next
    case True
    then have eq: "leaf_loop (e # es) ks vs [] = (hd ks', Leaf ks' vs') # leaf_loop es [] [] []"
      by (simp add: e d [symmetric] Let_def flush_leaf_def leaf_loop_level [of es "[]" "[]" "[_]"])
    show ?thesis
    proof (cases es)
      case Nil
      then show ?thesis using eq l srt True PER_pos(2) by (simp add: level_ok_def level_entries_def)
    next
      case (Cons e2 es2)
      let ?b = "fst e2"
      have "list_all (within (Some ?b) None) (keys es)" "list_all (within lo (Some ?b)) ks'"
        using srt by (auto simp: Cons within_def list_all_iff sorted_wrt_append)
      moreover have "ssorted (keys es)" "ssorted ks'" using srt by (simp_all add: sorted_wrt_append)
      ultimately have "level_ok (Some ?b) None (leaf_loop es [] [] []) \<and>
          fst (hd (leaf_loop es [] [] [])) = ?b \<and> level_entries (leaf_loop es [] [] []) = es"
        "node_ok lo (Some ?b) (Leaf ks' vs')"
        using Cons.IH [of "[]" "[]" "Some ?b"] True l PER_pos by (simp_all add: Cons)
      then show ?thesis
        using level_ok_Cons [of lo ?b "Leaf ks' vs'" None] eq l(2,3) unfolding l(4)
        by (auto simp: level_entries_def)
    qed
  qed
qed

lemma build_levels_ok:
  assumes "level_ok lo hi level"
  shows "\<exists>f n. build_levels level = [(f, n)] \<and> node_ok lo hi n \<and> entries n = level_entries level"
  using assms
proof (induction level rule: build_levels.induct)
  case (1 level)
  show ?case
  proof (cases "1 < length level")
    case True
    then show ?thesis
      using "1.IH" build_parents_ok [OF "1.prems"] by (subst build_levels.simps) auto
  next
    case False
    then obtain f n where "level = [(f, n)]"
      using level_ok_nonempty [OF "1.prems"] by (cases level) auto
    then show ?thesis
      using "1.prems" by (subst build_levels.simps) (auto simp: level_ok_def level_entries_def)
  qed
qed

lemma cow_map_from_sorted_correct:
  assumes "ssorted (keys es)"
  shows "cow_map_ok (cow_map_from_sorted es) \<and> cow_map_entries (cow_map_from_sorted es) = es"
proof (cases es)
  case Nil
  then show ?thesis
    by (simp add: cow_map_from_sorted_def build_levels.simps cow_map_ok_def cow_map_entries_def)
next
  case (Cons e es')
  have "list_all (within None None) (keys es)" by (auto simp: list_all_iff within_def)
  then have "level_ok None None (leaf_loop es [] [] [])"
      "level_entries (leaf_loop es [] [] []) = es"
    using leaf_loop_ok [of "[]" "[]" es None] assms Cons by auto
  then show ?thesis
    using build_levels_ok [of None None "leaf_loop es [] [] []"]
    by (auto simp: cow_map_from_sorted_def cow_map_ok_def cow_map_entries_def)
qed

lemma cow_map_extend_correct:
  assumes "cow_map_ok m"
  shows "\<exists>m'. cow_map_extend m es = Some m' \<and> cow_map_ok m' \<and>
    cow_map_entries m' = fold (\<lambda>(k, v). alist_ins k v) es (cow_map_entries m)"
  using assms
proof (induction es arbitrary: m)
  case (Cons e es)
  obtain k v where e: "e = (k, v)" by (cases e)
  from cow_map_insert_correct [OF Cons.prems, of k v] obtain m1 where
    "cow_map_insert m k v = Some (m1, map_of (cow_map_entries m) k)" "cow_map_ok m1"
    "cow_map_entries m1 = alist_ins k v (cow_map_entries m)" by blast
  with Cons.IH [of m1] show ?case by (simp add: e)
qed simp

lemma map_of_fold_ins:
  "map_of (fold (\<lambda>(k, v). alist_ins k v) es acc) = map_of acc ++ map_of (rev es)"
proof (induction es arbitrary: acc)
  case (Cons e es)
  then show ?case
    by (cases e) (auto simp: map_of_alist_ins map_add_def fun_eq_iff map_of_append split: option.splits)
qed simp

section \<open>Writing in place\<close>

lemma node_write_read_at:
  assumes "node_ok lo hi n" "node_find n k depth = Some (Some (p, a))"
  shows "\<exists>n'. node_write_at n p a v = Some n' \<and> node_ok lo hi n' \<and>
      entries n' = alist_ins k v (entries n) \<and> node_read_at n p a = map_of (entries n) k"
  using assms
proof (induction n k depth arbitrary: lo hi p rule: node_find.induct)
  case (1 ks vs k depth)
  then have "binary_search k ks = Inr a" "p = []" by (auto split: sum.splits)
  with 1 show ?case
    using zip_update [of ks vs k a v] binary_search_Inr_D [of k ks a] map_of_zip_search(1) [of ks vs k a]
    by auto
next
  case (2 bs ns k depth)
  define i where "i = route bs k"
  have kids: "kids_ok lo hi (tl bs) ns" "bs \<noteq> []" "length bs = length ns" "length ns \<le> NODE_MAX"
    using "2.prems" by simp_all
  have il: "i = leading (\<lambda>b. b \<le> k) (tl bs)" "i < length ns"
    using route_leading [OF "2.prems"(1), of k] by (simp_all add: i_def)
  obtain q where q: "p = i # q" "node_find (ns ! i) k (Suc depth) = Some (Some (q, a))" "depth < MAX_DEPTH"
    using "2.prems"(2) by (auto simp: Let_def i_def [symmetric] split: if_splits)
  obtain lo' hi' where hole: "node_ok lo' hi' (ns ! i)"
      "\<And>bs' ns'. kids_ok lo' hi' bs' ns' \<Longrightarrow>
         kids_ok lo hi (take i (tl bs) @ bs' @ drop i (tl bs)) (take i ns @ ns' @ drop (Suc i) ns)"
    using kids_hole [OF kids(1) il(1)] by metis
  obtain n' where n': "node_write_at (ns ! i) q a v = Some n'" "node_ok lo' hi' n'"
      "entries n' = alist_ins k v (entries (ns ! i))" "node_read_at (ns ! i) q a = map_of (entries (ns ! i)) k"
    using "2.IH" [OF i_def _ hole(1) q(2)] il(2) q(3) by auto
  have "kids_ok lo hi (tl bs) (ns[i := n'])"
    using hole(2) [of "[]" "[n']"] n'(2) il(2) by (simp add: upd_conv_take_nth_drop)
  moreover have "concat (map entries (ns[i := n'])) = alist_ins k v (concat (map entries ns))"
    using n'(3) routed_entries(2) [OF kids(1) il] il(2) by (simp add: upd_conv_take_nth_drop)
  ultimately show ?case
    using n' q(1) il(2) kids routed_entries(1) [OF kids(1) il] by simp
qed

text \<open>\<open>get_mut\<close> reads the entry, and a write through it replaces the value of that entry alone.\<close>

lemma cow_map_get_mut_correct:
  assumes "cow_map_ok m" "cow_map_shallow m"
  shows "cow_map_get_mut m k = Some (map_of (cow_map_entries m) k)"
    "map_of (cow_map_entries m) k = None \<Longrightarrow> cow_map_write m k v = Some None"
    "map_of (cow_map_entries m) k \<noteq> None \<Longrightarrow>
       \<exists>m'. cow_map_write m k v = Some (Some m') \<and> cow_map_ok m' \<and>
         cow_map_entries m' = alist_ins k v (cow_map_entries m)"
proof -
  have "cow_map_get_mut m k = Some (map_of (cow_map_entries m) k) \<and>
    (if map_of (cow_map_entries m) k = None then cow_map_write m k v = Some None
     else \<exists>m'. cow_map_write m k v = Some (Some m') \<and> cow_map_ok m' \<and>
         cow_map_entries m' = alist_ins k v (cow_map_entries m))"
  proof (cases "root m")
    case None
    then show ?thesis
      by (simp add: cow_map_get_mut_def cow_map_write_def cow_map_find_def cow_map_entries_def)
  next
    case (Some n)
    then have n: "node_ok None None n" "mlen m = length (entries n)" "cow_map_entries m = entries n"
        and h: "0 + height n \<le> MAX_DEPTH"
      using assms by (simp_all add: cow_map_ok_def cow_map_entries_def cow_map_height_def cow_map_shallow_def)
    obtain r where r: "node_find n k 0 = Some r" "r = None \<longleftrightarrow> map_of (entries n) k = None"
      using node_find_correct [OF n(1) h] by blast
    show ?thesis
    proof (cases r)
      case None
      then show ?thesis
        using r n(3) Some by (simp add: cow_map_get_mut_def cow_map_write_def cow_map_find_def)
    next
      case found: (Some pa)
      obtain p a where pa: "pa = (p, a)" by (cases pa)
      from node_write_read_at [OF n(1), of k 0 p a v] obtain n' where
        "node_write_at n p a v = Some n'" "node_ok None None n'"
        "entries n' = alist_ins k v (entries n)" "node_read_at n p a = map_of (entries n) k"
        using r(1) found pa by auto
      moreover obtain w where "map_of (entries n) k = Some w" using r(2) found by auto
      moreover have "length (alist_ins k v (entries n)) = length (entries n)"
        using length_alist_ins [of "entries n" k v] entries_ok(1) [OF n(1)] calculation(5) by auto
      ultimately show ?thesis
        using r(1) found pa n(2,3) Some
        by (simp add: cow_map_get_mut_def cow_map_write_def cow_map_find_def cow_map_ok_def cow_map_entries_def)
    qed
  qed
  then show "cow_map_get_mut m k = Some (map_of (cow_map_entries m) k)"
    "map_of (cow_map_entries m) k = None \<Longrightarrow> cow_map_write m k v = Some None"
    "map_of (cow_map_entries m) k \<noteq> None \<Longrightarrow>
       \<exists>m'. cow_map_write m k v = Some (Some m') \<and> cow_map_ok m' \<and>
         cow_map_entries m' = alist_ins k v (cow_map_entries m)"
    by (auto split: if_splits)
qed

end
