(* ===== verification/Cow_Map_Range.thy ===== *)
theory Cow_Map_Range
  imports Cow_Map_Build
begin

text \<open>
  The iterators of \<open>CowMap\<close> (\<open>range\<close>, \<open>range_rev\<close>, \<open>Range::next\<close>, \<open>RevRange::next\<close>, \<open>iter\<close>
  and the equality of maps; \<open>crates/core-storage/src/cow.rs\<close>): stacks of half-visited
  internal nodes above what is left of one leaf. An iterator is specified by the list of
  entries it still has to visit. The locale \<open>cursor\<close> states what one step does to that
  list and derives what a whole run yields; both directions interpret it.
\<close>

section \<open>Bounds\<close>

datatype 'k bound = Included 'k | Excluded 'k | Unbounded

fun bound_key :: "'k bound \<Rightarrow> 'k option" where
  "bound_key (Included k) = Some k"
| "bound_key (Excluded k) = Some k"
| "bound_key Unbounded = None"

text \<open>The assertion both \<open>range\<close> and \<open>range_rev\<close> open with.\<close>

definition range_valid :: "'k::linorder bound \<Rightarrow> 'k bound \<Rightarrow> bool" where
  "range_valid start stop =
     (case (bound_key start, bound_key stop) of
        (Some s, Some e) \<Rightarrow>
          (let both_excluded = (start = Excluded s \<and> stop = Excluded e)
           in s < e \<or> (s = e \<and> \<not> both_excluded))
      | _ \<Rightarrow> True)"

fun past_end :: "'k::linorder bound \<Rightarrow> 'k \<Rightarrow> bool" where
  "past_end (Included e) k = (e < k)"
| "past_end (Excluded e) k = (e \<le> k)"
| "past_end Unbounded k = False"

fun past_start :: "'k::linorder bound \<Rightarrow> 'k \<Rightarrow> bool" where
  "past_start (Included s) k = (k < s)"
| "past_start (Excluded s) k = (k \<le> s)"
| "past_start Unbounded k = False"

section \<open>The forward iterator\<close>

type_synonym ('k, 'v) frame = "('k, 'v) node list \<times> nat"

text \<open>The top of the stack is the head of the list.\<close>

record ('k, 'v) range_it =
  stack :: "('k, 'v) frame list"
  rkeys :: "'k list"
  rvals :: "'v list"
  limit :: "'k bound"

type_synonym ('k, 'v) position = "('k, 'v) frame list \<times> 'k list \<times> 'v list"

text \<open>From the root to the leaf where the range starts.\<close>

fun seek_start :: "'k::linorder bound \<Rightarrow> ('k, 'v) node \<Rightarrow> ('k, 'v) frame list \<Rightarrow> ('k, 'v) position option" where
  "seek_start start (Internal bs ns) st =
     (let i = (case bound_key start of Some k \<Rightarrow> route bs k | None \<Rightarrow> 0) in
      if i < length ns then seek_start start (ns ! i) ((ns, i + 1) # st) else None)"
| "seek_start start (Leaf ks vs) st =
     (let from = (case start of
          Included k \<Rightarrow> partition_point (\<lambda>x. x < k) ks
        | Excluded k \<Rightarrow> partition_point (\<lambda>x. x \<le> k) ks
        | Unbounded \<Rightarrow> 0)
      in if from \<le> length vs then Some (st, drop from ks, drop from vs) else None)"

definition cow_map_range ::
  "('k::linorder, 'v) cow_map \<Rightarrow> 'k bound \<Rightarrow> 'k bound \<Rightarrow> ('k, 'v) range_it option" where
  "cow_map_range m start stop =
     (if \<not> range_valid start stop then None
      else case root m of
        None \<Rightarrow> Some \<lparr>stack = [], rkeys = [], rvals = [], limit = stop\<rparr>
      | Some n \<Rightarrow>
          map_option (\<lambda>(st, ks, vs). \<lparr>stack = st, rkeys = ks, rvals = vs, limit = stop\<rparr>)
            (seek_start start n []))"

text \<open>The leftmost leaf under a node, with the frames on the way.\<close>

fun leftmost :: "('k, 'v) node \<Rightarrow> ('k, 'v) frame list \<Rightarrow> ('k, 'v) position option" where
  "leftmost (Leaf ks vs) st = Some (st, ks, vs)"
| "leftmost (Internal bs ns) st =
     (if 0 < length ns then leftmost (ns ! 0) ((ns, 1) # st) else None)"

fun node_weight :: "('k, 'v) node \<Rightarrow> nat" where
  "node_weight (Leaf ks vs) = 1"
| "node_weight (Internal bs ns) = Suc (Suc (sum_list (map node_weight ns)))"

definition frame_weight :: "('k, 'v) frame \<Rightarrow> nat" where
  "frame_weight f = Suc (sum_list (map node_weight (drop (snd f) (fst f))))"

lemma leftmost_weight:
  "leftmost n st = Some (st', ks, vs) \<Longrightarrow>
   sum_list (map frame_weight st') < node_weight n + sum_list (map frame_weight st)"
proof (induction n st rule: leftmost.induct)
  case (2 bs ns st)
  then obtain n ns' where ns: "ns = n # ns'" by (cases ns) auto
  with 2 show ?case by (simp add: frame_weight_def)
qed simp

text \<open>Popping a spent frame and descending into a child both leave less to visit.\<close>

lemma frame_pop_weight: "sum_list (map frame_weight st) < sum_list (map frame_weight (f # st))"
  by (simp add: frame_weight_def)

lemma frame_descend_weight:
  assumes "\<not> length ns \<le> nxt" "leftmost (ns ! nxt) ((ns, nxt + 1) # st) = Some (st', ks, vs)"
  shows "sum_list (map frame_weight st') < sum_list (map frame_weight ((ns, nxt) # st))"
proof -
  have "drop nxt ns = ns ! nxt # drop (Suc nxt) ns" using assms(1) by (simp add: Cons_nth_drop_Suc)
  then show ?thesis using leftmost_weight [OF assms(2)] by (simp add: frame_weight_def)
qed

text \<open>
  \<open>next\<close>: the next entry of the leaf unless it is past the end, or else the next leaf.
  The model works on the three parts that change.
\<close>

function range_step :: "'k::linorder bound \<Rightarrow> ('k, 'v) position \<Rightarrow> (('k, 'v) position \<times> ('k \<times> 'v) option) option" where
  "range_step stop (st, ks, vs) =
     (if ks \<noteq> [] \<and> vs \<noteq> [] then
        if past_end stop (hd ks) then Some (([], [], []), None)
        else Some ((st, tl ks, tl vs), Some (hd ks, hd vs))
      else
        case st of
          [] \<Rightarrow> Some (([], ks, vs), None)
        | (ns, nxt) # st' \<Rightarrow>
            if length ns \<le> nxt then range_step stop (st', ks, vs)
            else (case leftmost (ns ! nxt) ((ns, nxt + 1) # st') of
                    None \<Rightarrow> None
                  | Some pos \<Rightarrow> range_step stop pos))"
  by pat_completeness auto
termination
proof (relation "measure (\<lambda>(stop, st, ks, vs). sum_list (map frame_weight st))", goal_cases)
  case (2 stop st ks vs f st' ns nxt)
  then show ?case using frame_pop_weight by auto
next
  case (3 stop st ks vs f st' ns nxt pos)
  then show ?case using frame_descend_weight [of ns nxt st'] by (cases pos) auto
qed simp

declare range_step.simps [simp del]

definition range_next ::
  "('k::linorder, 'v) range_it \<Rightarrow> (('k, 'v) range_it \<times> ('k \<times> 'v) option) option" where
  "range_next it =
     map_option (\<lambda>((st, ks, vs), r). (it\<lparr>stack := st, rkeys := ks, rvals := vs\<rparr>, r))
       (range_step (limit it) (stack it, rkeys it, rvals it))"

text \<open>\<open>take(n)\<close> and \<open>collect\<close> over any \<open>next\<close>.\<close>

fun iter_take :: "('i \<Rightarrow> ('i \<times> 'a option) option) \<Rightarrow> nat \<Rightarrow> 'i \<Rightarrow> 'a list option" where
  "iter_take next 0 it = Some []"
| "iter_take next (Suc n) it =
     (case next it of
        None \<Rightarrow> None
      | Some (_, None) \<Rightarrow> Some []
      | Some (it, Some x) \<Rightarrow> map_option ((#) x) (iter_take next n it))"

section \<open>What a run of an iterator yields\<close>

locale cursor =
  fixes next_op :: "'i \<Rightarrow> ('i \<times> ('k \<times> 'v) option) option"
    and pending :: "'i \<Rightarrow> ('k \<times> 'v) list"
    and invar :: "'i \<Rightarrow> bool"
    and past :: "'i \<Rightarrow> 'k \<Rightarrow> bool"
  assumes next_spent: "invar it \<Longrightarrow> pending it = [] \<or> past it (fst (hd (pending it))) \<Longrightarrow>
      \<exists>it'. next_op it = Some (it', None) \<and> invar it' \<and> past it' = past it \<and> pending it' = []"
    and next_entry: "invar it \<Longrightarrow> pending it = e # es \<Longrightarrow> \<not> past it (fst e) \<Longrightarrow>
      \<exists>it'. next_op it = Some (it', Some e) \<and> invar it' \<and> past it' = past it \<and> pending it' = es"
begin

lemma take_yields:
  assumes "invar it" "length (pending it) \<le> n"
  shows "iter_take next_op n it = Some (takeWhile (\<lambda>e. \<not> past it (fst e)) (pending it))"
  using assms
proof (induction n arbitrary: it)
  case (Suc n)
  show ?case
  proof (cases "pending it = [] \<or> past it (fst (hd (pending it)))")
    case True
    then show ?thesis using next_spent [OF Suc.prems(1)] by (cases "pending it") auto
  next
    case False
    then obtain e es where e: "pending it = e # es" "\<not> past it (fst e)" by (cases "pending it") auto
    then obtain it' where "next_op it = Some (it', Some e)" "invar it'" "past it' = past it" "pending it' = es"
      using next_entry [OF Suc.prems(1)] by blast
    with Suc.IH [of it'] Suc.prems(2) e show ?thesis by simp
  qed
qed simp

lemma spent_stays_spent:
  assumes "invar it" "next_op it = Some (it', None)"
  shows "\<exists>it''. next_op it' = Some (it'', None)"
proof -
  have "pending it = [] \<or> past it (fst (hd (pending it)))"
    using next_entry [OF assms(1)] assms(2) by (cases "pending it") fastforce+
  then have "invar it'" "pending it' = []" using next_spent [OF assms(1)] assms(2) by auto
  then show ?thesis using next_spent [of it'] by auto
qed

end

section \<open>The forward iterator visits the entries from the start\<close>

definition kid_ok :: "('k::linorder, 'v) node \<Rightarrow> bool" where
  "kid_ok n \<longleftrightarrow> (\<exists>lo hi. node_ok lo hi n)"

lemma kids_ok_all: "kids_ok lo hi bs ns \<Longrightarrow> \<forall>n \<in> set ns. kid_ok n"
  by (induction bs arbitrary: lo ns) (force simp: kid_ok_def)+

lemma kid_okE:
  assumes "kid_ok n"
  shows "n = Leaf ks vs \<Longrightarrow> length ks = length vs" "n = Leaf ks vs \<Longrightarrow> ks \<noteq> []"
    "n = Internal bs ns \<Longrightarrow> ns \<noteq> []" "n = Internal bs ns \<Longrightarrow> \<forall>k \<in> set ns. kid_ok k"
  using assms kids_ok_all by (auto simp: kid_ok_def) blast+

definition pending_pos :: "('k, 'v) position \<Rightarrow> ('k \<times> 'v) list" where
  "pending_pos pos = (case pos of (st, ks, vs) \<Rightarrow>
     zip ks vs @ concat (map (\<lambda>(ns, nxt). concat (map entries (drop nxt ns))) st))"

definition pos_ok :: "('k::linorder, 'v) position \<Rightarrow> bool" where
  "pos_ok pos \<longleftrightarrow> (case pos of (st, ks, vs) \<Rightarrow>
     length ks = length vs \<and> (\<forall>(ns, nxt) \<in> set st. \<forall>n \<in> set ns. kid_ok n))"

lemma leftmost_correct:
  assumes "kid_ok n" "\<forall>(ns, nxt) \<in> set st. \<forall>n \<in> set ns. kid_ok n"
  shows "\<exists>pos. leftmost n st = Some pos \<and> pos_ok pos \<and>
    pending_pos pos = entries n @ pending_pos (st, [], [])"
  using assms
proof (induction n st rule: leftmost.induct)
  case (1 ks vs st)
  then show ?case by (auto simp: pos_ok_def pending_pos_def kid_ok_def)
next
  case (2 bs ns st)
  then obtain n ns' where ns: "ns = n # ns'" using kid_okE(3) by (cases ns) blast+
  have all: "\<forall>k \<in> set ns. kid_ok k" using kid_okE(4) [OF "2.prems"(1) refl] .
  then show ?case using 2 by (auto simp: ns pending_pos_def)
qed

lemma range_step_correct:
  assumes "pos_ok pos"
  shows "\<exists>pos' r. range_step stop pos = Some (pos', r) \<and> pos_ok pos' \<and>
    (case pending_pos pos of
       [] \<Rightarrow> r = None \<and> pending_pos pos' = []
     | e # es \<Rightarrow> if past_end stop (fst e) then r = None \<and> pending_pos pos' = []
               else r = Some e \<and> pending_pos pos' = es)"
  using assms
proof (induction stop pos rule: range_step.induct)
  case (1 stop st ks vs)
  have len: "length ks = length vs" and ok: "\<forall>(ns, nxt) \<in> set st. \<forall>n \<in> set ns. kid_ok n"
    using "1.prems" by (simp_all add: pos_ok_def)
  consider "ks \<noteq> [] \<and> vs \<noteq> []" | "ks = []" "vs = []" "st = []"
    | ns nxt st' where "ks = []" "vs = []" "st = (ns, nxt) # st'"
    using len by (cases st; cases ks; cases vs) auto
  then show ?case
  proof cases
    case 1
    then show ?thesis
      using len ok by (cases ks; cases vs) (auto simp: range_step.simps pos_ok_def pending_pos_def)
  next
    case 2
    then show ?thesis by (simp add: range_step.simps pos_ok_def pending_pos_def)
  next
    case (3 ns nxt st')
    note e = this
    have nonempty: "\<not> (ks \<noteq> [] \<and> vs \<noteq> [])" using e by simp
    show ?thesis
    proof (cases "length ns \<le> nxt")
      case True
      have "pos_ok (st', [], [])" using ok e by (simp add: pos_ok_def)
      then show ?thesis
        using "1.IH"(1) [OF nonempty e(3) refl True] True
        by (subst range_step.simps) (simp add: e pending_pos_def)
    next
      case False
      then have d: "drop nxt ns = ns ! nxt # drop (Suc nxt) ns" by (simp add: Cons_nth_drop_Suc)
      obtain pos where pos: "leftmost (ns ! nxt) ((ns, nxt + 1) # st') = Some pos" "pos_ok pos"
          "pending_pos pos = entries (ns ! nxt) @ pending_pos ((ns, nxt + 1) # st', [], [])"
        using leftmost_correct [of "ns ! nxt" "(ns, nxt + 1) # st'"] ok False e by auto
      have "pending_pos pos = pending_pos (st, ks, vs)"
        unfolding pos(3) by (simp add: e pending_pos_def d)
      moreover have "range_step stop (st, ks, vs) = range_step stop pos"
        using False pos(1) by (subst range_step.simps) (simp add: e)
      ultimately show ?thesis using "1.IH"(2) [OF nonempty e(3) refl False pos(1,2)] by simp
    qed
  qed
qed

definition range_pending :: "('k, 'v) range_it \<Rightarrow> ('k \<times> 'v) list" where
  "range_pending it = pending_pos (stack it, rkeys it, rvals it)"

definition range_ok :: "('k::linorder, 'v) range_it \<Rightarrow> bool" where
  "range_ok it \<longleftrightarrow> pos_ok (stack it, rkeys it, rvals it)"

interpretation fwd: cursor range_next range_pending range_ok "\<lambda>it. past_end (limit it)"
proof (unfold_locales, goal_cases)
  case (1 it)
  from 1(1) have "pos_ok (stack it, rkeys it, rvals it)" by (simp add: range_ok_def)
  from range_step_correct [OF this, of "limit it"] 1(2) show ?case
    by (cases "pending_pos (stack it, rkeys it, rvals it)")
      (auto simp: range_next_def range_ok_def range_pending_def)
next
  case (2 it e es)
  from 2(1) have "pos_ok (stack it, rkeys it, rvals it)" by (simp add: range_ok_def)
  from range_step_correct [OF this, of "limit it"] 2(2,3) show ?case
    by (auto simp: range_next_def range_ok_def range_pending_def)
qed

lemma partition_point_ssorted:
  assumes "ssorted xs" "\<And>x y. x < y \<Longrightarrow> P y \<Longrightarrow> P x"
  shows "partition_point P xs = leading P xs"
  by (rule partition_point_leading) (use assms in \<open>auto simp: sorted_wrt_iff_nth_less\<close>)

lemma zip_drop_leading:
  assumes "length ks = length vs" "ssorted ks" "\<And>x y. x < y \<Longrightarrow> P y \<Longrightarrow> P x"
  shows "zip (drop (leading P ks) ks) (drop (leading P ks) vs) = filter (\<lambda>e. \<not> P (fst e)) (zip ks vs)"
  using assms
proof (induction ks arbitrary: vs)
  case (Cons k ks)
  obtain v vs' where vs: "vs = v # vs'" using Cons.prems(1) by (cases vs) auto
  show ?case
  proof (cases "P k")
    case True
    then show ?thesis using Cons by (simp add: vs)
  next
    case False
    then have "filter (\<lambda>e. \<not> P (fst e)) (zip ks vs') = zip ks vs'"
      using Cons.prems(2,3) by (intro filter_True) (auto dest!: set_zip_leftD)
    then show ?thesis using False by (simp add: vs)
  qed
qed simp

lemma seek_start_correct:
  assumes "node_ok lo hi n" "\<forall>(ns, nxt) \<in> set st. \<forall>n \<in> set ns. kid_ok n"
  shows "\<exists>pos. seek_start start n st = Some pos \<and> pos_ok pos \<and>
    pending_pos pos = filter (\<lambda>e. \<not> past_start start (fst e)) (entries n) @ pending_pos (st, [], [])"
  using assms
proof (induction start n st arbitrary: lo hi rule: seek_start.induct)
  case (1 start bs ns st)
  have kids: "kids_ok lo hi (tl bs) ns" using "1.prems" by simp
  have all: "\<forall>n \<in> set ns. kid_ok n" using kids_ok_all [OF kids] .
  define i where "i = (case bound_key start of Some k \<Rightarrow> route bs k | None \<Rightarrow> 0)"
  have il: "i < length ns"
    using route_leading(2) [OF "1.prems"(1)] length_kids [OF kids] by (simp add: i_def split: option.splits)
  obtain lo' hi' where k: "node_ok lo' hi' (ns ! i)" using all nth_mem [OF il] by (metis kid_ok_def)
  have stk: "\<forall>(ns, nxt) \<in> set ((ns, i + 1) # st). \<forall>n \<in> set ns. kid_ok n" using all "1.prems"(2) by simp
  have left: "filter (\<lambda>e. \<not> past_start start (fst e)) (concat (map entries (take i ns))) = []"
    and right: "filter (\<lambda>e. \<not> past_start start (fst e)) (concat (map entries (drop (Suc i) ns))) =
      concat (map entries (drop (Suc i) ns))"
  proof -
    have "(\<forall>l \<in> set (keys (concat (map entries (take i ns)))). past_start start l) \<and>
        (\<forall>l \<in> set (keys (concat (map entries (drop (Suc i) ns)))). \<not> past_start start l)"
    proof (cases "bound_key start")
      case None
      then show ?thesis by (cases start) (auto simp: i_def)
    next
      case (Some k)
      then have "i = leading (\<lambda>b. b \<le> k) (tl bs)" using route_leading(1) [OF "1.prems"(1)] by (simp add: i_def)
      with kids_split [OF kids] Some show ?thesis by (cases start) fastforce+
    qed
    then show "filter (\<lambda>e. \<not> past_start start (fst e)) (concat (map entries (take i ns))) = []"
      "filter (\<lambda>e. \<not> past_start start (fst e)) (concat (map entries (drop (Suc i) ns))) =
        concat (map entries (drop (Suc i) ns))"
      by (auto simp: filter_empty_conv intro!: filter_True simp del: set_concat)
  qed
  obtain pos where pos: "seek_start start (ns ! i) ((ns, i + 1) # st) = Some pos" "pos_ok pos"
      "pending_pos pos = filter (\<lambda>e. \<not> past_start start (fst e)) (entries (ns ! i)) @
        pending_pos ((ns, i + 1) # st, [], [])"
    using "1.IH" [OF i_def il k stk] by blast
  moreover have "pending_pos pos = filter (\<lambda>e. \<not> past_start start (fst e)) (concat (map entries ns)) @
      pending_pos (st, [], [])"
    using pos(3) left right by (simp add: entries_split [OF il] pending_pos_def del: filter_concat)
  ultimately show ?case using il by (simp add: i_def [symmetric] Let_def)
next
  case (2 start ks vs st)
  then have l: "length ks = length vs" "ssorted ks" by simp_all
  have "partition_point (\<lambda>x. x < k) ks = leading (\<lambda>x. x < k) ks"
    "partition_point (\<lambda>x. x \<le> k) ks = leading (\<lambda>x. x \<le> k) ks" for k
    by (rule partition_point_ssorted [OF l(2)]; auto)+
  moreover have "leading P ks \<le> length vs" for P using leading_le [of P ks] l(1) by simp
  moreover have "zip (drop (leading (\<lambda>x. x < k) ks) ks) (drop (leading (\<lambda>x. x < k) ks) vs) =
        filter (\<lambda>e. \<not> fst e < k) (zip ks vs)"
    "zip (drop (leading (\<lambda>x. x \<le> k) ks) ks) (drop (leading (\<lambda>x. x \<le> k) ks) vs) =
        filter (\<lambda>e. \<not> fst e \<le> k) (zip ks vs)" for k
    by (rule zip_drop_leading [OF l]; auto)+
  ultimately show ?case
    using "2.prems"(2) l by (cases start) (simp_all add: pos_ok_def pending_pos_def Let_def)
qed

lemma ssorted_takeWhile:
  assumes "ssorted (keys es)" "\<And>x y. x < y \<Longrightarrow> P x \<Longrightarrow> P y"
  shows "takeWhile (\<lambda>e. \<not> P (fst e)) es = filter (\<lambda>e. \<not> P (fst e)) es"
  using assms
proof (induction es)
  case (Cons e es)
  show ?case
  proof (cases "P (fst e)")
    case True
    then show ?thesis using Cons.prems by (simp, metis filter_False)
  qed (use Cons in simp)
qed simp

lemma past_end_mono: "x < y \<Longrightarrow> past_end stop x \<Longrightarrow> past_end stop y"
  by (cases stop) auto

lemma cow_map_range_correct:
  assumes "cow_map_ok m" "range_valid start stop" "mlen m \<le> n"
  shows "\<exists>it. cow_map_range m start stop = Some it \<and>
    iter_take range_next n it =
      Some (filter (\<lambda>e. \<not> past_start start (fst e) \<and> \<not> past_end stop (fst e)) (cow_map_entries m))"
proof -
  obtain it where it: "cow_map_range m start stop = Some it" "range_ok it" "limit it = stop"
      "range_pending it = filter (\<lambda>e. \<not> past_start start (fst e)) (cow_map_entries m)"
  proof (cases "root m")
    case None
    with that assms(2) show ?thesis
      by (simp add: cow_map_range_def range_ok_def range_pending_def pos_ok_def pending_pos_def cow_map_entries_def)
  next
    case (Some r)
    then have "node_ok None None r" using assms(1) by (simp add: cow_map_ok_def)
    from seek_start_correct [OF this, of "[]" start] obtain pos where
      "seek_start start r [] = Some pos" "pos_ok pos"
      "pending_pos pos = filter (\<lambda>e. \<not> past_start start (fst e)) (entries r)"
      by (auto simp: pending_pos_def)
    with that Some assms(2) show ?thesis
      by (cases pos) (simp add: cow_map_range_def range_ok_def range_pending_def cow_map_entries_def)
  qed
  have "length (range_pending it) \<le> n"
    using assms(1,3) length_filter_le [of _ "cow_map_entries m"] unfolding it(4)
    by (metis cow_map_ok_def order_trans)
  then have "iter_take range_next n it = Some (takeWhile (\<lambda>e. \<not> past_end stop (fst e)) (range_pending it))"
    using fwd.take_yields [OF it(2)] it(3) by simp
  also have "ssorted (keys (range_pending it))"
    using cow_map_sorted [OF assms(1)] ssorted_filter unfolding it(4) by (simp add: sorted_wrt_map sorted_wrt_filter)
  then have "takeWhile (\<lambda>e. \<not> past_end stop (fst e)) (range_pending it) =
      filter (\<lambda>e. \<not> past_end stop (fst e)) (range_pending it)"
    by (rule ssorted_takeWhile) (rule past_end_mono)
  finally show ?thesis using it(1,4) by (simp add: conj_commute)
qed

section \<open>The reverse iterator\<close>

text \<open>A frame of \<open>RevRange\<close> counts the children that are still to visit, from the left.\<close>

fun seek_end :: "'k::linorder bound \<Rightarrow> ('k, 'v) node \<Rightarrow> ('k, 'v) frame list \<Rightarrow> ('k, 'v) position option" where
  "seek_end stop (Internal bs ns) st =
     (let i = (case bound_key stop of Some k \<Rightarrow> route bs k | None \<Rightarrow> length ns - 1) in
      if i < length ns then seek_end stop (ns ! i) ((ns, i) # st) else None)"
| "seek_end stop (Leaf ks vs) st =
     (let upto = (case stop of
          Included k \<Rightarrow> partition_point (\<lambda>x. x \<le> k) ks
        | Excluded k \<Rightarrow> partition_point (\<lambda>x. x < k) ks
        | Unbounded \<Rightarrow> length ks)
      in if upto \<le> length vs then Some (st, take upto ks, take upto vs) else None)"

definition cow_map_range_rev ::
  "('k::linorder, 'v) cow_map \<Rightarrow> 'k bound \<Rightarrow> 'k bound \<Rightarrow> ('k, 'v) range_it option" where
  "cow_map_range_rev m start stop =
     (if \<not> range_valid start stop then None
      else case root m of
        None \<Rightarrow> Some \<lparr>stack = [], rkeys = [], rvals = [], limit = start\<rparr>
      | Some n \<Rightarrow>
          map_option (\<lambda>(st, ks, vs). \<lparr>stack = st, rkeys = ks, rvals = vs, limit = start\<rparr>)
            (seek_end stop n []))"

fun rightmost :: "('k, 'v) node \<Rightarrow> ('k, 'v) frame list \<Rightarrow> ('k, 'v) position option" where
  "rightmost (Leaf ks vs) st = Some (st, ks, vs)"
| "rightmost (Internal bs ns) st =
     (let l = length ns - 1 in
      if l < length ns then rightmost (ns ! l) ((ns, l) # st) else None)"

definition rev_frame_weight :: "('k, 'v) frame \<Rightarrow> nat" where
  "rev_frame_weight f = Suc (sum_list (map node_weight (take (snd f) (fst f))))"

lemma rightmost_weight:
  "rightmost n st = Some (st', ks, vs) \<Longrightarrow>
   sum_list (map rev_frame_weight st') < node_weight n + sum_list (map rev_frame_weight st)"
proof (induction n st rule: rightmost.induct)
  case (2 bs ns st)
  then obtain l where l: "length ns = Suc l" by (cases ns) (auto simp: Let_def)
  then have "ns = take l ns @ [ns ! l]"
    using take_Suc_conv_app_nth [of l ns] by simp
  from arg_cong [OF this, of "\<lambda>ns. sum_list (map node_weight ns)"]
  have "sum_list (map node_weight ns) = sum_list (map node_weight (take l ns)) + node_weight (ns ! l)"
    by (simp only: map_append sum_list_append) simp
  with 2 l show ?case by (simp add: rev_frame_weight_def Let_def)
qed simp

lemma rev_descend_weight:
  assumes "left < length ns" "rightmost (ns ! left) ((ns, left) # st) = Some (st', ks, vs)"
  shows "sum_list (map rev_frame_weight st') < sum_list (map rev_frame_weight ((ns, Suc left) # st))"
  using rightmost_weight [OF assms(2)] assms(1)
  by (simp add: rev_frame_weight_def take_Suc_conv_app_nth)

function rev_step :: "'k::linorder bound \<Rightarrow> ('k, 'v) position \<Rightarrow> (('k, 'v) position \<times> ('k \<times> 'v) option) option" where
  "rev_step start (st, ks, vs) =
     (if ks \<noteq> [] \<and> vs \<noteq> [] then
        if past_start start (last ks) then Some (([], [], []), None)
        else Some ((st, butlast ks, butlast vs), Some (last ks, last vs))
      else
        case st of
          [] \<Rightarrow> Some (([], ks, vs), None)
        | (ns, left) # st' \<Rightarrow>
            if left = 0 then rev_step start (st', ks, vs)
            else let left = left - 1 in
              if left < length ns then
                (case rightmost (ns ! left) ((ns, left) # st') of
                   None \<Rightarrow> None
                 | Some pos \<Rightarrow> rev_step start pos)
              else None)"
  by pat_completeness auto
termination
proof (relation "measure (\<lambda>(start, st, ks, vs). sum_list (map rev_frame_weight st))", goal_cases)
  case (2 start st ks vs f st' ns left)
  then show ?case by (auto simp: rev_frame_weight_def)
next
  case (3 start st ks vs f st' ns left left' pos)
  then show ?case using rev_descend_weight [of left' ns st'] by (cases pos; cases left) auto
qed simp

declare rev_step.simps [simp del]

definition rev_range_next ::
  "('k::linorder, 'v) range_it \<Rightarrow> (('k, 'v) range_it \<times> ('k \<times> 'v) option) option" where
  "rev_range_next it =
     map_option (\<lambda>((st, ks, vs), r). (it\<lparr>stack := st, rkeys := ks, rvals := vs\<rparr>, r))
       (rev_step (limit it) (stack it, rkeys it, rvals it))"

text \<open>What it has still to visit, in the order it visits it.\<close>

definition pending_rev :: "('k, 'v) position \<Rightarrow> ('k \<times> 'v) list" where
  "pending_rev pos = (case pos of (st, ks, vs) \<Rightarrow>
     rev (zip ks vs) @ concat (map (\<lambda>(ns, left). rev (concat (map entries (take left ns)))) st))"

definition rev_pos_ok :: "('k::linorder, 'v) position \<Rightarrow> bool" where
  "rev_pos_ok pos \<longleftrightarrow> (case pos of (st, ks, vs) \<Rightarrow>
     length ks = length vs \<and> (\<forall>(ns, left) \<in> set st. left \<le> length ns \<and> (\<forall>n \<in> set ns. kid_ok n)))"

lemma rightmost_correct:
  assumes "kid_ok n" "rev_pos_ok (st, [], [])"
  shows "\<exists>pos. rightmost n st = Some pos \<and> rev_pos_ok pos \<and>
    pending_rev pos = rev (entries n) @ pending_rev (st, [], [])"
  using assms
proof (induction n st rule: rightmost.induct)
  case (1 ks vs st)
  then show ?case by (auto simp: rev_pos_ok_def pending_rev_def kid_ok_def)
next
  case (2 bs ns st)
  define l where "l = length ns - 1"
  have l: "l < length ns" "length ns = Suc l"
    using kid_okE(3) [OF "2.prems"(1) refl] by (cases ns; simp add: l_def)+
  have all: "\<forall>k \<in> set ns. kid_ok k" using kid_okE(4) [OF "2.prems"(1) refl] .
  have "rev_pos_ok ((ns, l) # st, [], [])" using all l "2.prems"(2) by (auto simp: rev_pos_ok_def)
  then obtain pos where pos: "rightmost (ns ! l) ((ns, l) # st) = Some pos" "rev_pos_ok pos"
      "pending_rev pos = rev (entries (ns ! l)) @ pending_rev ((ns, l) # st, [], [])"
    using "2.IH" [OF l_def l(1)] all l(1) by auto
  have "pending_rev pos = rev (entries (Internal bs ns)) @ pending_rev (st, [], [])"
    unfolding pos(3) using entries_split [OF l(1)] l(2) by (simp add: pending_rev_def)
  moreover have "rightmost (Internal bs ns) st = Some pos"
    using pos(1) l(1) by (simp only: rightmost.simps Let_def l_def [symmetric] if_True)
  ultimately show ?case using pos(2) by blast
qed

lemma rev_step_correct:
  assumes "rev_pos_ok pos"
  shows "\<exists>pos' r. rev_step start pos = Some (pos', r) \<and> rev_pos_ok pos' \<and>
    (case pending_rev pos of
       [] \<Rightarrow> r = None \<and> pending_rev pos' = []
     | e # es \<Rightarrow> if past_start start (fst e) then r = None \<and> pending_rev pos' = []
               else r = Some e \<and> pending_rev pos' = es)"
  using assms
proof (induction start pos rule: rev_step.induct)
  case (1 start st ks vs)
  have len: "length ks = length vs" using "1.prems" by (simp add: rev_pos_ok_def)
  consider "ks \<noteq> [] \<and> vs \<noteq> []" | "ks = []" "vs = []" "st = []"
    | ns left st' where "ks = []" "vs = []" "st = (ns, left) # st'"
    using len by (cases st; cases ks; cases vs) auto
  then show ?case
  proof cases
    case 1
    then obtain k ks' v vs' where kv: "ks = ks' @ [k]" "vs = vs' @ [v]"
      by (metis append_butlast_last_id)
    then show ?thesis
      using len "1.prems" by (auto simp: rev_step.simps rev_pos_ok_def pending_rev_def)
  next
    case 2
    then show ?thesis by (simp add: rev_step.simps rev_pos_ok_def pending_rev_def)
  next
    case (3 ns left st')
    note e = this
    have spent: "\<not> (ks \<noteq> [] \<and> vs \<noteq> [])" using e by simp
    have ok: "rev_pos_ok (st', [], [])" "left \<le> length ns" "\<forall>n \<in> set ns. kid_ok n"
      using "1.prems" e by (auto simp: rev_pos_ok_def)
    show ?thesis
    proof (cases left)
      case 0
      then show ?thesis
        using "1.IH"(1) [OF spent e(3) refl 0] ok(1)
        by (subst rev_step.simps) (simp add: e pending_rev_def)
    next
      case (Suc l)
      then have l: "l < length ns" "left \<noteq> 0" "l = left - 1" using ok(2) by simp_all
      have "rev_pos_ok ((ns, l) # st', [], [])" using ok l by (auto simp: rev_pos_ok_def)
      then obtain pos where pos: "rightmost (ns ! l) ((ns, l) # st') = Some pos" "rev_pos_ok pos"
          "pending_rev pos = rev (entries (ns ! l)) @ pending_rev ((ns, l) # st', [], [])"
        using rightmost_correct [of "ns ! l" "(ns, l) # st'"] ok(3) l(1) by auto
      have "pending_rev pos = pending_rev (st, ks, vs)"
        unfolding pos(3) using l(1) by (simp add: e Suc pending_rev_def take_Suc_conv_app_nth)
      moreover have "rev_step start (st, ks, vs) = rev_step start pos"
        using l(1) pos(1) unfolding rev_step.simps [of start st ks vs] by (simp add: e Suc)
      ultimately show ?thesis using "1.IH"(2) [OF spent e(3) refl l(2,3,1) pos(1,2)] by simp
    qed
  qed
qed

definition rev_pending :: "('k, 'v) range_it \<Rightarrow> ('k \<times> 'v) list" where
  "rev_pending it = pending_rev (stack it, rkeys it, rvals it)"

definition rev_range_ok :: "('k::linorder, 'v) range_it \<Rightarrow> bool" where
  "rev_range_ok it \<longleftrightarrow> rev_pos_ok (stack it, rkeys it, rvals it)"

interpretation bwd: cursor rev_range_next rev_pending rev_range_ok "\<lambda>it. past_start (limit it)"
proof (unfold_locales, goal_cases)
  case (1 it)
  from 1(1) have "rev_pos_ok (stack it, rkeys it, rvals it)" by (simp add: rev_range_ok_def)
  from rev_step_correct [OF this, of "limit it"] 1(2) show ?case
    by (cases "pending_rev (stack it, rkeys it, rvals it)")
      (auto simp: rev_range_next_def rev_range_ok_def rev_pending_def)
next
  case (2 it e es)
  from 2(1) have "rev_pos_ok (stack it, rkeys it, rvals it)" by (simp add: rev_range_ok_def)
  from rev_step_correct [OF this, of "limit it"] 2(2,3) show ?case
    by (auto simp: rev_range_next_def rev_range_ok_def rev_pending_def)
qed

lemma zip_take_leading:
  assumes "length ks = length vs" "ssorted ks" "\<And>x y. x < y \<Longrightarrow> P y \<Longrightarrow> P x"
  shows "zip (take (leading P ks) ks) (take (leading P ks) vs) = filter (\<lambda>e. P (fst e)) (zip ks vs)"
  using assms
proof (induction ks arbitrary: vs)
  case (Cons k ks)
  obtain v vs' where vs: "vs = v # vs'" using Cons.prems(1) by (cases vs) auto
  show ?case
  proof (cases "P k")
    case False
    then have "filter (\<lambda>e. P (fst e)) (zip ks vs') = []"
      using Cons.prems(2,3) by (intro filter_False) (auto dest!: set_zip_leftD)
    then show ?thesis using False by (simp add: vs)
  qed (use Cons in \<open>simp add: vs\<close>)
qed simp

lemma seek_end_correct:
  assumes "node_ok lo hi n" "rev_pos_ok (st, [], [])"
  shows "\<exists>pos. seek_end stop n st = Some pos \<and> rev_pos_ok pos \<and>
    pending_rev pos = rev (filter (\<lambda>e. \<not> past_end stop (fst e)) (entries n)) @ pending_rev (st, [], [])"
  using assms
proof (induction stop n st arbitrary: lo hi rule: seek_end.induct)
  case (1 stop bs ns st)
  have kids: "kids_ok lo hi (tl bs) ns" using "1.prems" by simp
  have all: "\<forall>n \<in> set ns. kid_ok n" using kids_ok_all [OF kids] .
  define i where "i = (case bound_key stop of Some k \<Rightarrow> route bs k | None \<Rightarrow> length ns - 1)"
  have il: "i < length ns"
    using route_leading(2) [OF "1.prems"(1)] length_kids [OF kids] by (simp add: i_def split: option.splits)
  obtain lo' hi' where k: "node_ok lo' hi' (ns ! i)" using all nth_mem [OF il] by (metis kid_ok_def)
  have stk: "rev_pos_ok ((ns, i) # st, [], [])" using all "1.prems"(2) il by (auto simp: rev_pos_ok_def)
  have split: "(\<forall>l \<in> set (keys (concat (map entries (take i ns)))). \<not> past_end stop l) \<and>
      (\<forall>l \<in> set (keys (concat (map entries (drop (Suc i) ns)))). past_end stop l)"
  proof (cases "bound_key stop")
    case None
    then show ?thesis by (cases stop) (auto simp: i_def)
  next
    case (Some k)
    then have "i = leading (\<lambda>b. b \<le> k) (tl bs)" using route_leading(1) [OF "1.prems"(1)] by (simp add: i_def)
    with kids_split [OF kids] Some show ?thesis by (cases stop) fastforce+
  qed
  have left: "filter (\<lambda>e. \<not> past_end stop (fst e)) (concat (map entries (take i ns))) =
      concat (map entries (take i ns))"
    and right: "filter (\<lambda>e. \<not> past_end stop (fst e)) (concat (map entries (drop (Suc i) ns))) = []"
    using split by (auto simp: filter_empty_conv intro!: filter_True simp del: set_concat)
  obtain pos where pos: "seek_end stop (ns ! i) ((ns, i) # st) = Some pos" "rev_pos_ok pos"
      "pending_rev pos = rev (filter (\<lambda>e. \<not> past_end stop (fst e)) (entries (ns ! i))) @
        pending_rev ((ns, i) # st, [], [])"
    using "1.IH" [OF i_def il k stk] by blast
  moreover have "pending_rev pos = rev (filter (\<lambda>e. \<not> past_end stop (fst e)) (concat (map entries ns))) @
      pending_rev (st, [], [])"
    using pos(3) left right by (simp add: entries_split [OF il] pending_rev_def del: filter_concat)
  ultimately show ?case using il by (simp add: i_def [symmetric] Let_def)
next
  case (2 stop ks vs st)
  then have l: "length ks = length vs" "ssorted ks" by simp_all
  have "partition_point (\<lambda>x. x < k) ks = leading (\<lambda>x. x < k) ks"
    "partition_point (\<lambda>x. x \<le> k) ks = leading (\<lambda>x. x \<le> k) ks" for k
    by (rule partition_point_ssorted [OF l(2)]; auto)+
  moreover have "leading P ks \<le> length vs" for P using leading_le [of P ks] l(1) by simp
  moreover have "zip (take (leading (\<lambda>x. x < k) ks) ks) (take (leading (\<lambda>x. x < k) ks) vs) =
        filter (\<lambda>e. fst e < k) (zip ks vs)"
    "zip (take (leading (\<lambda>x. x \<le> k) ks) ks) (take (leading (\<lambda>x. x \<le> k) ks) vs) =
        filter (\<lambda>e. fst e \<le> k) (zip ks vs)" for k
    by (rule zip_take_leading [OF l]; auto)+
  ultimately show ?case
    using "2.prems"(2) l by (cases stop) (simp_all add: rev_pos_ok_def pending_rev_def Let_def not_less not_le)
qed

lemma rev_ssorted_takeWhile:
  assumes "ssorted (keys es)" "\<And>x y. x < y \<Longrightarrow> P y \<Longrightarrow> P x"
  shows "takeWhile (\<lambda>e. \<not> P (fst e)) (rev es) = rev (filter (\<lambda>e. \<not> P (fst e)) es)"
  using assms
proof (induction es rule: rev_induct)
  case (snoc e es)
  show ?case
  proof (cases "P (fst e)")
    case True
    then have "\<forall>x \<in> set es. P (fst x)" using snoc.prems by (auto simp: sorted_wrt_append)
    with True show ?thesis by (simp add: filter_empty_conv)
  qed (use snoc in \<open>simp add: sorted_wrt_append\<close>)
qed simp

lemma past_start_mono: "x < y \<Longrightarrow> past_start start y \<Longrightarrow> past_start start x"
  by (cases start) auto

lemma cow_map_range_rev_correct:
  assumes "cow_map_ok m" "range_valid start stop" "mlen m \<le> n"
  shows "\<exists>it. cow_map_range_rev m start stop = Some it \<and>
    iter_take rev_range_next n it =
      Some (rev (filter (\<lambda>e. \<not> past_start start (fst e) \<and> \<not> past_end stop (fst e)) (cow_map_entries m)))"
proof -
  let ?es = "filter (\<lambda>e. \<not> past_end stop (fst e)) (cow_map_entries m)"
  obtain it where it: "cow_map_range_rev m start stop = Some it" "rev_range_ok it" "limit it = start"
      "rev_pending it = rev ?es"
  proof (cases "root m")
    case None
    with that assms(2) show ?thesis
      by (simp add: cow_map_range_rev_def rev_range_ok_def rev_pending_def rev_pos_ok_def pending_rev_def
          cow_map_entries_def)
  next
    case (Some r)
    then have "node_ok None None r" using assms(1) by (simp add: cow_map_ok_def)
    from seek_end_correct [OF this, of "[]" stop] obtain pos where
      "seek_end stop r [] = Some pos" "rev_pos_ok pos"
      "pending_rev pos = rev (filter (\<lambda>e. \<not> past_end stop (fst e)) (entries r))"
      by (auto simp: pending_rev_def rev_pos_ok_def)
    with that Some assms(2) show ?thesis
      by (cases pos) (simp add: cow_map_range_rev_def rev_range_ok_def rev_pending_def cow_map_entries_def)
  qed
  have "length (rev_pending it) \<le> n"
    using assms(1,3) length_filter_le [of _ "cow_map_entries m"] unfolding it(4)
    by (metis cow_map_ok_def length_rev order_trans)
  then have "iter_take rev_range_next n it = Some (takeWhile (\<lambda>e. \<not> past_start start (fst e)) (rev ?es))"
    using bwd.take_yields [OF it(2)] it(3,4) by simp
  moreover have "ssorted (keys ?es)"
    using cow_map_sorted [OF assms(1)] by (simp add: sorted_wrt_map sorted_wrt_filter)
  then have "takeWhile (\<lambda>e. \<not> past_start start (fst e)) (rev ?es) =
      rev (filter (\<lambda>e. \<not> past_start start (fst e)) ?es)"
    by (rule rev_ssorted_takeWhile) (rule past_start_mono)
  ultimately show ?thesis using it(1) by (simp add: conj_commute)
qed

section \<open>Whole-map iteration and equality\<close>

text \<open>\<open>iter\<close> is the unbounded range; the fuel is one more than the length the map records.\<close>

definition cow_map_iter :: "('k::linorder, 'v) cow_map \<Rightarrow> ('k \<times> 'v) list option" where
  "cow_map_iter m =
     (case cow_map_range m Unbounded Unbounded of
        None \<Rightarrow> None
      | Some it \<Rightarrow> iter_take range_next (Suc (mlen m)) it)"

definition cow_map_eq :: "('k::linorder, 'v) cow_map \<Rightarrow> ('k, 'v) cow_map \<Rightarrow> bool option" where
  "cow_map_eq a b =
     (if mlen a \<noteq> mlen b then Some False
      else case (cow_map_iter a, cow_map_iter b) of
        (Some xs, Some ys) \<Rightarrow> Some (xs = ys)
      | _ \<Rightarrow> None)"

lemma cow_map_iter_correct: "cow_map_ok m \<Longrightarrow> cow_map_iter m = Some (cow_map_entries m)"
  using cow_map_range_correct [of m Unbounded Unbounded "Suc (mlen m)"]
  by (auto simp: cow_map_iter_def range_valid_def)

lemma cow_map_eq_correct:
  "cow_map_ok a \<Longrightarrow> cow_map_ok b \<Longrightarrow> cow_map_eq a b = Some (cow_map_entries a = cow_map_entries b)"
  by (auto simp: cow_map_eq_def cow_map_iter_correct cow_map_ok_def)

section \<open>Properties\<close>

lemma map_of_rev_distinct: "distinct (keys es) \<Longrightarrow> map_of (rev es) = map_of es"
  by (subst map_of_inject_set) (simp_all add: rev_map [symmetric])

lemma map_of_map_keys_eq:
  assumes "keys xs = keys ys" "distinct (keys ys)" "map_of xs = map_of ys" shows "xs = ys"
proof -
  have "map (the \<circ> map_of es) (keys es) = map snd es" if "distinct (keys es)" for es :: "('a \<times> 'b) list"
    using that by (auto simp: map_of_is_SomeI)
  then have "map snd xs = map snd ys" using assms by metis
  then show ?thesis using assms(1) by (metis zip_map_fst_snd)
qed

lemma cow_map_from_iter_correct:
  "\<exists>m. cow_map_from_iter es = Some m \<and> cow_map_ok m \<and>
     map_of (cow_map_entries m) = map_of (rev es)"
  using cow_map_extend_correct [OF om.empty(1), of es]
  by (auto simp: cow_map_from_iter_def om.empty(2) map_of_fold_ins)

text \<open>C6. A map built by inserting any entries in any order never panics on the way, answers
  every lookup with the last value inserted for the key, and iterates its entries in
  strictly ascending key order.\<close>

theorem cow_map_from_iter_refines:
  "\<exists>m es'. cow_map_from_iter es = Some m \<and> cow_map_get m k = Some (map_of (rev es) k) \<and>
     cow_map_iter m = Some es' \<and> ssorted (keys es') \<and> map_of es' = map_of (rev es)"
proof -
  obtain m where m: "cow_map_from_iter es = Some m" "cow_map_ok m" "map_of (cow_map_entries m) = map_of (rev es)"
    using cow_map_from_iter_correct by blast
  have "cow_map_get m k = Some (map_of (rev es) k)" using om.get [OF m(2)] m(3) by simp
  with m cow_map_iter_correct [OF m(2)] cow_map_sorted [OF m(2)] show ?thesis by blast
qed

text \<open>C11. Removing a key from a tree no deeper than the path array answers the value it had,
  makes exactly that key absent, keeps the tree in order, and lowers the length by one when
  the key was there.\<close>

theorem cow_map_remove_refines:
  assumes "cow_map_ok m" "cow_map_height m \<le> MAX_DEPTH"
  shows "\<exists>m'. cow_map_remove m k = Some (m', map_of (cow_map_entries m) k) \<and> cow_map_ok m' \<and>
    cow_map_iter m' = Some (alist_del k (cow_map_entries m)) \<and>
    cow_map_get m' l = (if l = k then Some None else cow_map_get m l) \<and>
    mlen m' = (if map_of (cow_map_entries m) k = None then mlen m else mlen m - 1)"
proof -
  obtain m' where m': "cow_map_remove m k = Some (m', map_of (cow_map_entries m) k)" "cow_map_ok m'"
      "cow_map_entries m' = alist_del k (cow_map_entries m)"
    using cow_map_remove_correct [OF assms] by blast
  have "cow_map_get m' l = (if l = k then Some None else cow_map_get m l)"
    using om.get_after_remove [OF assms(1) _ m'(1), of l] assms(2) by (simp add: cow_map_shallow_def)
  moreover have "length (alist_del k (cow_map_entries m)) =
      (if map_of (cow_map_entries m) k = None then length (cow_map_entries m) else length (cow_map_entries m) - 1)"
  proof (cases "map_of (cow_map_entries m) k")
    case None
    then show ?thesis using alist_del_absent [of k "cow_map_entries m"] by (simp add: map_of_None_keys del: set_map)
  next
    case (Some v)
    then show ?thesis
      using length_alist_del [OF ssorted_distinct [OF cow_map_sorted [OF assms(1)]], of k] by simp
  qed
  ultimately show ?thesis
    using m' assms(1) cow_map_iter_correct [OF m'(2)] by (simp add: cow_map_ok_def)
qed

theorem cow_map_remove_refines_witness:
  "let m = \<lparr>root = Some (Internal [9, 5] [Leaf [2, 3] [10, 20], Leaf [5] [50]]), mlen = 3\<rparr> :: (nat, nat) cow_map in
   \<exists>m'. cow_map_remove m 5 = Some (m', Some 50) \<and> cow_map_iter m' = Some [(2, 10), (3, 20)] \<and>
     cow_map_get m' 2 = Some (Some 10) \<and> mlen m' = 2"
proof -
  let ?m = "\<lparr>root = Some (Internal [9, 5] [Leaf [2, 3] [10, 20], Leaf [5] [50]]), mlen = 3\<rparr> :: (nat, nat) cow_map"
  have ok: "cow_map_ok ?m" "cow_map_height ?m \<le> MAX_DEPTH"
    by (simp_all add: cow_map_ok_def cow_map_entries_def cow_map_height_def NODE_MAX_def MAX_DEPTH_def within_def)
  have es: "cow_map_entries ?m = [(2, 10), (3, 20), (5, 50)]" by (simp add: cow_map_entries_def)
  have "cow_map_get ?m 2 = Some (Some 10)" using om.get [OF ok(1), of 2] by (simp add: es)
  moreover have "alist_del 5 [(2 :: nat, 10 :: nat), (3, 20), (5, 50)] = [(2, 10), (3, 20)]"
    by (simp add: alist_del_def)
  ultimately show ?thesis
    using cow_map_remove_refines [OF ok, of 5 2] unfolding es Let_def by auto
qed

text \<open>C12. A range over a map yields, in order, exactly the entries within its bounds, and
  the reverse range the same entries backwards; an inverted range panics in both.\<close>

theorem cow_map_ranges_refine:
  assumes "cow_map_from_iter es = Some m"
  shows "if range_valid start stop then
      \<exists>f b xs. cow_map_range m start stop = Some f \<and> cow_map_range_rev m start stop = Some b \<and>
        iter_take range_next (mlen m) f = Some xs \<and> iter_take rev_range_next (mlen m) b = Some (rev xs) \<and>
        ssorted (keys xs) \<and>
        (\<forall>k v. (k, v) \<in> set xs \<longleftrightarrow>
          map_of (rev es) k = Some v \<and> \<not> past_start start k \<and> \<not> past_end stop k)
    else cow_map_range m start stop = None \<and> cow_map_range_rev m start stop = None"
proof (cases "range_valid start stop")
  case True
  have m: "cow_map_ok m" "map_of (cow_map_entries m) = map_of (rev es)"
    using cow_map_from_iter_correct [of es] assms by auto
  let ?xs = "filter (\<lambda>e. \<not> past_start start (fst e) \<and> \<not> past_end stop (fst e)) (cow_map_entries m)"
  have srt: "ssorted (keys (cow_map_entries m))" using cow_map_sorted [OF m(1)] .
  then have "ssorted (keys ?xs)" by (simp add: sorted_wrt_map sorted_wrt_filter)
  moreover have "(k, v) \<in> set ?xs \<longleftrightarrow>
      map_of (rev es) k = Some v \<and> \<not> past_start start k \<and> \<not> past_end stop k" for k v
    using map_of_eq_Some_iff [OF ssorted_distinct [OF srt]] m(2) by auto
  ultimately show ?thesis
    using cow_map_range_correct [OF m(1) True order_refl] cow_map_range_rev_correct [OF m(1) True order_refl] True
    by auto
qed (simp add: cow_map_range_def cow_map_range_rev_def)

theorem cow_map_ranges_refine_witness:
  "\<exists>m f b xs. cow_map_from_iter [(4 :: nat, ''d''), (1, ''a''), (3, ''c''), (1, ''b'')] = Some m \<and>
     cow_map_range m (Included 1) (Excluded 4) = Some f \<and> cow_map_range_rev m (Included 1) (Excluded 4) = Some b \<and>
     iter_take range_next (mlen m) f = Some xs \<and> iter_take rev_range_next (mlen m) b = Some (rev xs) \<and>
     set xs = {(1, ''b''), (3, ''c'')}"
proof -
  let ?es = "[(4 :: nat, ''d''), (1, ''a''), (3, ''c''), (1, ''b'')]"
  obtain m where m: "cow_map_from_iter ?es = Some m" using cow_map_from_iter_correct by blast
  have v: "range_valid (Included 1) (Excluded (4 :: nat))" by (simp add: range_valid_def)
  from cow_map_ranges_refine [OF m, of "Included 1" "Excluded 4"] v obtain f b xs where fb:
    "cow_map_range m (Included 1) (Excluded 4) = Some f" "cow_map_range_rev m (Included 1) (Excluded 4) = Some b"
    "iter_take range_next (mlen m) f = Some xs" "iter_take rev_range_next (mlen m) b = Some (rev xs)"
    "\<And>k v. (k, v) \<in> set xs \<longleftrightarrow> map_of (rev ?es) k = Some v \<and> \<not> k < 1 \<and> \<not> 4 \<le> k"
    by auto
  have "set xs = {(1, ''b''), (3, ''c'')}"
    using fb(5) by (auto split: if_splits)
  with m fb show ?thesis by blast
qed

text \<open>C13. The bulk loader builds, from strictly ascending entries, a well-formed tree that
  equals the map built by inserting them one by one and answers every lookup.\<close>

theorem cow_map_from_sorted_refines:
  assumes "ssorted (keys es)"
  shows "cow_map_ok (cow_map_from_sorted es) \<and> cow_map_iter (cow_map_from_sorted es) = Some es \<and>
    cow_map_get (cow_map_from_sorted es) k = Some (map_of es k) \<and>
    (\<exists>m. cow_map_from_iter es = Some m \<and> cow_map_eq (cow_map_from_sorted es) m = Some True)"
proof -
  have s: "cow_map_ok (cow_map_from_sorted es)" "cow_map_entries (cow_map_from_sorted es) = es"
    using cow_map_from_sorted_correct [OF assms] by auto
  obtain m where m: "cow_map_from_iter es = Some m" "cow_map_ok m" "map_of (cow_map_entries m) = map_of (rev es)"
    using cow_map_from_iter_correct by blast
  have d: "distinct (keys es)" "distinct (keys (cow_map_entries m))"
    using ssorted_distinct [OF assms] ssorted_distinct [OF cow_map_sorted [OF m(2)]] by auto
  have me: "map_of (cow_map_entries m) = map_of es"
    using m(3) d(1) by (simp add: map_of_rev_distinct)
  have "set (keys (cow_map_entries m)) = set (keys es)"
    using me by (metis dom_map_of_conv_image_fst set_map)
  then have "keys (cow_map_entries m) = keys es"
    using ssorted_unique cow_map_sorted [OF m(2)] assms by blast
  then have "cow_map_entries m = es" using me d by (metis map_of_map_keys_eq)
  then show ?thesis
    using s m cow_map_eq_correct [OF s(1) m(2)] cow_map_iter_correct [OF s(1)] om.get [OF s(1)] by auto
qed

theorem cow_map_from_sorted_refines_witness:
  "let es = map (\<lambda>n. (n, n * n)) [0..<60] in
   ssorted (keys es) \<and> cow_map_ok (cow_map_from_sorted es) \<and> cow_map_get (cow_map_from_sorted es) 7 = Some (Some 49) \<and>
   (\<exists>m. cow_map_from_iter es = Some m \<and> cow_map_eq (cow_map_from_sorted es) m = Some True)"
proof -
  let ?es = "map (\<lambda>n. (n, n * n)) [0..<60]"
  have s: "ssorted (keys ?es)" by (simp add: comp_def strict_sorted_iff)
  have "map_of ?es 7 = Some 49" by (rule map_of_is_SomeI) (auto simp: comp_def intro: image_eqI [of _ _ 7])
  with s cow_map_from_sorted_refines [OF s, of 7] show ?thesis by simp
qed

end
