(* ===== verification/Id_Set.thy ===== *)
theory Id_Set
  imports Cow_Map_Range
begin

text \<open>
  The posting set \<open>IdSet\<close> of \<open>crates/core-storage/src/cow.rs\<close>: one id inline, up to 64 in a
  sorted vector, more in a \<open>CowMap\<close>. The locale \<open>ordered_set\<close> states it by the ascending list
  of its ids, whichever form holds them; \<open>IdSet\<close> interprets it.
\<close>

section \<open>The set and its operations\<close>

definition SMALL_MAX :: nat where "SMALL_MAX = 64"

datatype id_set = One u32 | Small "u32 list" | Large "(u32, unit) cow_map"

definition id_set_new :: id_set where "id_set_new = Small []"

fun id_set_len :: "id_set \<Rightarrow> nat" where
  "id_set_len (One x) = 1"
| "id_set_len (Small v) = length v"
| "id_set_len (Large m) = mlen m"

definition id_set_is_empty :: "id_set \<Rightarrow> bool" where
  "id_set_is_empty s \<longleftrightarrow> id_set_len s = 0"

fun id_set_contains :: "id_set \<Rightarrow> u32 \<Rightarrow> bool option" where
  "id_set_contains (One x) i = Some (x = i)"
| "id_set_contains (Small v) i = Some (case binary_search i v of Inr _ \<Rightarrow> True | Inl _ \<Rightarrow> False)"
| "id_set_contains (Large m) i = cow_map_contains_key m i"

text \<open>The set after the insert, and whether the id was new.\<close>

fun id_set_insert :: "id_set \<Rightarrow> u32 \<Rightarrow> (id_set \<times> bool) option" where
  "id_set_insert (One x) i =
     (if x = i then Some (One x, False)
      else Some (Small (if x < i then [x, i] else [i, x]), True))"
| "id_set_insert (Small v) i =
     (if v = [] then Some (One i, True)
      else case binary_search i v of
        Inr _ \<Rightarrow> Some (Small v, False)
      | Inl p \<Rightarrow>
          if length v < SMALL_MAX then Some (Small (insert_at p i v), True)
          else map_option (\<lambda>(m, _). (Large m, True))
                 (cow_map_insert (cow_map_from_sorted (map (\<lambda>i. (i, ())) v)) i ()))"
| "id_set_insert (Large m) i = map_option (\<lambda>(m, old). (Large m, old = None)) (cow_map_insert m i ())"

fun id_set_remove :: "id_set \<Rightarrow> u32 \<Rightarrow> (id_set \<times> bool) option" where
  "id_set_remove (One x) i = (if x = i then Some (Small [], True) else Some (One x, False))"
| "id_set_remove (Small v) i =
     (case binary_search i v of
        Inr p \<Rightarrow>
          (let v = remove_at_index p v
           in Some (case v of [only] \<Rightarrow> One only | _ \<Rightarrow> Small v, True))
      | Inl _ \<Rightarrow> Some (Small v, False))"
| "id_set_remove (Large m) i = map_option (\<lambda>(m, old). (Large m, old \<noteq> None)) (cow_map_remove m i)"

fun id_set_iter :: "id_set \<Rightarrow> u32 list option" where
  "id_set_iter (One x) = Some [x]"
| "id_set_iter (Small v) = Some v"
| "id_set_iter (Large m) = map_option (map fst) (cow_map_iter m)"

definition id_set_eq :: "id_set \<Rightarrow> id_set \<Rightarrow> bool option" where
  "id_set_eq a b =
     (if id_set_len a \<noteq> id_set_len b then Some False
      else case (id_set_iter a, id_set_iter b) of
        (Some xs, Some ys) \<Rightarrow> Some (xs = ys)
      | _ \<Rightarrow> None)"

fun id_set_extend :: "id_set \<Rightarrow> u32 list \<Rightarrow> id_set option" where
  "id_set_extend s [] = Some s"
| "id_set_extend s (i # is) =
     (case id_set_insert s i of None \<Rightarrow> None | Some (s, _) \<Rightarrow> id_set_extend s is)"

definition id_set_from_iter :: "u32 list \<Rightarrow> id_set option" where
  "id_set_from_iter is = id_set_extend id_set_new is"

section \<open>The contract of an ordered set\<close>

locale ordered_set =
  fixes contains_op :: "'s \<Rightarrow> 'a::linorder \<Rightarrow> bool option"
    and insert_op :: "'s \<Rightarrow> 'a \<Rightarrow> ('s \<times> bool) option"
    and remove_op :: "'s \<Rightarrow> 'a \<Rightarrow> ('s \<times> bool) option"
    and iter_op :: "'s \<Rightarrow> 'a list option"
    and len_op :: "'s \<Rightarrow> nat"
    and invar :: "'s \<Rightarrow> bool"
    and shallow :: "'s \<Rightarrow> bool"
    and items :: "'s \<Rightarrow> 'a list"
  assumes contains: "invar s \<Longrightarrow> contains_op s x = Some (x \<in> set (items s))"
    and insert_new: "invar s \<Longrightarrow> \<exists>s'. insert_op s x = Some (s', x \<notin> set (items s)) \<and> invar s' \<and>
      set (items s') = insert x (set (items s))"
    and remove_old: "invar s \<Longrightarrow> shallow s \<Longrightarrow>
      \<exists>s'. remove_op s x = Some (s', x \<in> set (items s)) \<and> invar s' \<and>
        set (items s') = set (items s) - {x}"
    and iter: "invar s \<Longrightarrow> iter_op s = Some (items s)"
    and sorted_items: "invar s \<Longrightarrow> ssorted (items s)"
    and len: "invar s \<Longrightarrow> len_op s = length (items s)"
begin

lemma iter_after_insert:
  assumes "invar s" "insert_op s x = Some (s', b)"
  shows "invar s' \<and> iter_op s' = Some (sort_dedup (x # items s))"
proof -
  have s': "invar s'" "set (items s') = insert x (set (items s))"
    using insert_new [OF assms(1), of x] assms(2) by auto
  then have "items s' = sort_dedup (x # items s)"
    by (intro ssorted_unique) (simp_all add: sorted_items)
  then show ?thesis using s' by (simp add: iter)
qed

lemma iter_after_remove:
  assumes "invar s" "shallow s" "remove_op s x = Some (s', b)"
  shows "invar s' \<and> iter_op s' = Some (filter (\<lambda>y. y \<noteq> x) (items s))"
proof -
  have s': "invar s'" "set (items s') = set (items s) - {x}"
    using remove_old [OF assms(1,2), of x] assms(3) by auto
  then have "items s' = filter (\<lambda>y. y \<noteq> x) (items s)"
    by (intro ssorted_unique) (auto simp: sorted_items ssorted_filter assms(1))
  then show ?thesis using s' by (simp add: iter)
qed

lemma same_items:
  assumes "invar s" "invar t"
  shows "iter_op s = iter_op t \<longleftrightarrow> set (items s) = set (items t)"
  using assms by (auto simp: iter dest: ssorted_unique [OF sorted_items sorted_items])

end

section \<open>The three forms hold the same set\<close>

fun id_set_items :: "id_set \<Rightarrow> u32 list" where
  "id_set_items (One x) = [x]"
| "id_set_items (Small v) = v"
| "id_set_items (Large m) = keys (cow_map_entries m)"

fun id_set_ok :: "id_set \<Rightarrow> bool" where
  "id_set_ok (One x) = True"
| "id_set_ok (Small v) \<longleftrightarrow> ssorted v \<and> length v \<noteq> 1 \<and> length v \<le> SMALL_MAX"
| "id_set_ok (Large m) = cow_map_ok m"

fun id_set_shallow :: "id_set \<Rightarrow> bool" where
  "id_set_shallow (Large m) = cow_map_shallow m"
| "id_set_shallow _ = True"

lemma id_set_insert_correct:
  assumes "id_set_ok s"
  shows "\<exists>s'. id_set_insert s i = Some (s', i \<notin> set (id_set_items s)) \<and> id_set_ok s' \<and>
    set (id_set_items s') = insert i (set (id_set_items s))"
proof (cases s)
  case (One x)
  then show ?thesis by (auto simp: SMALL_MAX_def)
next
  case (Small v)
  show ?thesis
  proof (cases "v = []")
    case False
    have v: "ssorted v" "length v \<le> SMALL_MAX" using assms Small by simp_all
    show ?thesis
    proof (cases "binary_search i v")
      case (Inr p)
      then have "i \<in> set v" using binary_search_Inr_D [OF Inr] nth_mem by metis
      then show ?thesis using Inr False assms Small by (auto simp: insert_absorb)
    next
      case (Inl p)
      note D = binary_search_Inl_D(1,2) [OF v(1) Inl]
      show ?thesis
      proof (cases "length v < SMALL_MAX")
        case True
        then show ?thesis
          using Inl False Small D ssorted_insert_at [OF v(1) Inl] by auto
      next
        case big: False
        let ?m = "cow_map_from_sorted (map (\<lambda>i. (i, ())) v)"
        have m: "cow_map_ok ?m" "keys (cow_map_entries ?m) = v"
          using cow_map_from_sorted_correct [of "map (\<lambda>i. (i, ())) v"] v(1) by (simp_all add: comp_def)
        from cow_map_insert_correct [OF m(1), of i "()"] m(2) show ?thesis
          using Inl False Small D big set_keys_alist_ins [of i "()" "cow_map_entries ?m"] by auto
      qed
    qed
  qed (simp add: Small)
next
  case (Large m)
  then have m: "cow_map_ok m" using assms by simp
  from cow_map_insert_correct [OF m, of i "()"] set_keys_alist_ins [of i "()" "cow_map_entries m"]
  show ?thesis by (auto simp: Large map_of_None_keys simp del: set_map)
qed

lemma id_set_remove_correct:
  assumes "id_set_ok s" "id_set_shallow s"
  shows "\<exists>s'. id_set_remove s i = Some (s', i \<in> set (id_set_items s)) \<and> id_set_ok s' \<and>
    set (id_set_items s') = set (id_set_items s) - {i}"
proof (cases s)
  case (One x)
  then show ?thesis by (auto simp: SMALL_MAX_def)
next
  case (Small v)
  then have v: "ssorted v" "length v \<le> SMALL_MAX" "length v \<noteq> 1" using assms by simp_all
  show ?thesis
  proof (cases "binary_search i v")
    case (Inr p)
    note p = binary_search_Inr_D [OF Inr]
    define w where "w = remove_at_index p v"
    have w: "ssorted w" "set w = set v - {i}" "length w \<le> SMALL_MAX"
      using ssorted_remove_at_index [OF v(1)] set_remove_at_index [OF ssorted_distinct [OF v(1)]] p v(2)
      by (auto simp: w_def)
    have "id_set_remove s i = Some (case w of [only] \<Rightarrow> One only | _ \<Rightarrow> Small w, True)"
      by (simp add: Small Inr Let_def flip: w_def)
    moreover have "i \<in> set v" using p nth_mem by metis
    moreover have "id_set_ok (case w of [only] \<Rightarrow> One only | _ \<Rightarrow> Small w)"
      "id_set_items (case w of [only] \<Rightarrow> One only | _ \<Rightarrow> Small w) = w"
      using w(1,3) by (auto split: list.splits)
    ultimately show ?thesis using w(2) by (simp add: Small)
  next
    case (Inl p)
    then show ?thesis using binary_search_Inl_D(1) [OF v(1) Inl] assms by (simp add: Small)
  qed
next
  case (Large m)
  then have m: "cow_map_ok m" "cow_map_height m \<le> MAX_DEPTH"
    using assms by (simp_all add: cow_map_shallow_def)
  have "set (keys (alist_del i (cow_map_entries m))) = set (keys (cow_map_entries m)) - {i}"
    by (auto simp: alist_del_def)
  with cow_map_remove_correct [OF m, of i] show ?thesis
    by (auto simp: Large map_of_None_keys simp del: set_map not_None_eq)
qed

interpretation ids: ordered_set id_set_contains id_set_insert id_set_remove id_set_iter id_set_len
  id_set_ok id_set_shallow id_set_items
proof (unfold_locales, goal_cases)
  case (1 s x)
  show ?case
  proof (cases s)
    case (Small v)
    then show ?thesis
      using binary_search_found [of v x] 1 by (auto split: sum.splits)
  next
    case (Large m)
    then show ?thesis
      using 1 by (simp add: cow_map_contains_key_def cow_map_get_correct map_of_None_keys
          del: set_map not_None_eq)
  qed auto
next
  case (4 s)
  then show ?case by (cases s) (auto simp: cow_map_iter_correct)
next
  case (5 s)
  then show ?case by (cases s) (auto dest: cow_map_sorted)
next
  case (6 s)
  then show ?case by (cases s) (auto simp: cow_map_ok_def)
qed (simp_all add: id_set_insert_correct id_set_remove_correct)

lemma id_set_extend_correct:
  assumes "id_set_ok s"
  shows "\<exists>s'. id_set_extend s is = Some s' \<and> id_set_ok s' \<and>
    set (id_set_items s') = set (id_set_items s) \<union> set is"
  using assms
proof (induction "is" arbitrary: s)
  case (Cons i "is")
  obtain s' where "id_set_insert s i = Some (s', i \<notin> set (id_set_items s))" "id_set_ok s'"
      "set (id_set_items s') = insert i (set (id_set_items s))"
    using id_set_insert_correct [OF Cons.prems] by blast
  with Cons.IH [of s'] show ?case by auto
qed auto

lemma id_set_eq_correct:
  assumes "id_set_ok a" "id_set_ok b"
  shows "id_set_eq a b = Some (set (id_set_items a) = set (id_set_items b))"
proof -
  have "set (id_set_items a) = set (id_set_items b) \<longleftrightarrow> id_set_items a = id_set_items b"
    using ids.same_items [OF assms] assms by (simp add: ids.iter)
  then show ?thesis using assms by (auto simp: id_set_eq_def ids.iter ids.len)
qed

section \<open>Properties\<close>

text \<open>Inserting any ids in any order, with the changes of form on the way, never panics
  and holds exactly the set of those ids: it iterates them ascending without duplicates,
  answers membership, counts them, and equals the set built from the same ids in another
  order.\<close>

theorem id_set_from_iter_refines:
  "\<exists>s t. id_set_from_iter xs = Some s \<and> id_set_from_iter (rev xs) = Some t \<and>
     id_set_iter s = Some (sort_dedup xs) \<and> id_set_len s = card (set xs) \<and>
     id_set_contains s x = Some (x \<in> set xs) \<and> id_set_eq s t = Some True"
proof -
  have new: "id_set_ok id_set_new" "id_set_items id_set_new = []"
    by (simp_all add: id_set_new_def SMALL_MAX_def)
  obtain s where s: "id_set_from_iter xs = Some s" "id_set_ok s" "set (id_set_items s) = set xs"
    using id_set_extend_correct [OF new(1), of xs] new(2) by (auto simp: id_set_from_iter_def)
  obtain t where t: "id_set_from_iter (rev xs) = Some t" "id_set_ok t" "set (id_set_items t) = set xs"
    using id_set_extend_correct [OF new(1), of "rev xs"] new(2) by (auto simp: id_set_from_iter_def)
  have srt: "ssorted (id_set_items s)" using ids.sorted_items [OF s(2)] .
  have "id_set_items s = sort_dedup xs"
    by (rule ssorted_unique [OF srt]) (simp_all add: s(3))
  moreover have "id_set_len s = card (set xs)"
    using ids.len [OF s(2)] distinct_card [OF ssorted_distinct [OF srt]] s(3) by simp
  ultimately show ?thesis
    using s t ids.iter [OF s(2)] ids.contains [OF s(2), of x] id_set_eq_correct [OF s(2) t(2)] by auto
qed

end
