(* ===== verification/Hash_Index.thy ===== *)
theory Hash_Index
  imports Prelude
begin

text \<open>
  The string index \<open>HashIndex\<close> of \<open>crates/core-storage/src/cow.rs\<close>: strings to dense ids
  for a caller that keeps the strings itself. A string is found by its hash in one of 1024
  shards and confirmed through \<open>resolve\<close>; a string whose hash another one holds is kept by
  value. The keyed hash of the standard library is the parameter \<open>hash\<close> of the operations:
  nothing is assumed of it. The hash tables are association lists. The locale
  \<open>string_index\<close> states the index by the map its lookups answer.
\<close>

section \<open>The index and its operations\<close>

definition HASH_SHARDS :: nat where "HASH_SHARDS = 1024"

record hash_index =
  shards :: "(u64 \<times> u32) list list"
  collided :: "(string \<times> u32) list"
  hlen :: nat

definition hash_index_new :: hash_index where
  "hash_index_new = \<lparr>shards = [], collided = [], hlen = 0\<rparr>"

definition shard_of :: "u64 \<Rightarrow> nat" where
  "shard_of h = unat (drop_bit 32 h) mod HASH_SHARDS"

text \<open>What the shard of a hash holds for it.\<close>

definition shard_get :: "hash_index \<Rightarrow> u64 \<Rightarrow> u32 option" where
  "shard_get ix h =
     (if shard_of h < length (shards ix) then map_of (shards ix ! shard_of h) h else None)"

definition get_hashed :: "hash_index \<Rightarrow> string \<Rightarrow> u64 \<Rightarrow> (u32 \<Rightarrow> string option) \<Rightarrow> u32 option" where
  "get_hashed ix key h resolve =
     (let rest = (if collided ix = [] then None else map_of (collided ix) key) in
      case shard_get ix h of
        Some i \<Rightarrow> if resolve i = Some key then Some i else rest
      | None \<Rightarrow> rest)"

definition hash_index_get ::
  "(string \<Rightarrow> u64) \<Rightarrow> hash_index \<Rightarrow> string \<Rightarrow> (u32 \<Rightarrow> string option) \<Rightarrow> u32 option" where
  "hash_index_get hash ix key resolve = get_hashed ix key (hash key) resolve"

text \<open>\<open>None\<close> is the panic of a shard out of range.\<close>

definition insert_hashed :: "hash_index \<Rightarrow> string \<Rightarrow> u64 \<Rightarrow> u32 \<Rightarrow> hash_index option" where
  "insert_hashed ix key h i =
     (let ss = (if shards ix = [] then replicate HASH_SHARDS [] else shards ix); j = shard_of h in
      if j < length ss then
        if map_of (ss ! j) h \<noteq> None
        then Some (ix\<lparr>shards := ss, collided := AList.update key i (collided ix), hlen := hlen ix + 1\<rparr>)
        else Some (ix\<lparr>shards := ss[j := AList.update h i (ss ! j)], hlen := hlen ix + 1\<rparr>)
      else None)"

definition hash_index_insert :: "(string \<Rightarrow> u64) \<Rightarrow> hash_index \<Rightarrow> string \<Rightarrow> u32 \<Rightarrow> hash_index option" where
  "hash_index_insert hash ix key i = insert_hashed ix key (hash key) i"

definition hash_index_remove ::
  "(string \<Rightarrow> u64) \<Rightarrow> hash_index \<Rightarrow> string \<Rightarrow> (u32 \<Rightarrow> string option) \<Rightarrow> hash_index \<times> u32 option" where
  "hash_index_remove hash ix key resolve =
     (let h = hash key; j = shard_of h;
          rest = (case map_of (collided ix) key of
              None \<Rightarrow> (ix, None)
            | Some i \<Rightarrow> (ix\<lparr>collided := AList.delete key (collided ix), hlen := hlen ix - 1\<rparr>, Some i))
      in case shard_get ix h of
        Some i \<Rightarrow>
          if resolve i = Some key
          then (ix\<lparr>shards := (shards ix)[j := AList.delete h (shards ix ! j)], hlen := hlen ix - 1\<rparr>, Some i)
          else rest
      | None \<Rightarrow> rest)"

section \<open>The contract of a string index\<close>

text \<open>
  The caller's strings are the function \<open>res\<close>. The laws say what a lookup answers after an
  insert of a string that was absent and after a removal, when the caller keeps its side:
  the strings of the other indexed ids do not change.
\<close>

locale string_index =
  fixes get_op :: "'ix \<Rightarrow> string \<Rightarrow> ('i \<Rightarrow> string option) \<Rightarrow> 'i option"
    and insert_op :: "'ix \<Rightarrow> string \<Rightarrow> 'i \<Rightarrow> 'ix option"
    and remove_op :: "'ix \<Rightarrow> string \<Rightarrow> ('i \<Rightarrow> string option) \<Rightarrow> 'ix \<times> 'i option"
    and len_op :: "'ix \<Rightarrow> nat"
    and invar :: "'ix \<Rightarrow> ('i \<Rightarrow> string option) \<Rightarrow> bool"
  assumes get_resolves: "invar ix res \<Longrightarrow> get_op ix k res = Some i \<Longrightarrow> res i = Some k"
    and insert_law: "invar ix res \<Longrightarrow> get_op ix k res = None \<Longrightarrow>
      (\<And>l j. get_op ix l res = Some j \<Longrightarrow> res' j = Some l) \<Longrightarrow> res' i = Some k \<Longrightarrow>
      \<exists>ix'. insert_op ix k i = Some ix' \<and> invar ix' res' \<and> len_op ix' = Suc (len_op ix) \<and>
        (\<forall>l. get_op ix' l res' = (if l = k then Some i else get_op ix l res))"
    and remove_law: "invar ix res \<Longrightarrow>
      \<exists>ix'. remove_op ix k res = (ix', get_op ix k res) \<and> invar ix' res \<and>
        len_op ix' = (if get_op ix k res = None then len_op ix else len_op ix - 1) \<and>
        (\<forall>l. get_op ix' l res = (if l = k then None else get_op ix l res))"
    and invar_cong: "invar ix res \<Longrightarrow> (\<And>l j. get_op ix l res = Some j \<Longrightarrow> res' j = Some l) \<Longrightarrow>
      invar ix res' \<and> (\<forall>l. get_op ix l res' = get_op ix l res)"
    and len_card: "invar ix res \<Longrightarrow> len_op ix = card {k. get_op ix k res \<noteq> None}"
begin

lemma one_id_per_string:
  assumes "invar ix res" "get_op ix k res = Some i" "get_op ix l res = Some i"
  shows "k = l"
  using get_resolves [OF assms(1,2)] get_resolves [OF assms(1,3)] by simp

end

section \<open>The shards and the collisions together are the map\<close>

text \<open>
  What keeps the index right: every entry of a shard belongs in it and stands for a string
  with that hash, and a string kept by value is not also found by its hash.
\<close>

definition shards_ok :: "(string \<Rightarrow> u64) \<Rightarrow> (u64 \<times> u32) list list \<Rightarrow> (u32 \<Rightarrow> string option) \<Rightarrow> bool" where
  "shards_ok hash ss res \<longleftrightarrow>
     (ss = [] \<or> length ss = HASH_SHARDS) \<and>
     (\<forall>j < length ss. distinct (keys (ss ! j)) \<and>
        (\<forall>(h, i) \<in> set (ss ! j). shard_of h = j \<and> (\<exists>k. res i = Some k \<and> hash k = h)))"

definition hash_index_ok :: "(string \<Rightarrow> u64) \<Rightarrow> hash_index \<Rightarrow> (u32 \<Rightarrow> string option) \<Rightarrow> bool" where
  "hash_index_ok hash ix res \<longleftrightarrow>
     shards_ok hash (shards ix) res \<and>
     distinct (keys (collided ix)) \<and>
     (\<forall>(k, i) \<in> set (collided ix). res i = Some k \<and>
        (\<forall>j. shard_get ix (hash k) = Some j \<longrightarrow> res j \<noteq> Some k)) \<and>
     hlen ix = sum_list (map length (shards ix)) + length (collided ix)"

lemma shard_of_less [simp]: "shard_of h < HASH_SHARDS"
  by (simp add: shard_of_def HASH_SHARDS_def)

lemma HASH_SHARDS_pos [simp]: "0 < HASH_SHARDS"
  by (simp add: HASH_SHARDS_def)

lemma shards_ok_entry:
  assumes "shards_ok hash ss res" "j < length ss" "(h, i) \<in> set (ss ! j)"
  shows "shard_of h = j" "\<exists>k. res i = Some k \<and> hash k = h" "map_of (ss ! j) h = Some i"
  using assms by (auto simp: shards_ok_def dest!: spec [of _ j] bspec [of _ _ "(h, i)"])

lemma shard_getD:
  assumes "shards_ok hash (shards ix) res" "shard_get ix h = Some i"
  obtains k where "res i = Some k" "hash k = h"
proof -
  have j: "shard_of h < length (shards ix)" "(h, i) \<in> set (shards ix ! shard_of h)"
    using assms(2) map_of_SomeD by (auto simp: shard_get_def split: if_splits)
  with assms(1) have "\<exists>k. res i = Some k \<and> hash k = h" unfolding shards_ok_def by blast
  with that show ?thesis by blast
qed

text \<open>The lookup with its branches flattened.\<close>

lemma hash_index_get_iff:
  "hash_index_get hash ix k res = Some i \<longleftrightarrow>
     shard_get ix (hash k) = Some i \<and> res i = Some k \<or>
     (\<forall>j. shard_get ix (hash k) = Some j \<longrightarrow> res j \<noteq> Some k) \<and> map_of (collided ix) k = Some i"
  by (auto simp: hash_index_get_def get_hashed_def Let_def split: option.splits)

lemma hash_index_ok_collided:
  assumes "hash_index_ok hash ix res" "map_of (collided ix) k = Some i"
  shows "res i = Some k" "shard_get ix (hash k) = Some j \<Longrightarrow> res j \<noteq> Some k"
  using assms map_of_SomeD [OF assms(2)] by (auto simp: hash_index_ok_def)

lemma hash_index_get_eq:
  assumes "hash_index_ok hash ix res"
  shows "hash_index_get hash ix k res = Some i \<longleftrightarrow>
     res i = Some k \<and> (shard_get ix (hash k) = Some i \<or> map_of (collided ix) k = Some i)"
  using hash_index_ok_collided [OF assms] by (auto simp: hash_index_get_iff)

text \<open>The keys an index in order holds, and how many they are.\<close>

lemma shard_hashes:
  assumes "shards_ok hash ss res"
  shows "card (\<Union>j<length ss. set (keys (ss ! j))) = sum_list (map length ss)"
proof -
  have "card (\<Union>j<length ss. set (keys (ss ! j))) = (\<Sum>j<length ss. card (set (keys (ss ! j))))"
  proof (rule card_UN_disjoint)
    have "h \<in> set (keys (ss ! j)) \<Longrightarrow> shard_of h = j" if "j < length ss" for h j
      using shards_ok_entry(1) [OF assms that] by auto
    then show "\<forall>j\<in>{..<length ss}. \<forall>i\<in>{..<length ss}. j \<noteq> i \<longrightarrow> set (keys (ss ! j)) \<inter> set (keys (ss ! i)) = {}"
      by (auto simp del: set_map)
  qed simp_all
  also have "\<dots> = (\<Sum>j<length ss. length (ss ! j))"
    using assms by (intro sum.cong) (auto simp: shards_ok_def distinct_card simp del: set_map)
  also have "\<dots> = sum_list (map length ss)"
    by (simp add: sum_list_sum_nth atLeast0LessThan)
  finally show ?thesis .
qed

lemma shard_get_dom:
  assumes "shards_ok hash (shards ix) res"
  shows "{h. shard_get ix h \<noteq> None} = (\<Union>j<length (shards ix). set (keys (shards ix ! j)))"
proof -
  have "h \<in> (\<Union>j<length (shards ix). set (keys (shards ix ! j))) \<longleftrightarrow> shard_get ix h \<noteq> None" for h
  proof
    assume "h \<in> (\<Union>j<length (shards ix). set (keys (shards ix ! j)))"
    then obtain j i where "j < length (shards ix)" "(h, i) \<in> set (shards ix ! j)" by auto
    moreover from this have "shard_of h = j" using assms by (auto simp: shards_ok_def)
    ultimately show "shard_get ix h \<noteq> None"
      by (auto simp: shard_get_def map_of_None_keys simp del: not_None_eq) force
  next
    assume "shard_get ix h \<noteq> None"
    then show "h \<in> (\<Union>j<length (shards ix). set (keys (shards ix ! j)))"
      by (auto simp: shard_get_def map_of_None_keys simp del: not_None_eq set_map split: if_splits)
  qed
  then show ?thesis by blast
qed

lemma hash_index_len_card:
  assumes "hash_index_ok hash ix res"
  shows "hlen ix = card {k. hash_index_get hash ix k res \<noteq> None}"
proof -
  have ss: "shards_ok hash (shards ix) res" using assms by (simp add: hash_index_ok_def)
  let ?A = "{k. \<exists>i. shard_get ix (hash k) = Some i \<and> res i = Some k}"
  let ?B = "set (keys (collided ix))"
  let ?H = "{h. shard_get ix h \<noteq> None}"
  have "hash ` ?A = ?H"
    using shard_getD [OF ss] by (auto simp: image_def) metis
  moreover have "inj_on hash ?A" by (rule inj_onI) auto
  ultimately have A: "card ?A = sum_list (map length (shards ix))" and fA: "finite ?A"
    using shard_hashes [OF ss] shard_get_dom [OF ss] card_image [of hash ?A] finite_imageD [of hash ?A]
    by auto
  have B: "card ?B = length (collided ix)"
    using assms by (simp add: hash_index_ok_def distinct_card del: set_map)
  have "?A \<inter> ?B = {}" using assms by (auto simp: hash_index_ok_def)
  then have "card (?A \<union> ?B) = hlen ix"
    using A B fA assms by (simp add: card_Un_disjoint hash_index_ok_def del: set_map)
  moreover have "{k. hash_index_get hash ix k res \<noteq> None} = ?A \<union> ?B"
  proof -
    have "k \<in> ?B \<Longrightarrow> \<exists>i. res i = Some k \<and> map_of (collided ix) k = Some i" for k
      using hash_index_ok_collided(1) [OF assms] map_of_None_keys [of "collided ix" k]
      by (cases "map_of (collided ix) k") auto
    moreover have "map_of (collided ix) k = Some i \<Longrightarrow> k \<in> ?B" for k i
      using map_of_None_keys [of "collided ix" k] by auto
    ultimately show ?thesis
      by (auto simp: hash_index_get_eq [OF assms] simp del: set_map) blast
  qed
  ultimately show ?thesis by simp
qed

text \<open>Only the strings of indexed ids matter.\<close>

lemma hash_index_ok_cong:
  assumes ok: "hash_index_ok hash ix res"
    and res': "\<And>l j. hash_index_get hash ix l res = Some j \<Longrightarrow> res' j = Some l"
  shows "hash_index_ok hash ix res'" "hash_index_get hash ix l res' = hash_index_get hash ix l res"
proof -
  have ss: "shards_ok hash (shards ix) res" using ok by (simp add: hash_index_ok_def)
  have same: "res' i = res i" if g: "shard_get ix h = Some i" for h i
  proof -
    obtain k where "res i = Some k" "hash k = h" using shard_getD [OF ss g] .
    with g res' [of k i] show ?thesis by (simp add: hash_index_get_eq [OF ok])
  qed
  have coll: "res' i = Some k" if "map_of (collided ix) k = Some i" for k i
    using that res' [of k i] hash_index_ok_collided(1) [OF ok that] by (simp add: hash_index_get_eq [OF ok])
  have "res' i = res i" if "j < length (shards ix)" "(h, i) \<in> set (shards ix ! j)" for j h i
  proof (rule same)
    show "shard_get ix h = Some i"
      using shards_ok_entry(1,3) [OF ss that] that(1) by (auto simp: shard_get_def)
  qed
  then have "shards_ok hash (shards ix) res'"
    using ss unfolding shards_ok_def by (smt (verit, best) case_prodD case_prodI2)
  then show "hash_index_ok hash ix res'"
    using ok coll same by (auto simp: hash_index_ok_def)
  have "hash_index_get hash ix l res' = Some i \<longleftrightarrow> hash_index_get hash ix l res = Some i" for i
    using same by (auto simp: hash_index_get_iff)
  then show "hash_index_get hash ix l res' = hash_index_get hash ix l res"
    by (metis not_None_eq)
qed

lemma sum_list_length_update:
  "j < length ss \<Longrightarrow> sum_list (map length (ss[j := xs])) + length (ss ! j) = sum_list (map length ss) + length xs"
  by (induction ss arbitrary: j) (auto split: nat.splits)

lemma shard_get_cong: "shards ix = shards ix' \<Longrightarrow> shard_get ix = shard_get ix'"
  by (simp add: shard_get_def fun_eq_iff)

lemma shard_get_update:
  assumes "shards_ok hash (shards ix) res" "j < length (shards ix)"
    "shards ix' = (shards ix)[j := xs]"
  shows "shard_get ix' h = (if shard_of h = j then map_of xs h else shard_get ix h)"
  using assms by (auto simp: shard_get_def)

lemma shards_ok_update:
  assumes "shards_ok hash ss res" "j < length ss" "distinct (keys xs)"
    "\<And>h i. (h, i) \<in> set xs \<Longrightarrow> shard_of h = j \<and> (\<exists>k. res i = Some k \<and> hash k = h)"
  shows "shards_ok hash (ss[j := xs]) res"
  using assms by (auto simp: shards_ok_def nth_list_update)

lemma insert_hashed_correct:
  assumes ok: "hash_index_ok hash ix res" and new: "hash_index_get hash ix k res = None"
    and i: "res i = Some k"
  shows "\<exists>ix'. hash_index_insert hash ix k i = Some ix' \<and> hash_index_ok hash ix' res \<and>
    hlen ix' = Suc (hlen ix) \<and>
    (\<forall>l. hash_index_get hash ix' l res = (if l = k then Some i else hash_index_get hash ix l res))"
proof -
  define ss where "ss = (if shards ix = [] then replicate HASH_SHARDS [] else shards ix)"
  define j where "j = shard_of (hash k)"
  let ?ix = "ix\<lparr>shards := ss\<rparr>"
  have ss: "shards_ok hash ss res" "j < length ss" "length ss = HASH_SHARDS"
    using ok by (auto simp: ss_def j_def hash_index_ok_def shards_ok_def)
  have same: "shard_get ?ix = shard_get ix"
    by (auto simp: shard_get_def ss_def fun_eq_iff)
  have len: "sum_list (map length ss) = sum_list (map length (shards ix))"
    by (simp add: ss_def sum_list_replicate)
  have none: "\<And>j. shard_get ix (hash k) = Some j \<Longrightarrow> res j \<noteq> Some k" "map_of (collided ix) k = None"
    using new hash_index_get_eq [OF ok, of k] hash_index_ok_collided(1) [OF ok, of k]
    by (cases "map_of (collided ix) k"; auto)+
  then have fresh: "k \<notin> set (keys (collided ix))" by (simp add: map_of_None_keys)
  show ?thesis
  proof (cases "map_of (ss ! j) (hash k)")
    case (Some i')
    define ix' where "ix' = ix\<lparr>shards := ss, collided := collided ix @ [(k, i)], hlen := hlen ix + 1\<rparr>"
    have eq: "hash_index_insert hash ix k i = Some ix'"
      using ss(2) Some fresh
      by (simp add: hash_index_insert_def insert_hashed_def ss_def [symmetric] j_def [symmetric] Let_def
          ix'_def alist_update_new)
    have sg: "shard_get ix' = shard_get ix" using shard_get_cong [of ix' ?ix] same by (simp add: ix'_def)
    have ok': "hash_index_ok hash ix' res"
      using ok ss(1) len none i fresh unfolding hash_index_ok_def sg
      by (auto simp: ix'_def simp del: set_map)
    have "map_of (collided ix') c = (if c = k then Some i else map_of (collided ix) c)" for c
      using none(2) by (auto simp: ix'_def map_add_def split: option.splits)
    then have "hash_index_get hash ix' l res = Some m \<longleftrightarrow> (if l = k then m = i else hash_index_get hash ix l res = Some m)" for l m
      using none(1) i by (auto simp: hash_index_get_eq [OF ok'] hash_index_get_eq [OF ok] sg)
    then have "hash_index_get hash ix' l res = (if l = k then Some i else hash_index_get hash ix l res)" for l
      by (metis not_None_eq)
    then show ?thesis using eq ok' by (simp add: ix'_def)
  next
    case None
    define xs where "xs = ss ! j @ [(hash k, i)]"
    define ix' where "ix' = ix\<lparr>shards := ss[j := xs], hlen := hlen ix + 1\<rparr>"
    have notin: "hash k \<notin> set (keys (ss ! j))" using None by (simp add: map_of_None_keys)
    have eq: "hash_index_insert hash ix k i = Some ix'"
      using ss(2) None notin
      by (simp add: hash_index_insert_def insert_hashed_def ss_def [symmetric] j_def [symmetric] Let_def
          ix'_def alist_update_new xs_def)
    have sg: "shard_get ix' h = (if h = hash k then Some i else shard_get ix h)" for h
    proof -
      have "shard_get ix' h = (if shard_of h = j then map_of xs h else shard_get ?ix h)"
        by (rule shard_get_update) (use ss in \<open>simp_all add: ix'_def\<close>)
      moreover have "shard_get ?ix h = map_of (ss ! j) h" if "shard_of h = j"
        using that ss(2) by (simp add: shard_get_def)
      ultimately show ?thesis
        using None by (auto simp: same xs_def j_def map_add_def split: option.splits)
    qed
    have "shards_ok hash (ss[j := xs]) res"
    proof (rule shards_ok_update [OF ss(1,2)])
      show "distinct (keys xs)"
        using ss(1,2) notin by (auto simp: xs_def shards_ok_def simp del: set_map)
      show "shard_of h = j \<and> (\<exists>k. res i = Some k \<and> hash k = h)" if "(h, i) \<in> set xs" for h i
        using that shards_ok_entry(1,2) [OF ss(1,2), of h i] assms(3)
        by (auto simp: xs_def j_def)
    qed
    moreover have "sum_list (map length (ss[j := xs])) = Suc (sum_list (map length ss))"
      using sum_list_length_update [OF ss(2), of xs] by (simp add: xs_def)
    moreover have "map_of (collided ix) c = Some m \<Longrightarrow> shard_get ix' (hash c) = Some m' \<Longrightarrow> res m' \<noteq> Some c" for c m m'
      using hash_index_ok_collided(2) [OF ok, of c m m'] none(2) i by (auto simp: sg split: if_splits)
    ultimately have ok': "hash_index_ok hash ix' res"
      using ok len by (auto simp: hash_index_ok_def ix'_def)
    have "shard_get ?ix (hash k) = None" using None ss(2) by (simp add: shard_get_def j_def)
    then have "collided ix' = collided ix" "shard_get ix (hash k) = None" by (simp_all add: ix'_def same)
    then have "hash_index_get hash ix' l res = Some m \<longleftrightarrow> (if l = k then m = i else hash_index_get hash ix l res = Some m)" for l m
      using none i by (auto simp: hash_index_get_eq [OF ok'] hash_index_get_eq [OF ok] sg)
    then have "hash_index_get hash ix' l res = (if l = k then Some i else hash_index_get hash ix l res)" for l
      by (metis not_None_eq)
    then show ?thesis using eq ok' by (simp add: ix'_def)
  qed
qed

lemma hash_index_remove_correct:
  assumes ok: "hash_index_ok hash ix res"
  shows "\<exists>ix'. hash_index_remove hash ix k res = (ix', hash_index_get hash ix k res) \<and>
    hash_index_ok hash ix' res \<and>
    hlen ix' = (if hash_index_get hash ix k res = None then hlen ix else hlen ix - 1) \<and>
    (\<forall>l. hash_index_get hash ix' l res = (if l = k then None else hash_index_get hash ix l res))"
proof -
  have ss: "shards_ok hash (shards ix) res" using ok by (simp add: hash_index_ok_def)
  consider (shard) i where "shard_get ix (hash k) = Some i" "res i = Some k"
    | (coll) i where "\<And>j. shard_get ix (hash k) = Some j \<Longrightarrow> res j \<noteq> Some k" "map_of (collided ix) k = Some i"
    | (none) "\<And>j. shard_get ix (hash k) = Some j \<Longrightarrow> res j \<noteq> Some k" "map_of (collided ix) k = None"
    by (cases "map_of (collided ix) k"; cases "shard_get ix (hash k)") auto
  then show ?thesis
  proof cases
    case shard
    define j where "j = shard_of (hash k)"
    define xs where "xs = alist_del (hash k) (shards ix ! j)"
    define ix' where "ix' = ix\<lparr>shards := (shards ix)[j := xs], hlen := hlen ix - 1\<rparr>"
    have j: "j < length (shards ix)" "map_of (shards ix ! j) (hash k) = Some i"
      using shard(1) by (auto simp: shard_get_def j_def split: if_splits)
    have eq: "hash_index_remove hash ix k res = (ix', Some i)"
      using shard by (simp add: hash_index_remove_def Let_def j_def [symmetric] ix'_def xs_def alist_delete_eq)
    have get: "hash_index_get hash ix k res = Some i"
      using shard by (simp add: hash_index_get_eq [OF ok])
    have sg: "shard_get ix' h = (if h = hash k then None else shard_get ix h)" for h
      using shard_get_update [OF ss j(1), of ix' xs h]
      by (auto simp: ix'_def xs_def map_of_alist_del j_def shard_get_def)
    have sub: "set xs \<subseteq> set (shards ix ! j)" by (auto simp: xs_def alist_del_def)
    have d: "distinct (keys (shards ix ! j))" using ss j(1) by (simp add: shards_ok_def)
    have "distinct (keys xs)" using d by (simp add: xs_def alist_del_def distinct_map_filter)
    then have "shards_ok hash ((shards ix)[j := xs]) res"
      using shards_ok_entry(1,2) [OF ss j(1)] sub by (intro shards_ok_update [OF ss j(1)]) blast+
    moreover have "Suc (sum_list (map length ((shards ix)[j := xs]))) = sum_list (map length (shards ix))"
      using sum_list_length_update [OF j(1), of xs] length_alist_del [OF d, of "hash k"] j(2)
      by (simp add: xs_def)
    moreover have "shard_get ix' (hash c) = Some m' \<Longrightarrow> shard_get ix (hash c) = Some m'" for c m'
      by (simp add: sg split: if_splits)
    ultimately have ok': "hash_index_ok hash ix' res"
      using ok by (auto simp: hash_index_ok_def ix'_def)
    have "map_of (collided ix) k = None" "collided ix' = collided ix"
      using hash_index_ok_collided(2) [OF ok] shard by (metis not_None_eq, simp add: ix'_def)
    then have "hash_index_get hash ix' l res = Some m \<longleftrightarrow> l \<noteq> k \<and> hash_index_get hash ix l res = Some m" for l m
      using shard by (auto simp: hash_index_get_eq [OF ok'] hash_index_get_eq [OF ok] sg)
    then have "hash_index_get hash ix' l res = (if l = k then None else hash_index_get hash ix l res)" for l
      by (metis not_None_eq)
    then show ?thesis using eq ok' get by (simp add: ix'_def)
  next
    case coll
    define ix' where "ix' = ix\<lparr>collided := alist_del k (collided ix), hlen := hlen ix - 1\<rparr>"
    have eq: "hash_index_remove hash ix k res = (ix', Some i)"
      using coll by (auto simp: hash_index_remove_def Let_def ix'_def alist_delete_eq split: option.splits)
    have get: "hash_index_get hash ix k res = Some i"
      using coll hash_index_ok_collided(1) [OF ok] by (simp add: hash_index_get_eq [OF ok])
    have sg: "shard_get ix' = shard_get ix" by (rule shard_get_cong) (simp add: ix'_def)
    have d: "distinct (keys (collided ix))" using ok by (simp add: hash_index_ok_def)
    then have "distinct (keys (alist_del k (collided ix)))" by (simp add: alist_del_def distinct_map_filter)
    moreover have "Suc (length (alist_del k (collided ix))) = length (collided ix)"
      using length_alist_del [OF d, of k] coll(2) by simp
    moreover have "\<forall>(c, m) \<in> set (alist_del k (collided ix)). res m = Some c \<and>
        (\<forall>j. shard_get ix (hash c) = Some j \<longrightarrow> res j \<noteq> Some c)"
      using ok by (auto simp: alist_del_def hash_index_ok_def)
    ultimately have ok': "hash_index_ok hash ix' res"
      using ok unfolding hash_index_ok_def sg by (simp add: ix'_def)
    have "map_of (collided ix') = (map_of (collided ix))(k := None)" by (simp add: ix'_def map_of_alist_del)
    then have "hash_index_get hash ix' l res = Some m \<longleftrightarrow> l \<noteq> k \<and> hash_index_get hash ix l res = Some m" for l m
      using coll by (auto simp: hash_index_get_eq [OF ok'] hash_index_get_eq [OF ok] sg)
    then have "hash_index_get hash ix' l res = (if l = k then None else hash_index_get hash ix l res)" for l
      by (metis not_None_eq)
    then show ?thesis using eq ok' get by (simp add: ix'_def)
  next
    case none
    then have "hash_index_get hash ix k res = None"
      using hash_index_get_iff [of hash ix k res] by (metis not_None_eq)
    moreover have "hash_index_remove hash ix k res = (ix, None)"
      using none by (auto simp: hash_index_remove_def Let_def split: option.splits)
    ultimately show ?thesis using ok by auto
  qed
qed

interpretation hi: string_index "hash_index_get hash" "hash_index_insert hash" "hash_index_remove hash" hlen
  "hash_index_ok hash" for hash
proof (unfold_locales, goal_cases)
  case (1 ix res k i)
  then show ?case by (simp add: hash_index_get_eq)
next
  case (2 ix res k res' i)
  have cong: "hash_index_ok hash ix res'" "\<And>l. hash_index_get hash ix l res' = hash_index_get hash ix l res"
    using hash_index_ok_cong [of hash ix res res'] 2(1,3) by blast+
  show ?case
    using insert_hashed_correct [OF cong(1), where k = k and i = i] 2(2,4) cong(2) by auto
next
  case (3 ix res k)
  then show ?case by (rule hash_index_remove_correct)
next
  case (4 ix res res')
  then show ?case using hash_index_ok_cong by blast
next
  case (5 ix res)
  then show ?case by (rule hash_index_len_card)
qed

lemma hash_index_new_ok: "hash_index_ok hash hash_index_new res"
  "hash_index_get hash hash_index_new k res = None"
  by (simp_all add: hash_index_ok_def hash_index_new_def shards_ok_def hash_index_get_def get_hashed_def
      shard_get_def)

end
