(* ===== verification/Id_Map.thy ===== *)
theory Id_Map
  imports Cow_Vec Cow_Map_Range Hash_Index
begin

text \<open>
  Node keys to dense ids and back: \<open>IdMap\<close> of \<open>crates/core-storage/src/idmap.rs\<close>. The live
  keys are a \<open>HashIndex\<close> over the key slots, which are a \<open>CowVec\<close>; retired ids are the keys of
  a \<open>CowMap\<close>. The map is specified by its slots and the set of retired ids; every run of its
  operations from the empty map refines that specification and does not panic. The keyed
  hash of the index is the parameter \<open>hash\<close>.
\<close>

section \<open>The map and its operations\<close>

definition dense_id :: "nat \<Rightarrow> u32 res" where
  "dense_id len = (if len < 2 ^ 32 then Inr (of_nat len) else Inl (Corrupt ''id space exhausted'' []))"

record id_map =
  to_id :: hash_index
  to_key :: "string cow_vec"
  tombstones :: "(u32, unit) cow_map"

definition id_map_new :: id_map where
  "id_map_new = \<lparr>to_id = hash_index_new, to_key = cow_vec_new, tombstones = cow_map_new\<rparr>"

text \<open>The closure every call passes as \<open>resolve\<close>.\<close>

definition key_slot :: "id_map \<Rightarrow> u32 \<Rightarrow> string option" where
  "key_slot m i = cow_vec_get (to_key m) (unat i)"

definition id_map_try_insert :: "(string \<Rightarrow> u64) \<Rightarrow> id_map \<Rightarrow> string \<Rightarrow> (id_map \<times> u32 res) option" where
  "id_map_try_insert hash m key =
     (let h = hash key in
      case get_hashed (to_id m) key h (key_slot m) of
        Some i \<Rightarrow> Some (m, Inr i)
      | None \<Rightarrow>
          (case dense_id (vlen (to_key m)) of
             Inl e \<Rightarrow> Some (m, Inl e)
           | Inr i \<Rightarrow>
               map_option (\<lambda>ix. (m\<lparr>to_key := cow_vec_push (to_key m) key, to_id := ix\<rparr>, Inr i))
                 (insert_hashed (to_id m) key h i)))"

definition id_map_get :: "(string \<Rightarrow> u64) \<Rightarrow> id_map \<Rightarrow> string \<Rightarrow> u32 option" where
  "id_map_get hash m key = hash_index_get hash (to_id m) key (key_slot m)"

definition is_tombstoned :: "id_map \<Rightarrow> u32 \<Rightarrow> bool option" where
  "is_tombstoned m i =
     (if mlen (tombstones m) = 0 then Some False else cow_map_contains_key (tombstones m) i)"

definition key_of :: "id_map \<Rightarrow> u32 \<Rightarrow> string option option" where
  "key_of m i =
     (case is_tombstoned m i of
        None \<Rightarrow> None
      | Some True \<Rightarrow> Some None
      | Some False \<Rightarrow> Some (key_slot m i))"

definition key_of_historical :: "id_map \<Rightarrow> u32 \<Rightarrow> string option" where
  "key_of_historical m i = key_slot m i"

definition unindex :: "(string \<Rightarrow> u64) \<Rightarrow> id_map \<Rightarrow> string \<Rightarrow> id_map \<times> u32 option" where
  "unindex hash m key =
     (case hash_index_remove hash (to_id m) key (key_slot m) of (ix, i) \<Rightarrow> (m\<lparr>to_id := ix\<rparr>, i))"

definition id_map_rename :: "(string \<Rightarrow> u64) \<Rightarrow> id_map \<Rightarrow> string \<Rightarrow> string \<Rightarrow> (id_map \<times> u32 res) option" where
  "id_map_rename hash m old new =
     (if id_map_get hash m new \<noteq> None then Some (m, Inl (DuplicateKey new))
      else case unindex hash m old of
        (m, None) \<Rightarrow> Some (m, Inl (KeyNotFound old))
      | (m, Some i) \<Rightarrow>
          (case cow_vec_set (to_key m) (unat i) new of
             None \<Rightarrow> None
           | Some ks \<Rightarrow>
               map_option (\<lambda>ix. (m\<lparr>to_key := ks, to_id := ix\<rparr>, Inr i))
                 (hash_index_insert hash (to_id m) new i)))"

definition id_map_delete :: "(string \<Rightarrow> u64) \<Rightarrow> id_map \<Rightarrow> string \<Rightarrow> (id_map \<times> u32 option) option" where
  "id_map_delete hash m key =
     (case unindex hash m key of
        (m, None) \<Rightarrow> Some (m, None)
      | (m, Some i) \<Rightarrow>
          map_option (\<lambda>(ts, _). (m\<lparr>tombstones := ts\<rparr>, Some i)) (cow_map_insert (tombstones m) i ()))"

definition tombstoned_ids :: "id_map \<Rightarrow> u32 list option" where
  "tombstoned_ids m = map_option (map fst) (cow_map_iter (tombstones m))"

definition id_map_len :: "id_map \<Rightarrow> nat" where "id_map_len m = vlen (to_key m)"

definition all_keys :: "id_map \<Rightarrow> string list" where "all_keys m = cow_vec_iter (to_key m)"

definition id_map_is_empty :: "id_map \<Rightarrow> bool" where "id_map_is_empty m \<longleftrightarrow> vlen (to_key m) = 0"

definition live_len :: "id_map \<Rightarrow> nat" where "live_len m = hlen (to_id m)"

text \<open>
  \<open>from_slots\<close>: the loop over the slots indexes those that are not retired and have a key.
  A \<open>BTreeSet\<close> of retired ids is its ascending list.
\<close>

fun index_slots ::
  "(string \<Rightarrow> u64) \<Rightarrow> u32 list \<Rightarrow> (nat \<times> string) list \<Rightarrow> hash_index \<Rightarrow> hash_index option" where
  "index_slots hash rt [] ix = Some ix"
| "index_slots hash rt ((n, key) # slots) ix =
     (let i = (of_nat n :: u32) in
      if i \<notin> set rt \<and> key \<noteq> []
      then (case hash_index_insert hash ix key i of
              None \<Rightarrow> None | Some ix \<Rightarrow> index_slots hash rt slots ix)
      else index_slots hash rt slots ix)"

definition id_map_from_slots :: "(string \<Rightarrow> u64) \<Rightarrow> string list \<Rightarrow> u32 list \<Rightarrow> id_map option" where
  "id_map_from_slots hash slots rt =
     map_option
       (\<lambda>ix. \<lparr>to_id = ix, to_key = cow_vec_from_vec slots,
              tombstones = cow_map_from_sorted (map (\<lambda>i. (i, ())) rt)\<rparr>)
       (index_slots hash rt (List.enumerate 0 slots) hash_index_new)"

text \<open>
  The serialized form. A \<open>HashMap\<close> of live keys is the list of its entries; it is read back
  in ascending id order.
\<close>

record id_map_wire =
  w_to_id :: "(string \<times> u32) list"
  w_to_key :: "string list"
  w_tombstones :: "u32 list"

definition wire_of_id_map :: "(string \<Rightarrow> u64) \<Rightarrow> id_map \<Rightarrow> id_map_wire option" where
  "wire_of_id_map hash m =
     map_option
       (\<lambda>ts. \<lparr>w_to_id = filter (\<lambda>(key, i). id_map_get hash m key = Some i)
                (map (\<lambda>(n, key). (key, of_nat n)) (List.enumerate 0 (all_keys m))),
              w_to_key = all_keys m, w_tombstones = ts\<rparr>)
       (tombstoned_ids m)"

fun index_entries :: "(string \<Rightarrow> u64) \<Rightarrow> (string \<times> u32) list \<Rightarrow> hash_index \<Rightarrow> hash_index option" where
  "index_entries hash [] ix = Some ix"
| "index_entries hash ((key, i) # es) ix =
     (case hash_index_insert hash ix key i of None \<Rightarrow> None | Some ix \<Rightarrow> index_entries hash es ix)"

definition id_map_of_wire :: "(string \<Rightarrow> u64) \<Rightarrow> id_map_wire \<Rightarrow> id_map option" where
  "id_map_of_wire hash w =
     map_option
       (\<lambda>ix. \<lparr>to_id = ix, to_key = cow_vec_from_vec (w_to_key w),
              tombstones = cow_map_from_sorted (map (\<lambda>i. (i, ())) (w_tombstones w))\<rparr>)
       (index_entries hash (sort_key snd (w_to_id w)) hash_index_new)"

section \<open>The specification: slots and retired ids\<close>

type_synonym id_spec = "string list \<times> u32 set"

definition id_map_abs :: "id_map \<Rightarrow> id_spec" where
  "id_map_abs m = (cow_vec_iter (to_key m), set (keys (cow_map_entries (tombstones m))))"

text \<open>The live id of a key: the first slot that holds it and is not retired.\<close>

definition spec_get :: "id_spec \<Rightarrow> string \<Rightarrow> u32 option" where
  "spec_get s k =
     List.find (\<lambda>i. fst s ! unat i = k \<and> i \<notin> snd s) (map of_nat [0..<length (fst s)])"

fun spec_insert :: "string \<Rightarrow> id_spec \<Rightarrow> id_spec \<times> u32 res" where
  "spec_insert k (sl, rt) =
     (case spec_get (sl, rt) k of
        Some i \<Rightarrow> ((sl, rt), Inr i)
      | None \<Rightarrow>
          if length sl < 2 ^ 32 then ((sl @ [k], rt), Inr (of_nat (length sl)))
          else ((sl, rt), Inl (Corrupt ''id space exhausted'' [])))"

fun spec_rename :: "string \<Rightarrow> string \<Rightarrow> id_spec \<Rightarrow> id_spec \<times> u32 res" where
  "spec_rename old new (sl, rt) =
     (if spec_get (sl, rt) new \<noteq> None then ((sl, rt), Inl (DuplicateKey new))
      else case spec_get (sl, rt) old of
        None \<Rightarrow> ((sl, rt), Inl (KeyNotFound old))
      | Some i \<Rightarrow> ((sl[unat i := new], rt), Inr i))"

fun spec_delete :: "string \<Rightarrow> id_spec \<Rightarrow> id_spec \<times> u32 option" where
  "spec_delete k (sl, rt) =
     (case spec_get (sl, rt) k of
        None \<Rightarrow> ((sl, rt), None)
      | Some i \<Rightarrow> ((sl, insert i rt), Some i))"

section \<open>The invariant\<close>

definition live_slot :: "id_spec \<Rightarrow> u32 \<Rightarrow> bool" where
  "live_slot s i \<longleftrightarrow> unat i < length (fst s) \<and> i \<notin> snd s"

definition id_map_ok :: "(string \<Rightarrow> u64) \<Rightarrow> id_map \<Rightarrow> bool" where
  "id_map_ok hash m \<longleftrightarrow>
     cow_vec_ok (to_key m) \<and> cow_map_ok (tombstones m) \<and>
     hash_index_ok hash (to_id m) (key_slot m) \<and>
     length (fst (id_map_abs m)) \<le> 2 ^ 32 \<and>
     (\<forall>i \<in> snd (id_map_abs m). unat i < length (fst (id_map_abs m))) \<and>
     (\<forall>k i. id_map_get hash m k = Some i \<longleftrightarrow>
        live_slot (id_map_abs m) i \<and> fst (id_map_abs m) ! unat i = k)"

lemma id_map_okD:
  assumes "id_map_ok hash m"
  shows "cow_vec_ok (to_key m)" "cow_map_ok (tombstones m)" "hash_index_ok hash (to_id m) (key_slot m)"
    "length (fst (id_map_abs m)) \<le> 2 ^ 32" "i \<in> snd (id_map_abs m) \<Longrightarrow> unat i < length (fst (id_map_abs m))"
    "id_map_get hash m k = Some i \<longleftrightarrow> live_slot (id_map_abs m) i \<and> fst (id_map_abs m) ! unat i = k"
  using assms unfolding id_map_ok_def by blast+

lemma key_slot_eq:
  "cow_vec_ok (to_key m) \<Longrightarrow>
   key_slot m i = (if unat i < length (fst (id_map_abs m)) then Some (fst (id_map_abs m) ! unat i) else None)"
  by (simp add: key_slot_def id_map_abs_def cv.get_list)

lemma id_map_get_inj:
  "id_map_ok hash m \<Longrightarrow> id_map_get hash m k = Some i \<Longrightarrow> id_map_get hash m k' = Some i \<Longrightarrow> k = k'"
  by (simp add: id_map_okD(6))

lemma id_map_len_new: "id_map_len id_map_new = 0"
  by (simp add: id_map_len_def id_map_new_def cow_vec_new_def)

text \<open>Live keys are pairwise different, so the specification's first slot is the only one.\<close>

lemma id_map_get_spec:
  assumes "id_map_ok hash m"
  shows "id_map_get hash m k = spec_get (id_map_abs m) k"
proof -
  obtain sl rt where s: "id_map_abs m = (sl, rt)" by fastforce
  have len: "length sl \<le> 2 ^ 32" using id_map_okD(4) [OF assms] by (simp add: s)
  note get = id_map_okD(6) [OF assms, of k, unfolded s live_slot_def fst_conv snd_conv]
  show ?thesis
  proof (cases "spec_get (sl, rt) k")
    case None
    have "id_map_get hash m k \<noteq> Some i" for i
    proof
      assume "id_map_get hash m k = Some i"
      then have i: "unat i < length sl" "i \<notin> rt" "sl ! unat i = k" using get by blast+
      then have "i \<in> set (map of_nat [0..<length sl])"
        by (auto simp: image_iff intro: bexI [of _ "unat i"])
      with None i show False by (auto simp: spec_get_def find_None_iff)
    qed
    then show ?thesis using None by (metis not_None_eq s)
  next
    case (Some i)
    then obtain n where "n < length sl" "i = of_nat n" "sl ! unat i = k" "i \<notin> rt"
      by (auto simp: spec_get_def find_Some_iff)
    moreover from this have "unat i = n" using len by (simp add: unat_of_nat)
    ultimately have "id_map_get hash m k = Some i" using get by simp
    then show ?thesis using Some by (simp add: s)
  qed
qed

lemma id_map_new_ok: "id_map_ok hash id_map_new" "id_map_abs id_map_new = ([], {})"
proof -
  show abs: "id_map_abs id_map_new = ([], {})"
    by (simp add: id_map_abs_def id_map_new_def cow_map_new_def cow_map_entries_def)
  show "id_map_ok hash id_map_new"
    using om.empty(1) hash_index_new_ok [of hash] unfolding id_map_ok_def abs
    by (simp add: id_map_new_def id_map_get_def live_slot_def)
qed

section \<open>The operations refine the specification\<close>

lemma id_map_try_insert_correct:
  assumes ok: "id_map_ok hash m"
  shows "\<exists>m' r. id_map_try_insert hash m k = Some (m', r) \<and> id_map_ok hash m' \<and>
    spec_insert k (id_map_abs m) = (id_map_abs m', r)"
proof -
  obtain sl rt where s: "id_map_abs m = (sl, rt)" by fastforce
  have sl: "cow_vec_iter (to_key m) = sl" using s by (simp add: id_map_abs_def)
  note D = id_map_okD [OF ok, unfolded s fst_conv snd_conv]
  have len: "vlen (to_key m) = length sl" using cv.len_list [OF D(1)] sl by simp
  have look: "get_hashed (to_id m) k (hash k) (key_slot m) = id_map_get hash m k"
    by (simp add: id_map_get_def hash_index_get_def)
  show ?thesis
  proof (cases "id_map_get hash m k")
    case (Some i)
    then show ?thesis
      using id_map_get_spec [OF ok, of k] ok look by (simp add: id_map_try_insert_def s Let_def)
  next
    case None
    note sp = id_map_get_spec [OF ok, of k, unfolded None s, symmetric]
    show ?thesis
    proof (cases "length sl < 2 ^ 32")
      case False
      then show ?thesis
        using None look sp ok by (simp add: id_map_try_insert_def s Let_def dense_id_def len)
    next
      case True
      define i :: u32 where "i = of_nat (length sl)"
      have ui: "unat i = length sl" using True by (simp add: i_def unat_of_nat)
      have push: "cow_vec_ok (cow_vec_push (to_key m) k)" "cow_vec_iter (cow_vec_push (to_key m) k) = sl @ [k]"
        using cv.push_list [OF D(1)] sl by auto
      define slot' where "slot' = (\<lambda>j :: u32. cow_vec_get (cow_vec_push (to_key m) k) (unat j))"
      have slot': "slot' j = (if unat j < length sl then Some (sl ! unat j)
          else if unat j = length sl then Some k else None)" for j :: u32
        using cv.get_list [OF push(1)] by (auto simp: slot'_def push(2) nth_append)
      have old: "slot' j = Some l" if "hash_index_get hash (to_id m) l (key_slot m) = Some j" for l j
        using that D(6) [of l j] by (auto simp: id_map_get_def live_slot_def slot')
      obtain ix where ix: "hash_index_insert hash (to_id m) k i = Some ix" "hash_index_ok hash ix slot'"
          "\<And>l. hash_index_get hash ix l slot' = (if l = k then Some i else id_map_get hash m l)"
        using hi.insert_law [where hash = hash and res' = slot' and i = i and k = k, OF D(3) _ old] None ui
        by (auto simp: id_map_get_def slot')
      define m' where "m' = m\<lparr>to_key := cow_vec_push (to_key m) k, to_id := ix\<rparr>"
      have m': "id_map_abs m' = (sl @ [k], rt)" "key_slot m' = slot'"
        using push s by (auto simp: m'_def id_map_abs_def key_slot_def slot'_def fun_eq_iff)
      have new: "i \<notin> rt" using D(5) [of i] ui by auto
      have "id_map_get hash m' l = Some j \<longleftrightarrow> live_slot (sl @ [k], rt) j \<and> (sl @ [k]) ! unat j = l" for l j
      proof -
        have "id_map_get hash m' l = (if l = k then Some i else id_map_get hash m l)"
          using ix(3) by (simp add: id_map_get_def [of hash m'] m'(2)) (simp add: m'_def)
        moreover have "unat j = length sl \<longleftrightarrow> j = i" using ui by (metis word_unat_eq_iff)
        moreover have "\<not> (live_slot (sl, rt) j \<and> sl ! unat j = k)" using D(6) [of k j] None by simp
        ultimately show ?thesis
          using D(6) [of l j] new by (auto simp: live_slot_def nth_append less_Suc_eq)
      qed
      then have "id_map_ok hash m'"
        using D(2,5) push(1) ix(2) True unfolding id_map_ok_def m'
        by (auto simp: m'_def less_Suc_eq)
      moreover have "id_map_try_insert hash m k = Some (m', Inr i)"
        using None look ix(1) True
        by (simp add: id_map_try_insert_def Let_def dense_id_def len i_def [symmetric] m'_def hash_index_insert_def)
      ultimately show ?thesis using sp True m'(1) by (simp add: s i_def)
    qed
  qed
qed

lemma unindex_correct:
  assumes ok: "id_map_ok hash m"
  obtains ix where "unindex hash m k = (m\<lparr>to_id := ix\<rparr>, id_map_get hash m k)"
    "hash_index_ok hash ix (key_slot m)"
    "\<And>l. hash_index_get hash ix l (key_slot m) = (if l = k then None else id_map_get hash m l)"
  using hi.remove_law [OF id_map_okD(3) [OF ok], of k]
  by (auto simp: unindex_def id_map_get_def)

lemma id_map_rename_correct:
  assumes ok: "id_map_ok hash m"
  shows "\<exists>m' r. id_map_rename hash m old new = Some (m', r) \<and> id_map_ok hash m' \<and>
    spec_rename old new (id_map_abs m) = (id_map_abs m', r)"
proof -
  obtain sl rt where s: "id_map_abs m = (sl, rt)" by fastforce
  have sl: "cow_vec_iter (to_key m) = sl" using s by (simp add: id_map_abs_def)
  note D = id_map_okD [OF ok, unfolded s fst_conv snd_conv]
  note sp = id_map_get_spec [OF ok, symmetric, unfolded s]
  obtain ix where ix: "unindex hash m old = (m\<lparr>to_id := ix\<rparr>, id_map_get hash m old)"
    "hash_index_ok hash ix (key_slot m)"
    "\<And>l. hash_index_get hash ix l (key_slot m) = (if l = old then None else id_map_get hash m l)"
    using unindex_correct [OF ok] by metis
  consider "id_map_get hash m new \<noteq> None" | "id_map_get hash m new = None" "id_map_get hash m old = None"
    | i where "id_map_get hash m new = None" "id_map_get hash m old = Some i" by auto
  then show ?thesis
  proof cases
    case 1
    then show ?thesis using ok by (simp add: id_map_rename_def s sp)
  next
    case 2
    let ?m = "m\<lparr>to_id := ix\<rparr>"
    have same: "id_map_abs ?m = (sl, rt)" "key_slot ?m = key_slot m"
      using s by (auto simp: id_map_abs_def key_slot_def fun_eq_iff)
    have "id_map_get hash ?m l = id_map_get hash m l" for l
      using ix(3) 2 same(2) by (simp add: id_map_get_def)
    then have "id_map_ok hash ?m"
      using ok ix(2) unfolding id_map_ok_def same s by simp
    then show ?thesis using 2 ix(1) same by (simp add: id_map_rename_def s sp)
  next
    case (3 i)
    have i: "unat i < length sl" "i \<notin> rt" "sl ! unat i = old"
      using D(6) [of old i] 3(2) by (auto simp: live_slot_def)
    obtain ks where ks: "cow_vec_set (to_key m) (unat i) new = Some ks" "cow_vec_ok ks"
        "cow_vec_iter ks = sl[unat i := new]"
      using cv.set_list [OF D(1), of "unat i" new] i(1) sl by auto
    define slot' where "slot' = (\<lambda>j :: u32. cow_vec_get ks (unat j))"
    have slot': "slot' j = (if j = i then Some new else key_slot m j)" for j
      using cv.get_set [OF D(1) ks(1), of "unat j"] by (auto simp: slot'_def key_slot_def simp flip: word_unat_eq_iff)
    have olds: "slot' j = Some l" if "hash_index_get hash ix l (key_slot m) = Some j" for l j
    proof -
      have l: "l \<noteq> old" "id_map_get hash m l = Some j" using that ix(3) [of l] by (auto split: if_splits)
      then have "j \<noteq> i" using D(6) [of l j] i(3) by auto
      then show ?thesis using D(6) [of l j] l key_slot_eq [OF D(1)] by (simp add: slot' s live_slot_def)
    qed
    have free: "hash_index_get hash ix new (key_slot m) = None" using ix(3) 3(1) by simp
    obtain ix' where ix': "hash_index_insert hash ix new i = Some ix'" "hash_index_ok hash ix' slot'"
        "\<And>l. hash_index_get hash ix' l slot' =
          (if l = new then Some i else if l = old then None else id_map_get hash m l)"
      using hi.insert_law [where hash = hash and res' = slot' and i = i and k = new, OF ix(2) free olds] ix(3)
      by (auto simp: slot')
    define m' where "m' = m\<lparr>to_id := ix', to_key := ks\<rparr>"
    have m': "id_map_abs m' = (sl[unat i := new], rt)" "key_slot m' = slot'"
      using ks s by (auto simp: m'_def id_map_abs_def key_slot_def slot'_def fun_eq_iff)
    have "id_map_get hash m' l = Some j \<longleftrightarrow>
        live_slot (sl[unat i := new], rt) j \<and> sl[unat i := new] ! unat j = l" for l j
    proof -
      have "id_map_get hash m' l =
          (if l = new then Some i else if l = old then None else id_map_get hash m l)"
        using ix'(3) by (simp add: id_map_get_def [of hash m'] m'(2)) (simp add: m'_def)
      moreover have "\<not> (live_slot (sl, rt) j \<and> sl ! unat j = new)" using D(6) [of new j] 3(1) by simp
      moreover have "live_slot (sl, rt) j \<and> sl ! unat j = old \<longleftrightarrow> j = i" using D(6) [of old j] 3(2) by auto
      ultimately show ?thesis
        using D(6) [of l j] i by (auto simp: live_slot_def nth_list_update)
    qed
    then have "id_map_ok hash m'"
      using D(2,4,5) ks(2) ix'(2) unfolding id_map_ok_def m' by (auto simp: m'_def)
    moreover have "id_map_rename hash m old new = Some (m', Inr i)"
      using 3 ix(1) ks(1) ix'(1) by (simp add: id_map_rename_def m'_def)
    ultimately show ?thesis using 3 m'(1) by (simp add: s sp)
  qed
qed

lemma id_map_delete_correct:
  assumes ok: "id_map_ok hash m"
  shows "\<exists>m' r. id_map_delete hash m k = Some (m', r) \<and> id_map_ok hash m' \<and>
    spec_delete k (id_map_abs m) = (id_map_abs m', r)"
proof -
  obtain sl rt where s: "id_map_abs m = (sl, rt)" by fastforce
  note D = id_map_okD [OF ok, unfolded s fst_conv snd_conv]
  note sp = id_map_get_spec [OF ok, symmetric, unfolded s]
  obtain ix where ix: "unindex hash m k = (m\<lparr>to_id := ix\<rparr>, id_map_get hash m k)"
    "hash_index_ok hash ix (key_slot m)"
    "\<And>l. hash_index_get hash ix l (key_slot m) = (if l = k then None else id_map_get hash m l)"
    using unindex_correct [OF ok] by metis
  have slot: "key_slot (m\<lparr>to_id := ix, tombstones := ts\<rparr>) = key_slot m" for ts
    by (simp add: key_slot_def fun_eq_iff)
  show ?thesis
  proof (cases "id_map_get hash m k")
    case None
    let ?m = "m\<lparr>to_id := ix\<rparr>"
    have same: "id_map_abs ?m = (sl, rt)" "key_slot ?m = key_slot m"
      using s by (auto simp: id_map_abs_def key_slot_def fun_eq_iff)
    have "id_map_get hash ?m l = id_map_get hash m l" for l
      using ix(3) None same(2) by (simp add: id_map_get_def)
    then have "id_map_ok hash ?m" using ok ix(2) unfolding id_map_ok_def same s by simp
    then show ?thesis using None ix(1) same by (simp add: id_map_delete_def s sp)
  next
    case (Some i)
    have i: "unat i < length sl" "i \<notin> rt" "sl ! unat i = k"
      using D(6) [of k i] Some by (auto simp: live_slot_def)
    obtain ts old where ts: "cow_map_insert (tombstones m) i () = Some (ts, old)" "cow_map_ok ts"
        "set (keys (cow_map_entries ts)) = insert i rt"
      using cow_map_insert_correct [OF D(2), of i "()"]
        set_keys_alist_ins [of i "()" "cow_map_entries (tombstones m)"] s
      by (auto simp: id_map_abs_def simp del: set_map)
    define m' where "m' = m\<lparr>to_id := ix, tombstones := ts\<rparr>"
    have m': "id_map_abs m' = (sl, insert i rt)" "key_slot m' = key_slot m"
      using ts(3) s slot by (auto simp: m'_def id_map_abs_def simp del: set_map)
    have "id_map_get hash m' l = Some j \<longleftrightarrow> live_slot (sl, insert i rt) j \<and> sl ! unat j = l" for l j
    proof -
      have "id_map_get hash m' l = (if l = k then None else id_map_get hash m l)"
        using ix(3) by (simp add: id_map_get_def [of hash m'] m'(2)) (simp add: m'_def)
      moreover have "live_slot (sl, rt) j \<and> sl ! unat j = k \<longleftrightarrow> j = i" using D(6) [of k j] Some by auto
      ultimately show ?thesis using D(6) [of l j] i by (auto simp: live_slot_def)
    qed
    then have "id_map_ok hash m'"
      using D(1,4,5) ts(2) ix(2) i(1) unfolding id_map_ok_def m' by (auto simp: m'_def)
    moreover have "id_map_delete hash m k = Some (m', Some i)"
      using Some ix(1) ts(1) by (simp add: id_map_delete_def m'_def)
    ultimately show ?thesis using Some m'(1) by (simp add: s sp)
  qed
qed

section \<open>Rebuilding the map\<close>

lemma index_entries_correct:
  assumes "hash_index_ok hash ix res" "distinct (keys es)" "\<And>k i. (k, i) \<in> set es \<Longrightarrow> res i = Some k"
    "\<And>k. k \<in> set (keys es) \<Longrightarrow> hash_index_get hash ix k res = None"
  shows "\<exists>ix'. index_entries hash es ix = Some ix' \<and> hash_index_ok hash ix' res \<and>
    (\<forall>k. hash_index_get hash ix' k res =
      (if k \<in> set (keys es) then map_of es k else hash_index_get hash ix k res))"
  using assms
proof (induction es arbitrary: ix)
  case (Cons e es)
  obtain k i where e: "e = (k, i)" by (cases e)
  have kept: "res j = Some l" if "hash_index_get hash ix l res = Some j" for l j
    using hi.get_resolves [OF Cons.prems(1) that] .
  obtain ix1 where ix1: "hash_index_insert hash ix k i = Some ix1" "hash_index_ok hash ix1 res"
      "\<And>l. hash_index_get hash ix1 l res = (if l = k then Some i else hash_index_get hash ix l res)"
    using hi.insert_law [where res' = res and i = i and k = k, OF Cons.prems(1) _ kept] Cons.prems(3,4) [of k]
      Cons.prems(3) [of k i] by (auto simp: e)
  have "k \<notin> set (keys es)" using Cons.prems(2) by (simp add: e)
  moreover have "hash_index_get hash ix1 l res = None" if "l \<in> set (keys es)" for l
    using that Cons.prems(2) Cons.prems(4) [of l] by (auto simp: ix1(3) e simp del: set_map)
  ultimately show ?case
    using Cons.IH [OF ix1(2)] Cons.prems(2,3) ix1(1,3) by (auto simp: e simp del: set_map)
qed simp

lemma index_slots_entries:
  "index_slots hash rt slots ix =
   index_entries hash
     (map (\<lambda>(n, k). (k, of_nat n))
       (filter (\<lambda>(n, k). (of_nat n :: u32) \<notin> set rt \<and> k \<noteq> []) slots)) ix"
  by (induction hash rt slots ix rule: index_slots.induct) (auto simp: Let_def split: option.splits)

text \<open>
  Slots and retired ids a snapshot may hold: retired ids are ascending and allocated, and
  no two live slots have the same key.
\<close>

definition slots_ok :: "string list \<Rightarrow> u32 list \<Rightarrow> bool" where
  "slots_ok sl rt \<longleftrightarrow>
     length sl \<le> 2 ^ 32 \<and> ssorted rt \<and> (\<forall>i \<in> set rt. unat i < length sl) \<and>
     (\<forall>i j. live_slot (sl, set rt) i \<longrightarrow> live_slot (sl, set rt) j \<longrightarrow> sl ! unat i = sl ! unat j \<longrightarrow> i = j)"

definition live_entries :: "string list \<Rightarrow> u32 list \<Rightarrow> (string \<times> u32) list \<Rightarrow> bool" where
  "live_entries sl rt es \<longleftrightarrow> distinct (keys es) \<and>
     (\<forall>k i. (k, i) \<in> set es \<longleftrightarrow> live_slot (sl, set rt) i \<and> sl ! unat i = k)"

text \<open>Indexing exactly the live slots, in any order, gives the map of those slots.\<close>

lemma rebuild_correct:
  assumes sl: "slots_ok sl rt" and es: "live_entries sl rt es"
  shows "\<exists>ix. index_entries hash es hash_index_new = Some ix \<and>
    (let m = \<lparr>to_id = ix, to_key = cow_vec_from_vec sl,
              tombstones = cow_map_from_sorted (map (\<lambda>i. (i, ())) rt)\<rparr>
     in id_map_ok hash m \<and> id_map_abs m = (sl, set rt))"
proof -
  define res where "res = (\<lambda>i :: u32. cow_vec_get (cow_vec_from_vec sl) (unat i))"
  have vec: "cow_vec_ok (cow_vec_from_vec sl)" "cow_vec_iter (cow_vec_from_vec sl) = sl"
    using cow_vec_from_vec_correct by auto
  have ts: "cow_map_ok (cow_map_from_sorted (map (\<lambda>i. (i, ())) rt))"
    "keys (cow_map_entries (cow_map_from_sorted (map (\<lambda>i. (i, ())) rt))) = rt"
    using cow_map_from_sorted_correct [of "map (\<lambda>i. (i, ())) rt"] sl
    by (simp_all add: slots_ok_def comp_def)
  have res: "res i = Some k" if "(k, i) \<in> set es" for k i
    using that es cv.get_list [OF vec(1)] by (auto simp: live_entries_def live_slot_def res_def vec(2))
  have d: "distinct (keys es)" using es by (simp add: live_entries_def)
  obtain ix where ix: "index_entries hash es hash_index_new = Some ix" "hash_index_ok hash ix res"
      "\<And>k. hash_index_get hash ix k res = (if k \<in> set (keys es) then map_of es k else None)"
    using index_entries_correct [where hash = hash and res = res, OF hash_index_new_ok(1) d res hash_index_new_ok(2)]
    unfolding hash_index_new_ok(2) by blast
  have ix3: "hash_index_get hash ix k res = map_of es k" for k
    using ix(3) [of k] map_of_None_keys [of es k] by presburger
  define m where "m = \<lparr>to_id = ix, to_key = cow_vec_from_vec sl,
      tombstones = cow_map_from_sorted (map (\<lambda>i. (i, ())) rt)\<rparr>"
  have m: "id_map_abs m = (sl, set rt)" "key_slot m = res" "to_id m = ix"
    using vec(2) ts(2) by (auto simp: m_def id_map_abs_def key_slot_def res_def fun_eq_iff simp del: set_map)
  have "id_map_get hash m k = Some i \<longleftrightarrow> live_slot (sl, set rt) i \<and> sl ! unat i = k" for k i
    using ix3 es by (simp add: id_map_get_def m live_entries_def)
  then have "id_map_ok hash m"
    using vec(1) ts(1) ix(2) sl unfolding id_map_ok_def m fst_conv snd_conv
    by (simp add: m_def slots_ok_def)
  then show ?thesis using ix(1) m(1) by (simp add: m_def Let_def)
qed

lemma unat_of_nat_slot: "n < length sl \<Longrightarrow> length sl \<le> 2 ^ 32 \<Longrightarrow> unat (of_nat n :: u32) = n"
  by (simp add: unat_of_nat)

lemma enumerate_live:
  assumes sl: "slots_ok sl rt"
    and P: "\<And>n. n < length sl \<Longrightarrow> P (n, sl ! n) \<longleftrightarrow> (of_nat n :: u32) \<notin> set rt"
  shows "live_entries sl rt (map (\<lambda>(n, k). (k, of_nat n)) (filter P (List.enumerate 0 sl)))"
proof -
  have len: "length sl \<le> 2 ^ 32" using sl by (simp add: slots_ok_def)
  have mem: "(n, k) \<in> set (filter P (List.enumerate 0 sl)) \<longleftrightarrow>
      n < length sl \<and> k = sl ! n \<and> (of_nat n :: u32) \<notin> set rt" for n k
    using P by (auto simp: in_set_enumerate_eq)
  let ?es = "map (\<lambda>(n, k). (k, of_nat n :: u32)) (filter P (List.enumerate 0 sl))"
  have "(k, i) \<in> set ?es \<longleftrightarrow> live_slot (sl, set rt) i \<and> sl ! unat i = k" for k i
  proof
    assume "(k, i) \<in> set ?es"
    then obtain n where "i = of_nat n" "(n, k) \<in> set (filter P (List.enumerate 0 sl))" by auto
    then show "live_slot (sl, set rt) i \<and> sl ! unat i = k"
      unfolding mem using unat_of_nat_slot [OF _ len] by (simp add: live_slot_def)
  next
    assume "live_slot (sl, set rt) i \<and> sl ! unat i = k"
    then have "(unat i, k) \<in> set (filter P (List.enumerate 0 sl))"
      unfolding mem by (auto simp: live_slot_def)
    then show "(k, i) \<in> set ?es" by (force simp: image_iff)
  qed
  moreover have "distinct (map snd (filter P (List.enumerate 0 sl)))"
  proof -
    have "inj_on snd (set (filter P (List.enumerate 0 sl)))"
    proof (rule inj_onI)
      fix x y assume xy: "x \<in> set (filter P (List.enumerate 0 sl))" "y \<in> set (filter P (List.enumerate 0 sl))"
        "snd x = snd y"
      obtain n k n' k' where p: "x = (n, k)" "y = (n', k')" by fastforce
      have "n < length sl" "n' < length sl" "sl ! n = sl ! n'" "k = k'"
        "(of_nat n :: u32) \<notin> set rt" "(of_nat n' :: u32) \<notin> set rt"
        using xy unfolding p mem by auto
      moreover from this have "of_nat n = (of_nat n' :: u32)"
        using sl unat_of_nat_slot [OF _ len] by (auto simp: slots_ok_def live_slot_def)
      ultimately show "x = y" using unat_of_nat_slot [OF _ len] p by metis
    qed
    then show ?thesis by (simp add: distinct_map distinct_enumerate)
  qed
  then have "distinct (keys ?es)" by (simp add: comp_def case_prod_unfold)
  ultimately show ?thesis by (simp add: live_entries_def)
qed

lemma id_map_from_slots_correct:
  assumes sl: "slots_ok sl rt" and keyed: "\<And>i. live_slot (sl, set rt) i \<Longrightarrow> sl ! unat i \<noteq> []"
  shows "\<exists>m. id_map_from_slots hash sl rt = Some m \<and> id_map_ok hash m \<and> id_map_abs m = (sl, set rt)"
proof -
  have "live_entries sl rt (map (\<lambda>(n, k). (k, of_nat n))
      (filter (\<lambda>(n, k). (of_nat n :: u32) \<notin> set rt \<and> k \<noteq> []) (List.enumerate 0 sl)))"
  proof (rule enumerate_live [OF sl])
    fix n assume "n < length sl"
    then show "(case (n, sl ! n) of (n, k) \<Rightarrow> (of_nat n :: u32) \<notin> set rt \<and> k \<noteq> []) \<longleftrightarrow>
        (of_nat n :: u32) \<notin> set rt"
      using keyed [of "of_nat n"] unat_of_nat_slot [of n sl] sl by (auto simp: live_slot_def slots_ok_def)
  qed
  from rebuild_correct [OF sl this, of hash] show ?thesis
    by (auto simp: id_map_from_slots_def index_slots_entries Let_def)
qed

lemma id_map_slots_ok:
  assumes "id_map_ok hash m"
  shows "slots_ok (all_keys m) (keys (cow_map_entries (tombstones m)))"
    "tombstoned_ids m = Some (keys (cow_map_entries (tombstones m)))"
    "id_map_abs m = (all_keys m, set (keys (cow_map_entries (tombstones m))))"
proof -
  show abs: "id_map_abs m = (all_keys m, set (keys (cow_map_entries (tombstones m))))"
    by (simp add: id_map_abs_def all_keys_def)
  note D = id_map_okD [OF assms, unfolded abs fst_conv snd_conv]
  show "tombstoned_ids m = Some (keys (cow_map_entries (tombstones m)))"
    using D(2) by (simp add: tombstoned_ids_def cow_map_iter_correct)
  have "i = j" if "live_slot (all_keys m, set (keys (cow_map_entries (tombstones m)))) i"
    "live_slot (all_keys m, set (keys (cow_map_entries (tombstones m)))) j"
    "all_keys m ! unat i = all_keys m ! unat j" for i j
    using D(6) [of "all_keys m ! unat j" i] D(6) [of "all_keys m ! unat j" j] that by simp
  then show "slots_ok (all_keys m) (keys (cow_map_entries (tombstones m)))"
    using D(4,5) cow_map_sorted [OF D(2)] unfolding slots_ok_def by blast
qed

section \<open>Runs\<close>

datatype id_op = TryInsert string | Rename string string | Delete string

datatype id_out = Allocated "u32 res" | Retired "u32 option"

fun id_map_step :: "(string \<Rightarrow> u64) \<Rightarrow> id_op \<Rightarrow> id_map \<Rightarrow> (id_map \<times> id_out) option" where
  "id_map_step hash (TryInsert k) m = map_option (map_prod id Allocated) (id_map_try_insert hash m k)"
| "id_map_step hash (Rename old new) m = map_option (map_prod id Allocated) (id_map_rename hash m old new)"
| "id_map_step hash (Delete k) m = map_option (map_prod id Retired) (id_map_delete hash m k)"

fun spec_step :: "id_op \<Rightarrow> id_spec \<Rightarrow> id_spec \<times> id_out" where
  "spec_step (TryInsert k) s = map_prod id Allocated (spec_insert k s)"
| "spec_step (Rename old new) s = map_prod id Allocated (spec_rename old new s)"
| "spec_step (Delete k) s = map_prod id Retired (spec_delete k s)"

fun id_map_run :: "(string \<Rightarrow> u64) \<Rightarrow> id_op list \<Rightarrow> id_map \<Rightarrow> (id_map \<times> id_out list) option" where
  "id_map_run hash [] m = Some (m, [])"
| "id_map_run hash (op # ops) m =
     (case id_map_step hash op m of
        None \<Rightarrow> None
      | Some (m, r) \<Rightarrow> map_option (\<lambda>(m, rs). (m, r # rs)) (id_map_run hash ops m))"

fun spec_run :: "id_op list \<Rightarrow> id_spec \<Rightarrow> id_spec \<times> id_out list" where
  "spec_run [] s = (s, [])"
| "spec_run (op # ops) s =
     (case spec_step op s of (s, r) \<Rightarrow> case spec_run ops s of (s, rs) \<Rightarrow> (s, r # rs))"

lemma id_map_step_correct:
  assumes "id_map_ok hash m"
  shows "\<exists>m' r. id_map_step hash op m = Some (m', r) \<and> id_map_ok hash m' \<and>
    spec_step op (id_map_abs m) = (id_map_abs m', r)"
  using id_map_try_insert_correct [OF assms] id_map_rename_correct [OF assms] id_map_delete_correct [OF assms]
  by (cases op) (fastforce simp: map_prod_def)+

lemma id_map_run_correct:
  assumes "id_map_ok hash m"
  shows "\<exists>m' rs. id_map_run hash ops m = Some (m', rs) \<and> id_map_ok hash m' \<and>
    spec_run ops (id_map_abs m) = (id_map_abs m', rs)"
  using assms
proof (induction ops arbitrary: m)
  case (Cons op ops)
  obtain m1 r where "id_map_step hash op m = Some (m1, r)" "id_map_ok hash m1"
      "spec_step op (id_map_abs m) = (id_map_abs m1, r)"
    using id_map_step_correct [OF Cons.prems] by blast
  with Cons.IH [of m1] show ?case by auto
qed simp

lemma spec_step_retired:
  assumes "spec_step op (sl, rt) = ((sl', rt'), r)"
  shows "rt \<subseteq> rt'" "i \<in> rt \<Longrightarrow> unat i < length sl \<Longrightarrow> unat i < length sl' \<and> sl' ! unat i = sl ! unat i"
proof -
  have find: "j \<notin> rt" if "spec_get (sl, rt) k = Some j" for k j
    using that by (auto simp: spec_get_def find_Some_iff)
  show "rt \<subseteq> rt'" using assms by (cases op) (auto split: option.splits if_splits)
  show "i \<in> rt \<Longrightarrow> unat i < length sl \<Longrightarrow> unat i < length sl' \<and> sl' ! unat i = sl ! unat i"
  proof -
    assume i: "i \<in> rt" "unat i < length sl"
    then have "unat j \<noteq> unat i" if "spec_get (sl, rt) k = Some j" for k j
      using find [OF that] by (metis word_unat_eq_iff)
    with assms i show ?thesis
      by (cases op) (auto simp: nth_append split: option.splits if_splits)
  qed
qed

lemma spec_run_retired:
  assumes "spec_run ops (sl, rt) = ((sl', rt'), rs)" "i \<in> rt" "unat i < length sl"
  shows "i \<in> rt' \<and> unat i < length sl' \<and> sl' ! unat i = sl ! unat i"
  using assms
proof (induction ops arbitrary: sl rt rs)
  case (Cons op ops)
  obtain sl1 rt1 r where st: "spec_step op (sl, rt) = ((sl1, rt1), r)" by (metis surj_pair)
  note R = spec_step_retired [OF st]
  show ?case
    using Cons.IH [of sl1 rt1] R(1) R(2) [OF Cons.prems(2,3)] Cons.prems st
    by (auto split: prod.splits)
qed simp

lemma is_tombstoned_correct:
  assumes "id_map_ok hash m" shows "is_tombstoned m i = Some (i \<in> snd (id_map_abs m))"
proof -
  have ok: "cow_map_ok (tombstones m)" using id_map_okD(2) [OF assms] .
  then have "mlen (tombstones m) = 0 \<longleftrightarrow> cow_map_entries (tombstones m) = []" by (simp add: cow_map_ok_def)
  with ok show ?thesis
    by (auto simp: is_tombstoned_def id_map_abs_def cow_map_contains_key_def cow_map_get_correct map_of_None_keys
        simp del: not_None_eq set_map)
qed

lemma key_of_correct:
  assumes "id_map_ok hash m"
  shows "key_of m i =
    Some (if live_slot (id_map_abs m) i then Some (fst (id_map_abs m) ! unat i) else None)"
  using is_tombstoned_correct [OF assms, of i] key_slot_eq [OF id_map_okD(1) [OF assms], of i]
  by (auto simp: key_of_def live_slot_def split: bool.splits)

lemma live_len_correct:
  assumes "id_map_ok hash m"
  shows "live_len m = card {i. live_slot (id_map_abs m) i}"
proof -
  let ?s = "id_map_abs m"
  have "bij_betw (\<lambda>i. fst ?s ! unat i) {i. live_slot ?s i} {k. id_map_get hash m k \<noteq> None}"
  proof (rule bij_betwI')
    fix i j assume "i \<in> {i. live_slot ?s i}" "j \<in> {i. live_slot ?s i}"
    then show "(fst ?s ! unat i = fst ?s ! unat j) = (i = j)"
      using id_map_okD(6) [OF assms] by (metis mem_Collect_eq option.inject)
  next
    fix i assume "i \<in> {i. live_slot ?s i}"
    then have "id_map_get hash m (fst ?s ! unat i) = Some i" using id_map_okD(6) [OF assms] by simp
    then show "fst ?s ! unat i \<in> {k. id_map_get hash m k \<noteq> None}" by simp
  next
    fix k assume "k \<in> {k. id_map_get hash m k \<noteq> None}"
    then obtain i where "id_map_get hash m k = Some i" by auto
    then show "\<exists>i \<in> {i. live_slot ?s i}. k = fst ?s ! unat i" using id_map_okD(6) [OF assms, of k i] by auto
  qed
  then have "card {i. live_slot ?s i} = card {k. id_map_get hash m k \<noteq> None}" by (rule bij_betw_same_card)
  also have "\<dots> = live_len m"
    using hi.len_card [OF id_map_okD(3) [OF assms]] by (simp add: live_len_def id_map_get_def)
  finally show ?thesis by simp
qed

lemma wire_entries_live:
  assumes ok: "id_map_ok hash m" and w: "wire_of_id_map hash m = Some w"
  shows "live_entries (all_keys m) (keys (cow_map_entries (tombstones m))) (w_to_id w)"
    "w_to_key w = all_keys m" "w_tombstones w = keys (cow_map_entries (tombstones m))"
proof -
  note slots = id_map_slots_ok [OF ok]
  let ?rt = "keys (cow_map_entries (tombstones m))"
  let ?P = "\<lambda>(n, k). id_map_get hash m k = Some (of_nat n)"
  have "?P (n, all_keys m ! n) \<longleftrightarrow> (of_nat n :: u32) \<notin> set ?rt" if "n < length (all_keys m)" for n
    using that id_map_okD(6) [OF ok, of "all_keys m ! n" "of_nat n"] unat_of_nat_slot [of n "all_keys m"]
      slots(1) unfolding slots(3) by (simp add: live_slot_def slots_ok_def)
  from enumerate_live [OF slots(1), of ?P, OF this]
  have "live_entries (all_keys m) ?rt
      (map (\<lambda>(n, k). (k, of_nat n)) (filter ?P (List.enumerate 0 (all_keys m))))" .
  moreover have "w_to_id w = map (\<lambda>(n, k). (k, of_nat n)) (filter ?P (List.enumerate 0 (all_keys m)))"
    using w slots(2) by (auto simp: wire_of_id_map_def filter_map comp_def case_prod_unfold)
  ultimately show "live_entries (all_keys m) ?rt (w_to_id w)" by simp
  show "w_to_key w = all_keys m" "w_tombstones w = ?rt" using w slots(2) by (auto simp: wire_of_id_map_def)
qed

text \<open>Maps of the same slots and retired ids answer alike, whatever their hash keys.\<close>

lemma same_abs_same_answers:
  assumes "id_map_ok hash m" "id_map_ok hash' m'" "id_map_abs m' = id_map_abs m"
  shows "id_map_get hash' m' k = id_map_get hash m k" "key_of m' i = key_of m i" "live_len m' = live_len m"
  using assms by (simp_all add: id_map_get_spec key_of_correct live_len_correct)

section \<open>Properties\<close>

text \<open>C3. Whatever the hash function, every sequence of inserts, renames and deletes on an
  empty id map runs without a panic, gives the results the slot-list specification gives,
  and leaves a map whose lookups are those of the specification.\<close>

theorem id_map_refines_spec:
  "\<exists>m rs. id_map_run hash ops id_map_new = Some (m, rs) \<and>
     spec_run ops ([], {}) = (id_map_abs m, rs) \<and>
     id_map_get hash m k = spec_get (id_map_abs m) k"
  using id_map_run_correct [OF id_map_new_ok(1), of hash ops] id_map_get_spec
  by (auto simp: id_map_new_ok(2))

text \<open>C10. A retired id never comes back: after a delete of a key, whatever runs next, no key
  resolves to its id and the id has no live key, while the historical lookup still answers
  the key it was deleted under.\<close>

theorem retired_ids_stay_retired:
  assumes "id_map_run hash before id_map_new = Some (m, rs)"
    "id_map_delete hash m k = Some (m1, Some i)"
    "id_map_run hash after m1 = Some (m2, rs')"
  shows "id_map_get hash m2 l \<noteq> Some i \<and> key_of m2 i = Some None \<and> key_of_historical m2 i = Some k"
proof -
  have ok: "id_map_ok hash m" using id_map_run_correct [OF id_map_new_ok(1), of hash before] assms(1) by auto
  obtain sl rt where s: "id_map_abs m = (sl, rt)" by fastforce
  have ok1: "id_map_ok hash m1" and d: "spec_delete k (sl, rt) = (id_map_abs m1, Some i)"
    using id_map_delete_correct [OF ok, of k] assms(2) s by auto
  then have get: "spec_get (sl, rt) k = Some i" and a1: "id_map_abs m1 = (sl, insert i rt)"
    by (auto split: option.splits)
  have i: "unat i < length sl" "sl ! unat i = k"
    using id_map_okD(6) [OF ok, of k i] id_map_get_spec [OF ok, of k] get by (auto simp: s live_slot_def)
  have ok2: "id_map_ok hash m2" and r: "spec_run after (sl, insert i rt) = (id_map_abs m2, rs')"
    using id_map_run_correct [OF ok1, of "after"] assms(3) a1 by auto
  obtain sl2 rt2 where s2: "id_map_abs m2 = (sl2, rt2)" by fastforce
  have i2: "i \<in> rt2" "unat i < length sl2" "sl2 ! unat i = k"
    using spec_run_retired [OF r [unfolded s2], of i] i by auto
  then show ?thesis
    using id_map_okD(6) [OF ok2, of l i] key_of_correct [OF ok2, of i] key_slot_eq [OF id_map_okD(1) [OF ok2], of i]
    by (auto simp: s2 live_slot_def key_of_historical_def)
qed

text \<open>The witness forces every key to one hash, so the second key is a collision.\<close>

theorem retired_ids_stay_retired_witness:
  "\<exists>m2. id_map_run (\<lambda>_. 0) [TryInsert ''b'', Rename ''a'' ''b''] (fst (the (id_map_delete (\<lambda>_. 0)
       (fst (the (id_map_run (\<lambda>_. 0) [TryInsert ''a'', TryInsert ''b''] id_map_new))) ''b''))) = Some m2 \<and>
     id_map_get (\<lambda>_. 0) (fst m2) ''b'' \<noteq> Some 1 \<and> key_of (fst m2) 1 = Some None \<and>
     key_of_historical (fst m2) 1 = Some ''b''"
proof -
  let ?m = "fst (the (id_map_run (\<lambda>_. 0) [TryInsert ''a'', TryInsert ''b''] id_map_new))"
  let ?d = "id_map_delete (\<lambda>_. 0) ?m ''b''"
  let ?ops = "[TryInsert ''b'', Rename ''a'' ''b'']"
  obtain m rs where m: "id_map_run (\<lambda>_. 0) [TryInsert ''a'', TryInsert ''b''] id_map_new = Some (m, rs)"
    using id_map_run_correct [OF id_map_new_ok(1)] by blast
  have ok: "id_map_ok (\<lambda>_. 0) m" and sp: "spec_run [TryInsert ''a'', TryInsert ''b''] ([], {}) = (id_map_abs m, rs)"
    using id_map_run_correct [OF id_map_new_ok(1), of "\<lambda>_. 0" "[TryInsert ''a'', TryInsert ''b'']"] m
    by (auto simp: id_map_new_ok(2))
  have abs: "id_map_abs m = ([''a'', ''b''], {})" using sp by (auto simp: spec_get_def)
  obtain m1 where m1: "id_map_delete (\<lambda>_. 0) m ''b'' = Some (m1, Some 1)"
    using id_map_delete_correct [OF ok, of "''b''"] by (auto simp: abs spec_get_def)
  have ok1: "id_map_ok (\<lambda>_. 0) m1" using id_map_delete_correct [OF ok, of "''b''"] m1 by auto
  obtain m2 rs2 where m2: "id_map_run (\<lambda>_. 0) ?ops m1 = Some (m2, rs2)"
    using id_map_run_correct [OF ok1] by blast
  show ?thesis
    using retired_ids_stay_retired [OF m m1 m2, of "''b''"] m m1 m2 by simp
qed

text \<open>C14. On every map a run reaches, a key resolves to an id exactly when that id has it as
  its live key, and the live count is the number of keys that resolve.\<close>

theorem id_map_live_bijection:
  assumes "id_map_run hash ops id_map_new = Some (m, rs)"
  shows "(id_map_get hash m k = Some i \<longleftrightarrow> key_of m i = Some (Some k)) \<and>
    live_len m = card {k. id_map_get hash m k \<noteq> None}"
proof -
  have ok: "id_map_ok hash m" using id_map_run_correct [OF id_map_new_ok(1), of hash ops] assms by auto
  then show ?thesis
    using id_map_okD(6) [OF ok, of k i] key_of_correct [OF ok, of i] hi.len_card [OF id_map_okD(3) [OF ok]]
    by (auto simp: live_len_def id_map_get_def)
qed

theorem id_map_live_bijection_witness:
  "\<exists>m rs. id_map_run (\<lambda>k. of_nat (length k)) [TryInsert ''a'', TryInsert ''b'', Delete ''a''] id_map_new = Some (m, rs) \<and>
     (id_map_get (\<lambda>k. of_nat (length k)) m ''b'' = Some 1 \<longleftrightarrow> key_of m 1 = Some (Some ''b'')) \<and>
     live_len m = card {k. id_map_get (\<lambda>k. of_nat (length k)) m k \<noteq> None}"
proof -
  obtain m rs where m: "id_map_run (\<lambda>k. of_nat (length k)) [TryInsert ''a'', TryInsert ''b'', Delete ''a''] id_map_new = Some (m, rs)"
    using id_map_run_correct [OF id_map_new_ok(1)] by blast
  show ?thesis using m id_map_live_bijection [OF m, of "''b''" 1] by blast
qed

text \<open>A map rebuilt from the slots and retired ids of any reachable map whose live keys
  are not empty answers every lookup as the original does, under whatever hash the rebuilt
  index draws.\<close>

theorem from_slots_roundtrip:
  assumes "id_map_run hash ops id_map_new = Some (m, rs)" "tombstoned_ids m = Some ts"
    "id_map_get hash m [] = None"
  shows "\<exists>m'. id_map_from_slots hash' (all_keys m) ts = Some m' \<and>
    id_map_get hash' m' k = id_map_get hash m k \<and> key_of m' i = key_of m i \<and> live_len m' = live_len m"
proof -
  have ok: "id_map_ok hash m" using id_map_run_correct [OF id_map_new_ok(1), of hash ops] assms(1) by auto
  note slots = id_map_slots_ok [OF ok]
  have ts: "ts = keys (cow_map_entries (tombstones m))" using slots(2) assms(2) by simp
  have "all_keys m ! unat j \<noteq> []" if "live_slot (all_keys m, set ts) j" for j
    using that id_map_okD(6) [OF ok, of "[]" j] assms(3) by (auto simp: slots(3) ts simp del: set_map)
  then obtain m' where "id_map_from_slots hash' (all_keys m) ts = Some m'" "id_map_ok hash' m'"
      "id_map_abs m' = id_map_abs m"
    using id_map_from_slots_correct [of "all_keys m" ts hash'] slots(1,3) ts by auto
  with same_abs_same_answers [OF ok] show ?thesis by blast
qed

theorem from_slots_roundtrip_witness:
  "\<exists>m rs m'. id_map_run (\<lambda>_. 0) [TryInsert ''a'', TryInsert ''b'', Delete ''b'', Rename ''a'' ''b''] id_map_new = Some (m, rs) \<and>
     id_map_from_slots (\<lambda>k. of_nat (length k)) (all_keys m) [1] = Some m' \<and>
     id_map_get (\<lambda>k. of_nat (length k)) m' ''b'' = id_map_get (\<lambda>_. 0) m ''b'' \<and> key_of m' 0 = key_of m 0 \<and>
     live_len m' = live_len m"
proof -
  let ?ops = "[TryInsert ''a'', TryInsert ''b'', Delete ''b'', Rename ''a'' ''b'']"
  obtain m rs where m: "id_map_run (\<lambda>_. 0) ?ops id_map_new = Some (m, rs)" "id_map_ok (\<lambda>_. 0) m"
      "spec_run ?ops ([], {}) = (id_map_abs m, rs)"
    using id_map_run_correct [OF id_map_new_ok(1)] unfolding id_map_new_ok(2) by blast
  have abs: "id_map_abs m = ([''b'', ''b''], {1})" using m(3) by (auto simp: spec_get_def)
  have "set (keys (cow_map_entries (tombstones m))) = {1}" using abs by (simp add: id_map_abs_def)
  then have "keys (cow_map_entries (tombstones m)) = [1]"
    by (intro ssorted_unique) (use id_map_slots_ok(1) [OF m(2)] in \<open>auto simp: slots_ok_def\<close>)
  then have ts: "tombstoned_ids m = Some [1]" using id_map_slots_ok(2) [OF m(2)] by simp
  have "id_map_get (\<lambda>_. 0) m [] = None" by (simp add: id_map_get_spec [OF m(2)] abs spec_get_def)
  from from_slots_roundtrip [OF m(1) ts this, of "\<lambda>k. of_nat (length k)" "''b''" 0] m(1)
  show ?thesis by blast
qed

text \<open>The serialized form loses nothing: whatever order the hash map of live keys comes
  back in and whatever hash the new index draws, the map read back answers every lookup as
  the one written.\<close>

theorem wire_roundtrip:
  assumes "id_map_run hash ops id_map_new = Some (m, rs)" "wire_of_id_map hash m = Some w"
    "mset es = mset (w_to_id w)"
  shows "\<exists>m'. id_map_of_wire hash' (w\<lparr>w_to_id := es\<rparr>) = Some m' \<and>
    id_map_get hash' m' k = id_map_get hash m k \<and> key_of m' i = key_of m i \<and> live_len m' = live_len m"
proof -
  have ok: "id_map_ok hash m" using id_map_run_correct [OF id_map_new_ok(1), of hash ops] assms(1) by auto
  note slots = id_map_slots_ok [OF ok] and wire = wire_entries_live [OF ok assms(2)]
  have "mset (sort_key snd es) = mset (w_to_id w)" using assms(3) by simp
  then have "set (sort_key snd es) = set (w_to_id w)" "distinct (keys (sort_key snd es)) = distinct (keys (w_to_id w))"
    by (metis set_mset_mset, metis mset_eq_imp_distinct_iff mset_map)
  then have "live_entries (all_keys m) (keys (cow_map_entries (tombstones m))) (sort_key snd es)"
    using wire(1) by (simp add: live_entries_def)
  from rebuild_correct [OF slots(1) this, of hash'] obtain m' where
    "id_map_of_wire hash' (w\<lparr>w_to_id := es\<rparr>) = Some m'" "id_map_ok hash' m'" "id_map_abs m' = id_map_abs m"
    using wire(2,3) slots(3) by (auto simp: id_map_of_wire_def Let_def)
  with same_abs_same_answers [OF ok] show ?thesis by blast
qed

theorem wire_roundtrip_witness:
  "\<exists>m rs w m'. id_map_run (\<lambda>_. 0) [TryInsert ''a'', TryInsert ''b'', Delete ''a''] id_map_new = Some (m, rs) \<and>
     wire_of_id_map (\<lambda>_. 0) m = Some w \<and> id_map_of_wire (\<lambda>_. 7) (w\<lparr>w_to_id := rev (w_to_id w)\<rparr>) = Some m' \<and>
     id_map_get (\<lambda>_. 7) m' ''b'' = id_map_get (\<lambda>_. 0) m ''b'' \<and> key_of m' 0 = key_of m 0 \<and> live_len m' = live_len m"
proof -
  obtain m rs where m: "id_map_run (\<lambda>_. 0) [TryInsert ''a'', TryInsert ''b'', Delete ''a''] id_map_new = Some (m, rs)"
      "id_map_ok (\<lambda>_. 0) m"
    using id_map_run_correct [OF id_map_new_ok(1)] by blast
  then obtain w where w: "wire_of_id_map (\<lambda>_. 0) m = Some w"
    using id_map_slots_ok(2) [OF m(2)] by (simp add: wire_of_id_map_def)
  from wire_roundtrip [OF m(1) w, of "rev (w_to_id w)" "\<lambda>_. 7" "''b''" 0] m(1) w show ?thesis by auto
qed

text \<open>
  The condition on the empty key is needed: \<open>try_insert\<close> accepts it, and the loop of
  \<open>from_slots\<close> leaves its slot out of the index.
\<close>

lemma from_slots_drops_empty_key:
  "\<exists>m rs m'. id_map_run (\<lambda>_. 0) [TryInsert []] id_map_new = Some (m, rs) \<and>
     id_map_get (\<lambda>_. 0) m [] = Some 0 \<and>
     id_map_from_slots (\<lambda>_. 0) (all_keys m) [] = Some m' \<and> id_map_get (\<lambda>_. 0) m' [] = None"
proof -
  obtain m rs where m: "id_map_run (\<lambda>_. 0) [TryInsert []] id_map_new = Some (m, rs)" "id_map_ok (\<lambda>_. 0) m"
      "spec_run [TryInsert []] ([], {}) = (id_map_abs m, rs)"
    using id_map_run_correct [OF id_map_new_ok(1)] unfolding id_map_new_ok(2) by blast
  have abs: "id_map_abs m = ([[]], {})" using m(3) by (auto simp: spec_get_def)
  then have keys: "all_keys m = [[]]" by (simp add: id_map_abs_def all_keys_def)
  have "id_map_get (\<lambda>_. 0) m [] = Some 0" by (simp add: id_map_get_spec [OF m(2)] abs spec_get_def)
  moreover have "\<exists>m'. id_map_from_slots (\<lambda>_. 0) [[]] [] = Some m' \<and> id_map_get (\<lambda>_. 0) m' [] = None"
    by (simp add: id_map_from_slots_def id_map_get_def hash_index_new_ok)
  ultimately show ?thesis using m(1) keys by metis
qed

end
