(* ===== verification/Topology.thy ===== *)
theory Topology
  imports Pack
begin

text \<open>
  Typed adjacency, \<open>crates/core-storage/src/topology.rs\<close>: per edge type, direction and
  vertex a sorted block of neighbours with an unsorted insert buffer, a count of the edges,
  and tombstones for edges of a base the overlay does not hold. Hash maps are association
  lists, a \<open>BTreeSet\<close> is a set. The store is specified by its set of edges: the locale
  \<open>edge_store\<close> states the operations over that set, and \<open>Topology\<close> interprets it. An
  assertion of the code that fails is \<open>None\<close>.
\<close>

section \<open>Adjacency lists\<close>

datatype direction = Out | In

definition INSERT_BUFFER :: nat where "INSERT_BUFFER = 32"

record adj_list =
  frozen :: "u32 list"
  delta :: "u32 list"

definition adj_default :: adj_list where "adj_default = \<lparr>frozen = [], delta = []\<rparr>"

text \<open>The two-pointer loop and the two tails copied after it.\<close>

fun merge_loop :: "u32 list \<Rightarrow> u32 list \<Rightarrow> u32 list" where
  "merge_loop (x # xs) (y # ys) =
     (if x < y then x # merge_loop xs (y # ys)
      else if y < x then y # merge_loop (x # xs) ys
      else x # merge_loop xs ys)"
| "merge_loop xs ys = xs @ ys"

definition merge_sorted_unique :: "u32 list \<Rightarrow> u32 list \<Rightarrow> u32 list" where
  "merge_sorted_unique fr de =
     (let extra = sort_dedup de in
      if fr = [] then extra else if extra = [] then fr else merge_loop fr extra)"

definition adj_contains :: "adj_list \<Rightarrow> u32 \<Rightarrow> bool" where
  "adj_contains a i \<longleftrightarrow>
     (case binary_search i (frozen a) of Inr _ \<Rightarrow> True | Inl _ \<Rightarrow> False) \<or> i \<in> set (delta a)"

definition adj_flush :: "adj_list \<Rightarrow> adj_list" where
  "adj_flush a =
     (if delta a = [] then a
      else if frozen a = [] then \<lparr>frozen = sort_dedup (delta a), delta = []\<rparr>
      else \<lparr>frozen = merge_sorted_unique (frozen a) (delta a), delta = []\<rparr>)"

definition adj_push :: "adj_list \<Rightarrow> u32 \<Rightarrow> adj_list" where
  "adj_push a i =
     (let a = a\<lparr>delta := delta a @ [i]\<rparr>
      in if INSERT_BUFFER < length (delta a) then adj_flush a else a)"

definition adj_is_empty_list :: "adj_list \<Rightarrow> bool" where
  "adj_is_empty_list a \<longleftrightarrow> frozen a = [] \<and> delta a = []"

definition adj_merged :: "adj_list \<Rightarrow> u32 list" where
  "adj_merged a = (if delta a = [] then frozen a else merge_sorted_unique (frozen a) (delta a))"

text \<open>\<open>Vec::swap_remove\<close>: the last element takes the place of the one removed.\<close>

definition swap_remove :: "nat \<Rightarrow> 'a list \<Rightarrow> 'a list" where
  "swap_remove i xs = butlast (xs[i := last xs])"

definition adj_remove :: "adj_list \<Rightarrow> u32 \<Rightarrow> adj_list \<times> bool" where
  "adj_remove a i =
     (case binary_search i (frozen a) of
        Inr p \<Rightarrow> (a\<lparr>frozen := remove_at_index p (frozen a)\<rparr>, True)
      | Inl _ \<Rightarrow>
          (let p = leading (\<lambda>x. x \<noteq> i) (delta a)
           in if p < length (delta a) then (a\<lparr>delta := swap_remove p (delta a)\<rparr>, True)
              else (a, False)))"

text \<open>A list in order holds each neighbour once.\<close>

definition adj_ids :: "adj_list \<Rightarrow> u32 set" where
  "adj_ids a = set (frozen a) \<union> set (delta a)"

definition adj_ok :: "adj_list \<Rightarrow> bool" where
  "adj_ok a \<longleftrightarrow> ssorted (frozen a) \<and> distinct (delta a) \<and> set (frozen a) \<inter> set (delta a) = {} \<and>
     length (delta a) \<le> INSERT_BUFFER"

lemma adj_default_ok [simp]: "adj_ok adj_default" "adj_ids adj_default = {}"
  by (simp_all add: adj_ok_def adj_ids_def adj_default_def)

lemma merge_loop_correct:
  assumes "ssorted xs" "ssorted ys"
  shows "ssorted (merge_loop xs ys) \<and> set (merge_loop xs ys) = set xs \<union> set ys"
  using assms by (induction xs ys rule: merge_loop.induct) (auto intro: less_trans)

lemma merge_sorted_unique_correct:
  assumes "ssorted fr"
  shows "ssorted (merge_sorted_unique fr de)" "set (merge_sorted_unique fr de) = set fr \<union> set de"
  using merge_loop_correct [OF assms ssorted_sort_dedup, of de] assms
  by (auto simp: merge_sorted_unique_def Let_def)

lemma adj_contains_iff: "adj_ok a \<Longrightarrow> adj_contains a i \<longleftrightarrow> i \<in> adj_ids a"
  using binary_search_found [of "frozen a" i]
  by (auto simp: adj_ok_def adj_contains_def adj_ids_def split: sum.splits)

lemma adj_merged_correct:
  assumes "adj_ok a" shows "ssorted (adj_merged a)" "set (adj_merged a) = adj_ids a"
  using assms merge_sorted_unique_correct [of "frozen a" "delta a"]
  by (auto simp: adj_ok_def adj_merged_def adj_ids_def)

lemma adj_flush_correct:
  assumes "ssorted (frozen a)"
  shows "ssorted (frozen (adj_flush a))" "delta (adj_flush a) = []" "adj_ids (adj_flush a) = adj_ids a"
  using assms merge_sorted_unique_correct [of "frozen a" "delta a"]
  by (auto simp: adj_flush_def adj_ids_def)

lemma adj_push_correct:
  assumes "adj_ok a" "i \<notin> adj_ids a"
  shows "adj_ok (adj_push a i) \<and> adj_ids (adj_push a i) = insert i (adj_ids a)"
proof -
  define b where "b = a\<lparr>delta := delta a @ [i]\<rparr>"
  have b: "adj_ids b = insert i (adj_ids a)" "ssorted (frozen b)" "distinct (delta b)"
    "set (frozen b) \<inter> set (delta b) = {}"
    using assms by (auto simp: b_def adj_ids_def adj_ok_def)
  show ?thesis
    using b adj_flush_correct [OF b(2)] by (auto simp: adj_push_def b_def [symmetric] Let_def adj_ok_def)
qed

lemma swap_remove_set:
  assumes "distinct xs" "i < length xs"
  shows "distinct (swap_remove i xs)" "set (swap_remove i xs) = set xs - {xs ! i}"
    "length (swap_remove i xs) = length xs - 1"
proof -
  obtain ys z where xs: "xs = ys @ [z]" using assms(2) by (cases xs rule: rev_cases) auto
  have "distinct (swap_remove i xs) \<and> set (swap_remove i xs) = set xs - {xs ! i} \<and>
    length (swap_remove i xs) = length xs - 1"
  proof (cases "i = length ys")
    case True
    then show ?thesis using assms(1) by (simp add: swap_remove_def xs list_update_append)
  next
    case False
    then have i: "i < length ys" using assms(2) xs by simp
    then have "swap_remove i xs = ys[i := z]" by (simp add: swap_remove_def xs list_update_append)
    moreover have "set (ys[i := z]) = insert z (set ys - {ys ! i})"
      using i assms(1) by (simp add: xs set_update_distinct)
    moreover have "ys ! i \<noteq> z" using i assms(1) nth_mem [OF i] by (auto simp: xs)
    ultimately show ?thesis
      using i assms(1) by (auto simp: xs nth_append intro!: distinct_list_update)
  qed
  then show "distinct (swap_remove i xs)" "set (swap_remove i xs) = set xs - {xs ! i}"
    "length (swap_remove i xs) = length xs - 1" by auto
qed

lemma adj_remove_correct:
  assumes "adj_ok a"
  shows "adj_ok (fst (adj_remove a i)) \<and> adj_ids (fst (adj_remove a i)) = adj_ids a - {i} \<and>
    snd (adj_remove a i) = (i \<in> adj_ids a)"
proof -
  have a: "ssorted (frozen a)" "distinct (delta a)" "set (frozen a) \<inter> set (delta a) = {}"
    using assms by (simp_all add: adj_ok_def)
  show ?thesis
  proof (cases "binary_search i (frozen a)")
    case (Inr p)
    note p = binary_search_Inr_D [OF Inr]
    have "set (remove_at_index p (frozen a)) = set (frozen a) - {i}" "i \<in> set (frozen a)"
      using set_remove_at_index [OF ssorted_distinct [OF a(1)], of p] p nth_mem [of p "frozen a"] by auto
    then show ?thesis
      using Inr a assms ssorted_remove_at_index [OF a(1), of p]
      by (auto simp: adj_remove_def adj_ok_def adj_ids_def)
  next
    case (Inl q)
    have fr: "i \<notin> set (frozen a)" using binary_search_Inl_D(1) [OF a(1) Inl] .
    let ?p = "leading (\<lambda>x. x \<noteq> i) (delta a)"
    show ?thesis
    proof (cases "?p < length (delta a)")
      case True
      then have "delta a ! ?p = i" using nth_leading by fastforce
      moreover from this True have "i \<in> set (delta a)" using nth_mem by metis
      ultimately show ?thesis
        using Inl fr a assms swap_remove_set [OF a(2) True] True
        by (auto simp: adj_remove_def adj_ok_def adj_ids_def Let_def)
    next
      case False
      then have "takeWhile (\<lambda>x. x \<noteq> i) (delta a) = delta a"
        using take_leading [of "\<lambda>x. x \<noteq> i" "delta a"] by simp
      then have "i \<notin> set (delta a)" by (metis (mono_tags) set_takeWhileD)
      then show ?thesis using Inl fr False assms by (simp add: adj_remove_def adj_ids_def Let_def)
    qed
  qed
qed

section \<open>The topology and its operations\<close>

record typed_adjacency =
  aout :: "(u32 \<times> adj_list) list"
  ainn :: "(u32 \<times> adj_list) list"

type_synonym tombstone_map = "(u32 \<times> (u32 \<times> u32 set) list) list"

record topology =
  by_type :: "(u32 \<times> typed_adjacency) list"
  edge_count :: u64
  out_tombstones :: tombstone_map
  in_tombstones :: tombstone_map

definition topology_new :: topology where
  "topology_new = \<lparr>by_type = [], edge_count = 0, out_tombstones = [], in_tombstones = []\<rparr>"

text \<open>\<open>entry(k).or_default()\<close>, read.\<close>

definition entry_or :: "'v \<Rightarrow> 'k \<Rightarrow> ('k \<times> 'v) list \<Rightarrow> 'v" where
  "entry_or d k m = (case map_of m k of Some v \<Rightarrow> v | None \<Rightarrow> d)"

definition typed_default :: typed_adjacency where
  "typed_default = \<lparr>aout = [], ainn = []\<rparr>"

definition add_edge :: "topology \<Rightarrow> u32 \<Rightarrow> u32 \<Rightarrow> u32 \<Rightarrow> (topology \<times> bool) option" where
  "add_edge t etype src dst =
     (let adj = entry_or typed_default etype (by_type t);
          dsts = entry_or adj_default src (aout adj) in
      if adj_contains dsts dst then Some (t, False)
      else
        let adj = adj\<lparr>aout := AList.update src (adj_push dsts dst) (aout adj)\<rparr>;
            srcs = entry_or adj_default dst (ainn adj) in
        if adj_contains srcs src then None
        else Some (t\<lparr>by_type := AList.update etype
                       (adj\<lparr>ainn := AList.update dst (adj_push srcs src) (ainn adj)\<rparr>) (by_type t),
                     edge_count := edge_count t + 1\<rparr>, True))"

definition adj_at :: "topology \<Rightarrow> u32 \<Rightarrow> direction \<Rightarrow> u32 \<Rightarrow> adj_list option" where
  "adj_at t etype dir v =
     (case map_of (by_type t) etype of
        None \<Rightarrow> None
      | Some adj \<Rightarrow> (case dir of Out \<Rightarrow> map_of (aout adj) v | In \<Rightarrow> map_of (ainn adj) v))"

definition neighbors :: "topology \<Rightarrow> u32 \<Rightarrow> direction \<Rightarrow> u32 \<Rightarrow> u32 list" where
  "neighbors t etype dir v = (case adj_at t etype dir v of None \<Rightarrow> [] | Some n \<Rightarrow> adj_merged n)"

definition degree :: "topology \<Rightarrow> u32 \<Rightarrow> direction \<Rightarrow> u32 \<Rightarrow> nat" where
  "degree t etype dir v = length (neighbors t etype dir v)"

definition adj_is_empty :: "topology \<Rightarrow> u32 \<Rightarrow> direction \<Rightarrow> u32 \<Rightarrow> bool" where
  "adj_is_empty t etype dir v =
     (case adj_at t etype dir v of None \<Rightarrow> True | Some a \<Rightarrow> adj_is_empty_list a)"

definition tombstones_in :: "tombstone_map \<Rightarrow> u32 \<Rightarrow> u32 \<Rightarrow> u32 set option" where
  "tombstones_in m etype v =
     (case map_of m etype of None \<Rightarrow> None | Some vs \<Rightarrow> map_of vs v)"

definition out_tombstones_for :: "topology \<Rightarrow> u32 \<Rightarrow> u32 \<Rightarrow> u32 set option" where
  "out_tombstones_for t etype src = tombstones_in (out_tombstones t) etype src"

definition in_tombstones_for :: "topology \<Rightarrow> u32 \<Rightarrow> u32 \<Rightarrow> u32 set option" where
  "in_tombstones_for t etype dst = tombstones_in (in_tombstones t) etype dst"

definition tombstones_are_empty :: "topology \<Rightarrow> u32 \<Rightarrow> direction \<Rightarrow> u32 \<Rightarrow> bool" where
  "tombstones_are_empty t etype dir v =
     (let s = (case dir of Out \<Rightarrow> out_tombstones_for t etype v | In \<Rightarrow> in_tombstones_for t etype v)
      in case s of None \<Rightarrow> True | Some s \<Rightarrow> s = {})"

definition tombstone_count :: "topology \<Rightarrow> u64" where
  "tombstone_count t =
     (\<Sum>(e, vs) \<leftarrow> out_tombstones t. \<Sum>(v, s) \<leftarrow> vs. of_nat (card s))"

definition etypes :: "topology \<Rightarrow> u32 list" where
  "etypes t = sort (keys (by_type t))"

definition all_edges :: "topology \<Rightarrow> (u32 \<times> u32 \<times> u32) list" where
  "all_edges t =
     concat (map (\<lambda>(etype, adj).
       concat (map (\<lambda>(src, al). map (\<lambda>dst. (etype, src, dst)) (adj_merged al)) (aout adj)))
       (by_type t))"

text \<open>The overlay's copy of the edge goes; \<open>None\<close> is the failing assertion.\<close>

definition remove_overlay_edge :: "topology \<Rightarrow> u32 \<Rightarrow> u32 \<Rightarrow> u32 \<Rightarrow> (topology \<times> bool) option" where
  "remove_overlay_edge t etype src dst =
     (case map_of (by_type t) etype of
        None \<Rightarrow> Some (t, False)
      | Some adj \<Rightarrow>
          (case map_of (aout adj) src of
             None \<Rightarrow> Some (t, False)
           | Some dsts \<Rightarrow>
               (case adj_remove dsts dst of
                  (_, False) \<Rightarrow> Some (t, False)
                | (dsts, True) \<Rightarrow>
                    (case map_of (ainn adj) dst of
                       None \<Rightarrow> None
                     | Some srcs \<Rightarrow>
                         (case adj_remove srcs src of
                            (_, False) \<Rightarrow> None
                          | (srcs, True) \<Rightarrow>
                              Some (t\<lparr>by_type := AList.update etype
                                        (adj\<lparr>aout := AList.update src dsts (aout adj),
                                             ainn := AList.update dst srcs (ainn adj)\<rparr>) (by_type t),
                                      edge_count := edge_count t - 1\<rparr>, True))))))"

datatype remove_outcome = RemovedFromOverlay | TombstonedBase

definition add_tombstone :: "u32 \<Rightarrow> u32 \<Rightarrow> u32 \<Rightarrow> tombstone_map \<Rightarrow> tombstone_map" where
  "add_tombstone etype v i m =
     (let vs = entry_or [] etype m
      in AList.update etype (AList.update v (insert i (entry_or {} v vs)) vs) m)"

definition remove_edge :: "topology \<Rightarrow> u32 \<Rightarrow> u32 \<Rightarrow> u32 \<Rightarrow> (topology \<times> remove_outcome) option" where
  "remove_edge t etype src dst =
     (case remove_overlay_edge t etype src dst of
        None \<Rightarrow> None
      | Some (t, True) \<Rightarrow> Some (t, RemovedFromOverlay)
      | Some (t, False) \<Rightarrow>
          Some (t\<lparr>out_tombstones := add_tombstone etype src dst (out_tombstones t),
                  in_tombstones := add_tombstone etype dst src (in_tombstones t)\<rparr>, TombstonedBase))"

section \<open>The contract: a store of edges\<close>

text \<open>
  An edge store stands for a set of edges. The client side says what neighbourhoods are
  after each operation, and that the two directions mirror each other.
\<close>

locale edge_store =
  fixes edges_of :: "'t \<Rightarrow> ('e \<times> 'v::linorder \<times> 'v) set"
    and add_op :: "'t \<Rightarrow> 'e \<Rightarrow> 'v \<Rightarrow> 'v \<Rightarrow> ('t \<times> bool) option"
    and remove_op :: "'t \<Rightarrow> 'e \<Rightarrow> 'v \<Rightarrow> 'v \<Rightarrow> ('t \<times> bool) option"
    and neighbors_op :: "'t \<Rightarrow> 'e \<Rightarrow> direction \<Rightarrow> 'v \<Rightarrow> 'v list"
    and invar :: "'t \<Rightarrow> bool"
  assumes add_law: "invar t \<Longrightarrow> \<exists>t'. add_op t e s d = Some (t', (e, s, d) \<notin> edges_of t) \<and> invar t' \<and>
      edges_of t' = insert (e, s, d) (edges_of t)"
    and remove_law: "invar t \<Longrightarrow> \<exists>t'. remove_op t e s d = Some (t', (e, s, d) \<in> edges_of t) \<and> invar t' \<and>
      edges_of t' = edges_of t - {(e, s, d)}"
    and out_law: "invar t \<Longrightarrow> ssorted (neighbors_op t e Out v) \<and>
      set (neighbors_op t e Out v) = {d. (e, v, d) \<in> edges_of t}"
    and in_law: "invar t \<Longrightarrow> ssorted (neighbors_op t e In v) \<and>
      set (neighbors_op t e In v) = {s. (e, s, v) \<in> edges_of t}"
begin

lemma directions_mirror:
  "invar t \<Longrightarrow> d \<in> set (neighbors_op t e Out s) \<longleftrightarrow> s \<in> set (neighbors_op t e In d)"
  using out_law [of t e s] in_law [of t e d] by auto

text \<open>The neighbours after an operation as lists: the new list is the old one with the change.\<close>

lemma neighbors_after_add:
  assumes "invar t" "add_op t e s d = Some (t', b)"
  shows "invar t'"
    "neighbors_op t' e Out s = sort_dedup (d # neighbors_op t e Out s)"
    "neighbors_op t' e In d = sort_dedup (s # neighbors_op t e In d)"
proof -
  show t': "invar t'" using add_law [OF assms(1), of e s d] assms(2) by auto
  have E: "edges_of t' = insert (e, s, d) (edges_of t)" using add_law [OF assms(1), of e s d] assms(2) by auto
  show "neighbors_op t' e Out s = sort_dedup (d # neighbors_op t e Out s)"
    by (rule ssorted_unique) (use out_law [OF t', of e s] out_law [OF assms(1), of e s] E in auto)
  show "neighbors_op t' e In d = sort_dedup (s # neighbors_op t e In d)"
    by (rule ssorted_unique) (use in_law [OF t', of e d] in_law [OF assms(1), of e d] E in auto)
qed

lemma neighbors_after_remove:
  assumes "invar t" "remove_op t e s d = Some (t', b)"
  shows "invar t'"
    "neighbors_op t' e Out s = filter (\<lambda>x. x \<noteq> d) (neighbors_op t e Out s)"
    "neighbors_op t' e In d = filter (\<lambda>x. x \<noteq> s) (neighbors_op t e In d)"
proof -
  show t': "invar t'" using remove_law [OF assms(1), of e s d] assms(2) by auto
  have E: "edges_of t' = edges_of t - {(e, s, d)}" using remove_law [OF assms(1), of e s d] assms(2) by auto
  show "neighbors_op t' e Out s = filter (\<lambda>x. x \<noteq> d) (neighbors_op t e Out s)"
    by (rule ssorted_unique)
      (use out_law [OF t', of e s] out_law [OF assms(1), of e s] E in \<open>auto simp: ssorted_filter\<close>)
  show "neighbors_op t' e In d = filter (\<lambda>x. x \<noteq> s) (neighbors_op t e In d)"
    by (rule ssorted_unique)
      (use in_law [OF t', of e d] in_law [OF assms(1), of e d] E in \<open>auto simp: ssorted_filter\<close>)
qed

end

section \<open>The invariant\<close>

definition nbr_ids :: "topology \<Rightarrow> u32 \<Rightarrow> direction \<Rightarrow> u32 \<Rightarrow> u32 set" where
  "nbr_ids t e dir v = (case adj_at t e dir v of None \<Rightarrow> {} | Some a \<Rightarrow> adj_ids a)"

definition edges :: "topology \<Rightarrow> (u32 \<times> u32 \<times> u32) set" where
  "edges t = {(e, s, d). d \<in> nbr_ids t e Out s}"

definition keys_distinct :: "topology \<Rightarrow> bool" where
  "keys_distinct t \<longleftrightarrow> distinct (keys (by_type t)) \<and>
     (\<forall>(e, adj) \<in> set (by_type t). distinct (keys (aout adj)) \<and> distinct (keys (ainn adj)))"

definition topology_ok :: "topology \<Rightarrow> bool" where
  "topology_ok t \<longleftrightarrow> keys_distinct t \<and>
     (\<forall>e dir v a. adj_at t e dir v = Some a \<longrightarrow> adj_ok a) \<and>
     (\<forall>e s d. d \<in> nbr_ids t e Out s \<longleftrightarrow> s \<in> nbr_ids t e In d) \<and>
     edge_count t = of_nat (card (edges t))"

lemma topology_okD:
  assumes "topology_ok t"
  shows "keys_distinct t" "adj_at t e dir v = Some a \<Longrightarrow> adj_ok a"
    "d \<in> nbr_ids t e Out s \<longleftrightarrow> s \<in> nbr_ids t e In d" "edge_count t = of_nat (card (edges t))"
  using assms unfolding topology_ok_def by blast+

lemma entry_or_adj_ok:
  assumes "topology_ok t" "adj = entry_or typed_default e (by_type t)"
  shows "adj_ok (entry_or adj_default v (aout adj))" "adj_ids (entry_or adj_default v (aout adj)) = nbr_ids t e Out v"
    "adj_ok (entry_or adj_default v (ainn adj))" "adj_ids (entry_or adj_default v (ainn adj)) = nbr_ids t e In v"
  using topology_okD(2) [OF assms(1), of e Out v] topology_okD(2) [OF assms(1), of e In v]
  by (auto simp: assms(2) entry_or_def nbr_ids_def adj_at_def typed_default_def split: option.splits)

text \<open>Replacing the adjacency of one edge type.\<close>

lemma adj_at_update:
  assumes "by_type t' = AList.update e \<lparr>aout = AList.update s A (aout adj), ainn = AList.update d B (ainn adj)\<rparr> (by_type t)"
    "adj = entry_or typed_default e (by_type t)"
  shows "adj_at t' e' Out v = (if e' = e \<and> v = s then Some A else adj_at t e' Out v)"
    "adj_at t' e' In v = (if e' = e \<and> v = d then Some B else adj_at t e' In v)"
  using assms
  by (auto simp: adj_at_def update_conv' entry_or_def typed_default_def split: option.splits)

lemma keys_distinct_update:
  assumes "keys_distinct t" "adj = entry_or typed_default e (by_type t)"
    "by_type t' = AList.update e \<lparr>aout = AList.update s A (aout adj), ainn = AList.update d B (ainn adj)\<rparr> (by_type t)"
  shows "keys_distinct t'"
proof -
  have "distinct (keys (aout adj)) \<and> distinct (keys (ainn adj))"
    using assms(1,2) by (auto simp: keys_distinct_def entry_or_def typed_default_def split: option.splits dest!: map_of_SomeD)
  moreover have "set (AList.update e x m) \<subseteq> insert (e, x) (set m)" for x and m :: "(u32 \<times> typed_adjacency) list"
    by (induction m) auto
  ultimately show ?thesis
    using assms(1) unfolding keys_distinct_def assms(3)
    by (fastforce simp: distinct_update)
qed

lemma add_edge_correct:
  assumes ok: "topology_ok t"
  shows "\<exists>t'. add_edge t e s d = Some (t', (e, s, d) \<notin> edges t) \<and> topology_ok t' \<and>
    edges t' = insert (e, s, d) (edges t) \<and>
    out_tombstones t' = out_tombstones t \<and> in_tombstones t' = in_tombstones t"
proof -
  define adj where "adj = entry_or typed_default e (by_type t)"
  define dsts where "dsts = entry_or adj_default s (aout adj)"
  define srcs where "srcs = entry_or adj_default d (ainn adj)"
  note en = entry_or_adj_ok [OF ok adj_def]
  have dsts: "adj_ok dsts" "adj_ids dsts = nbr_ids t e Out s" using en(1,2) by (simp_all add: dsts_def)
  have srcs: "adj_ok srcs" "adj_ids srcs = nbr_ids t e In d" using en(3,4) by (simp_all add: srcs_def)
  show ?thesis
  proof (cases "d \<in> nbr_ids t e Out s")
    case True
    then show ?thesis
      using adj_contains_iff [OF dsts(1), of d] dsts(2) ok
      by (simp add: add_edge_def Let_def adj_def [symmetric] dsts_def [symmetric] edges_def insert_absorb)
  next
    case False
    then have mirror: "s \<notin> nbr_ids t e In d" using topology_okD(3) [OF ok] by simp
    note A = adj_push_correct [OF dsts(1), of d] and B = adj_push_correct [OF srcs(1), of s]
    define t' where "t' = t\<lparr>by_type := AList.update e \<lparr>aout = AList.update s (adj_push dsts d) (aout adj),
      ainn = AList.update d (adj_push srcs s) (ainn adj)\<rparr> (by_type t), edge_count := edge_count t + 1\<rparr>"
    have code: "add_edge t e s d = Some (t', True)"
      using False mirror adj_contains_iff [OF dsts(1), of d] adj_contains_iff [OF srcs(1), of s] dsts(2) srcs(2)
      by (cases adj) (simp add: add_edge_def Let_def adj_def [symmetric] dsts_def srcs_def t'_def)
    have bt: "by_type t' = AList.update e \<lparr>aout = AList.update s (adj_push dsts d) (aout adj),
      ainn = AList.update d (adj_push srcs s) (ainn adj)\<rparr> (by_type t)" by (simp add: t'_def)
    note at = adj_at_update [OF bt adj_def]
    have nb: "nbr_ids t' e' Out v = (if e' = e \<and> v = s then insert d (nbr_ids t e Out s) else nbr_ids t e' Out v)"
      "nbr_ids t' e' In v = (if e' = e \<and> v = d then insert s (nbr_ids t e In d) else nbr_ids t e' In v)" for e' v
      using A B False mirror dsts(2) srcs(2) by (auto simp: nbr_ids_def at)
    have E: "edges t' = insert (e, s, d) (edges t)" using nb(1) by (auto simp: edges_def split: if_splits)
    have "adj_ok a" if "adj_at t' e' dir v = Some a" for e' dir v a
      using that A B False mirror dsts(2) srcs(2) topology_okD(2) [OF ok]
      by (cases dir) (auto simp: at split: if_splits)
    moreover have "d' \<in> nbr_ids t' e' Out s' \<longleftrightarrow> s' \<in> nbr_ids t' e' In d'" for e' s' d'
      using topology_okD(3) [OF ok, of d' e' s'] by (auto simp: nb)
    moreover have "edge_count t' = of_nat (card (edges t'))"
      using topology_okD(4) [OF ok] False by (simp add: t'_def [symmetric] E) (simp add: t'_def edges_def)
    moreover have "keys_distinct t'" by (rule keys_distinct_update [OF topology_okD(1) [OF ok] adj_def bt])
    ultimately have "topology_ok t'" unfolding topology_ok_def by blast
    then show ?thesis using code E False by (simp add: edges_def t'_def)
  qed
qed

lemma remove_overlay_edge_correct:
  assumes ok: "topology_ok t"
  shows "\<exists>t'. remove_overlay_edge t e s d = Some (t', (e, s, d) \<in> edges t) \<and> topology_ok t' \<and>
    edges t' = edges t - {(e, s, d)} \<and>
    out_tombstones t' = out_tombstones t \<and> in_tombstones t' = in_tombstones t"
proof (cases "d \<in> nbr_ids t e Out s")
  case False
  have "remove_overlay_edge t e s d = Some (t, False)"
  proof (cases "adj_at t e Out s")
    case None
    then show ?thesis by (auto simp: remove_overlay_edge_def adj_at_def split: option.splits)
  next
    case (Some dsts)
    have "snd (adj_remove dsts d) = False"
      using adj_remove_correct [OF topology_okD(2) [OF ok Some], of d] False Some by (simp add: nbr_ids_def)
    with Some show ?thesis
      by (auto simp: remove_overlay_edge_def adj_at_def split: option.splits prod.splits bool.splits)
  qed
  then show ?thesis using False ok by (simp add: edges_def)
next
  case True
  then have mirror: "s \<in> nbr_ids t e In d" using topology_okD(3) [OF ok] by simp
  obtain dsts where dsts: "adj_at t e Out s = Some dsts" "d \<in> adj_ids dsts"
    using True by (auto simp: nbr_ids_def split: option.splits)
  obtain srcs where srcs: "adj_at t e In d = Some srcs" "s \<in> adj_ids srcs"
    using mirror by (auto simp: nbr_ids_def split: option.splits)
  obtain adj where adj: "map_of (by_type t) e = Some adj" "map_of (aout adj) s = Some dsts" "map_of (ainn adj) d = Some srcs"
    using dsts(1) srcs(1) by (auto simp: adj_at_def split: option.splits)
  obtain A where A: "adj_remove dsts d = (A, True)" "adj_ok A" "adj_ids A = adj_ids dsts - {d}"
    using adj_remove_correct [OF topology_okD(2) [OF ok dsts(1)], of d] dsts(2) by (metis prod.collapse)
  obtain B where B: "adj_remove srcs s = (B, True)" "adj_ok B" "adj_ids B = adj_ids srcs - {s}"
    using adj_remove_correct [OF topology_okD(2) [OF ok srcs(1)], of s] srcs(2) by (metis prod.collapse)
  define t' where "t' = t\<lparr>by_type := AList.update e \<lparr>aout = AList.update s A (aout adj),
      ainn = AList.update d B (ainn adj)\<rparr> (by_type t), edge_count := edge_count t - 1\<rparr>"
  have code: "remove_overlay_edge t e s d = Some (t', True)"
    using adj A(1) B(1) by (cases adj) (simp add: remove_overlay_edge_def t'_def)
  have bt: "by_type t' = AList.update e \<lparr>aout = AList.update s A (aout adj),
      ainn = AList.update d B (ainn adj)\<rparr> (by_type t)" and ad: "adj = entry_or typed_default e (by_type t)"
    using adj(1) by (simp_all add: t'_def entry_or_def)
  note at = adj_at_update [OF bt ad]
  have nb: "nbr_ids t' e' Out v = (if e' = e \<and> v = s then nbr_ids t e Out s - {d} else nbr_ids t e' Out v)"
    "nbr_ids t' e' In v = (if e' = e \<and> v = d then nbr_ids t e In d - {s} else nbr_ids t e' In v)" for e' v
    using A B dsts srcs by (auto simp: nbr_ids_def at)
  have E: "edges t' = edges t - {(e, s, d)}" using nb(1) by (auto simp: edges_def split: if_splits)
  have "adj_ok a" if "adj_at t' e' dir v = Some a" for e' dir v a
    using that A B topology_okD(2) [OF ok] by (cases dir) (auto simp: at split: if_splits)
  moreover have "d' \<in> nbr_ids t' e' Out s' \<longleftrightarrow> s' \<in> nbr_ids t' e' In d'" for e' s' d'
    using topology_okD(3) [OF ok, of d' e' s'] by (auto simp: nb)
  moreover have "edge_count t' = of_nat (card (edges t'))"
  proof -
    have "(e, s, d) \<in> edges t" using True by (simp add: edges_def)
    then have "card (edges t) = Suc (card (edges t'))" unfolding E by (rule card_Suc_Diff1 [OF finite, symmetric])
    moreover have "edge_count t' = edge_count t - 1" by (simp add: t'_def)
    ultimately show ?thesis using topology_okD(4) [OF ok] by simp
  qed
  moreover have "keys_distinct t'" by (rule keys_distinct_update [OF topology_okD(1) [OF ok] ad bt])
  ultimately have "topology_ok t'" unfolding topology_ok_def by blast
  then show ?thesis using code E True by (simp add: edges_def t'_def)
qed

lemma neighbors_correct:
  assumes "topology_ok t"
  shows "ssorted (neighbors t e dir v)" "set (neighbors t e dir v) = nbr_ids t e dir v"
  using adj_merged_correct topology_okD(2) [OF assms, of e dir v]
  by (auto simp: neighbors_def nbr_ids_def split: option.splits)

interpretation topo: edge_store edges add_edge remove_overlay_edge neighbors topology_ok
proof (unfold_locales, goal_cases)
  case (1 t e s d)
  then show ?case using add_edge_correct [of t e s d] by blast
next
  case (2 t e s d)
  then show ?case using remove_overlay_edge_correct [of t e s d] by blast
next
  case (3 t e v)
  then show ?case using neighbors_correct [OF 3, of e Out v] by (auto simp: edges_def)
next
  case (4 t e v)
  then show ?case
    using neighbors_correct [OF 4, of e In v] topology_okD(3) [OF 4, of v e] by (auto simp: edges_def)
qed

lemma topology_new_ok: "topology_ok topology_new" "edges topology_new = {}"
proof -
  show E: "edges topology_new = {}" by (auto simp: topology_new_def adj_at_def nbr_ids_def edges_def)
  show "topology_ok topology_new"
    unfolding topology_ok_def E by (auto simp: topology_new_def keys_distinct_def adj_at_def nbr_ids_def)
qed

section \<open>Tombstones\<close>

definition tomb_ids :: "topology \<Rightarrow> direction \<Rightarrow> u32 \<Rightarrow> u32 \<Rightarrow> u32 set" where
  "tomb_ids t dir e v =
     (case (case dir of Out \<Rightarrow> out_tombstones_for t e v | In \<Rightarrow> in_tombstones_for t e v) of
        None \<Rightarrow> {} | Some s \<Rightarrow> s)"

text \<open>The edges of the base that are deleted.\<close>

definition tombs :: "topology \<Rightarrow> (u32 \<times> u32 \<times> u32) set" where
  "tombs t = {(e, s, d). d \<in> tomb_ids t Out e s}"

definition tombs_mirror :: "topology \<Rightarrow> bool" where
  "tombs_mirror t \<longleftrightarrow> (\<forall>e s d. d \<in> tomb_ids t Out e s \<longleftrightarrow> s \<in> tomb_ids t In e d)"

lemma tombstones_in_add:
  "tombstones_in (add_tombstone e v i m) e' v' =
   (if e' = e \<and> v' = v then Some (insert i (case tombstones_in m e v of None \<Rightarrow> {} | Some s \<Rightarrow> s))
    else tombstones_in m e' v')"
  by (auto simp: tombstones_in_def add_tombstone_def Let_def entry_or_def update_conv' split: option.splits)

lemma remove_edge_correct:
  assumes ok: "topology_ok t" and mirror: "tombs_mirror t"
  shows "\<exists>t'. remove_edge t e s d =
      Some (t', if (e, s, d) \<in> edges t then RemovedFromOverlay else TombstonedBase) \<and>
    topology_ok t' \<and> tombs_mirror t' \<and> edges t' = edges t - {(e, s, d)} \<and>
    tombs t' = (if (e, s, d) \<in> edges t then tombs t else insert (e, s, d) (tombs t))"
proof -
  obtain t1 where t1: "remove_overlay_edge t e s d = Some (t1, (e, s, d) \<in> edges t)" "topology_ok t1"
      "edges t1 = edges t - {(e, s, d)}" "out_tombstones t1 = out_tombstones t" "in_tombstones t1 = in_tombstones t"
    using remove_overlay_edge_correct [OF ok] by blast
  have same: "tomb_ids t1 = tomb_ids t"
    unfolding tomb_ids_def out_tombstones_for_def in_tombstones_for_def t1(4,5) by (rule refl)
  show ?thesis
  proof (cases "(e, s, d) \<in> edges t")
    case True
    then show ?thesis
      using t1 mirror by (simp add: remove_edge_def tombs_mirror_def tombs_def same)
  next
    case False
    define t' where "t' = t1\<lparr>out_tombstones := add_tombstone e s d (out_tombstones t1),
        in_tombstones := add_tombstone e d s (in_tombstones t1)\<rparr>"
    have code: "remove_edge t e s d = Some (t', TombstonedBase)"
      using t1(1) False by (simp add: remove_edge_def t'_def)
    have at: "adj_at t' = adj_at t1" by (auto simp: fun_eq_iff adj_at_def t'_def)
    then have nb: "nbr_ids t' = nbr_ids t1" by (auto simp: fun_eq_iff nbr_ids_def)
    then have E: "edges t' = edges t1" by (simp add: edges_def)
    have ok': "topology_ok t'"
      using t1(2) unfolding topology_ok_def at nb E keys_distinct_def by (simp add: t'_def)
    have tb: "tomb_ids t' Out e' v = (if e' = e \<and> v = s then insert d (tomb_ids t Out e s) else tomb_ids t Out e' v)"
      "tomb_ids t' In e' v = (if e' = e \<and> v = d then insert s (tomb_ids t In e d) else tomb_ids t In e' v)" for e' v
      using t1(4,5)
      by (auto simp: tomb_ids_def out_tombstones_for_def in_tombstones_for_def t'_def tombstones_in_add)
    have "tombs t' = insert (e, s, d) (tombs t)" using tb(1) by (auto simp: tombs_def split: if_splits)
    moreover have "tombs_mirror t'" using mirror by (auto simp: tombs_mirror_def tb)
    ultimately show ?thesis using code ok' E t1(3) False by simp
  qed
qed

lemma tombstones_are_empty_iff: "tombstones_are_empty t e dir v \<longleftrightarrow> tomb_ids t dir e v = {}"
  by (cases dir) (auto simp: tombstones_are_empty_def tomb_ids_def Let_def split: option.splits)

lemma adj_is_empty_iff: "adj_is_empty t e dir v \<longleftrightarrow> nbr_ids t e dir v = {}"
  by (auto simp: adj_is_empty_def nbr_ids_def adj_is_empty_list_def adj_ids_def split: option.splits)

section \<open>Listing the edges\<close>

text \<open>Rows under different keys are disjoint, so their concatenation has no duplicate.\<close>

lemma distinct_concat_rows:
  assumes "distinct (keys m)" "\<And>x. x \<in> set m \<Longrightarrow> distinct (f x)"
    "\<And>x y z. x \<in> set m \<Longrightarrow> y \<in> set m \<Longrightarrow> z \<in> set (f x) \<Longrightarrow> z \<in> set (f y) \<Longrightarrow> fst x = fst y"
  shows "distinct (concat (map f m))"
  using assms
proof (induction m)
  case (Cons x m)
  have "set (f x) \<inter> set (concat (map f m)) = {}"
  proof (rule ccontr)
    assume "set (f x) \<inter> set (concat (map f m)) \<noteq> {}"
    then obtain y z where "y \<in> set m" "z \<in> set (f x)" "z \<in> set (f y)" by auto
    then have "fst x = fst y" "fst y \<in> set (keys m)" using Cons.prems(3) [of x y z] by auto
    then show False using Cons.prems(1) by simp
  qed
  moreover have "distinct (concat (map f m))"
    by (rule Cons.IH) (use Cons.prems in auto)
  ultimately show ?case using Cons.prems(2) [of x] by simp
qed simp

lemma all_edges_correct:
  assumes "topology_ok t"
  shows "distinct (all_edges t)" "set (all_edges t) = edges t"
proof -
  have kd: "distinct (keys (by_type t))" "\<And>e adj. (e, adj) \<in> set (by_type t) \<Longrightarrow> distinct (keys (aout adj))"
    using topology_okD(1) [OF assms] by (auto simp: keys_distinct_def)
  have at: "adj_at t e Out s = Some a \<longleftrightarrow> (\<exists>adj. (e, adj) \<in> set (by_type t) \<and> (s, a) \<in> set (aout adj))" for e s a
    using kd by (auto simp: adj_at_def split: option.splits)
      (metis map_of_eq_Some_iff option.distinct(1) option.inject)+
  have ok: "adj_ok a" if "(e, adj) \<in> set (by_type t)" "(s, a) \<in> set (aout adj)" for e adj s a
    using topology_okD(2) [OF assms] at that by blast
  show "set (all_edges t) = edges t"
  proof -
    have "(e, s, d) \<in> set (all_edges t) \<longleftrightarrow> (e, s, d) \<in> edges t" for e s d
    proof -
      have "(e, s, d) \<in> set (all_edges t) \<longleftrightarrow>
          (\<exists>adj a. (e, adj) \<in> set (by_type t) \<and> (s, a) \<in> set (aout adj) \<and> d \<in> set (adj_merged a))"
        by (force simp: all_edges_def)
      also have "\<dots> \<longleftrightarrow> (\<exists>a. adj_at t e Out s = Some a \<and> d \<in> adj_ids a)"
        using adj_merged_correct(2) ok at by blast
      also have "\<dots> \<longleftrightarrow> (e, s, d) \<in> edges t"
        by (auto simp: edges_def nbr_ids_def split: option.splits)
      finally show ?thesis .
    qed
    then show ?thesis by auto
  qed
  let ?row = "\<lambda>e (s, al). map (\<lambda>d. (e, s, d)) (adj_merged al)"
  have inner: "distinct (concat (map (?row e) (aout adj)))" if e: "(e, adj) \<in> set (by_type t)" for e adj
  proof (rule distinct_concat_rows)
    show "distinct (keys (aout adj))" using kd(2) [OF e] .
    show "distinct (?row e x)" if x: "x \<in> set (aout adj)" for x
      using ssorted_distinct [OF adj_merged_correct(1) [OF ok [OF e, of "fst x" "snd x"]]] x
      by (auto simp: distinct_map inj_on_def case_prod_unfold)
  qed auto
  show "distinct (all_edges t)"
    unfolding all_edges_def
    by (rule distinct_concat_rows) (use kd(1) inner in \<open>auto simp: case_prod_unfold\<close>)
qed

section \<open>The packed image\<close>

definition pack_adj_map :: "u8 list \<Rightarrow> (u32 \<times> adj_list) list \<Rightarrow> u8 list" where
  "pack_adj_map out m =
     foldl (\<lambda>out (v, a). push_u32s (push_u32 out v) (adj_merged a))
       (push_u32 out (of_nat (length m))) (sort_key fst m)"

definition topology_pack :: "u8 list \<Rightarrow> topology \<Rightarrow> u8 list" where
  "topology_pack out t =
     push_u64
       (foldl (\<lambda>out (et, adj). pack_adj_map (pack_adj_map (push_u32 out et) (aout adj)) (ainn adj))
         (push_u32 out (of_nat (length (by_type t)))) (sort_key fst (by_type t)))
       (edge_count t)"

definition unpack_adj_map :: "u8 list \<Rightarrow> nat \<Rightarrow> ((u32 \<times> adj_list) list \<times> nat) res" where
  "unpack_adj_map src pos =
     bind_res (read_u32 src pos) (\<lambda>(n, pos).
     bind_res
       (read_n (\<lambda>src pos. bind_res (read_u32 src pos) (\<lambda>(v, pos).
          bind_res (read_u32s src pos) (\<lambda>(fr, pos). Inr ((v, fr), pos)))) (unat n) src pos) (\<lambda>(es, pos).
     Inr (foldl (\<lambda>m (v, fr). AList.update v \<lparr>frozen = fr, delta = []\<rparr> m) [] es, pos)))"

text \<open>One round of the loop over the edge types.\<close>

definition read_typed :: "u8 list \<Rightarrow> nat \<Rightarrow> ((u32 \<times> typed_adjacency) \<times> nat) res" where
  "read_typed src pos =
     bind_res (read_u32 src pos) (\<lambda>(et, pos).
     bind_res (unpack_adj_map src pos) (\<lambda>(out, pos).
     bind_res (unpack_adj_map src pos) (\<lambda>(inn, pos).
     Inr ((et, \<lparr>aout = out, ainn = inn\<rparr>), pos))))"

definition topology_unpack :: "u8 list \<Rightarrow> (topology \<times> nat) res" where
  "topology_unpack src =
     bind_res (read_u32 src 0) (\<lambda>(n, pos).
     bind_res (read_n read_typed (unat n) src pos) (\<lambda>(es, pos).
     bind_res (read_u64 src pos) (\<lambda>(count, pos).
     Inr (\<lparr>by_type = foldl (\<lambda>m (et, adj). AList.update et adj m) [] es, edge_count = count,
           out_tombstones = [], in_tombstones = []\<rparr>, pos))))"

text \<open>
  A count and then that many elements of a codec are again a codec, and so is the loop that
  writes them.
\<close>

definition counted :: "('a \<Rightarrow> u8 list) \<Rightarrow> 'a list \<Rightarrow> u8 list" where
  "counted enc xs = push_u32 [] (of_nat (length xs)) @ concat (map enc xs)"

definition read_counted :: "(u8 list \<Rightarrow> nat \<Rightarrow> ('a \<times> nat) res) \<Rightarrow> u8 list \<Rightarrow> nat \<Rightarrow> ('a list \<times> nat) res" where
  "read_counted dec src pos = bind_res (read_u32 src pos) (\<lambda>(n, pos). read_n dec (unat n) src pos)"

context prefix_codec
begin

lemma counted_codec: "prefix_codec (counted enc) (read_counted dec) (\<lambda>xs. fits_u32 xs \<and> list_all ok xs)"
proof (unfold_locales, goal_cases)
  case (1 xs pre rest)
  let ?n = "push_u32 [] (of_nat (length xs))" and ?b = "concat (map enc xs)"
  have len: "length pre + (length ?n + length ?b) + length rest < usize_limit"
    using 1(2) by (simp add: counted_def)
  have "read_u32 (pre @ ?n @ ?b @ rest) (length pre) = Inr (of_nat (length xs), length pre + length ?n)"
    by (rule u32_codec.dec_enc) (use len in auto)
  moreover have "read_n dec (length xs) ((pre @ ?n) @ ?b @ rest) (length (pre @ ?n)) =
      Inr (xs, length (pre @ ?n) + length ?b)"
    by (rule read_n_concat) (use 1(1) len in auto)
  ultimately show ?case using 1(1) by (simp add: counted_def read_counted_def)
qed

end

interpretation row: codec_pair "push_u32 []" read_u32 "\<lambda>_. True" "push_u32s []" read_u32s fits_u32
  by unfold_locales

interpretation rows: prefix_codec
  "counted (\<lambda>(v, fr). push_u32 [] v @ push_u32s [] fr)"
  "read_counted (\<lambda>src pos. bind_res (read_u32 src pos) (\<lambda>(v, pos).
     bind_res (read_u32s src pos) (\<lambda>(fr, pos). Inr ((v, fr), pos))))"
  "\<lambda>es. fits_u32 es \<and> list_all (\<lambda>(v, fr). True \<and> fits_u32 fr) es"
  by (rule row.pair.counted_codec)

text \<open>What an adjacency map keeps when it is packed: its rows in vertex order, merged.\<close>

definition packed_rows :: "(u32 \<times> adj_list) list \<Rightarrow> (u32 \<times> u32 list) list" where
  "packed_rows m = map (\<lambda>(v, a). (v, adj_merged a)) (sort_key fst m)"

definition thaw_rows :: "(u32 \<times> u32 list) list \<Rightarrow> (u32 \<times> adj_list) list" where
  "thaw_rows es = map (\<lambda>(v, fr). (v, \<lparr>frozen = fr, delta = []\<rparr>)) es"

lemma foldl_update_distinct:
  "distinct (keys (m @ es)) \<Longrightarrow> foldl (\<lambda>m (k, v). AList.update k v m) m es = m @ es"
proof (induction es arbitrary: m)
  case (Cons e es)
  obtain k v where e: "e = (k, v)" by (cases e)
  have "AList.update k v m = m @ [(k, v)]"
    using Cons.prems by (intro alist_update_new) (auto simp: e)
  then show ?case using Cons.IH [of "m @ [(k, v)]"] Cons.prems by (simp add: e)
qed simp

lemma foldl_push_rows:
  "foldl (\<lambda>out (v, a). push_u32s (push_u32 out v) (adj_merged a)) out m =
   out @ concat (map (\<lambda>(v, fr). push_u32 [] v @ push_u32s [] fr) (map (\<lambda>(v, a). (v, adj_merged a)) m))"
proof (induction m arbitrary: out)
  case (Cons e m)
  then show ?case
    by (cases e) (simp add: push_u32s_append [of "out @ u32_to_le _"] push_u32_def)
qed simp

lemma pack_adj_map_eq:
  "pack_adj_map out m = out @ counted (\<lambda>(v, fr). push_u32 [] v @ push_u32s [] fr) (packed_rows m)"
  unfolding pack_adj_map_def foldl_push_rows packed_rows_def counted_def by (simp add: push_u32_def)

definition map_packable :: "(u32 \<times> adj_list) list \<Rightarrow> bool" where
  "map_packable m \<longleftrightarrow> distinct (keys m) \<and> fits_u32 (packed_rows m) \<and> list_all (\<lambda>(v, fr). fits_u32 fr) (packed_rows m)"

lemma keys_packed_rows: "keys (packed_rows m) = sort (keys m)"
  using keys_sort_key [of m] by (simp add: packed_rows_def comp_def case_prod_unfold)

lemma unpack_adj_map_correct:
  assumes "map_packable m" "length pre + length (pack_adj_map [] m) + length rest < usize_limit"
  shows "unpack_adj_map (pre @ pack_adj_map [] m @ rest) (length pre) =
    Inr (thaw_rows (packed_rows m), length pre + length (pack_adj_map [] m))"
proof -
  let ?row = "\<lambda>src pos. bind_res (read_u32 src pos) (\<lambda>(v, pos).
     bind_res (read_u32s src pos) (\<lambda>(fr, pos). Inr ((v, fr), pos)))"
  let ?src = "pre @ pack_adj_map [] m @ rest"
  have "unpack_adj_map ?src (length pre) =
      bind_res (read_counted ?row ?src (length pre)) (\<lambda>(es, pos).
        Inr (foldl (\<lambda>m (v, fr). AList.update v \<lparr>frozen = fr, delta = []\<rparr> m) [] es, pos))"
    by (cases "read_u32 ?src (length pre)") (auto simp: unpack_adj_map_def read_counted_def)
  moreover have "read_counted ?row ?src (length pre) = Inr (packed_rows m, length pre + length (pack_adj_map [] m))"
    unfolding pack_adj_map_eq append_Nil
    by (rule rows.dec_enc) (use assms in \<open>simp_all add: map_packable_def pack_adj_map_eq\<close>)
  moreover have "foldl (\<lambda>m (v, fr). AList.update v \<lparr>frozen = fr, delta = []\<rparr> m) [] (packed_rows m) =
      foldl (\<lambda>m (k, v). AList.update k v m) [] (thaw_rows (packed_rows m))"
    by (simp add: thaw_rows_def foldl_map case_prod_unfold)
  moreover have "keys (thaw_rows (packed_rows m)) = sort (keys m)"
    by (simp add: thaw_rows_def keys_packed_rows [symmetric] comp_def case_prod_unfold)
  then have "foldl (\<lambda>m (k, v). AList.update k v m) [] (thaw_rows (packed_rows m)) = thaw_rows (packed_rows m)"
    using foldl_update_distinct [of "[]" "thaw_rows (packed_rows m)"] assms(1) by (simp add: map_packable_def)
  ultimately show ?thesis by simp
qed

text \<open>The topology an image is read back as: every list merged, in key order.\<close>

definition freeze_map :: "(u32 \<times> adj_list) list \<Rightarrow> (u32 \<times> adj_list) list" where
  "freeze_map m = thaw_rows (packed_rows m)"

definition freeze :: "topology \<Rightarrow> topology" where
  "freeze t = \<lparr>by_type = map (\<lambda>(e, adj). (e, \<lparr>aout = freeze_map (aout adj), ainn = freeze_map (ainn adj)\<rparr>))
       (sort_key fst (by_type t)),
     edge_count = edge_count t, out_tombstones = [], in_tombstones = []\<rparr>"

definition enc_typed :: "u32 \<times> typed_adjacency \<Rightarrow> u8 list" where
  "enc_typed x = push_u32 [] (fst x) @ pack_adj_map [] (aout (snd x)) @ pack_adj_map [] (ainn (snd x))"

definition typed_packable :: "u32 \<times> typed_adjacency \<Rightarrow> bool" where
  "typed_packable x \<longleftrightarrow> map_packable (aout (snd x)) \<and> map_packable (ainn (snd x))"

definition freeze_typed :: "u32 \<times> typed_adjacency \<Rightarrow> u32 \<times> typed_adjacency" where
  "freeze_typed x = (fst x, \<lparr>aout = freeze_map (aout (snd x)), ainn = freeze_map (ainn (snd x))\<rparr>)"

lemma read_typed_correct:
  assumes "typed_packable x" "length pre + length (enc_typed x) + length rest < usize_limit"
  shows "read_typed (pre @ enc_typed x @ rest) (length pre) =
    Inr (freeze_typed x, length pre + length (enc_typed x))"
proof -
  obtain e adj where x: "x = (e, adj)" by (cases x)
  let ?e = "push_u32 [] e" and ?o = "pack_adj_map [] (aout adj)" and ?i = "pack_adj_map [] (ainn adj)"
  have pk: "map_packable (aout adj)" "map_packable (ainn adj)" using assms(1) by (simp_all add: typed_packable_def x)
  have len: "length pre + (length ?e + (length ?o + length ?i)) + length rest < usize_limit"
    using assms(2) by (simp add: enc_typed_def x)
  have "read_u32 (pre @ ?e @ ?o @ ?i @ rest) (length pre) = Inr (e, length pre + length ?e)"
    by (rule u32_codec.dec_enc) (use len in auto)
  moreover have "unpack_adj_map ((pre @ ?e) @ ?o @ (?i @ rest)) (length (pre @ ?e)) =
      Inr (freeze_map (aout adj), length (pre @ ?e) + length ?o)"
    unfolding freeze_map_def by (rule unpack_adj_map_correct [OF pk(1)]) (use len in auto)
  moreover have "unpack_adj_map ((pre @ ?e @ ?o) @ ?i @ rest) (length (pre @ ?e @ ?o)) =
      Inr (freeze_map (ainn adj), length (pre @ ?e @ ?o) + length ?i)"
    unfolding freeze_map_def by (rule unpack_adj_map_correct [OF pk(2)]) (use len in auto)
  ultimately show ?thesis by (simp add: read_typed_def enc_typed_def freeze_typed_def x add.assoc)
qed

text \<open>An adjacency map that is frozen already packs to the same bytes.\<close>

lemma sort_packed_rows: "sort_key fst (packed_rows m) = packed_rows m"
  by (rule sort_key_id_if_sorted) (simp add: keys_packed_rows)

lemma packed_rows_thaw: "packed_rows (thaw_rows (packed_rows m)) = packed_rows m"
proof -
  have "sort_key fst (thaw_rows (packed_rows m)) = thaw_rows (packed_rows m)"
    using keys_packed_rows [of m]
    by (intro sort_key_id_if_sorted) (simp add: thaw_rows_def comp_def case_prod_unfold)
  then show ?thesis
    by (simp add: packed_rows_def [of "thaw_rows _"])
      (simp add: thaw_rows_def adj_merged_def comp_def case_prod_unfold)
qed

lemma pack_freeze_map: "pack_adj_map out (freeze_map m) = pack_adj_map out m"
  by (simp add: pack_adj_map_eq freeze_map_def packed_rows_thaw)

lemma keys_freeze_map: "keys (freeze_map m) = sort (keys m)"
  using keys_packed_rows [of m] by (simp add: freeze_map_def thaw_rows_def comp_def case_prod_unfold)

lemma map_packable_freeze: "map_packable m \<Longrightarrow> map_packable (freeze_map m)"
  using keys_freeze_map [of m] by (simp add: map_packable_def freeze_map_def packed_rows_thaw)

interpretation typed: prefix_codec enc_typed read_typed "\<lambda>x. typed_packable x \<and> freeze_typed x = x"
  using read_typed_correct by unfold_locales fastforce

interpretation typeds: prefix_codec "counted enc_typed" "read_counted read_typed"
  "\<lambda>xs. fits_u32 xs \<and> list_all (\<lambda>x. typed_packable x \<and> freeze_typed x = x) xs"
  by (rule typed.counted_codec)

lemma topology_pack_eq:
  "topology_pack out t =
   out @ counted enc_typed (sort_key fst (by_type t)) @ push_u64 [] (edge_count t)"
proof -
  have "foldl (\<lambda>out (et, adj). pack_adj_map (pack_adj_map (push_u32 out et) (aout adj)) (ainn adj)) out xs =
      out @ concat (map enc_typed xs)" for out xs
  proof (induction xs arbitrary: out)
    case (Cons x xs)
    then show ?case
      by (cases x) (simp add: enc_typed_def pack_adj_map_eq push_u32_def)
  qed simp
  then show ?thesis by (simp add: topology_pack_def counted_def push_u32_def push_u64_def)
qed

definition topology_packable :: "topology \<Rightarrow> bool" where
  "topology_packable t \<longleftrightarrow> fits_u32 (by_type t) \<and> list_all typed_packable (by_type t) \<and>
     length (topology_pack [] t) < usize_limit"

lemma freeze_typed_idem: "freeze_typed (freeze_typed x) = freeze_typed x" "enc_typed (freeze_typed x) = enc_typed x"
  "typed_packable x \<Longrightarrow> typed_packable (freeze_typed x)" "fst (freeze_typed x) = fst x"
  using map_packable_freeze
  by (simp_all add: freeze_typed_def enc_typed_def typed_packable_def pack_freeze_map)
    (simp_all add: freeze_map_def packed_rows_thaw)

lemma topology_unpack_correct:
  assumes "topology_packable t" "keys_distinct t"
  shows "topology_unpack (topology_pack [] t) = Inr (freeze t, length (topology_pack [] t))"
proof -
  define xs where "xs = map freeze_typed (sort_key fst (by_type t))"
  have img: "topology_pack [] t = counted enc_typed xs @ push_u64 [] (edge_count t)"
    by (simp add: topology_pack_eq xs_def counted_def comp_def freeze_typed_idem)
  have lx: "length xs = length (by_type t)" by (simp add: xs_def)
  have ok: "fits_u32 xs" "list_all (\<lambda>x. typed_packable x \<and> freeze_typed x = x) xs"
    using assms(1) freeze_typed_idem lx
    by (auto simp: topology_packable_def xs_def list_all_iff fits_u32_def)
  have len: "length (counted enc_typed xs) + length (push_u64 [] (edge_count t)) < usize_limit"
    using assms(1) img by (simp add: topology_packable_def)
  have "read_counted read_typed (topology_pack [] t) 0 = Inr (xs, length (counted enc_typed xs))"
    using typeds.dec_enc [where x = xs and pre = "[]" and rest = "push_u64 [] (edge_count t)"] ok len by (simp add: img)
  moreover have "read_u64 (topology_pack [] t) (length (counted enc_typed xs)) =
      Inr (edge_count t, length (topology_pack [] t))"
    using u64_codec.dec_enc [where x = "edge_count t" and pre = "counted enc_typed xs" and rest = "[]"] len by (simp add: img)
  moreover have "foldl (\<lambda>m (et, adj). AList.update et adj m) [] xs = xs"
  proof -
    have "keys xs = sort (keys (by_type t))"
      using keys_sort_key [of "by_type t"] by (simp add: xs_def comp_def freeze_typed_idem)
    then show ?thesis
      using foldl_update_distinct [of "[]" xs] assms(2) by (simp add: keys_distinct_def)
  qed
  moreover have "by_type (freeze t) = xs" by (simp add: freeze_def xs_def freeze_typed_def case_prod_unfold)
  moreover have "topology_unpack src =
      bind_res (read_counted read_typed src 0) (\<lambda>(es, pos). bind_res (read_u64 src pos) (\<lambda>(count, pos).
        Inr (\<lparr>by_type = foldl (\<lambda>m (et, adj). AList.update et adj m) [] es, edge_count = count,
           out_tombstones = [], in_tombstones = []\<rparr>, pos)))" for src
    by (cases "read_u32 src 0") (auto simp: topology_unpack_def read_counted_def)
  ultimately show ?thesis by (simp add: freeze_def)
qed

lemma map_of_sort_key: "distinct (keys m) \<Longrightarrow> map_of (sort_key fst m) = map_of m"
  by (subst map_of_inject_set) (simp_all add: keys_sort_key)

lemma map_of_map_value: "map_of (map (\<lambda>(k, v). (k, f v)) m) k = map_option f (map_of m k)"
  by (induction m) auto

lemma map_of_freeze_map:
  assumes "distinct (keys m)"
  shows "map_of (freeze_map m) v = map_option (\<lambda>a. \<lparr>frozen = adj_merged a, delta = []\<rparr>) (map_of m v)"
  using map_of_map_value [of "\<lambda>fr. \<lparr>frozen = fr, delta = []\<rparr>" "packed_rows m" v]
    map_of_map_value [of adj_merged "sort_key fst m" v] map_of_sort_key [OF assms]
  by (simp add: freeze_map_def thaw_rows_def packed_rows_def option.map_comp comp_def)

lemma adj_at_freeze:
  assumes "keys_distinct t"
  shows "adj_at (freeze t) e dir v = map_option (\<lambda>a. \<lparr>frozen = adj_merged a, delta = []\<rparr>) (adj_at t e dir v)"
proof -
  let ?f = "\<lambda>adj. \<lparr>aout = freeze_map (aout adj), ainn = freeze_map (ainn adj)\<rparr>"
  have m: "map_of (by_type (freeze t)) e = map_option ?f (map_of (by_type t) e)"
    using map_of_map_value [of ?f "sort_key fst (by_type t)" e] map_of_sort_key [of "by_type t"] assms
    by (simp add: freeze_def keys_distinct_def)
  show ?thesis
  proof (cases "map_of (by_type t) e")
    case None
    then show ?thesis using m by (simp add: adj_at_def)
  next
    case (Some adj)
    then have "distinct (keys (aout adj))" "distinct (keys (ainn adj))"
      using assms map_of_SomeD [OF Some] by (auto simp: keys_distinct_def)
    then show ?thesis using m Some by (cases dir) (simp_all add: adj_at_def map_of_freeze_map)
  qed
qed

lemma freeze_ok:
  assumes "topology_ok t"
  shows "topology_ok (freeze t)" "edges (freeze t) = edges t" "neighbors (freeze t) e dir v = neighbors t e dir v"
proof -
  note kd = topology_okD(1) [OF assms]
  have at: "adj_at (freeze t) e dir v = map_option (\<lambda>a. \<lparr>frozen = adj_merged a, delta = []\<rparr>) (adj_at t e dir v)" for e dir v
    using adj_at_freeze [OF kd] .
  have nb: "nbr_ids (freeze t) = nbr_ids t"
    using topology_okD(2) [OF assms] adj_merged_correct
    by (auto simp: fun_eq_iff nbr_ids_def at adj_ids_def split: option.splits)
  then show E: "edges (freeze t) = edges t" by (simp add: edges_def)
  have "adj_ok a" if "adj_at (freeze t) e dir v = Some a" for e dir v a
    using that topology_okD(2) [OF assms] adj_merged_correct(1) by (auto simp: at adj_ok_def)
  moreover have "keys (by_type (freeze t)) = sort (keys (by_type t))"
    using keys_sort_key [of "by_type t"] by (simp add: freeze_def comp_def case_prod_unfold)
  then have "keys_distinct (freeze t)"
    using kd by (auto simp: keys_distinct_def freeze_def keys_freeze_map)
  ultimately show "topology_ok (freeze t)"
    using assms unfolding topology_ok_def nb E by (auto simp: freeze_def)
  show "neighbors (freeze t) e dir v = neighbors t e dir v"
    by (auto simp: neighbors_def at adj_merged_def split: option.splits)
qed

section \<open>Runs\<close>

datatype edge_op = AddEdge u32 u32 u32 | RemoveEdge u32 u32 u32 | RemoveOverlay u32 u32 u32

datatype edge_out = Changed bool | Outcome remove_outcome

fun topo_step :: "edge_op \<Rightarrow> topology \<Rightarrow> (topology \<times> edge_out) option" where
  "topo_step (AddEdge e s d) t = map_option (map_prod id Changed) (add_edge t e s d)"
| "topo_step (RemoveEdge e s d) t = map_option (map_prod id Outcome) (remove_edge t e s d)"
| "topo_step (RemoveOverlay e s d) t = map_option (map_prod id Changed) (remove_overlay_edge t e s d)"

type_synonym edge_spec = "(u32 \<times> u32 \<times> u32) set \<times> (u32 \<times> u32 \<times> u32) set"

text \<open>The specification: the set of overlay edges and the set of deleted base edges.\<close>

fun edge_spec_step :: "edge_op \<Rightarrow> edge_spec \<Rightarrow> edge_spec \<times> edge_out" where
  "edge_spec_step (AddEdge e s d) (E, T) = ((insert (e, s, d) E, T), Changed ((e, s, d) \<notin> E))"
| "edge_spec_step (RemoveEdge e s d) (E, T) =
     (if (e, s, d) \<in> E then ((E - {(e, s, d)}, T), Outcome RemovedFromOverlay)
      else ((E, insert (e, s, d) T), Outcome TombstonedBase))"
| "edge_spec_step (RemoveOverlay e s d) (E, T) = ((E - {(e, s, d)}, T), Changed ((e, s, d) \<in> E))"

fun topo_run :: "edge_op list \<Rightarrow> topology \<Rightarrow> (topology \<times> edge_out list) option" where
  "topo_run [] t = Some (t, [])"
| "topo_run (op # ops) t =
     (case topo_step op t of
        None \<Rightarrow> None
      | Some (t, r) \<Rightarrow> map_option (\<lambda>(t, rs). (t, r # rs)) (topo_run ops t))"

fun edge_spec_run :: "edge_op list \<Rightarrow> edge_spec \<Rightarrow> edge_spec \<times> edge_out list" where
  "edge_spec_run [] s = (s, [])"
| "edge_spec_run (op # ops) s =
     (case edge_spec_step op s of (s, r) \<Rightarrow> case edge_spec_run ops s of (s, rs) \<Rightarrow> (s, r # rs))"

lemma tombs_cong:
  assumes "out_tombstones t' = out_tombstones t" "in_tombstones t' = in_tombstones t"
  shows "tombs t' = tombs t" "tombs_mirror t' = tombs_mirror t" "tomb_ids t' = tomb_ids t"
proof -
  show "tomb_ids t' = tomb_ids t"
    unfolding tomb_ids_def out_tombstones_for_def in_tombstones_for_def assms by (rule refl)
  then show "tombs t' = tombs t" "tombs_mirror t' = tombs_mirror t"
    by (simp_all add: tombs_def tombs_mirror_def)
qed

lemma topo_step_correct:
  assumes "topology_ok t" "tombs_mirror t"
  shows "\<exists>t' r. topo_step op t = Some (t', r) \<and> topology_ok t' \<and> tombs_mirror t' \<and>
    edge_spec_step op (edges t, tombs t) = ((edges t', tombs t'), r)"
proof (cases op)
  case (AddEdge e s d)
  obtain t' where "add_edge t e s d = Some (t', (e, s, d) \<notin> edges t)" "topology_ok t'"
      "edges t' = insert (e, s, d) (edges t)" "tombs t' = tombs t" "tombs_mirror t'"
    using add_edge_correct [OF assms(1), of e s d] tombs_cong [of _ t] assms(2) by metis
  with AddEdge show ?thesis by simp
next
  case (RemoveEdge e s d)
  then show ?thesis using remove_edge_correct [OF assms, of e s d] by (auto split: if_splits)
next
  case (RemoveOverlay e s d)
  obtain t' where "remove_overlay_edge t e s d = Some (t', (e, s, d) \<in> edges t)" "topology_ok t'"
      "edges t' = edges t - {(e, s, d)}" "tombs t' = tombs t" "tombs_mirror t'"
    using remove_overlay_edge_correct [OF assms(1), of e s d] tombs_cong [of _ t] assms(2) by metis
  with RemoveOverlay show ?thesis by simp
qed

lemma topo_run_correct:
  assumes "topology_ok t" "tombs_mirror t"
  shows "\<exists>t' rs. topo_run ops t = Some (t', rs) \<and> topology_ok t' \<and> tombs_mirror t' \<and>
    edge_spec_run ops (edges t, tombs t) = ((edges t', tombs t'), rs)"
  using assms
proof (induction ops arbitrary: t)
  case (Cons op ops)
  obtain t1 r where "topo_step op t = Some (t1, r)" "topology_ok t1" "tombs_mirror t1"
      "edge_spec_step op (edges t, tombs t) = ((edges t1, tombs t1), r)"
    using topo_step_correct [OF Cons.prems] by blast
  with Cons.IH [of t1] show ?case by auto
qed simp

lemma topology_new_tombs: "tombs_mirror topology_new" "tombs topology_new = {}"
  by (simp_all add: tombs_mirror_def tombs_def tomb_ids_def out_tombstones_for_def in_tombstones_for_def
      tombstones_in_def topology_new_def split: direction.splits)

lemma sorted_list_unique: "finite S \<Longrightarrow> ssorted xs \<Longrightarrow> set xs = S \<Longrightarrow> xs = sorted_list_of_set S"
  by (metis sorted_list_of_set.idem_if_sorted_distinct ssorted_iff)

section \<open>Properties\<close>


text \<open>Packing any reachable topology whose counts fit their prefixes and reading the
  image back consumes the whole image and gives a topology with the same edges, the same
  count and the same neighbours everywhere, and no tombstone.\<close>

theorem topology_pack_roundtrip:
  assumes "topo_run ops topology_new = Some (t, rs)" "topology_packable t"
  shows "\<exists>t'. topology_unpack (topology_pack [] t) = Inr (t', length (topology_pack [] t)) \<and>
    topology_ok t' \<and> edges t' = edges t \<and> edge_count t' = edge_count t \<and>
    neighbors t' e dir v = neighbors t e dir v \<and> tombs t' = {}"
proof -
  have ok: "topology_ok t"
    using topo_run_correct [OF topology_new_ok(1) topology_new_tombs(1), of ops] assms(1) by auto
  have "tombs (freeze t) = {}"
    by (simp add: tombs_def tomb_ids_def out_tombstones_for_def tombstones_in_def freeze_def)
  moreover have "edge_count (freeze t) = edge_count t" by (simp add: freeze_def)
  ultimately show ?thesis
    using topology_unpack_correct [OF assms(2) topology_okD(1) [OF ok]] freeze_ok [OF ok] by blast
qed

theorem topology_pack_roundtrip_witness:
  "\<exists>t rs t'. topo_run [AddEdge 1 5 4, AddEdge 1 5 3, RemoveEdge 1 5 4] topology_new = Some (t, rs) \<and>
     topology_unpack (topology_pack [] t) = Inr (t', length (topology_pack [] t)) \<and>
     neighbors t' 1 Out 5 = [3] \<and> edge_count t' = 1"
proof -
  let ?ops = "[AddEdge 1 5 4, AddEdge 1 5 3, RemoveEdge 1 5 4]"
  define t where "t = fst (the (topo_run ?ops topology_new))"
  have t: "topo_run ?ops topology_new = Some (t, [Changed True, Changed True, Outcome RemovedFromOverlay])"
    "t = \<lparr>by_type = [(1, \<lparr>aout = [(5, \<lparr>frozen = [], delta = [3]\<rparr>)],
        ainn = [(4, \<lparr>frozen = [], delta = []\<rparr>), (3, \<lparr>frozen = [], delta = [5]\<rparr>)]\<rparr>)], edge_count = 1,
        out_tombstones = [], in_tombstones = []\<rparr>"
    unfolding t_def by code_simp+
  have "topology_packable t"
    unfolding t(2)
    by (simp add: topology_packable_def fits_u32_def typed_packable_def map_packable_def packed_rows_def
        adj_merged_def merge_sorted_unique_def Let_def sort_dedup_def topology_pack_eq counted_def enc_typed_def
        pack_adj_map_eq push_u32_def push_u64_def push_u32s_def push_len_def usize_limit_def)
  moreover have "neighbors t 1 Out 5 = [3]" "edge_count t = 1" unfolding t(2) by code_simp+
  ultimately show ?thesis
    using topology_pack_roundtrip [OF t(1), of 1 Out 5] t(1) by auto
qed

end
