(* ===== verification/Topology_View.thy ===== *)
theory Topology_View
  imports Topology
begin

text \<open>
  Reading the graph through its layers, \<open>TopologyView\<close> of
  \<open>crates/core-storage/src/v8/seam.rs\<close>: a sorted archived base (\<open>CsrData\<close> of
  \<open>v8/layout.rs\<close>), the overlay of changes since, and optionally one more layer of changes
  (a reader's delta tail or an open transaction). The specification is set algebra: what a
  layer deletes goes, what it holds is there.
\<close>

section \<open>The archived base\<close>

record csr_row =
  vertex :: u32
  row_neighbors :: "u32 list"

record csr_etype =
  etype_id :: u32
  out_adj :: "csr_row list"
  in_adj :: "csr_row list"

record csr_data =
  csr_etypes :: "csr_etype list"
  csr_edge_count :: u64

definition archived_csr_row :: "csr_data \<Rightarrow> u32 \<Rightarrow> direction \<Rightarrow> u32 \<Rightarrow> csr_row option" where
  "archived_csr_row base etype dir v =
     (case binary_search etype (map etype_id (csr_etypes base)) of
        Inl _ \<Rightarrow> None
      | Inr et_pos \<Rightarrow>
          (let et_entry = csr_etypes base ! et_pos;
               rows = (case dir of Out \<Rightarrow> out_adj et_entry | In \<Rightarrow> in_adj et_entry)
           in case binary_search v (map vertex rows) of
             Inl _ \<Rightarrow> None
           | Inr row_pos \<Rightarrow> Some (rows ! row_pos)))"

definition base_has_out_edge :: "csr_data \<Rightarrow> u32 \<Rightarrow> u32 \<Rightarrow> u32 \<Rightarrow> bool" where
  "base_has_out_edge base etype src dst =
     (case archived_csr_row base etype Out src of
        None \<Rightarrow> False
      | Some row \<Rightarrow> (case binary_search dst (row_neighbors row) of Inr _ \<Rightarrow> True | Inl _ \<Rightarrow> False))"

definition archived_row_degree :: "csr_data \<Rightarrow> u32 \<Rightarrow> direction \<Rightarrow> u32 \<Rightarrow> nat" where
  "archived_row_degree base etype dir v =
     (case archived_csr_row base etype dir v of None \<Rightarrow> 0 | Some row \<Rightarrow> length (row_neighbors row))"

section \<open>The view\<close>

record topology_view =
  overlay :: topology
  base :: "csr_data option"
  layer :: "topology option"

text \<open>The merge of two sorted slices is the two-pointer loop of the topology's merge.\<close>

definition subtract_tombstones :: "u32 list \<Rightarrow> u32 \<Rightarrow> direction \<Rightarrow> u32 \<Rightarrow> topology \<Rightarrow> u32 list" where
  "subtract_tombstones nbrs etype dir v ov =
     (case (case dir of Out \<Rightarrow> out_tombstones_for ov etype v | In \<Rightarrow> in_tombstones_for ov etype v) of
        None \<Rightarrow> nbrs
      | Some t \<Rightarrow> if t = {} then nbrs else filter (\<lambda>n. n \<notin> t) nbrs)"

definition lay_tx_over :: "u32 list \<Rightarrow> topology \<Rightarrow> u32 \<Rightarrow> direction \<Rightarrow> u32 \<Rightarrow> u32 list" where
  "lay_tx_over below tx etype dir v =
     (let added = neighbors tx etype dir v in
      if added = [] \<and> tombstones_are_empty tx etype dir v then below
      else
        let kept = subtract_tombstones below etype dir v tx in
        if added = [] then kept
        else if kept = [] then added
        else merge_loop kept added)"

definition below_tx_with_base_row ::
  "topology_view \<Rightarrow> u32 \<Rightarrow> direction \<Rightarrow> u32 \<Rightarrow> u32 list \<times> u32 list option" where
  "below_tx_with_base_row w etype dir v =
     (let overlay_nbrs = neighbors (overlay w) etype dir v in
      case base w of
        None \<Rightarrow> (overlay_nbrs, None)
      | Some b \<Rightarrow>
          (case map_option row_neighbors (archived_csr_row b etype dir v) of
             None \<Rightarrow> (overlay_nbrs, None)
           | Some row \<Rightarrow>
               if row = [] then (overlay_nbrs, Some row)
               else
                 let filtered = subtract_tombstones row etype dir v (overlay w) in
                 if filtered = [] then (overlay_nbrs, Some row)
                 else if overlay_nbrs = [] then (filtered, Some row)
                 else (merge_loop overlay_nbrs filtered, Some row)))"

definition neighbors_with_base_row ::
  "topology_view \<Rightarrow> u32 \<Rightarrow> direction \<Rightarrow> u32 \<Rightarrow> u32 list \<times> u32 list option" where
  "neighbors_with_base_row w etype dir v =
     (let (below, row) = below_tx_with_base_row w etype dir v in
      case layer w of
        None \<Rightarrow> (below, row)
      | Some tx \<Rightarrow> (lay_tx_over below tx etype dir v, row))"

definition view_neighbors :: "topology_view \<Rightarrow> u32 \<Rightarrow> direction \<Rightarrow> u32 \<Rightarrow> u32 list" where
  "view_neighbors w etype dir v = fst (neighbors_with_base_row w etype dir v)"

definition saturating_sub :: "u64 \<Rightarrow> u64 \<Rightarrow> u64" where
  "saturating_sub a b = (if b \<le> a then a - b else 0)"

definition below_tx_edge_count :: "topology_view \<Rightarrow> u64" where
  "below_tx_edge_count w =
     (case base w of
        None \<Rightarrow> edge_count (overlay w)
      | Some b \<Rightarrow> saturating_sub (csr_edge_count b) (tombstone_count (overlay w)) + edge_count (overlay w))"

text \<open>Every tombstone of a layer, each set in ascending order.\<close>

definition tx_tombstones :: "topology \<Rightarrow> (u32 \<times> u32 \<times> u32) list" where
  "tx_tombstones tx =
     concat (map (\<lambda>(etype, by_src).
       concat (map (\<lambda>(src, dsts). map (\<lambda>dst. (etype, src, dst)) (sorted_list_of_set dsts)) by_src))
       (out_tombstones tx))"

definition view_edge_count :: "topology_view \<Rightarrow> u64" where
  "view_edge_count w =
     (let below = below_tx_edge_count w in
      case layer w of
        None \<Rightarrow> below
      | Some tx \<Rightarrow>
          (let lower = w\<lparr>layer := None\<rparr>;
               has_below = (\<lambda>(etype, src, dst). dst \<in> set (view_neighbors lower etype Out src));
               put_back = (\<lambda>(etype, src, dst). dst \<in> set (neighbors tx etype Out src));
               count = foldl (\<lambda>c x. if has_below x \<and> \<not> put_back x then saturating_sub c 1 else c)
                         below (tx_tombstones tx)
           in foldl (\<lambda>c x. if \<not> has_below x then c + 1 else c) count (all_edges tx)))"

definition view_degree :: "topology_view \<Rightarrow> u32 \<Rightarrow> direction \<Rightarrow> u32 \<Rightarrow> nat" where
  "view_degree w etype dir v =
     (if layer w \<noteq> None then length (view_neighbors w etype dir v)
      else case base w of
        None \<Rightarrow> degree (overlay w) etype dir v
      | Some b \<Rightarrow>
          if adj_is_empty (overlay w) etype dir v \<and> tombstones_are_empty (overlay w) etype dir v
          then archived_row_degree b etype dir v
          else length (view_neighbors w etype dir v))"

definition view_etypes :: "topology_view \<Rightarrow> u32 list" where
  "view_etypes w =
     (case (base w, layer w) of
        (None, None) \<Rightarrow> etypes (overlay w)
      | (b, tx) \<Rightarrow>
          sort_dedup (etypes (overlay w) @
            (case b of None \<Rightarrow> [] | Some b \<Rightarrow> map etype_id (csr_etypes b)) @
            (case tx of None \<Rightarrow> [] | Some tx \<Rightarrow> etypes tx)))"

section \<open>What a base holds\<close>

definition base_ids :: "csr_data \<Rightarrow> u32 \<Rightarrow> direction \<Rightarrow> u32 \<Rightarrow> u32 set" where
  "base_ids b e dir v =
     (case archived_csr_row b e dir v of None \<Rightarrow> {} | Some row \<Rightarrow> set (row_neighbors row))"

definition base_edges :: "csr_data \<Rightarrow> (u32 \<times> u32 \<times> u32) set" where
  "base_edges b = {(e, s, d). d \<in> base_ids b e Out s}"

text \<open>A base in order: every level strictly sorted, the directions mirrored, the count right.\<close>

definition base_ok :: "csr_data \<Rightarrow> bool" where
  "base_ok b \<longleftrightarrow>
     ssorted (map etype_id (csr_etypes b)) \<and>
     (\<forall>et \<in> set (csr_etypes b). \<forall>rows \<in> {out_adj et, in_adj et}.
        ssorted (map vertex rows) \<and> (\<forall>r \<in> set rows. ssorted (row_neighbors r))) \<and>
     (\<forall>e s d. d \<in> base_ids b e Out s \<longleftrightarrow> s \<in> base_ids b e In d) \<and>
     card (base_edges b) < 2 ^ 64 \<and> csr_edge_count b = of_nat (card (base_edges b))"

lemma base_row_sorted:
  assumes "base_ok b" "archived_csr_row b e dir v = Some row"
  shows "ssorted (row_neighbors row)"
proof -
  obtain i rp where i: "binary_search e (map etype_id (csr_etypes b)) = Inr i"
      "binary_search v (map vertex (case dir of Out \<Rightarrow> out_adj (csr_etypes b ! i) | In \<Rightarrow> in_adj (csr_etypes b ! i))) = Inr rp"
      "row = (case dir of Out \<Rightarrow> out_adj (csr_etypes b ! i) | In \<Rightarrow> in_adj (csr_etypes b ! i)) ! rp"
    using assms(2) by (auto simp: archived_csr_row_def Let_def split: sum.splits)
  define et where "et = csr_etypes b ! i"
  have et: "et \<in> set (csr_etypes b)"
      "binary_search v (map vertex (case dir of Out \<Rightarrow> out_adj et | In \<Rightarrow> in_adj et)) = Inr rp"
      "row = (case dir of Out \<Rightarrow> out_adj et | In \<Rightarrow> in_adj et) ! rp"
    using i(2,3) [folded et_def] binary_search_Inr_D [OF i(1)] et_def by auto
  have "row \<in> set (case dir of Out \<Rightarrow> out_adj et | In \<Rightarrow> in_adj et)"
    using binary_search_Inr_D [OF et(2)] et(3) by auto
  then show ?thesis using assms(1) et(1) by (cases dir) (auto simp: base_ok_def)
qed

lemma base_has_out_edge_iff:
  "base_ok b \<Longrightarrow> base_has_out_edge b e s d \<longleftrightarrow> (e, s, d) \<in> base_edges b"
proof (cases "archived_csr_row b e Out s")
  case (Some row)
  assume "base_ok b"
  from binary_search_found [OF base_row_sorted [OF this Some], of d] show ?thesis
    by (cases "binary_search d (row_neighbors row)")
      (auto simp: base_has_out_edge_def base_edges_def base_ids_def Some)
qed (simp add: base_has_out_edge_def base_edges_def base_ids_def)

section \<open>The view is set algebra\<close>

text \<open>The neighbours and edges below the layer, and those of the whole view.\<close>

definition below_ids :: "topology_view \<Rightarrow> u32 \<Rightarrow> direction \<Rightarrow> u32 \<Rightarrow> u32 set" where
  "below_ids w e dir v =
     nbr_ids (overlay w) e dir v \<union>
     ((case base w of None \<Rightarrow> {} | Some b \<Rightarrow> base_ids b e dir v) - tomb_ids (overlay w) dir e v)"

definition below_edges :: "topology_view \<Rightarrow> (u32 \<times> u32 \<times> u32) set" where
  "below_edges w =
     edges (overlay w) \<union> ((case base w of None \<Rightarrow> {} | Some b \<Rightarrow> base_edges b) - tombs (overlay w))"

definition view_edges :: "topology_view \<Rightarrow> (u32 \<times> u32 \<times> u32) set" where
  "view_edges w =
     (case layer w of None \<Rightarrow> below_edges w | Some tx \<Rightarrow> edges tx \<union> (below_edges w - tombs tx))"

definition view_ok :: "topology_view \<Rightarrow> bool" where
  "view_ok w \<longleftrightarrow> topology_ok (overlay w) \<and> tombs_mirror (overlay w) \<and>
     (case base w of None \<Rightarrow> True | Some b \<Rightarrow> base_ok b) \<and>
     (case layer w of None \<Rightarrow> True | Some tx \<Rightarrow> topology_ok tx \<and> tombs_mirror tx)"

lemma subtract_tombstones_correct:
  "subtract_tombstones nbrs e dir v t = filter (\<lambda>n. n \<notin> tomb_ids t dir e v) nbrs"
  by (cases dir) (auto simp: subtract_tombstones_def tomb_ids_def split: option.splits)

lemma below_neighbors_correct:
  assumes "view_ok w" and ns_def: "ns = fst (below_tx_with_base_row w e dir v)"
  shows "ssorted ns" "set ns = below_ids w e dir v"
proof -
  have ov: "ssorted (neighbors (overlay w) e dir v)" "set (neighbors (overlay w) e dir v) = nbr_ids (overlay w) e dir v"
    using neighbors_correct [of "overlay w" e dir v] assms(1) by (auto simp: view_ok_def)
  have "ssorted ns \<and> set ns = below_ids w e dir v"
  proof (cases "base w")
    case None
    then show ?thesis using ov by (simp add: ns_def below_tx_with_base_row_def below_ids_def)
  next
    case (Some b)
    then have b: "base_ok b" using assms(1) by (simp add: view_ok_def)
    show ?thesis
    proof (cases "archived_csr_row b e dir v")
      case None
      then show ?thesis using ov Some by (simp add: ns_def below_tx_with_base_row_def below_ids_def base_ids_def)
    next
      case row: (Some r)
      let ?f = "filter (\<lambda>n. n \<notin> tomb_ids (overlay w) dir e v) (row_neighbors r)"
      have f: "ssorted ?f" using base_row_sorted [OF b row] by (rule ssorted_filter)
      have "ns = (if ?f = [] then neighbors (overlay w) e dir v
          else if neighbors (overlay w) e dir v = [] then ?f
          else merge_loop (neighbors (overlay w) e dir v) ?f)"
        by (cases "row_neighbors r = []")
          (simp_all add: ns_def below_tx_with_base_row_def Some row subtract_tombstones_correct Let_def)
      moreover have "set ?f = base_ids b e dir v - tomb_ids (overlay w) dir e v"
        using row by (auto simp: base_ids_def)
      ultimately show ?thesis
        using ov f merge_loop_correct [OF ov(1) f] Some by (auto simp: below_ids_def)
    qed
  qed
  then show "ssorted ns" "set ns = below_ids w e dir v" by auto
qed

definition view_ids :: "topology_view \<Rightarrow> u32 \<Rightarrow> direction \<Rightarrow> u32 \<Rightarrow> u32 set" where
  "view_ids w e dir v =
     (case layer w of
        None \<Rightarrow> below_ids w e dir v
      | Some tx \<Rightarrow> nbr_ids tx e dir v \<union> (below_ids w e dir v - tomb_ids tx dir e v))"

lemma view_neighbors_correct:
  assumes "view_ok w"
  shows "ssorted (view_neighbors w e dir v)" "set (view_neighbors w e dir v) = view_ids w e dir v"
proof -
  define ns where "ns = fst (below_tx_with_base_row w e dir v)"
  note below = below_neighbors_correct [OF assms ns_def]
  have "ssorted (view_neighbors w e dir v) \<and> set (view_neighbors w e dir v) = view_ids w e dir v"
  proof (cases "layer w")
    case None
    then show ?thesis
      using below by (simp add: view_neighbors_def neighbors_with_base_row_def view_ids_def case_prod_unfold ns_def Let_def)
  next
    case (Some tx)
    then have tx: "ssorted (neighbors tx e dir v)" "set (neighbors tx e dir v) = nbr_ids tx e dir v"
      using neighbors_correct [of tx e dir v] assms by (auto simp: view_ok_def)
    let ?kept = "filter (\<lambda>n. n \<notin> tomb_ids tx dir e v) ns"
    have k: "ssorted ?kept" "set ?kept = below_ids w e dir v - tomb_ids tx dir e v"
      using below by (auto simp: ns_def ssorted_filter)
    have "view_neighbors w e dir v = lay_tx_over ns tx e dir v"
      by (simp add: view_neighbors_def neighbors_with_base_row_def Some case_prod_unfold ns_def Let_def)
    also have "\<dots> = (if neighbors tx e dir v = [] then ?kept
        else if ?kept = [] then neighbors tx e dir v else merge_loop ?kept (neighbors tx e dir v))"
      by (auto simp: lay_tx_over_def Let_def subtract_tombstones_correct tombstones_are_empty_iff)
    finally show ?thesis
      using k tx merge_loop_correct [OF k(1) tx(1)] Some by (auto simp: view_ids_def)
  qed
  then show "ssorted (view_neighbors w e dir v)" "set (view_neighbors w e dir v) = view_ids w e dir v" by auto
qed

lemma view_ids_edges:
  assumes "view_ok w"
  shows "view_ids w e Out v = {d. (e, v, d) \<in> view_edges w}" "view_ids w e In v = {s. (e, s, v) \<in> view_edges w}"
proof -
  have below: "below_ids w e Out v = {d. (e, v, d) \<in> below_edges w}" "below_ids w e In v = {s. (e, s, v) \<in> below_edges w}"
    using assms topology_okD(3) [of "overlay w"]
    by (auto simp: view_ok_def below_ids_def below_edges_def edges_def tombs_def tombs_mirror_def base_edges_def
        base_ok_def split: option.splits)
  then show "view_ids w e Out v = {d. (e, v, d) \<in> view_edges w}" "view_ids w e In v = {s. (e, s, v) \<in> view_edges w}"
    using assms topology_okD(3)
    by (auto simp: view_ids_def view_edges_def view_ok_def edges_def tombs_def tombs_mirror_def split: option.splits)
qed

lemma view_degree_correct:
  assumes "view_ok w"
  shows "view_degree w e dir v = length (view_neighbors w e dir v)"
proof (cases "layer w")
  case None
  show ?thesis
  proof (cases "base w")
    case None
    then show ?thesis
      using \<open>layer w = None\<close>
      by (simp add: view_degree_def degree_def view_neighbors_def neighbors_with_base_row_def below_tx_with_base_row_def)
  next
    case (Some b)
    have "archived_row_degree b e dir v = length (view_neighbors w e dir v)"
      if empty: "adj_is_empty (overlay w) e dir v" "tombstones_are_empty (overlay w) e dir v"
    proof -
      have "neighbors (overlay w) e dir v = []"
        using empty(1) neighbors_correct(2) [of "overlay w" e dir v] assms by (simp add: adj_is_empty_iff view_ok_def)
      then show ?thesis
        using empty(2) \<open>layer w = None\<close> Some
        by (auto simp: view_neighbors_def neighbors_with_base_row_def below_tx_with_base_row_def Let_def
            subtract_tombstones_correct tombstones_are_empty_iff archived_row_degree_def split: option.splits)
    qed
    then show ?thesis using \<open>layer w = None\<close> Some by (simp add: view_degree_def)
  qed
qed (simp add: view_degree_def)

section \<open>The edge count\<close>

text \<open>The tombstone maps have one entry per key, as hash maps do.\<close>

definition tombs_keyed :: "topology \<Rightarrow> bool" where
  "tombs_keyed t \<longleftrightarrow> distinct (keys (out_tombstones t)) \<and>
     (\<forall>(e, vs) \<in> set (out_tombstones t). distinct (keys vs))"

lemma of_nat_sum_list: "of_nat (sum_list xs) = sum_list (map of_nat xs)"
  by (induction xs) simp_all

lemma tx_tombstones_correct:
  assumes "tombs_keyed t"
  shows "distinct (tx_tombstones t)" "set (tx_tombstones t) = tombs t"
    "tombstone_count t = of_nat (card (tombs t))"
proof -
  have kd: "distinct (keys (out_tombstones t))" "\<And>e vs. (e, vs) \<in> set (out_tombstones t) \<Longrightarrow> distinct (keys vs)"
    using assms by (auto simp: tombs_keyed_def)
  let ?row = "\<lambda>e (s, ds). map (\<lambda>d. (e, s, d)) (sorted_list_of_set (ds :: u32 set))"
  have inner: "distinct (concat (map (?row e) vs))" if "(e, vs) \<in> set (out_tombstones t)" for e vs
    by (rule distinct_concat_rows) (use kd(2) [OF that] in \<open>auto simp: distinct_map inj_on_def\<close>)
  show d: "distinct (tx_tombstones t)"
    unfolding tx_tombstones_def
    by (rule distinct_concat_rows) (use kd(1) inner in \<open>auto simp: case_prod_unfold\<close>)
  have "(e, s, x) \<in> set (tx_tombstones t) \<longleftrightarrow> (e, s, x) \<in> tombs t" for e s x
  proof -
    have "(e, s, x) \<in> set (tx_tombstones t) \<longleftrightarrow>
        (\<exists>vs ds. (e, vs) \<in> set (out_tombstones t) \<and> (s, ds) \<in> set vs \<and> x \<in> ds)"
      unfolding tx_tombstones_def set_concat set_map
      by (auto simp: image_iff; metis (no_types) case_prod_conv)
    also have "\<dots> \<longleftrightarrow> (\<exists>vs ds. map_of (out_tombstones t) e = Some vs \<and> map_of vs s = Some ds \<and> x \<in> ds)"
    proof -
      have "(e, vs) \<in> set (out_tombstones t) \<longleftrightarrow> map_of (out_tombstones t) e = Some vs" for vs
        using kd(1) by simp
      moreover have "(s, ds) \<in> set vs \<longleftrightarrow> map_of vs s = Some ds" if "(e, vs) \<in> set (out_tombstones t)" for vs ds
        using kd(2) [OF that] by simp
      ultimately show ?thesis by blast
    qed
    finally show ?thesis
      by (auto simp: tombs_def tomb_ids_def out_tombstones_for_def tombstones_in_def split: option.splits)
  qed
  then show S: "set (tx_tombstones t) = tombs t" by auto
  have "tombstone_count t = of_nat (length (tx_tombstones t))"
    by (simp add: tombstone_count_def tx_tombstones_def length_concat comp_def case_prod_unfold of_nat_sum_list)
  then show "tombstone_count t = of_nat (card (tombs t))" using distinct_card [OF d] S by simp
qed

lemma saturating_sub_of_nat:
  assumes "m < 2 ^ 64" "n < 2 ^ 64"
  shows "saturating_sub (of_nat m) (of_nat n) = of_nat (m - n)"
proof (cases "n \<le> m")
  case True
  then have "(of_nat n :: u64) \<le> of_nat m" using assms by (simp add: word_le_nat_alt unat_of_nat)
  then show ?thesis using True by (simp add: saturating_sub_def)
next
  case False
  then have "\<not> (of_nat n :: u64) \<le> of_nat m" using assms by (simp add: word_le_nat_alt unat_of_nat)
  then show ?thesis using False by (simp add: saturating_sub_def)
qed

lemma foldl_count_down:
  "n < 2 ^ 64 \<Longrightarrow>
   foldl (\<lambda>c x. if P x then saturating_sub c 1 else c) (of_nat n) xs = of_nat (n - length (filter P xs))"
proof (induction xs arbitrary: n)
  case (Cons x xs)
  have "saturating_sub (of_nat n) 1 = of_nat (n - 1)"
    using saturating_sub_of_nat [of n 1] Cons.prems by simp
  with Cons show ?case by auto
qed simp

lemma foldl_count_up:
  "foldl (\<lambda>c x. if P x then c + 1 else c) (of_nat n :: u64) xs = of_nat (n + length (filter P xs))"
proof (induction xs arbitrary: n)
  case (Cons x xs)
  have "(of_nat n :: u64) + 1 = of_nat (n + 1)" by simp
  with Cons [of "n + 1"] Cons [of n] show ?case by (auto simp: add.commute)
qed simp

lemma length_filter_card: "distinct xs \<Longrightarrow> length (filter P xs) = card {x \<in> set xs. P x}"
  by (metis distinct_card distinct_filter set_filter)

text \<open>
  The overlay's counts are those of its edges and tombstones; they are the counts of the
  view below the layer when the overlay holds no live edge of the base and has a tombstone
  only for edges of the base.
\<close>

definition counts_ok :: "topology_view \<Rightarrow> bool" where
  "counts_ok w \<longleftrightarrow> tombs_keyed (overlay w) \<and>
     (case layer w of None \<Rightarrow> True | Some tx \<Rightarrow> tombs_keyed tx) \<and>
     (case base w of None \<Rightarrow> True
      | Some b \<Rightarrow> tombs (overlay w) \<subseteq> base_edges b \<and> edges (overlay w) \<inter> (base_edges b - tombs (overlay w)) = {}) \<and>
     card (below_edges w) < 2 ^ 64"

lemma below_edge_count_correct:
  assumes "view_ok w" "counts_ok w"
  shows "below_tx_edge_count w = of_nat (card (below_edges w))"
proof (cases "base w")
  case None
  then show ?thesis
    using assms(1) topology_okD(4) [of "overlay w"]
    by (simp add: below_tx_edge_count_def below_edges_def view_ok_def)
next
  case (Some b)
  have T: "tombs (overlay w) \<subseteq> base_edges b" "edges (overlay w) \<inter> (base_edges b - tombs (overlay w)) = {}"
    and b: "card (base_edges b) < 2 ^ 64" "csr_edge_count b = of_nat (card (base_edges b))"
    and tk: "tombs_keyed (overlay w)" and ec: "edge_count (overlay w) = of_nat (card (edges (overlay w)))"
    using assms Some topology_okD(4) by (auto simp: counts_ok_def view_ok_def base_ok_def)
  have "card (tombs (overlay w)) \<le> card (base_edges b)" by (rule card_mono [OF finite T(1)])
  then have "saturating_sub (csr_edge_count b) (tombstone_count (overlay w)) =
      of_nat (card (base_edges b) - card (tombs (overlay w)))"
    using saturating_sub_of_nat [of "card (base_edges b)" "card (tombs (overlay w))"] b
      tx_tombstones_correct(3) [OF tk] by simp
  also have "card (base_edges b) - card (tombs (overlay w)) = card (base_edges b - tombs (overlay w))"
    using card_Diff_subset [OF finite T(1)] by simp
  finally have "below_tx_edge_count w =
      of_nat (card (base_edges b - tombs (overlay w)) + card (edges (overlay w)))"
    using ec Some by (simp add: below_tx_edge_count_def)
  also have "card (base_edges b - tombs (overlay w)) + card (edges (overlay w)) = card (below_edges w)"
    using card_Un_disjoint [OF finite finite T(2)] Some by (simp add: below_edges_def)
  finally show ?thesis .
qed

lemma view_edge_count_correct:
  assumes ok: "view_ok w" "counts_ok w"
  shows "view_edge_count w = of_nat (card (view_edges w))"
proof (cases "layer w")
  case None
  then show ?thesis
    using below_edge_count_correct [OF ok] by (simp add: view_edge_count_def view_edges_def)
next
  case (Some tx)
  have tx: "topology_ok tx" "tombs_keyed tx" using ok Some by (auto simp: view_ok_def counts_ok_def)
  let ?lower = "w\<lparr>layer := None\<rparr>"
  have lok: "view_ok ?lower" using ok(1) by (simp add: view_ok_def)
  have B: "below_edges ?lower = below_edges w" by (simp add: below_edges_def)
  have has: "d \<in> set (view_neighbors ?lower e Out s) \<longleftrightarrow> (e, s, d) \<in> below_edges w" for e s d
    using view_neighbors_correct(2) [OF lok, of e Out s] view_ids_edges(1) [OF lok, of e s] B
    by (simp add: view_edges_def)
  have put: "d \<in> set (neighbors tx e Out s) \<longleftrightarrow> (e, s, d) \<in> edges tx" for e s d
    using topo.out_law [OF tx(1), of e s] by simp
  let ?P = "\<lambda>x. x \<in> below_edges w \<and> x \<notin> edges tx" and ?Q = "\<lambda>x. x \<notin> below_edges w"
  have PQ: "(\<lambda>(e, s, d). d \<in> set (view_neighbors ?lower e Out s)) = (\<lambda>x. x \<in> below_edges w)"
    "(\<lambda>(e, s, d). d \<in> set (neighbors tx e Out s)) = (\<lambda>x. x \<in> edges tx)"
    using has put by (auto simp: fun_eq_iff)
  have n: "card (below_edges w) < 2 ^ 64" using ok(2) by (simp add: counts_ok_def)
  have "view_edge_count w =
      foldl (\<lambda>c x. if ?Q x then c + 1 else c)
        (foldl (\<lambda>c x. if ?P x then saturating_sub c 1 else c) (of_nat (card (below_edges w))) (tx_tombstones tx))
        (all_edges tx)"
    using below_edge_count_correct [OF ok] by (simp add: view_edge_count_def Some Let_def PQ)
  also have "\<dots> = of_nat (card (below_edges w) - length (filter ?P (tx_tombstones tx)) + length (filter ?Q (all_edges tx)))"
    unfolding foldl_count_down [OF n] foldl_count_up ..
  also have "length (filter ?P (tx_tombstones tx)) = card (below_edges w \<inter> (tombs tx - edges tx))"
    using length_filter_card [OF tx_tombstones_correct(1) [OF tx(2)], of ?P] tx_tombstones_correct(2) [OF tx(2)]
    by (simp add: Int_def Diff_eq conj_ac)
  also have "length (filter ?Q (all_edges tx)) = card (edges tx - below_edges w)"
    using length_filter_card [OF all_edges_correct(1) [OF tx(1)], of ?Q] all_edges_correct(2) [OF tx(1)]
    by (simp add: set_diff_eq)
  also have "card (below_edges w) - card (below_edges w \<inter> (tombs tx - edges tx)) =
      card (below_edges w - (tombs tx - edges tx))"
    using card_Diff_subset_Int [of "below_edges w" "tombs tx - edges tx"] by simp
  also have "card (below_edges w - (tombs tx - edges tx)) + card (edges tx - below_edges w) = card (view_edges w)"
  proof -
    have "view_edges w = (below_edges w - (tombs tx - edges tx)) \<union> (edges tx - below_edges w)"
      using Some by (auto simp: view_edges_def)
    then show ?thesis by (simp add: card_Un_disjoint Int_def)
  qed
  finally show ?thesis .
qed

section \<open>Properties\<close>

text \<open>C15. Through base, overlay and layer, the neighbours of a vertex in either direction are
  the ascending list of what set algebra says is left: the layer's edges and those below it
  that it does not delete, and below it the overlay's edges and those of the base that the
  overlay does not delete. The degree, with its shortcut over the archived row, is their
  number.\<close>

theorem view_refines_set_algebra:
  assumes "view_ok w"
  shows "view_neighbors w e Out v = sorted_list_of_set {d. (e, v, d) \<in> view_edges w} \<and>
    view_neighbors w e In v = sorted_list_of_set {s. (e, s, v) \<in> view_edges w} \<and>
    view_degree w e Out v = card {d. (e, v, d) \<in> view_edges w}"
proof -
  have out: "view_neighbors w e Out v = sorted_list_of_set {d. (e, v, d) \<in> view_edges w}"
    "view_neighbors w e In v = sorted_list_of_set {s. (e, s, v) \<in> view_edges w}"
    using view_neighbors_correct [OF assms, of e Out v] view_neighbors_correct [OF assms, of e In v]
      view_ids_edges [OF assms, of e v] by (auto intro: sorted_list_unique)
  then show ?thesis using view_degree_correct [OF assms, of e Out v] by simp
qed

text \<open>A base with two edges, an overlay that deletes one and adds another, and a layer that
  deletes the overlay's edge and puts the base's back.\<close>

definition demo_view :: topology_view where
  "demo_view =
     \<lparr>overlay = \<lparr>by_type = [(1, \<lparr>aout = [(5, \<lparr>frozen = [], delta = [9]\<rparr>)], ainn = [(9, \<lparr>frozen = [], delta = [5]\<rparr>)]\<rparr>)],
        edge_count = 1, out_tombstones = [(1, [(5, {7})])], in_tombstones = [(1, [(7, {5})])]\<rparr>,
      base = Some \<lparr>csr_etypes = [\<lparr>etype_id = 1, out_adj = [\<lparr>vertex = 5, row_neighbors = [6, 7]\<rparr>],
        in_adj = [\<lparr>vertex = 6, row_neighbors = [5]\<rparr>, \<lparr>vertex = 7, row_neighbors = [5]\<rparr>]\<rparr>], csr_edge_count = 2\<rparr>,
      layer = Some \<lparr>by_type = [(1, \<lparr>aout = [(5, \<lparr>frozen = [], delta = [7]\<rparr>)], ainn = [(7, \<lparr>frozen = [], delta = [5]\<rparr>)]\<rparr>)],
        edge_count = 1, out_tombstones = [(1, [(5, {9})])], in_tombstones = [(1, [(9, {5})])]\<rparr>\<rparr>"

lemma demo_edges:
  "edges (overlay demo_view) = {(1, 5, 9)}" "tombs (overlay demo_view) = {(1, 5, 7)}"
  "base_edges (the (base demo_view)) = {(1, 5, 6), (1, 5, 7)}"
  "edges (the (layer demo_view)) = {(1, 5, 7)}" "tombs (the (layer demo_view)) = {(1, 5, 9)}"
  by (auto simp: demo_view_def edges_def nbr_ids_def adj_at_def adj_ids_def tombs_def tomb_ids_def
      out_tombstones_for_def tombstones_in_def base_edges_def base_ids_def archived_csr_row_def binary_search_def
      Let_def split: if_splits option.splits sum.splits)

lemma demo_view_ok: "view_ok demo_view" "counts_ok demo_view"
proof -
  have "topology_ok (overlay demo_view)" "topology_ok (the (layer demo_view))"
    using demo_edges(1,4)
    by (auto simp: topology_ok_def demo_view_def keys_distinct_def adj_at_def nbr_ids_def adj_ok_def adj_ids_def
        INSERT_BUFFER_def split: direction.splits if_splits option.splits)
  moreover have "tombs_mirror (overlay demo_view)" "tombs_mirror (the (layer demo_view))"
    by (auto simp: demo_view_def tombs_mirror_def tomb_ids_def out_tombstones_for_def in_tombstones_for_def
        tombstones_in_def split: if_splits option.splits)
  moreover have "base_ok (the (base demo_view))"
    using demo_edges(3)
    by (auto simp: base_ok_def demo_view_def base_ids_def archived_csr_row_def binary_search_def Let_def
        split: if_splits option.splits sum.splits)
  moreover have "base demo_view = Some (the (base demo_view))" "layer demo_view = Some (the (layer demo_view))"
    by (simp_all add: demo_view_def)
  ultimately show "view_ok demo_view" by (auto simp: view_ok_def split: option.splits)
  have "tombs_keyed (overlay demo_view)" "tombs_keyed (the (layer demo_view))"
    by (simp_all add: demo_view_def tombs_keyed_def)
  moreover have "card (below_edges demo_view) < 2 ^ 64"
  proof -
    have "below_edges demo_view = {(1, 5, 9), (1, 5, 6)}"
      using demo_edges \<open>base demo_view = Some _\<close> by (auto simp: below_edges_def split: option.splits)
    then show ?thesis by simp
  qed
  ultimately show "counts_ok demo_view"
    using demo_edges by (auto simp: counts_ok_def split: option.splits)
qed

theorem view_refines_set_algebra_witness:
  "view_neighbors demo_view 1 Out 5 = sorted_list_of_set {d. (1, 5, d) \<in> view_edges demo_view} \<and>
   view_neighbors demo_view 1 In 7 = sorted_list_of_set {s. (1, s, 7) \<in> view_edges demo_view} \<and>
   view_degree demo_view 1 Out 5 = card {d. (1, 5, d) \<in> view_edges demo_view}"
  using view_refines_set_algebra [OF demo_view_ok(1), of 1 5] view_refines_set_algebra [OF demo_view_ok(1), of 1 7]
  by blast

text \<open>When the overlay's counts fit the base (a tombstone only for an edge of the base, no
  overlay edge that the base still shows), the edge count of the view is the number of its
  edges: an edge counts once whichever layers hold it, and one deleted and put back is not
  lost.\<close>

theorem view_edge_count_exact:
  assumes "view_ok w" "counts_ok w"
  shows "view_edge_count w = of_nat (card (view_edges w))"
  using view_edge_count_correct [OF assms] .

theorem view_edge_count_exact_witness:
  "view_edge_count demo_view = of_nat (card (view_edges demo_view)) \<and> card (view_edges demo_view) = 2"
proof -
  have "view_edges demo_view = {(1, 5, 7), (1, 5, 6)}"
    using demo_edges by (auto simp: view_edges_def below_edges_def demo_view_def split: option.splits)
  then show ?thesis using view_edge_count_exact [OF demo_view_ok] by simp
qed

end
