(* ===== verification/Edge_Props.thy ===== *)
theory Edge_Props
  imports Prelude "HOL-Library.Product_Lexorder" "HOL-Library.List_Lexorder" "HOL-Library.Char_ord"
begin

text \<open>
  Edge properties: the overlay \<open>EdgeProps\<close> of \<open>crates/core-storage/src/edge_props.rs\<close> and
  the view of layer, overlay and archived base \<open>EdgePropsView\<close> of \<open>v8/seam.rs\<close>. A
  \<open>BTreeMap\<close> is a sorted association list, a \<open>BTreeSet\<close> a set; the property values are
  opaque. Reading the archived blob of an edge is \<open>bincode\<close>, the parameter \<open>deser\<close> of the
  view. The specification is one plain map of properties per edge.
\<close>

section \<open>The overlay\<close>

type_synonym edge_key = "u32 \<times> u32 \<times> u32"
type_synonym 'v fields = "(string \<times> 'v) list"

record 'v edge_props =
  ep_map :: "(edge_key \<times> 'v fields) list"
  ep_tombstones :: "edge_key set"
  touched :: "edge_key set"

definition edge_props_new :: "'v edge_props" where
  "edge_props_new = \<lparr>ep_map = [], ep_tombstones = {}, touched = {}\<rparr>"

definition ep_set :: "'v edge_props \<Rightarrow> edge_key \<Rightarrow> string \<Rightarrow> 'v \<Rightarrow> 'v edge_props" where
  "ep_set p key field v =
     (let own = (case map_of (ep_map p) key of None \<Rightarrow> [] | Some m \<Rightarrow> m)
      in p\<lparr>touched := insert key (touched p), ep_map := alist_ins key (alist_ins field v own) (ep_map p)\<rparr>)"

definition ep_get :: "'v edge_props \<Rightarrow> edge_key \<Rightarrow> string \<Rightarrow> 'v option" where
  "ep_get p key field = (case map_of (ep_map p) key of None \<Rightarrow> None | Some m \<Rightarrow> map_of m field)"

definition ep_props_of :: "'v edge_props \<Rightarrow> edge_key \<Rightarrow> 'v fields option" where
  "ep_props_of p key = map_of (ep_map p) key"

definition ep_remove_edge :: "'v edge_props \<Rightarrow> edge_key \<Rightarrow> 'v edge_props" where
  "ep_remove_edge p key =
     p\<lparr>ep_map := alist_del key (ep_map p), ep_tombstones := insert key (ep_tombstones p),
       touched := insert key (touched p)\<rparr>"

definition ep_replace :: "'v edge_props \<Rightarrow> edge_key \<Rightarrow> 'v fields \<Rightarrow> 'v edge_props" where
  "ep_replace p key props =
     p\<lparr>ep_map := (if props = [] then alist_del key (ep_map p) else alist_ins key props (ep_map p)),
       ep_tombstones := insert key (ep_tombstones p), touched := insert key (touched p)\<rparr>"

definition has_touched :: "'v edge_props \<Rightarrow> bool" where
  "has_touched p \<longleftrightarrow> touched p \<noteq> {}"

definition take_touched :: "'v edge_props \<Rightarrow> 'v edge_props \<times> edge_key set" where
  "take_touched p = (p\<lparr>touched := {}\<rparr>, touched p)"

type_synonym 'v edge_props_entry = "'v fields option \<times> bool"

definition ep_entry :: "'v edge_props \<Rightarrow> edge_key \<Rightarrow> 'v edge_props_entry" where
  "ep_entry p key = (map_of (ep_map p) key, key \<in> ep_tombstones p)"

definition ep_restore_entry :: "'v edge_props \<Rightarrow> edge_key \<Rightarrow> 'v edge_props_entry \<Rightarrow> 'v edge_props" where
  "ep_restore_entry p key entry =
     p\<lparr>ep_map := (case fst entry of Some props \<Rightarrow> alist_ins key props (ep_map p) | None \<Rightarrow> alist_del key (ep_map p)),
       ep_tombstones := (if snd entry then insert key (ep_tombstones p) else ep_tombstones p - {key})\<rparr>"

definition ep_is_tombstoned :: "'v edge_props \<Rightarrow> edge_key \<Rightarrow> bool" where
  "ep_is_tombstoned p key \<longleftrightarrow> key \<in> ep_tombstones p"

definition ep_is_clean :: "'v edge_props \<Rightarrow> bool" where
  "ep_is_clean p \<longleftrightarrow> ep_map p = [] \<and> ep_tombstones p = {}"

definition sorted_entries :: "'v edge_props \<Rightarrow> (u32 \<times> u32 \<times> u32 \<times> 'v fields) list" where
  "sorted_entries p = map (\<lambda>((et, s, d), props). (et, s, d, props)) (ep_map p)"

definition tombstoned_keys :: "'v edge_props \<Rightarrow> edge_key list" where
  "tombstoned_keys p = sorted_list_of_set (ep_tombstones p)"

section \<open>The view\<close>

record edge_prop_entry =
  pe_key :: edge_key
  props_blob :: "u8 list"

record 'v edge_props_view =
  ev_overlay :: "'v edge_props"
  ev_base :: "edge_prop_entry list option"
  ev_layer :: "'v edge_props option"

text \<open>The archive fallback: a binary search and the decoded blob, if it decodes.\<close>

definition base_props ::
  "(u8 list \<Rightarrow> 'v fields option) \<Rightarrow> edge_prop_entry list option \<Rightarrow> edge_key \<Rightarrow> 'v fields option" where
  "base_props deser b key =
     (case b of
        None \<Rightarrow> None
      | Some entries \<Rightarrow>
          (case binary_search key (map pe_key entries) of
             Inl _ \<Rightarrow> None
           | Inr i \<Rightarrow> deser (props_blob (entries ! i))))"

text \<open>Both readers first look through the layer and then call themselves below it.\<close>

definition below_get ::
  "(u8 list \<Rightarrow> 'v fields option) \<Rightarrow> 'v edge_props_view \<Rightarrow> edge_key \<Rightarrow> string \<Rightarrow> 'v option" where
  "below_get deser w key field =
     (case ep_get (ev_overlay w) key field of
        Some v \<Rightarrow> Some v
      | None \<Rightarrow>
          if ep_is_tombstoned (ev_overlay w) key then None
          else (case base_props deser (ev_base w) key of None \<Rightarrow> None | Some props \<Rightarrow> map_of props field))"

definition ev_get ::
  "(u8 list \<Rightarrow> 'v fields option) \<Rightarrow> 'v edge_props_view \<Rightarrow> edge_key \<Rightarrow> string \<Rightarrow> 'v option" where
  "ev_get deser w key field =
     (case ev_layer w of
        Some tx \<Rightarrow>
          (case ep_get tx key field of
             Some v \<Rightarrow> Some v
           | None \<Rightarrow> if ep_is_tombstoned tx key then None else below_get deser w key field)
      | None \<Rightarrow> below_get deser w key field)"

text \<open>\<open>BTreeMap::extend\<close>.\<close>

definition extend_fields :: "'v fields \<Rightarrow> 'v fields \<Rightarrow> 'v fields" where
  "extend_fields out own = foldl (\<lambda>m (k, v). alist_ins k v m) out own"

definition below_props_of ::
  "(u8 list \<Rightarrow> 'v fields option) \<Rightarrow> 'v edge_props_view \<Rightarrow> edge_key \<Rightarrow> 'v fields" where
  "below_props_of deser w key =
     (if ep_is_tombstoned (ev_overlay w) key then
        (case ep_props_of (ev_overlay w) key of None \<Rightarrow> [] | Some m \<Rightarrow> m)
      else
        let out = (case base_props deser (ev_base w) key of None \<Rightarrow> [] | Some m \<Rightarrow> m) in
        case ep_props_of (ev_overlay w) key of None \<Rightarrow> out | Some own \<Rightarrow> extend_fields out own)"

definition ev_props_of ::
  "(u8 list \<Rightarrow> 'v fields option) \<Rightarrow> 'v edge_props_view \<Rightarrow> edge_key \<Rightarrow> 'v fields" where
  "ev_props_of deser w key =
     (case ev_layer w of
        Some tx \<Rightarrow>
          if ep_is_tombstoned tx key then (case ep_props_of tx key of None \<Rightarrow> [] | Some m \<Rightarrow> m)
          else
            let out = below_props_of deser w key in
            (case ep_props_of tx key of None \<Rightarrow> out | Some own \<Rightarrow> extend_fields out own)
      | None \<Rightarrow> below_props_of deser w key)"

section \<open>One plain map per edge\<close>

text \<open>
  What an overlay makes of the properties below it: its own fields alone where the edge is
  tombstoned, its own fields over those below otherwise.
\<close>

definition own_fields :: "'v edge_props \<Rightarrow> edge_key \<Rightarrow> string \<rightharpoonup> 'v" where
  "own_fields p key = (case map_of (ep_map p) key of None \<Rightarrow> Map.empty | Some m \<Rightarrow> map_of m)"

definition lay_over :: "'v edge_props \<Rightarrow> (edge_key \<Rightarrow> string \<rightharpoonup> 'v) \<Rightarrow> edge_key \<Rightarrow> string \<rightharpoonup> 'v" where
  "lay_over p below key =
     (if key \<in> ep_tombstones p then own_fields p key else below key ++ own_fields p key)"

definition base_store ::
  "(u8 list \<Rightarrow> 'v fields option) \<Rightarrow> edge_prop_entry list option \<Rightarrow> edge_key \<Rightarrow> string \<rightharpoonup> 'v" where
  "base_store deser b key = (case base_props deser b key of None \<Rightarrow> Map.empty | Some m \<Rightarrow> map_of m)"

text \<open>An overlay in order: an entry that merges with what is below has each field once.\<close>

definition ep_ok :: "'v edge_props \<Rightarrow> bool" where
  "ep_ok p \<longleftrightarrow> (\<forall>key m. map_of (ep_map p) key = Some m \<longrightarrow> key \<notin> ep_tombstones p \<longrightarrow> ssorted (keys m))"

lemma map_of_extend_fields:
  assumes "distinct (keys own)" shows "map_of (extend_fields out own) = map_of out ++ map_of own"
proof -
  have "map_of (foldl (\<lambda>m (k, v). alist_ins k v m) out own) = map_of out ++ map_of (rev own)"
  proof (induction own arbitrary: out)
    case (Cons e own)
    then show ?case
      by (cases e) (auto simp: map_of_alist_ins map_add_def fun_eq_iff map_of_append split: option.splits)
  qed simp
  moreover have "map_of (rev own) = map_of own"
    using assms by (subst map_of_inject_set) (simp_all add: rev_map [symmetric])
  ultimately show ?thesis by (simp add: extend_fields_def)
qed

lemma extend_own:
  "ep_ok p \<Longrightarrow> map_of (ep_map p) key = Some own \<Longrightarrow> key \<notin> ep_tombstones p \<Longrightarrow>
   map_of (extend_fields out own) = map_of out ++ map_of own"
  unfolding ep_ok_def using map_of_extend_fields ssorted_distinct by blast

lemma below_readers:
  assumes "ep_ok (ev_overlay w)"
  shows "below_get deser w key field = lay_over (ev_overlay w) (base_store deser (ev_base w)) key field"
    "map_of (below_props_of deser w key) = lay_over (ev_overlay w) (base_store deser (ev_base w)) key"
proof -
  show "below_get deser w key field = lay_over (ev_overlay w) (base_store deser (ev_base w)) key field"
    by (auto simp: below_get_def ep_get_def lay_over_def own_fields_def base_store_def ep_is_tombstoned_def
        map_add_def split: option.splits)
  show "map_of (below_props_of deser w key) = lay_over (ev_overlay w) (base_store deser (ev_base w)) key"
    by (auto simp: below_props_of_def ep_props_of_def lay_over_def own_fields_def base_store_def
        ep_is_tombstoned_def extend_own [OF assms] Let_def split: option.splits)
qed

definition view_store :: "(u8 list \<Rightarrow> 'v fields option) \<Rightarrow> 'v edge_props_view \<Rightarrow> edge_key \<Rightarrow> string \<rightharpoonup> 'v" where
  "view_store deser w =
     (let below = lay_over (ev_overlay w) (base_store deser (ev_base w))
      in case ev_layer w of None \<Rightarrow> below | Some tx \<Rightarrow> lay_over tx below)"

lemma view_readers:
  assumes "ep_ok (ev_overlay w)" "\<And>tx. ev_layer w = Some tx \<Longrightarrow> ep_ok tx"
  shows "ev_get deser w key field = view_store deser w key field"
    "map_of (ev_props_of deser w key) = view_store deser w key"
proof -
  note below = below_readers [OF assms(1), of deser]
  show "ev_get deser w key field = view_store deser w key field"
  proof (cases "ev_layer w")
    case (Some tx)
    then show ?thesis
      using below(1) by (auto simp: ev_get_def view_store_def Let_def lay_over_def [of tx] own_fields_def
          ep_get_def ep_is_tombstoned_def map_add_def split: option.splits)
  qed (simp add: ev_get_def view_store_def below)
  show "map_of (ev_props_of deser w key) = view_store deser w key"
  proof (cases "ev_layer w")
    case (Some tx)
    then show ?thesis
      using below(2) [of key]
      by (auto simp: ev_props_of_def view_store_def Let_def lay_over_def [of tx] own_fields_def
          ep_props_of_def ep_is_tombstoned_def extend_own [OF assms(2) [OF Some]] split: option.splits)
  qed (simp add: ev_props_of_def view_store_def below)
qed

section \<open>Writes to an overlay are writes to the plain map\<close>

datatype 'v prop_op = SetField edge_key string 'v | RemoveProps edge_key | ReplaceProps edge_key "'v fields"

fun ep_step :: "'v prop_op \<Rightarrow> 'v edge_props \<Rightarrow> 'v edge_props" where
  "ep_step (SetField key field v) p = ep_set p key field v"
| "ep_step (RemoveProps key) p = ep_remove_edge p key"
| "ep_step (ReplaceProps key props) p = ep_replace p key props"

fun plain_step :: "'v prop_op \<Rightarrow> (edge_key \<Rightarrow> string \<rightharpoonup> 'v) \<Rightarrow> edge_key \<Rightarrow> string \<rightharpoonup> 'v" where
  "plain_step (SetField key field v) st = st(key := (st key)(field \<mapsto> v))"
| "plain_step (RemoveProps key) st = st(key := Map.empty)"
| "plain_step (ReplaceProps key props) st = st(key := map_of props)"

lemmas ep_step_defs = ep_set_def ep_remove_edge_def ep_replace_def map_of_alist_ins map_of_alist_del Let_def

lemma ep_step_correct:
  assumes "ep_ok p"
  shows "ep_ok (ep_step op p)" "lay_over (ep_step op p) below = plain_step op (lay_over p below)"
    "touched (ep_step op p) =
       insert (case op of SetField k _ _ \<Rightarrow> k | RemoveProps k \<Rightarrow> k | ReplaceProps k _ \<Rightarrow> k) (touched p)"
proof -
  show "ep_ok (ep_step op p)"
    using assms by (cases op)
      (auto simp: ep_ok_def ep_step_defs ssorted_alist_ins split: option.splits if_splits)
  show "lay_over (ep_step op p) below = plain_step op (lay_over p below)"
    by (cases op)
      (auto simp: fun_eq_iff lay_over_def own_fields_def ep_step_defs map_add_def split: option.splits)
  show "touched (ep_step op p) =
       insert (case op of SetField k _ _ \<Rightarrow> k | RemoveProps k \<Rightarrow> k | ReplaceProps k _ \<Rightarrow> k) (touched p)"
    by (cases op) (simp_all add: ep_step_defs)
qed

lemma ep_run_correct:
  assumes "ep_ok p"
  shows "ep_ok (fold ep_step ops p)" "lay_over (fold ep_step ops p) below = fold plain_step ops (lay_over p below)"
proof -
  have "ep_ok (fold ep_step ops p) \<and> lay_over (fold ep_step ops p) below = fold plain_step ops (lay_over p below)"
    using assms by (induction ops arbitrary: p) (simp_all add: ep_step_correct)
  then show "ep_ok (fold ep_step ops p)"
    "lay_over (fold ep_step ops p) below = fold plain_step ops (lay_over p below)" by auto
qed

lemma edge_props_new_ok: "ep_ok edge_props_new" "lay_over edge_props_new below = below"
  by (auto simp: ep_ok_def edge_props_new_def lay_over_def own_fields_def fun_eq_iff)

section \<open>Properties\<close>

text \<open>C16. Writing to an overlay and then to a layer over it, and reading through layer,
  overlay and archived base, is writing to and reading one plain map of properties per edge:
  for every run of writes to each, the single-field reader and the whole-map reader both
  answer what the plain maps hold.\<close>

theorem edge_props_refine_plain_maps:
  "let w = \<lparr>ev_overlay = fold ep_step ops1 edge_props_new, ev_base = b,
            ev_layer = Some (fold ep_step ops2 edge_props_new)\<rparr>;
       st = fold plain_step (ops1 @ ops2) (base_store deser b)
   in ev_get deser w key field = st key field \<and> map_of (ev_props_of deser w key) = st key"
proof -
  let ?o = "fold ep_step ops1 edge_props_new" and ?t = "fold ep_step ops2 edge_props_new"
  have "view_store deser \<lparr>ev_overlay = ?o, ev_base = b, ev_layer = Some ?t\<rparr> =
      fold plain_step (ops1 @ ops2) (base_store deser b)"
    by (simp add: view_store_def ep_run_correct(2) edge_props_new_ok Let_def)
  moreover have "ep_ok ?o" "ep_ok ?t" by (simp_all add: ep_run_correct(1) edge_props_new_ok(1))
  ultimately show ?thesis
    using view_readers [of "\<lparr>ev_overlay = ?o, ev_base = b, ev_layer = Some ?t\<rparr>" deser]
    by (simp add: Let_def)
qed

text \<open>Copying an edge's overlay entry to another overlay makes that edge read alike over
  any base, leaves every other edge as it was, and is not journalled; the journal holds
  exactly the edges written since it was last taken.\<close>

theorem restore_entry_copies:
  "let q' = ep_restore_entry q key (ep_entry p key); r = fold ep_step ops (fst (take_touched p)) in
   ep_entry q' key = ep_entry p key \<and>
   lay_over q' below key = lay_over p below key \<and>
   (l = key \<or> ep_entry q' l = ep_entry q l) \<and> touched q' = touched q \<and>
   touched r = (\<lambda>op. case op of SetField k _ _ \<Rightarrow> k | RemoveProps k \<Rightarrow> k | ReplaceProps k _ \<Rightarrow> k) ` set ops"
proof -
  define q' where "q' = ep_restore_entry q key (ep_entry p key)"
  have e: "ep_entry q' l = (if l = key then ep_entry p key else ep_entry q l)" for l
    by (auto simp: q'_def ep_entry_def ep_restore_entry_def map_of_alist_ins map_of_alist_del split: option.splits)
  from e [of key] have "lay_over q' below key = lay_over p below key"
    by (simp add: lay_over_def own_fields_def ep_entry_def)
  moreover have "touched (fold ep_step ops r) =
      (\<lambda>op. case op of SetField k _ _ \<Rightarrow> k | RemoveProps k \<Rightarrow> k | ReplaceProps k _ \<Rightarrow> k) ` set ops \<union> touched r" for r :: "'a edge_props"
  proof (induction ops arbitrary: r)
    case (Cons op ops)
    have "touched (ep_step op r) =
        insert (case op of SetField k _ _ \<Rightarrow> k | RemoveProps k \<Rightarrow> k | ReplaceProps k _ \<Rightarrow> k) (touched r)"
      by (cases op) (simp_all add: ep_step_defs)
    with Cons show ?case by auto
  qed simp
  moreover have "touched q' = touched q" by (simp add: q'_def ep_restore_entry_def)
  ultimately show ?thesis using e [of l] e [of key] by (simp add: Let_def q'_def [symmetric] take_touched_def)
qed

end
