(* ===== verification/Commit_Times.thy ===== *)
theory Commit_Times
  imports Prelude
begin

text \<open>
  The commit-to-wall-clock sidecar, \<open>crates/core-storage/src/commit_times.rs\<close>: a list of
  (commit, milliseconds) pairs ascending by commit, resolution of an instant to a commit,
  and the file format with its header. Commits are \<open>u64\<close>; times are \<open>i64\<close>, integers in
  range. Error texts keep their fixed part and the numbers formatted into them.
\<close>

section \<open>The map and its operations\<close>

definition COMMIT_TIMES_MAGIC :: "u8 list" where "COMMIT_TIMES_MAGIC = as_bytes ''MTMS''"
definition COMMIT_TIMES_VERSION :: u16 where "COMMIT_TIMES_VERSION = 2"
definition COMMIT_TIMES_SUPERSEDED_VERSIONS :: "u16 list" where "COMMIT_TIMES_SUPERSEDED_VERSIONS = [1]"
definition HEADER_LEN :: nat where "HEADER_LEN = 4 + 2 + 8"
definition ENTRY_LEN :: nat where "ENTRY_LEN = 8 + 8"

definition superseded_version :: "u8 list \<Rightarrow> u16 option" where
  "superseded_version bytes =
     (if length bytes < HEADER_LEN \<or> take 4 bytes \<noteq> COMMIT_TIMES_MAGIC then None
      else let version = u16_from_le [bytes ! 4, bytes ! 5]
           in if version \<in> set COMMIT_TIMES_SUPERSEDED_VERSIONS then Some version else None)"

record commit_times =
  floor_commit :: u64
  ct_entries :: "(u64 \<times> int) list"

definition commit_times_default :: commit_times where
  "commit_times_default = \<lparr>floor_commit = 0, ct_entries = []\<rparr>"

definition floor_ms :: "commit_times \<Rightarrow> int option" where
  "floor_ms t = (case ct_entries t of [] \<Rightarrow> None | (_, ms) # _ \<Rightarrow> Some ms)"

definition newest_commit :: "commit_times \<Rightarrow> u64 option" where
  "newest_commit t = (if ct_entries t = [] then None else Some (fst (last (ct_entries t))))"

definition times_len :: "commit_times \<Rightarrow> nat" where "times_len t = length (ct_entries t)"

definition times_is_empty :: "commit_times \<Rightarrow> bool" where "times_is_empty t \<longleftrightarrow> ct_entries t = []"

definition max_ms :: "commit_times \<Rightarrow> int option" where
  "max_ms t = (if ct_entries t = [] then None else Some (Max (snd ` set (ct_entries t))))"

definition time_of :: "commit_times \<Rightarrow> u64 \<Rightarrow> int option" where
  "time_of t commit =
     (case binary_search commit (keys (ct_entries t)) of
        Inr i \<Rightarrow> Some (snd (ct_entries t ! i))
      | Inl _ \<Rightarrow> None)"

definition times_push :: "commit_times \<Rightarrow> u64 \<Rightarrow> int \<Rightarrow> commit_times" where
  "times_push t commit unix_ms =
     (case newest_commit t of
        Some newest \<Rightarrow>
          if commit \<le> newest then t else t\<lparr>ct_entries := ct_entries t @ [(commit, unix_ms)]\<rparr>
      | None \<Rightarrow> t\<lparr>floor_commit := commit, ct_entries := ct_entries t @ [(commit, unix_ms)]\<rparr>)"

definition truncate_below :: "commit_times \<Rightarrow> u64 \<Rightarrow> commit_times" where
  "truncate_below t commit =
     (let es = filter (\<lambda>(c, _). commit \<le> c) (ct_entries t)
      in t\<lparr>ct_entries := es, floor_commit := (case es of [] \<Rightarrow> commit | (c, _) # _ \<Rightarrow> c)\<rparr>)"

text \<open>The scan: the last entry at or before the instant wins.\<close>

fun resolve_scan :: "int \<Rightarrow> (u64 \<times> int) list \<Rightarrow> u64 \<Rightarrow> u64" where
  "resolve_scan unix_ms [] answer = answer"
| "resolve_scan unix_ms ((commit, ms) # es) answer =
     resolve_scan unix_ms es (if ms \<le> unix_ms then commit else answer)"

definition resolve_instant :: "commit_times \<Rightarrow> int \<Rightarrow> u64 \<Rightarrow> u64 res" where
  "resolve_instant t unix_ms wal_horizon_floor =
     (case ct_entries t of
        [] \<Rightarrow> Inl NoRecordedTime
      | (first, first_ms) # _ \<Rightarrow>
          if unix_ms < first_ms then Inl (TimeBeforeFloor first_ms (floor_commit t))
          else
            let answer = resolve_scan unix_ms (ct_entries t) first in
            if answer < wal_horizon_floor
            then Inl (CommitOutOfRange answer
                   (case newest_commit t of Some c \<Rightarrow> c + 1 | None \<Rightarrow> 0) wal_horizon_floor)
            else Inr answer)"

section \<open>The file\<close>

definition encode_entry :: "u64 \<Rightarrow> int \<Rightarrow> u8 list" where
  "encode_entry commit unix_ms = u64_to_le commit @ i64_to_le unix_ms"

definition times_encode :: "commit_times \<Rightarrow> u8 list" where
  "times_encode t =
     COMMIT_TIMES_MAGIC @ u16_to_le COMMIT_TIMES_VERSION @ u64_to_le (floor_commit t) @
     concat (map (\<lambda>(commit, ms). encode_entry commit ms) (ct_entries t))"

fun decode_entries :: "u8 list list \<Rightarrow> u64 option \<Rightarrow> (u64 \<times> int) list res" where
  "decode_entries [] prev = Inr []"
| "decode_entries (chunk # chunks) prev =
     (let commit = u64_from_le (take 8 chunk); ms = i64_from_le (drop 8 chunk);
          bad = (case prev of None \<Rightarrow> None | Some p \<Rightarrow> if commit \<le> p then Some p else None)
      in case bad of
        Some p \<Rightarrow> Inl (Corrupt ''commit_times: entries must ascend by commit'' [uint commit, uint p])
      | None \<Rightarrow> bind_res (decode_entries chunks (Some commit)) (\<lambda>es. Inr ((commit, ms) # es)))"

definition times_decode :: "u8 list \<Rightarrow> commit_times res" where
  "times_decode bytes =
     (if length bytes < HEADER_LEN
      then Inl (Corrupt ''commit_times: shorter than the header'' [int (length bytes)])
      else if take 4 bytes \<noteq> COMMIT_TIMES_MAGIC
      then Inl (Corrupt ''commit_times: bad magic'' (map uint (take 4 bytes)))
      else
        let version = u16_from_le [bytes ! 4, bytes ! 5] in
        if version \<noteq> COMMIT_TIMES_VERSION
        then Inl (Corrupt ''commit_times: unsupported version'' [uint version])
        else
          let floor = u64_from_le (take 8 (drop 6 bytes)); body = drop HEADER_LEN bytes in
          if length body mod ENTRY_LEN \<noteq> 0
          then Inl (Corrupt ''commit_times: a torn append'' [int (length body)])
          else bind_res (decode_entries (chunks_exact ENTRY_LEN body) None)
                 (\<lambda>es. Inr \<lparr>floor_commit = floor, ct_entries = es\<rparr>))"

section \<open>The invariant\<close>

text \<open>Commits ascend strictly, times fit their type, and the floor is the first commit.\<close>

definition entries_ok :: "(u64 \<times> int) list \<Rightarrow> bool" where
  "entries_ok es \<longleftrightarrow> ssorted (keys es) \<and> (\<forall>(c, ms) \<in> set es. in_i64 ms)"

definition times_ok :: "commit_times \<Rightarrow> bool" where
  "times_ok t \<longleftrightarrow> entries_ok (ct_entries t) \<and> (ct_entries t \<noteq> [] \<longrightarrow> floor_commit t = fst (hd (ct_entries t)))"

lemma times_push_ok: "times_ok t \<Longrightarrow> in_i64 ms \<Longrightarrow> times_ok (times_push t c ms)"
proof -
  assume t: "times_ok t" and ms: "in_i64 ms"
  have "ssorted (keys (ct_entries t @ [(c, ms)]))" if ne: "ct_entries t \<noteq> []" and lt: "\<not> c \<le> fst (last (ct_entries t))"
  proof -
    obtain es e where es: "ct_entries t = es @ [e]" using ne by (cases "ct_entries t" rule: rev_cases) auto
    have "ssorted (keys (es @ [e]))" using t by (simp add: times_ok_def entries_ok_def es)
    then show ?thesis using lt by (auto simp: es sorted_wrt_append not_le intro: less_trans)
  qed
  then show ?thesis
    using t ms by (auto simp: times_ok_def entries_ok_def times_push_def newest_commit_def split: option.splits)
qed

lemma truncate_below_ok: "times_ok t \<Longrightarrow> times_ok (truncate_below t c)"
  by (auto simp: times_ok_def entries_ok_def truncate_below_def Let_def sorted_wrt_map sorted_wrt_filter
      split: list.splits)

lemma commit_times_default_ok: "times_ok commit_times_default"
  by (simp add: times_ok_def entries_ok_def commit_times_default_def)

section \<open>Resolving an instant\<close>

lemma time_of_iff:
  assumes "ssorted (keys (ct_entries t))"
  shows "time_of t c = Some ms \<longleftrightarrow> (c, ms) \<in> set (ct_entries t)"
proof
  assume "time_of t c = Some ms"
  then obtain i where i: "binary_search c (keys (ct_entries t)) = Inr i" and "ms = snd (ct_entries t ! i)"
    by (auto simp: time_of_def split: sum.splits)
  moreover have "i < length (ct_entries t)" "fst (ct_entries t ! i) = c"
    using binary_search_Inr_D [OF i] by auto
  ultimately show "(c, ms) \<in> set (ct_entries t)" using nth_mem [of i "ct_entries t"] by auto
next
  assume m: "(c, ms) \<in> set (ct_entries t)"
  then obtain i where i: "binary_search c (keys (ct_entries t)) = Inr i"
    using binary_search_found [OF assms, of c] by force
  then have "i < length (ct_entries t)" "fst (ct_entries t ! i) = c" using binary_search_Inr_D [OF i] by auto
  then have "ct_entries t ! i = (c, ms)"
    using eq_key_imp_eq_value [OF ssorted_distinct [OF assms] m, of "snd (ct_entries t ! i)"]
    by (metis nth_mem prod.collapse)
  then show "time_of t c = Some ms" using i by (simp add: time_of_def)
qed

lemma resolve_scan_last:
  "resolve_scan x es a = (case filter (\<lambda>(c, ms). ms \<le> x) es of [] \<Rightarrow> a | ys \<Rightarrow> fst (last ys))"
  by (induction x es a rule: resolve_scan.induct) (auto split: list.splits)

lemma resolve_scan_greatest:
  assumes "ssorted (keys es)" "es \<noteq> []" "snd (hd es) \<le> x"
  shows "\<exists>ms. (resolve_scan x es (fst (hd es)), ms) \<in> set es \<and> ms \<le> x"
    "(c, ms) \<in> set es \<Longrightarrow> ms \<le> x \<Longrightarrow> c \<le> resolve_scan x es (fst (hd es))"
proof -
  let ?ys = "filter (\<lambda>(c, ms). ms \<le> x) es"
  have ne: "?ys \<noteq> []" using assms(2,3) by (cases es) auto
  then have eq: "resolve_scan x es (fst (hd es)) = fst (last ?ys)"
    by (auto simp: resolve_scan_last split: list.splits)
  have "last ?ys \<in> set ?ys" using ne by (rule last_in_set)
  then show "\<exists>ms. (resolve_scan x es (fst (hd es)), ms) \<in> set es \<and> ms \<le> x"
    unfolding eq by (auto simp: case_prod_unfold intro: exI [of _ "snd (last ?ys)"])
  assume "(c, ms) \<in> set es" "ms \<le> x"
  then have "(c, ms) \<in> set ?ys" by simp
  moreover have "ssorted (keys ?ys)" using assms(1) by (simp add: sorted_wrt_map sorted_wrt_filter)
  moreover obtain zs z where zs: "?ys = zs @ [z]" using ne by (cases ?ys rule: rev_cases) auto
  ultimately have "(c, ms) = z \<or> c < fst z" by (auto simp: sorted_wrt_append zs)
  then show "c \<le> resolve_scan x es (fst (hd es))" by (auto simp: eq zs)
qed

section \<open>Reading the file back\<close>

lemma length_encode_entry [simp]: "length (encode_entry c ms) = ENTRY_LEN"
  by (simp add: encode_entry_def ENTRY_LEN_def)

lemma length_entries: "length (concat (map (\<lambda>(c, ms). encode_entry c ms) es)) = length es * ENTRY_LEN"
  by (induction es) auto

lemma chunks_entries:
  "chunks_exact ENTRY_LEN (concat (map (\<lambda>(c, ms). encode_entry c ms) es)) = map (\<lambda>(c, ms). encode_entry c ms) es"
  by (rule chunks_exact_concat) (auto simp: ENTRY_LEN_def [symmetric], simp add: ENTRY_LEN_def)

lemma decode_entries_encode:
  assumes "entries_ok es" "\<And>p c. prev = Some p \<Longrightarrow> c \<in> set (keys es) \<Longrightarrow> p < c"
  shows "decode_entries (map (\<lambda>(c, ms). encode_entry c ms) es) prev = Inr es"
  using assms
proof (induction es arbitrary: prev)
  case (Cons e es)
  obtain c ms where e: "e = (c, ms)" by (cases e)
  have "entries_ok es" "in_i64 ms" using Cons.prems(1) by (auto simp: entries_ok_def e)
  moreover have "decode_entries (map (\<lambda>(c, ms). encode_entry c ms) es) (Some c) = Inr es"
    by (rule Cons.IH) (use Cons.prems(1) \<open>entries_ok es\<close> in \<open>auto simp: entries_ok_def e\<close>)
  moreover have "\<not> c \<le> p" if "prev = Some p" for p using Cons.prems(2) [OF that, of c] by (auto simp: e)
  ultimately show ?case by (auto simp: e encode_entry_def Let_def split: option.splits)
qed simp

text \<open>The header of an encoded map.\<close>

definition times_header :: "u64 \<Rightarrow> u8 list" where
  "times_header fl = COMMIT_TIMES_MAGIC @ u16_to_le COMMIT_TIMES_VERSION @ u64_to_le fl"

lemma times_header_parts:
  "length (times_header fl) = HEADER_LEN"
  "take 4 (times_header fl @ b) = COMMIT_TIMES_MAGIC"
  "u16_from_le [(times_header fl @ b) ! 4, (times_header fl @ b) ! 5] = COMMIT_TIMES_VERSION"
  "take 8 (drop 6 (times_header fl @ b)) = u64_to_le fl"
  "drop HEADER_LEN (times_header fl @ b) = b"
proof -
  have m: "length COMMIT_TIMES_MAGIC = 4" by (simp add: COMMIT_TIMES_MAGIC_def)
  obtain x y where v: "u16_to_le COMMIT_TIMES_VERSION = [x, y]"
    using length_to_le(1) [of COMMIT_TIMES_VERSION, unfolded numeral_2_eq_2 length_Suc_conv] by auto
  have xy: "u16_from_le [x, y] = COMMIT_TIMES_VERSION" using u16_le_roundtrip [of COMMIT_TIMES_VERSION] by (simp add: v)
  show "length (times_header fl) = HEADER_LEN" by (simp add: times_header_def m v HEADER_LEN_def)
  show "take 4 (times_header fl @ b) = COMMIT_TIMES_MAGIC" by (simp add: times_header_def m)
  show "u16_from_le [(times_header fl @ b) ! 4, (times_header fl @ b) ! 5] = COMMIT_TIMES_VERSION"
    by (simp add: times_header_def m v xy nth_append)
  show "take 8 (drop 6 (times_header fl @ b)) = u64_to_le fl" by (simp add: times_header_def m v)
  show "drop HEADER_LEN (times_header fl @ b) = b" by (simp add: times_header_def m v HEADER_LEN_def)
qed

lemma times_decode_body:
  "times_decode (times_header fl @ b) =
   (if length b mod ENTRY_LEN \<noteq> 0
    then Inl (Corrupt ''commit_times: a torn append'' [int (length b)])
    else bind_res (decode_entries (chunks_exact ENTRY_LEN b) None)
           (\<lambda>es. Inr \<lparr>floor_commit = fl, ct_entries = es\<rparr>))"
proof -
  have "\<not> length (times_header fl @ b) < HEADER_LEN" by (simp add: times_header_parts)
  then show ?thesis unfolding times_decode_def times_header_parts Let_def by simp
qed

lemma times_encode_header:
  "times_encode t = times_header (floor_commit t) @ concat (map (\<lambda>(c, ms). encode_entry c ms) (ct_entries t))"
  by (simp add: times_encode_def times_header_def)


lemma length_body_entries:
  "length (concat (map (\<lambda>(c, ms). encode_entry c ms) es)) mod ENTRY_LEN = 0"
  by (simp add: length_entries)

lemma decode_entries_exact:
  assumes "decode_entries chunks prev = Inr es" "\<And>c. c \<in> set chunks \<Longrightarrow> length c = ENTRY_LEN"
  shows "map (\<lambda>(c, ms). encode_entry c ms) es = chunks \<and> entries_ok es \<and>
    (\<forall>p. prev = Some p \<longrightarrow> (\<forall>c \<in> set (keys es). p < c))"
  using assms
proof (induction chunks prev arbitrary: es rule: decode_entries.induct)
  case (2 chunk chunks prev)
  define c where "c = u64_from_le (take 8 chunk)"
  define ms where "ms = i64_from_le (drop 8 chunk)"
  have len: "length (take 8 chunk) = 8" "length (drop 8 chunk) = 8" using "2.prems"(2) [of chunk] by (auto simp: ENTRY_LEN_def)
  obtain es' where es': "decode_entries chunks (Some c) = Inr es'" "es = (c, ms) # es'"
    "\<forall>p. prev = Some p \<longrightarrow> p < c"
    using "2.prems"(1) by (auto simp: Let_def c_def [symmetric] ms_def [symmetric] bind_res_Inr_iff split: option.splits if_splits)
  have "map (\<lambda>(c, ms). encode_entry c ms) es' = chunks \<and> entries_ok es' \<and> (\<forall>d \<in> set (keys es'). c < d)"
  proof -
    have "(case prev of None \<Rightarrow> None | Some p \<Rightarrow> if c \<le> p then Some p else None) = None"
      using es'(3) by (auto split: option.splits)
    then show ?thesis using "2.IH" [OF c_def ms_def refl _ es'(1)] "2.prems"(2) by auto
  qed
  moreover have "encode_entry c ms = chunk"
    using len by (simp add: encode_entry_def c_def ms_def u64_from_le_inverse i64_from_le_inverse)
  moreover have "in_i64 ms" unfolding ms_def using len(2) by (rule i64_from_le_range)
  ultimately show ?case using es'(2,3) by (auto simp: entries_ok_def intro: less_trans)
qed (simp add: entries_ok_def)

lemma take_split_header:
  assumes "HEADER_LEN \<le> length bytes" "take 4 bytes = COMMIT_TIMES_MAGIC" "u16_from_le [bytes ! 4, bytes ! 5] = COMMIT_TIMES_VERSION"
  shows "times_header (u64_from_le (take 8 (drop 6 bytes))) @ drop HEADER_LEN bytes = bytes"
proof -
  have "take 2 (drop 4 bytes) = [bytes ! 4, bytes ! 5]"
    by (rule nth_equalityI) (use assms(1) in \<open>auto simp: HEADER_LEN_def less_2_cases_iff\<close>)
  then have v: "u16_to_le COMMIT_TIMES_VERSION = take 2 (drop 4 bytes)"
    unfolding assms(3) [symmetric] by (simp add: u16_from_le_inverse)
  have "u64_to_le (u64_from_le (take 8 (drop 6 bytes))) = take 8 (drop 6 bytes)"
    using assms(1) by (simp add: u64_from_le_inverse HEADER_LEN_def)
  moreover have "take 4 bytes @ take 2 (drop 4 bytes) @ take 8 (drop 6 bytes) @ drop 14 bytes = bytes"
  proof -
    have "take 8 (drop 6 bytes) @ drop 14 bytes = drop 6 bytes"
      using append_take_drop_id [of 8 "drop 6 bytes"] by simp
    moreover have "take 2 (drop 4 bytes) @ drop 6 bytes = drop 4 bytes"
      using append_take_drop_id [of 2 "drop 4 bytes"] by simp
    ultimately show ?thesis by simp
  qed
  ultimately show ?thesis by (simp add: times_header_def v assms(2) HEADER_LEN_def)
qed

lemma times_decode_encode: "entries_ok (ct_entries t) \<Longrightarrow> times_decode (times_encode t) = Inr t"
proof -
  assume "entries_ok (ct_entries t)"
  then have "decode_entries (map (\<lambda>(c, ms). encode_entry c ms) (ct_entries t)) None = Inr (ct_entries t)"
    by (rule decode_entries_encode) simp
  then show ?thesis
    by (simp add: times_encode_header times_decode_body length_body_entries chunks_entries)
qed

section \<open>Histories of the map\<close>

datatype times_op = OpPush u64 int | OpTruncate u64

definition times_op_ok :: "times_op \<Rightarrow> bool" where
  "times_op_ok op = (case op of OpPush c ms \<Rightarrow> in_i64 ms | OpTruncate c \<Rightarrow> True)"

definition times_step :: "commit_times \<Rightarrow> times_op \<Rightarrow> commit_times" where
  "times_step t op = (case op of OpPush c ms \<Rightarrow> times_push t c ms | OpTruncate c \<Rightarrow> truncate_below t c)"

lemma times_run_ok: "list_all times_op_ok ops \<Longrightarrow> times_ok t \<Longrightarrow> times_ok (foldl times_step t ops)"
  by (induction ops arbitrary: t)
    (auto simp: times_step_def times_op_ok_def times_push_ok truncate_below_ok split: times_op.splits)

lemma time_of_map_of:
  assumes "times_ok t"
  shows "time_of t = map_of (ct_entries t)"
proof
  have s: "ssorted (keys (ct_entries t))" using assms by (simp add: times_ok_def entries_ok_def)
  have "time_of t d = Some ms \<longleftrightarrow> map_of (ct_entries t) d = Some ms" for d ms
    using time_of_iff [OF s] map_of_eq_Some_iff [OF ssorted_distinct [OF s]] by metis
  then show "time_of t d = map_of (ct_entries t) d" for d by (metis option.exhaust)
qed

lemma times_push_entries:
  "ct_entries (times_push t c ms) =
     (if \<forall>n. newest_commit t = Some n \<longrightarrow> n < c then ct_entries t @ [(c, ms)] else ct_entries t)"
  by (auto simp: times_push_def split: option.splits)

lemma newest_above:
  assumes "times_ok t" "\<forall>n. newest_commit t = Some n \<longrightarrow> n < c"
  shows "c \<notin> set (keys (ct_entries t))"
proof (cases "ct_entries t" rule: rev_cases)
  case (snoc es e)
  then show ?thesis
    using assms by (auto simp: times_ok_def entries_ok_def newest_commit_def sorted_wrt_append)
qed simp

lemma time_of_push:
  assumes "times_ok t"
  shows "time_of (times_push t c ms) d =
    (if d = c \<and> (\<forall>n. newest_commit t = Some n \<longrightarrow> n < c) then Some ms else time_of t d)"
proof (cases "\<forall>n. newest_commit t = Some n \<longrightarrow> n < c")
  case True
  define t' where "t' = times_push t c ms"
  have e: "ct_entries t' = ct_entries t @ [(c, ms)]" using True by (simp add: t'_def times_push_entries)
  have c: "c \<notin> set (keys (ct_entries t))" using newest_above [OF assms True] .
  have s: "ssorted (keys (ct_entries t'))"
    using times_push_ok [OF assms, of 0 c] True by (simp add: times_ok_def entries_ok_def times_push_entries e in_i64_def)
  have "time_of t' d = Some x \<longleftrightarrow> map_of (ct_entries t') d = Some x" for x
    using time_of_iff [OF s] map_of_eq_Some_iff [OF ssorted_distinct [OF s]] by metis
  then have "time_of t' d = map_of (ct_entries t') d" by (metis option.exhaust)
  moreover have "map_of (ct_entries t) c = None" using c by (simp only: map_of_None_keys not_False_eq_True)
  ultimately have "time_of t' d = (if d = c then Some ms else map_of (ct_entries t) d)"
    by (cases "map_of (ct_entries t) d") (auto simp: e map_add_def simp del: map_of_eq_None_iff)
  then show ?thesis using True assms by (simp add: t'_def [symmetric] time_of_map_of)
next
  case False
  then show ?thesis by (auto simp: times_push_def split: option.splits)
qed

lemma time_of_truncate:
  assumes "times_ok t"
  shows "time_of (truncate_below t c) d = (if c \<le> d then time_of t d else None)"
proof -
  have e: "ct_entries (truncate_below t c) = filter (\<lambda>(x, _). c \<le> x) (ct_entries t)"
    by (simp add: truncate_below_def Let_def)
  have "map_of (filter (\<lambda>(x, _). c \<le> x) es) d = (if c \<le> d then map_of es d else None)" for es :: "(u64 \<times> int) list"
    by (induction es) auto
  then show ?thesis using assms by (simp add: time_of_map_of truncate_below_ok e)
qed

lemma resolve_found:
  assumes "times_ok t" "ct_entries t \<noteq> []" "snd (hd (ct_entries t)) \<le> x"
  shows "\<exists>c ms. time_of t c = Some ms \<and> ms \<le> x \<and>
      (\<forall>d. c < d \<longrightarrow> (case time_of t d of None \<Rightarrow> True | Some ms' \<Rightarrow> x < ms')) \<and>
      resolve_instant t x fl =
        (if fl \<le> c then Inr c else Inl (CommitOutOfRange c (fst (last (ct_entries t)) + 1) fl))"
proof -
  define c where "c = resolve_scan x (ct_entries t) (fst (hd (ct_entries t)))"
  have s: "ssorted (keys (ct_entries t))" using assms(1) by (simp add: times_ok_def entries_ok_def)
  obtain ms where ms: "(c, ms) \<in> set (ct_entries t)" "ms \<le> x"
    using resolve_scan_greatest(1) [OF s assms(2,3)] c_def by auto
  have res: "resolve_instant t x fl =
      (if fl \<le> c then Inr c else Inl (CommitOutOfRange c (fst (last (ct_entries t)) + 1) fl))"
    using assms(2,3) unfolding resolve_instant_def c_def newest_commit_def Let_def by (auto split: list.splits)
  have "case time_of t d of None \<Rightarrow> True | Some ms' \<Rightarrow> x < ms'" if "c < d" for d
    using resolve_scan_greatest(2) [OF s assms(2,3), of d] that
    by (force simp: time_of_iff [OF s] c_def [symmetric] not_le [symmetric] split: option.splits)
  then show ?thesis using ms res time_of_iff [OF s] by blast
qed

lemma decode_exact:
  assumes d: "times_decode bytes = Inr t"
  shows "times_encode t = bytes \<and> entries_ok (ct_entries t)"
proof -
  have h: "HEADER_LEN \<le> length bytes" "take 4 bytes = COMMIT_TIMES_MAGIC"
    "u16_from_le [bytes ! 4, bytes ! 5] = COMMIT_TIMES_VERSION"
    using d by (auto simp: times_decode_def Let_def split: if_splits)
  define b where "b = drop HEADER_LEN bytes"
  define fl where "fl = u64_from_le (take 8 (drop 6 bytes))"
  have bytes: "bytes = times_header fl @ b" using take_split_header [OF h] by (simp add: fl_def b_def)
  then obtain es where es: "length b mod ENTRY_LEN = 0" "decode_entries (chunks_exact ENTRY_LEN b) None = Inr es"
    "t = \<lparr>floor_commit = fl, ct_entries = es\<rparr>"
    using d by (auto simp: times_decode_body bind_res_Inr_iff split: if_splits)
  have "map (\<lambda>(c, ms). encode_entry c ms) es = chunks_exact ENTRY_LEN b \<and> entries_ok es"
    using decode_entries_exact [OF es(2)] length_chunks_exact by blast
  moreover have "concat (chunks_exact ENTRY_LEN b) = b"
    using es(1) by (intro concat_chunks_exact) (auto simp: ENTRY_LEN_def)
  ultimately show ?thesis by (simp add: es(3) times_encode_header bytes)
qed

section \<open>Properties\<close>

text \<open>C18. \<open>resolve_instant\<close> answers every instant on every branch: an empty map refuses by
  name; an instant before the oldest recorded time is refused with that floor; otherwise the
  commit found is recorded at or before the instant and no later commit is, whatever the
  clock did in between, and it is returned unless the WAL can no longer replay it.\<close>

theorem resolve_instant_spec:
  assumes "times_ok t"
  shows "case ct_entries t of
      [] \<Rightarrow> resolve_instant t x fl = Inl NoRecordedTime
    | (first, first_ms) # _ \<Rightarrow>
        if x < first_ms then resolve_instant t x fl = Inl (TimeBeforeFloor first_ms first)
        else \<exists>c ms. time_of t c = Some ms \<and> ms \<le> x \<and>
          (\<forall>d. c < d \<longrightarrow> (case time_of t d of None \<Rightarrow> True | Some ms' \<Rightarrow> x < ms')) \<and>
          resolve_instant t x fl =
            (if fl \<le> c then Inr c else Inl (CommitOutOfRange c (fst (last (ct_entries t)) + 1) fl))"
proof (cases "ct_entries t")
  case Nil
  then show ?thesis by (simp add: resolve_instant_def)
next
  case (Cons e es)
  obtain first first_ms where e: "e = (first, first_ms)" by (cases e)
  have fl: "floor_commit t = first" using assms by (simp add: times_ok_def Cons e)
  show ?thesis
  proof (cases "x < first_ms")
    case True
    then show ?thesis by (simp add: resolve_instant_def Cons e fl)
  next
    case False
    then show ?thesis using resolve_found [OF assms, of x fl] by (simp add: Cons e)
  qed
qed

theorem resolve_instant_spec_witness:
  "resolve_instant commit_times_default 5 0 = Inl NoRecordedTime \<and>
   resolve_instant \<lparr>floor_commit = 3, ct_entries = [(3, 50), (5, 40), (6, 70)]\<rparr> 45 0 = Inl (TimeBeforeFloor 50 3) \<and>
   resolve_instant \<lparr>floor_commit = 3, ct_entries = [(3, 50), (5, 40), (6, 70)]\<rparr> 60 4 = Inr 5"
proof -
  define t :: commit_times where "t = \<lparr>floor_commit = 3, ct_entries = [(3, 50), (5, 40), (6, 70)]\<rparr>"
  have t: "times_ok t" by (simp add: t_def times_ok_def entries_ok_def in_i64_def)
  note p1 = resolve_instant_spec [OF commit_times_default_ok, of 5 0]
  note p2 = resolve_instant_spec [OF t, of 45 0]
  obtain c ms where c: "time_of t c = Some ms" "ms \<le> 60"
    "\<forall>d. c < d \<longrightarrow> (case time_of t d of None \<Rightarrow> True | Some ms' \<Rightarrow> 60 < ms')"
    "resolve_instant t 60 4 = (if 4 \<le> c then Inr c else Inl (CommitOutOfRange c (fst (last (ct_entries t)) + 1) 4))"
    using resolve_instant_spec [OF t, of 60 4] by (auto simp: t_def)
  have lookup: "time_of t = map_of [(3, 50), (5, 40), (6, 70)]" unfolding time_of_map_of [OF t] by (simp add: t_def)
  have "c = 3 \<or> c = 5" using c(1,2) by (auto simp: lookup split: if_splits)
  moreover have "c \<noteq> 3" using c(3) [rule_format, of 5] by (auto simp: lookup)
  ultimately have "c = 5" by blast
  then show ?thesis using p1 p2 c(4) by (simp add: t_def commit_times_default_def)
qed

text \<open>C17. The sidecar file: what is encoded decodes to the same map; every file that decodes is
  exactly the encoding of its map; appending one entry to the file is the same as rewriting
  it after the push; and a file cut inside its last entry is refused as corrupt.\<close>

theorem commit_times_file:
  "(times_decode bytes = Inr t \<longleftrightarrow> bytes = times_encode t \<and> entries_ok (ct_entries t)) \<and>
   (\<forall>n. newest_commit t = Some n \<and> n < c \<longrightarrow> times_encode (times_push t c ms) = times_encode t @ encode_entry c ms) \<and>
   (\<forall>k. 0 < k \<and> k < ENTRY_LEN \<longrightarrow>
      (\<exists>m. times_decode (times_encode t @ take k (encode_entry c ms)) = Inl (Corrupt ''commit_times: a torn append'' [m])))"
proof (intro conjI allI impI)
  show "times_decode bytes = Inr t \<longleftrightarrow> bytes = times_encode t \<and> entries_ok (ct_entries t)"
    using times_decode_encode decode_exact by blast
  show "times_encode (times_push t c ms) = times_encode t @ encode_entry c ms"
    if "newest_commit t = Some n \<and> n < c" for n
    using that by (simp add: times_push_def times_encode_def not_le [symmetric])
  show "\<exists>m. times_decode (times_encode t @ take k (encode_entry c ms)) = Inl (Corrupt ''commit_times: a torn append'' [m])"
    if "0 < k \<and> k < ENTRY_LEN" for k
    using that by (simp add: times_encode_header times_decode_body length_entries)
qed

theorem commit_times_file_witness:
  "times_decode (times_encode \<lparr>floor_commit = 3, ct_entries = [(3, 50), (5, 40)]\<rparr>) =
     Inr \<lparr>floor_commit = 3, ct_entries = [(3, 50), (5, 40)]\<rparr> \<and>
   times_encode (times_push \<lparr>floor_commit = 3, ct_entries = [(3, 50), (5, 40)]\<rparr> 6 1) =
     times_encode \<lparr>floor_commit = 3, ct_entries = [(3, 50), (5, 40)]\<rparr> @ encode_entry 6 1 \<and>
   (\<exists>m. times_decode (times_encode \<lparr>floor_commit = 3, ct_entries = [(3, 50), (5, 40)]\<rparr> @ take 7 (encode_entry 6 1)) =
     Inl (Corrupt ''commit_times: a torn append'' [m]))"
proof -
  define t :: commit_times where "t = \<lparr>floor_commit = 3, ct_entries = [(3, 50), (5, 40)]\<rparr>"
  have "entries_ok (ct_entries t)" "newest_commit t = Some 5" "(0::nat) < 7" "7 < ENTRY_LEN"
    by (simp_all add: t_def entries_ok_def in_i64_def newest_commit_def ENTRY_LEN_def)
  then show ?thesis using commit_times_file [of "times_encode t" t 6 1] by (auto simp: t_def)
qed

text \<open>Over any sequence of pushes and truncations the map keeps strictly ascending commits
  with its floor at the first of them and survives its file. A push records a commit past the
  newest and leaves every recorded time as first observed; a truncation keeps exactly the
  commits from the horizon on.\<close>

theorem times_history:
  assumes "list_all times_op_ok ops" and "t = foldl times_step commit_times_default ops"
  shows "times_ok t \<and> times_decode (times_encode t) = Inr t \<and>
    time_of (times_push t c ms) d =
      (if d = c \<and> (\<forall>n. newest_commit t = Some n \<longrightarrow> n < c) then Some ms else time_of t d) \<and>
    time_of (truncate_below t c) d = (if c \<le> d then time_of t d else None)"
proof -
  have ok: "times_ok t" unfolding assms(2) by (rule times_run_ok [OF assms(1) commit_times_default_ok])
  then have "times_decode (times_encode t) = Inr t" by (simp add: times_decode_encode times_ok_def)
  with ok show ?thesis by (simp add: time_of_push time_of_truncate)
qed

theorem times_history_witness:
  "let t = foldl times_step commit_times_default [OpPush 3 50, OpPush 5 40, OpTruncate 4]
   in times_ok t \<and> times_decode (times_encode t) = Inr t \<and>
     time_of (times_push t 9 7) 9 = Some 7 \<and> time_of (truncate_below t 6) 5 = None"
  using times_history [of "[OpPush 3 50, OpPush 5 40, OpTruncate 4]" _ 9 7 9, OF _ refl]
    times_history [of "[OpPush 3 50, OpPush 5 40, OpTruncate 4]" _ 6 7 5, OF _ refl]
  by (simp add: times_op_ok_def in_i64_def Let_def times_step_def times_push_def newest_commit_def
      commit_times_default_def truncate_below_def)

end
