(* ===== verification/Calendar.thy ===== *)
theory Calendar
  imports Prelude
begin

text \<open>
  The proleptic Gregorian calendar of \<open>crates/core-storage/src/types.rs\<close>: day counts since
  1970-01-01 to civil dates and back. Years are \<open>i64\<close> and months and days \<open>u32\<close> in the
  code; no step leaves its type on the inputs the callers pass, so all are integers here.
  A remainder that is only compared with zero is \<open>mod\<close>, whatever the sign.
\<close>

section \<open>The code\<close>

definition is_leap_year :: "int \<Rightarrow> bool" where
  "is_leap_year year \<longleftrightarrow> year mod 4 = 0 \<and> (year mod 100 \<noteq> 0 \<or> year mod 400 = 0)"

definition days_in_month :: "int \<Rightarrow> int \<Rightarrow> int" where
  "days_in_month year month =
     (if month = 2 \<and> is_leap_year year then 29
      else if month = 2 then 28
      else if month = 4 \<or> month = 6 \<or> month = 9 \<or> month = 11 then 30
      else 31)"

definition days_from_civil :: "int \<Rightarrow> int \<Rightarrow> int \<Rightarrow> int" where
  "days_from_civil year month day =
     (let y = (if month \<le> 2 then year - 1 else year);
          era = y div 400;
          yoe = y mod 400;
          doy = (153 * (if month > 2 then month - 3 else month + 9) + 2) div 5 + day - 1;
          doe = yoe * 365 + yoe div 4 - yoe div 100 + doy
      in era * 146097 + doe - 719468)"

definition civil_from_days :: "int \<Rightarrow> int \<times> int \<times> int" where
  "civil_from_days days =
     (let z = days + 719468;
          era = z div 146097;
          doe = z mod 146097;
          yoe = (doe - doe div 1460 + doe div 36524 - doe div 146096) div 365;
          doy = doe - (365 * yoe + yoe div 4 - yoe div 100);
          mp = (5 * doy + 2) div 153;
          day = doy - (153 * mp + 2) div 5 + 1;
          month = (if mp < 10 then mp + 3 else mp - 9);
          year = yoe + era * 400 + (if month \<le> 2 then 1 else 0)
      in (year, month, day))"

section \<open>Valid dates\<close>

definition valid_date :: "int \<Rightarrow> int \<Rightarrow> int \<Rightarrow> bool" where
  "valid_date y m d \<longleftrightarrow> 1 \<le> m \<and> m \<le> 12 \<and> 1 \<le> d \<and> d \<le> days_in_month y m"

text \<open>The day after a date, as the calendar has it.\<close>

definition next_day :: "int \<Rightarrow> int \<Rightarrow> int \<Rightarrow> int \<times> int \<times> int" where
  "next_day y m d =
     (if d < days_in_month y m then (y, m, d + 1)
      else if m < 12 then (y, m + 1, 1)
      else (y + 1, 1, 1))"

section \<open>The year within an era\<close>

text \<open>The first day of year \<open>y\<close> of an era, counted from March, and its last.\<close>

definition year_start :: "int \<Rightarrow> int" where
  "year_start y = 365 * y + y div 4 - y div 100"

definition year_end :: "int \<Rightarrow> int" where
  "year_end y = (if y = 399 then 146096 else year_start (y + 1) - 1)"

definition year_num :: "int \<Rightarrow> int" where
  "year_num doe = doe - doe div 1460 + doe div 36524 - doe div 146096"

lemma div_step: "a \<le> b \<Longrightarrow> 0 < n \<Longrightarrow> b div n \<le> a div n + (b - a)" for a b n :: int
proof -
  assume "a \<le> b" "0 < n"
  have "b div n = (a + (b - a)) div n" by simp
  also have "\<dots> \<le> (a + (b - a) * n) div n"
    using \<open>a \<le> b\<close> \<open>0 < n\<close> mult_left_mono [of 1 n "b - a"] by (intro zdiv_mono1) auto
  also have "\<dots> = a div n + (b - a)" using \<open>0 < n\<close> by simp
  finally show ?thesis .
qed

lemma year_num_mono:
  assumes "0 \<le> a" "a \<le> b" "b \<le> 146096"
  shows "year_num a \<le> year_num b"
proof (cases "b = 146096")
  case True
  show ?thesis
  proof (cases "a = b")
    case False
    then have "a \<le> 146095" using assms True by simp
    then have "146095 div 1460 \<le> a div 1460 + (146095 - a)" by (rule div_step) simp
    moreover have "a div 36524 \<le> 146096 div 36524" using assms True by (intro zdiv_mono1) auto
    moreover have "a div 146096 = 0" using assms(1) \<open>a \<le> 146095\<close> by simp
    ultimately show ?thesis by (simp add: year_num_def True)
  qed simp
next
  case False
  have "b div 1460 \<le> a div 1460 + (b - a)" using assms by (intro div_step) auto
  moreover have "a div 36524 \<le> b div 36524" using assms by (intro zdiv_mono1) auto
  moreover have "a div 146096 = 0" "b div 146096 = 0"
    by (rule div_pos_pos_trivial; use assms False in linarith)+
  ultimately show ?thesis unfolding year_num_def by linarith
qed

text \<open>A year of an era as its century, its leap cycle and its place in the cycle.\<close>

lemma year_split:
  fixes y :: int
  assumes "0 \<le> y" "y < 400"
  obtains c q r where "y = 100 * c + 4 * q + r" "0 \<le> c" "c < 4" "0 \<le> q" "q < 25" "0 \<le> r" "r < 4"
    "y div 4 = 25 * c + q" "y div 100 = c"
proof
  define c where "c = y div 100"
  define q where "q = y mod 100 div 4"
  define r where "r = y mod 4"
  have "y mod 100 mod 4 = y mod 4" by (rule mod_mod_cancel) simp
  then show y: "y = 100 * c + 4 * q + r" unfolding c_def q_def r_def by (simp add: minus_mod_eq_mult_div [symmetric] algebra_simps)
  show "0 \<le> c" "c < 4" "0 \<le> q" "q < 25" and r: "0 \<le> r" "r < 4" using assms by (auto simp: c_def q_def r_def)
  show "y div 100 = c" by (simp add: c_def)
  show "y div 4 = 25 * c + q" using r unfolding y by simp
qed

lemma year_num_start:
  assumes "0 \<le> y" "y < 400"
  shows "year_num (year_start y) = 365 * y"
    "0 < y \<Longrightarrow> 365 * y - 2 \<le> year_num (year_start y - 1) \<and> year_num (year_start y - 1) \<le> 365 * y - 1"
proof -
  obtain c q r where y: "y = 100 * c + 4 * q + r" "0 \<le> c" "c < 4" "0 \<le> q" "q < 25" "0 \<le> r" "r < 4"
    "y div 4 = 25 * c + q" "y div 100 = c" using year_split [OF assms] .
  define s where "s = year_start y"
  have s: "s = 1460 * (25 * c + q) + (365 * r + 24 * c + q)" "s = 36524 * c + (1461 * q + 365 * r)"
    unfolding s_def year_start_def y(8,9) by (simp_all add: y(1))
  have d: "s div 1460 = 25 * c + q" unfolding s(1) using y(2-7) by (simp add: div_pos_pos_trivial)
  have e: "s div 36524 = c" unfolding s(2) using y(2-7) by (simp add: div_pos_pos_trivial)
  have f: "s div 146096 = 0" unfolding s(2) using y(2-7) by (simp add: div_pos_pos_trivial)
  show "year_num (year_start y) = 365 * y"
    unfolding s_def [symmetric] year_num_def d e f using s(2) y(1) by linarith
  assume "0 < y"
  then have pos: "1 \<le> 365 * r + 24 * c + q" using y(1-7) by linarith
  have "s - 1 = 1460 * (25 * c + q) + (365 * r + 24 * c + q - 1)" using s(1) by simp
  then have d': "(s - 1) div 1460 = 25 * c + q" using y(2-7) pos by (simp add: div_pos_pos_trivial)
  have "(s - 1) div 36524 \<le> c" using e zdiv_mono1 [of "s - 1" s 36524] by simp
  moreover have "c - 1 \<le> (s - 1) div 36524" using e div_step [of "s - 1" s 36524] by simp
  moreover have "(s - 1) div 146096 = 0" using s(2) y(2-7) pos s(1) by (simp add: div_pos_pos_trivial)
  ultimately show "365 * y - 2 \<le> year_num (year_start y - 1) \<and> year_num (year_start y - 1) \<le> 365 * y - 1"
    unfolding s_def [symmetric] year_num_def d' using s(2) y(1) by linarith
qed

lemma year_num_end:
  assumes "0 \<le> y" "y < 400"
  shows "year_num (year_end y) < 365 * y + 365"
proof (cases "y = 399")
  case False
  then show ?thesis using year_num_start(2) [of "y + 1"] assms by (simp add: year_end_def)
qed (simp add: year_end_def year_num_def)

lemma year_range:
  assumes "0 \<le> y" "y < 400"
  shows "0 \<le> year_start y" "year_end y \<le> 146096"
proof -
  obtain c q r where y: "y = 100 * c + 4 * q + r" "0 \<le> c" "c < 4" "0 \<le> q" "q < 25" "0 \<le> r" "r < 4"
    "y div 4 = 25 * c + q" "y div 100 = c" using year_split [OF assms] .
  then show "0 \<le> year_start y" by (simp add: year_start_def)
  show "year_end y \<le> 146096"
    using assms by (auto simp: year_end_def year_start_def)
qed

lemma year_of_day:
  assumes "0 \<le> y" "y < 400" "year_start y \<le> doe" "doe \<le> year_end y"
  shows "year_num doe div 365 = y"
proof -
  have "year_num (year_start y) \<le> year_num doe" "year_num doe \<le> year_num (year_end y)"
    using assms year_range [OF assms(1,2)] by (auto intro!: year_num_mono)
  then have "365 * y \<le> year_num doe" "year_num doe < 365 * y + 365"
    using year_num_start(1) [OF assms(1,2)] year_num_end [OF assms(1,2)] by linarith+
  then show ?thesis by linarith
qed

text \<open>Every day of an era lies in one of its years.\<close>

lemma year_end_next: "0 \<le> y \<Longrightarrow> y < 399 \<Longrightarrow> year_end y + 1 = year_start (y + 1)"
  by (simp add: year_end_def)

lemma year_exists_upto:
  "doe \<le> year_end (int n) \<Longrightarrow> 0 \<le> doe \<Longrightarrow> n < 400 \<Longrightarrow>
   \<exists>y. 0 \<le> y \<and> y \<le> int n \<and> year_start y \<le> doe \<and> doe \<le> year_end y"
proof (induction n)
  case 0
  then show ?case by (auto simp: year_start_def intro: exI [of _ 0])
next
  case (Suc n)
  show ?case
  proof (cases "doe \<le> year_end (int n)")
    case True
    then obtain y where "0 \<le> y" "y \<le> int n" "year_start y \<le> doe" "doe \<le> year_end y"
      using Suc by auto
    then show ?thesis by (intro exI [of _ y]) auto
  next
    case False
    then have "year_start (int (Suc n)) \<le> doe" using year_end_next [of "int n"] Suc.prems(3) by (simp add: add.commute)
    then show ?thesis using Suc.prems(1) by (intro exI [of _ "int (Suc n)"]) auto
  qed
qed

lemma year_exists:
  assumes "0 \<le> doe" "doe \<le> 146096"
  obtains y where "0 \<le> y" "y < 400" "year_start y \<le> doe" "doe \<le> year_end y"
  using year_exists_upto [of doe 399] assms by (auto simp: year_end_def)

lemma div_plus1_cases: "0 < n \<Longrightarrow> (a + 1) div n = a div n + (if (a + 1) mod n = 0 then 1 else 0)" for a n :: int
proof -
  assume n: "0 < n"
  define q r where "q = a div n" and "r = a mod n"
  have a: "a = n * q + r" and r: "0 \<le> r" "r < n" using n by (auto simp: q_def r_def)
  show ?thesis
  proof (cases "r + 1 = n")
    case True
    then have "a + 1 = n * (q + 1)" using a by (simp add: distrib_left)
    then have "(a + 1) div n = q + 1" "(a + 1) mod n = 0" using n by simp_all
    then show ?thesis by (simp add: q_def)
  next
    case False
    have "a + 1 = n * q + (r + 1)" using a by simp
    moreover have "0 \<le> r + 1" "r + 1 < n" using r False by auto
    ultimately have "(a + 1) div n = q" "(a + 1) mod n = r + 1"
      by (rule int_div_pos_eq, rule int_mod_pos_eq)
    then show ?thesis using r by (simp add: q_def)
  qed
qed

lemma year_end_length:
  assumes "0 \<le> y" "y < 400"
  shows "year_end y - year_start y = (if is_leap_year (y + 1) then 365 else 364)"
proof (cases "y = 399")
  case True
  then show ?thesis by (simp add: year_end_def year_start_def is_leap_year_def)
next
  case False
  have step: "(y + 1) div n = y div n + (if (y + 1) mod n = 0 then 1 else 0)" if "0 < n" for n
    using that by (rule div_plus1_cases)
  have "(y + 1) mod 400 \<noteq> 0" using assms False by simp
  moreover have "(y + 1) mod 100 = 0 \<Longrightarrow> (y + 1) mod 4 = 0"
    using mod_mod_cancel [of 4 100 "y + 1"] by simp
  moreover have "year_end y - year_start y = 364 +
      (if (y + 1) mod 4 = 0 then 1 else 0) - (if (y + 1) mod 100 = 0 then 1 else 0)"
    using False unfolding year_end_def year_start_def step [of 4, simplified] step [of 100, simplified] by simp
  ultimately show ?thesis by (auto simp: is_leap_year_def)
qed

section \<open>The month within a year\<close>

text \<open>The first day of month \<open>mp\<close> of a year counted from March.\<close>

definition month_start :: "int \<Rightarrow> int" where
  "month_start mp = (153 * mp + 2) div 5"

lemma twelve_cases:
  "0 \<le> (mp :: int) \<Longrightarrow> mp < 12 \<Longrightarrow>
   mp = 0 \<or> mp = 1 \<or> mp = 2 \<or> mp = 3 \<or> mp = 4 \<or> mp = 5 \<or> mp = 6 \<or> mp = 7 \<or> mp = 8 \<or> mp = 9 \<or> mp = 10 \<or> mp = 11"
  by presburger

lemma month_of_day:
  assumes "0 \<le> mp" "mp < 12" "month_start mp \<le> doy" "doy < month_start (mp + 1)"
  shows "(5 * doy + 2) div 153 = mp"
  using twelve_cases [OF assms(1,2)] assms(3,4) unfolding month_start_def by (elim disjE) (simp_all; linarith)+

lemma month_exists:
  assumes "0 \<le> doy" "doy \<le> 365"
  obtains mp where "0 \<le> mp" "mp < 12" "month_start mp \<le> doy" "doy < month_start (mp + 1)"
proof
  define mp where "mp = (5 * doy + 2) div 153"
  have "153 * mp \<le> 5 * doy + 2" "5 * doy + 2 < 153 * mp + 153" unfolding mp_def by linarith+
  then show "0 \<le> mp" "mp < 12" "month_start mp \<le> doy" using assms unfolding month_start_def by linarith+
  have "5 * (doy + 1) \<le> 153 * (mp + 1) + 2" using \<open>5 * doy + 2 < 153 * mp + 153\<close> by simp
  then show "doy < month_start (mp + 1)"
    unfolding month_start_def using zdiv_mono1 [of "5 * (doy + 1)" "153 * (mp + 1) + 2" 5] by simp
qed

section \<open>Both ways\<close>

text \<open>A date in the coordinates of the algorithm: era, year of the era, month from March, day.\<close>

definition march_days :: "int \<Rightarrow> int \<Rightarrow> int \<Rightarrow> int \<Rightarrow> int" where
  "march_days era yoe mp d = era * 146097 + (year_start yoe + (month_start mp + d - 1)) - 719468"

definition march_ok :: "int \<Rightarrow> int \<Rightarrow> int \<Rightarrow> bool" where
  "march_ok yoe mp d \<longleftrightarrow> 0 \<le> yoe \<and> yoe < 400 \<and> 0 \<le> mp \<and> mp < 12 \<and> 1 \<le> d \<and>
     month_start mp + d - 1 < month_start (mp + 1) \<and> month_start mp + d - 1 \<le> year_end yoe - year_start yoe"

definition month_of :: "int \<Rightarrow> int" where "month_of mp = (if mp < 10 then mp + 3 else mp - 9)"
definition year_of :: "int \<Rightarrow> int \<Rightarrow> int \<Rightarrow> int" where
  "year_of era yoe mp = yoe + era * 400 + (if month_of mp \<le> 2 then 1 else 0)"

lemma month_start_nonneg: "0 \<le> mp \<Longrightarrow> 0 \<le> month_start mp"
  by (simp add: month_start_def)

lemma civil_from_march:
  assumes "march_ok yoe mp d"
  shows "civil_from_days (march_days era yoe mp d) = (year_of era yoe mp, month_of mp, d)"
proof -
  define doy where "doy = month_start mp + d - 1"
  define doe where "doe = year_start yoe + doy"
  note ok = assms [unfolded march_ok_def]
  have doy: "0 \<le> doy" using ok month_start_nonneg [of mp] by (simp add: doy_def)
  have doe: "year_start yoe \<le> doe" "doe \<le> year_end yoe" using ok doy by (auto simp: doe_def doy_def)
  then have range: "0 \<le> doe" "doe < 146097" using year_range [of yoe] ok by auto
  have z: "march_days era yoe mp d + 719468 = 146097 * era + doe" by (simp add: march_days_def doe_def doy_def)
  have era: "(march_days era yoe mp d + 719468) div 146097 = era" "(march_days era yoe mp d + 719468) mod 146097 = doe"
    using int_div_pos_eq [OF z range] int_mod_pos_eq [OF z range] by auto
  have yoe: "(doe - doe div 1460 + doe div 36524 - doe div 146096) div 365 = yoe"
    using year_of_day [OF _ _ doe] ok by (simp add: year_num_def)
  have doy': "doe - (365 * yoe + yoe div 4 - yoe div 100) = doy" by (simp add: doe_def year_start_def)
  have mp: "(5 * doy + 2) div 153 = mp" using month_of_day [of mp doy] ok by (simp add: doy_def)
  have day: "doy - (153 * mp + 2) div 5 + 1 = d" by (simp add: doy_def month_start_def)
  show ?thesis
    unfolding civil_from_days_def Let_def era yoe doy' mp day month_of_def year_of_def by simp
qed

lemma civil_to_march:
  assumes "0 \<le> yoe" "yoe < 400" "0 \<le> mp" "mp < 12"
  shows "days_from_civil (year_of era yoe mp) (month_of mp) d = march_days era yoe mp d"
proof -
  have y: "(if month_of mp \<le> 2 then year_of era yoe mp - 1 else year_of era yoe mp) = 400 * era + yoe"
    by (simp add: year_of_def)
  have "(400 * era + yoe) div 400 = era" "(400 * era + yoe) mod 400 = yoe" using assms by auto
  moreover have "(if month_of mp > 2 then month_of mp - 3 else month_of mp + 9) = mp"
    using assms by (auto simp: month_of_def)
  ultimately show ?thesis
    unfolding days_from_civil_def Let_def y march_days_def year_start_def month_start_def by simp
qed

lemma leap_cycle: "is_leap_year (400 * e + y) = is_leap_year y"
proof -
  have "(400 * e + y) mod 4 = y mod 4" "(400 * e + y) mod 100 = y mod 100" "(400 * e + y) mod 400 = y mod 400"
    using mod_mult_self4 [of 4 "100 * e" y] mod_mult_self4 [of 100 "4 * e" y] by simp_all
  then show ?thesis by (simp add: is_leap_year_def)
qed

lemma days_in_month_march:
  assumes "0 \<le> yoe" "yoe < 400" "0 \<le> mp" "mp < 12"
  shows "1 \<le> d \<and> d \<le> days_in_month (year_of era yoe mp) (month_of mp) \<longleftrightarrow> march_ok yoe mp d"
proof -
  have leap: "is_leap_year (year_of era yoe 11) = is_leap_year (yoe + 1)"
    using leap_cycle [of era "yoe + 1"] by (simp add: year_of_def month_of_def ac_simps)
  have len: "year_end yoe - year_start yoe = (if is_leap_year (yoe + 1) then 365 else 364)"
    using assms(1,2) by (rule year_end_length)
  show ?thesis
    using twelve_cases [OF assms(3,4)] assms(1,2)
    by (elim disjE) (auto simp: march_ok_def month_start_def month_of_def days_in_month_def leap len)
qed

lemma march_exists:
  assumes "1 \<le> m" "m \<le> 12"
  obtains era yoe mp where "0 \<le> yoe" "yoe < 400" "0 \<le> mp" "mp < 12" "y = year_of era yoe mp" "m = month_of mp"
proof -
  define y' where "y' = (if m \<le> 2 then y - 1 else y)"
  define mp where "mp = (if m > 2 then m - 3 else m + 9)"
  have m: "0 \<le> mp" "mp < 12" "m = month_of mp" using assms by (auto simp: mp_def month_of_def)
  have "y' = y' mod 400 + y' div 400 * 400" by simp
  then have "y = year_of (y' div 400) (y' mod 400) mp"
    unfolding year_of_def m(3) [symmetric] by (simp add: y'_def split: if_splits)
  then show ?thesis using that [of "y' mod 400" mp "y' div 400"] m by simp
qed

lemma civil_roundtrip: "valid_date y m d \<Longrightarrow> civil_from_days (days_from_civil y m d) = (y, m, d)"
proof -
  assume v: "valid_date y m d"
  have "1 \<le> m" "m \<le> 12" using v by (auto simp: valid_date_def)
  then obtain era yoe mp where c: "0 \<le> yoe" "yoe < 400" "0 \<le> mp" "mp < 12" "y = year_of era yoe mp" "m = month_of mp"
    by (rule march_exists)
  have "march_ok yoe mp d" using v days_in_month_march [OF c(1-4), of d era] by (simp add: valid_date_def c(5,6))
  then show ?thesis by (simp add: c(5,6) civil_to_march [OF c(1-4)] civil_from_march)
qed

lemma days_roundtrip: "civil_from_days days = (y, m, d) \<Longrightarrow> valid_date y m d \<and> days_from_civil y m d = days"
proof -
  assume eq: "civil_from_days days = (y, m, d)"
  define era where "era = (days + 719468) div 146097"
  define doe where "doe = (days + 719468) mod 146097"
  have "0 \<le> doe" "doe \<le> 146096" unfolding doe_def by (simp_all add: zle_diff1_eq [symmetric])
  then obtain yoe where yoe: "0 \<le> yoe" "yoe < 400" "year_start yoe \<le> doe" "doe \<le> year_end yoe" by (rule year_exists)
  define doy where "doy = doe - year_start yoe"
  have doy: "0 \<le> doy" "doy \<le> 365" "doy \<le> year_end yoe - year_start yoe"
    using yoe year_end_length [OF yoe(1,2)] by (auto simp: doy_def split: if_splits)
  obtain mp where mp: "0 \<le> mp" "mp < 12" "month_start mp \<le> doy" "doy < month_start (mp + 1)"
    using month_exists [OF doy(1,2)] .
  define d' where "d' = doy - month_start mp + 1"
  have ok: "march_ok yoe mp d'" using yoe mp doy by (simp add: march_ok_def d'_def)
  have "days + 719468 = era * 146097 + doe" by (simp add: era_def doe_def)
  then have days: "days = march_days era yoe mp d'" by (simp add: march_days_def d'_def doy_def)
  then have c: "y = year_of era yoe mp" "m = month_of mp" "d = d'" using eq civil_from_march [OF ok] by auto
  have "valid_date y m d"
    using days_in_month_march [OF yoe(1,2) mp(1,2), of d' era] ok mp(1,2)
    by (auto simp: valid_date_def c month_of_def)
  then show ?thesis using civil_to_march [OF yoe(1,2) mp(1,2)] days c by simp
qed

section \<open>The day count follows the calendar\<close>

lemma days_shift: "days_from_civil y m (d + k) = days_from_civil y m d + k"
  by (simp add: days_from_civil_def Let_def)

lemma mod_pred: "(y - 1) mod 400 = (if y mod 400 = 0 then 399 else y mod 400 - 1)" for y :: int
proof -
  have y: "y = 400 * (y div 400) + y mod 400" by simp
  have r: "0 \<le> y mod 400" "y mod 400 < 400" by simp_all
  show ?thesis
  proof (cases "y mod 400 = 0")
    case True
    then have "y - 1 = 400 * (y div 400 - 1) + 399" using y by (simp add: right_diff_distrib)
    then show ?thesis using True int_mod_pos_eq [of "y - 1" 400 "y div 400 - 1" 399] by simp
  next
    case False
    have "y - 1 = 400 * (y div 400) + (y mod 400 - 1)" using y by linarith
    then show ?thesis using False r int_mod_pos_eq [of "y - 1" 400 "y div 400" "y mod 400 - 1"] by simp
  qed
qed

lemma month_step:
  assumes "1 \<le> m" "m < 12"
  shows "days_from_civil y (m + 1) 1 = days_from_civil y m (days_in_month y m) + 1"
proof (cases "m = 2")
  case True
  have leap: "is_leap_year ((y - 1) mod 400 + 1) = is_leap_year y"
    using leap_cycle [of "(y - 1) div 400" "(y - 1) mod 400 + 1"] by (simp add: add.assoc [symmetric])
  have "year_end ((y - 1) mod 400) - year_start ((y - 1) mod 400) = (if is_leap_year y then 365 else 364)"
    using year_end_length [of "(y - 1) mod 400"] leap by simp
  moreover have "y div 400 * 146097 + year_start (y mod 400) = (y - 1) div 400 * 146097 + year_end ((y - 1) mod 400) + 1"
  proof -
    have "y div 400 = (y - 1) div 400 + (if y mod 400 = 0 then 1 else 0)" using div_plus1_cases [of 400 "y - 1"] by simp
    moreover have "(y - 1) mod 400 = (if y mod 400 = 0 then 399 else y mod 400 - 1)" by (rule mod_pred)
    moreover have "year_end (y mod 400 - 1) + 1 = year_start (y mod 400)" if "y mod 400 \<noteq> 0"
      using that year_end_next [of "y mod 400 - 1"] pos_mod_sign [of 400 y] pos_mod_bound [of 400 y] by simp
    moreover have "year_start 0 = 0" "year_end 399 = 146096" by (simp_all add: year_start_def year_end_def)
    ultimately show ?thesis by (cases "y mod 400 = 0") (simp_all add: distrib_right)
  qed
  ultimately have "(y div 400) * 146097 + year_start (y mod 400) =
      (y - 1) div 400 * 146097 + year_start ((y - 1) mod 400) + (if is_leap_year y then 366 else 365)"
    by (auto split: if_splits)
  moreover have "days_from_civil y 3 1 = y div 400 * 146097 + year_start (y mod 400) - 719468"
    unfolding days_from_civil_def Let_def year_start_def by simp
  moreover have "days_from_civil y 2 d = (y - 1) div 400 * 146097 + year_start ((y - 1) mod 400) + 336 + d - 719468" for d
    unfolding days_from_civil_def Let_def year_start_def by simp
  ultimately show ?thesis unfolding True by (simp add: days_in_month_def)
next
  case False
  then have "m = 1 \<or> m = 3 \<or> m = 4 \<or> m = 5 \<or> m = 6 \<or> m = 7 \<or> m = 8 \<or> m = 9 \<or> m = 10 \<or> m = 11"
    using assms by presburger
  then show ?thesis
    unfolding days_from_civil_def Let_def days_in_month_def by (elim disjE) simp_all
qed

lemma next_day_step:
  assumes "valid_date y m d"
  shows "(case next_day y m d of (y', m', d') \<Rightarrow> days_from_civil y' m' d') = days_from_civil y m d + 1"
proof -
  consider "d < days_in_month y m" | "d = days_in_month y m" "m < 12" | "d = days_in_month y m" "m = 12"
    using assms by (force simp: valid_date_def)
  then show ?thesis
  proof cases
    case 1
    then show ?thesis by (simp add: next_day_def days_shift)
  next
    case 2
    then show ?thesis using month_step [of m y] assms by (simp add: next_day_def valid_date_def)
  next
    case 3
    then show ?thesis by (simp add: next_day_def days_from_civil_def days_in_month_def Let_def)
  qed
qed

section \<open>Properties\<close>

text \<open>C22. Day counts and civil dates are in bijection over all integers: every day count has a
  valid date that counts back to it, and a valid date is the date of its count. The count is
  the one of the calendar: 1970-01-01 is day 0 and the day after any valid date counts one
  more.\<close>

theorem calendar_bijection:
  "(case civil_from_days n of (y, m, d) \<Rightarrow> valid_date y m d \<and> days_from_civil y m d = n) \<and>
   (valid_date y m d \<longrightarrow> civil_from_days (days_from_civil y m d) = (y, m, d) \<and>
     (case next_day y m d of (y', m', d') \<Rightarrow> days_from_civil y' m' d') = days_from_civil y m d + 1) \<and>
   days_from_civil 1970 1 1 = 0"
proof -
  have "days_from_civil 1970 1 1 = 0" by (simp add: days_from_civil_def)
  moreover have "case civil_from_days n of (y, m, d) \<Rightarrow> valid_date y m d \<and> days_from_civil y m d = n"
    using days_roundtrip [of n] by (auto split: prod.splits)
  ultimately show ?thesis using civil_roundtrip next_day_step by blast
qed

theorem calendar_bijection_witness:
  "civil_from_days (days_from_civil 2024 2 29) = (2024, 2, 29) \<and> days_from_civil 2024 3 1 = days_from_civil 2024 2 29 + 1"
  using calendar_bijection [of 0 2024 2 29]
  by (simp add: valid_date_def next_day_def days_in_month_def is_leap_year_def)

end
