(* ===== verification/Iso_Text.thy ===== *)
theory Iso_Text
  imports Calendar "HOL-Library.Monad_Syntax"
begin

text \<open>
  The ISO 8601 text of dates and times, \<open>crates/core-storage/src/types.rs\<close>: printing and
  parsing of \<open>Date\<close>, \<open>LocalDateTime\<close> and \<open>DateTime\<close>. A string is its bytes; a slice the
  code takes always ends after an ASCII character, so it never splits a character. The
  code parses a number only from a slice of ASCII digits, so the sign \<open>str::parse\<close> also
  accepts does not occur. The text of an error keeps the value formatted into it.
\<close>

section \<open>Decimal numbers\<close>

definition is_ascii_digit :: "char \<Rightarrow> bool" where
  "is_ascii_digit c \<longleftrightarrow> 48 \<le> (of_char c :: nat) \<and> (of_char c :: nat) \<le> 57"

definition digit_char :: "nat \<Rightarrow> char" where
  "digit_char d = char_of (48 + d)"

definition digit_value :: "char \<Rightarrow> nat" where
  "digit_value c = of_char c - 48"

text \<open>\<open>Display\<close> of an unsigned integer, and with the format \<open>{:0w}\<close>.\<close>

fun decimal :: "nat \<Rightarrow> string" where
  "decimal n = (if n < 10 then [digit_char n] else decimal (n div 10) @ [digit_char (n mod 10)])"

declare decimal.simps [simp del]

definition zpad :: "nat \<Rightarrow> nat \<Rightarrow> string" where
  "zpad w n = replicate (w - length (decimal n)) (CHR ''0'') @ decimal n"

definition digits_value :: "string \<Rightarrow> nat" where
  "digits_value s = foldl (\<lambda>a c. 10 * a + digit_value c) 0 s"

text \<open>\<open>str::parse\<close> of an integer type whose values end below a limit.\<close>

definition parse_uint :: "nat \<Rightarrow> string \<Rightarrow> nat option" where
  "parse_uint limit s =
     (if s = [] \<or> \<not> list_all is_ascii_digit s \<or> limit \<le> digits_value s then None
      else Some (digits_value s))"

definition strip_prefix :: "char \<Rightarrow> string \<Rightarrow> string option" where
  "strip_prefix c s = (case s of [] \<Rightarrow> None | x # xs \<Rightarrow> if x = c then Some xs else None)"

definition strip_point :: "string \<Rightarrow> string option" where
  "strip_point s = (case s of [] \<Rightarrow> None | x # xs \<Rightarrow> if x = CHR ''.'' \<or> x = CHR '','' then Some xs else None)"

definition digit_len :: "string \<Rightarrow> nat" where
  "digit_len s = length (takeWhile is_ascii_digit s)"

section \<open>The code\<close>

definition MICROS_PER_SECOND :: int where "MICROS_PER_SECOND = 1000000"
definition SECONDS_PER_DAY :: int where "SECONDS_PER_DAY = 86400"
definition NANOS_PER_SECOND :: int where "NANOS_PER_SECOND = 1000000000"
definition MAX_OFFSET_SECONDS :: int where "MAX_OFFSET_SECONDS = 18 * 3600"

definition format_civil :: "int \<Rightarrow> string" where
  "format_civil days =
     (case civil_from_days days of (year, month, day) \<Rightarrow>
       let ys = (if 0 \<le> year \<and> year \<le> 9999 then zpad 4 (nat year)
                 else if year < 0 then ''-'' @ zpad 6 (nat (- year))
                 else ''+'' @ zpad 6 (nat year))
       in ys @ ''-'' @ zpad 2 (nat month) @ ''-'' @ zpad 2 (nat day))"

definition fixed_digits :: "string \<Rightarrow> nat \<Rightarrow> (int \<times> string) option" where
  "fixed_digits s n =
     (if length s < n \<or> \<not> list_all is_ascii_digit (take n s) then None
      else do { v \<leftarrow> parse_uint (2 ^ 32) (take n s); Some (int v, drop n s) })"

definition parse_civil :: "string \<Rightarrow> (int \<times> string) option" where
  "parse_civil s = do {
     (sign, rest) \<leftarrow> (case s of [] \<Rightarrow> None
        | c # cs \<Rightarrow> Some (if c = CHR ''+'' then (1 :: int, cs) else if c = CHR ''-'' then (-1, cs) else (0, s)));
     let year_len = digit_len rest;
     if (sign = 0 \<and> year_len \<noteq> 4) \<or> \<not> (4 \<le> year_len \<and> year_len \<le> 12) then None
     else do {
       magnitude \<leftarrow> parse_uint (2 ^ 63) (take year_len rest);
       let year = (if sign < 0 then - int magnitude else int magnitude);
       rest \<leftarrow> strip_prefix (CHR ''-'') (drop year_len rest);
       (month, rest) \<leftarrow> fixed_digits rest 2;
       rest \<leftarrow> strip_prefix (CHR ''-'') rest;
       (day, rest) \<leftarrow> fixed_digits rest 2;
       if \<not> (1 \<le> month \<and> month \<le> 12) \<or> day = 0 \<or> day > days_in_month year month then None
       else Some (days_from_civil year month day, rest)
     }
   }"

text \<open>The optional seconds and fraction: the second, the nanoseconds and the rest.\<close>

definition parse_seconds :: "string \<Rightarrow> (int \<times> int \<times> string) option" where
  "parse_seconds rest =
     (case strip_prefix (CHR '':'') rest of
        None \<Rightarrow> Some (0, 0, rest)
      | Some after \<Rightarrow> do {
          (sec, rest) \<leftarrow> fixed_digits after 2;
          (case strip_point rest of
             None \<Rightarrow> Some (sec, 0, rest)
           | Some after \<Rightarrow>
               let len = digit_len after in
               if len = 0 \<or> len > 9 then None
               else do {
                 digits \<leftarrow> parse_uint (2 ^ 63) (take len after);
                 Some (sec, int digits * 10 ^ (9 - len), drop len after)
               })
        })"

definition parse_time_of_day :: "string \<Rightarrow> (int \<times> string) option" where
  "parse_time_of_day s = do {
     (hour, rest) \<leftarrow> fixed_digits s 2;
     rest \<leftarrow> strip_prefix (CHR '':'') rest;
     (minute, rest) \<leftarrow> fixed_digits rest 2;
     (second, frac_nanos, rest) \<leftarrow> parse_seconds rest;
     if hour > 23 \<or> minute > 59 \<or> second > 59 then None
     else Some ((hour * 3600 + minute * 60 + second) * NANOS_PER_SECOND + frac_nanos, rest)
   }"

definition parse_offset :: "string \<Rightarrow> int option" where
  "parse_offset s =
     (if s = ''Z'' then Some 0
      else do {
        (negative, rest) \<leftarrow> (case s of [] \<Rightarrow> None
           | c # cs \<Rightarrow> if c = CHR ''+'' then Some (False, cs) else if c = CHR ''-'' then Some (True, cs) else None);
        (hours, rest) \<leftarrow> fixed_digits rest 2;
        rest \<leftarrow> strip_prefix (CHR '':'') rest;
        (minutes, rest) \<leftarrow> fixed_digits rest 2;
        seconds \<leftarrow> (case strip_prefix (CHR '':'') rest of
            Some after \<Rightarrow> do { (secs, after) \<leftarrow> fixed_digits after 2; if after \<noteq> [] then None else Some secs }
          | None \<Rightarrow> if rest = [] then Some 0 else None);
        if minutes > 59 \<or> seconds > 59 then None
        else let total = hours * 3600 + minutes * 60 + seconds in
          if \<not> in_i32 total then None
          else if total > MAX_OFFSET_SECONDS then None
          else Some (if negative then - total else total)
      })"

definition format_local_micros :: "int \<Rightarrow> string" where
  "format_local_micros micros =
     (let micros_per_day = SECONDS_PER_DAY * MICROS_PER_SECOND;
          days = micros div micros_per_day;
          of_day = micros mod micros_per_day;
          sub = of_day mod MICROS_PER_SECOND;
          sod = of_day div MICROS_PER_SECOND;
          h = sod div 3600; m = sod div 60 mod 60; s = sod mod 60;
          date = format_civil days;
          time = ''T'' @ zpad 2 (nat h) @ '':'' @ zpad 2 (nat m) @ '':'' @ zpad 2 (nat s)
      in if sub = 0 then date @ time else date @ time @ ''.'' @ zpad 6 (nat sub))"

definition parse_local_micros :: "string \<Rightarrow> (int \<times> string) option" where
  "parse_local_micros s = do {
     (days, rest) \<leftarrow> parse_civil s;
     rest \<leftarrow> strip_prefix (CHR ''T'') rest;
     (nanos_of_day, rest) \<leftarrow> parse_time_of_day rest;
     Some (days * (SECONDS_PER_DAY * MICROS_PER_SECOND) + nanos_of_day div 1000, rest)
   }"

definition date_to_iso8601 :: "int \<Rightarrow> string" where
  "date_to_iso8601 days = format_civil days"

definition iso8601_to_date :: "string \<Rightarrow> int option" where
  "iso8601_to_date s = do {
     (days, rest) \<leftarrow> parse_civil s;
     if rest = [] \<and> in_i32 days then Some days else None
   }"

definition local_datetime_to_iso8601 :: "int \<Rightarrow> string" where
  "local_datetime_to_iso8601 micros = format_local_micros micros"

definition iso8601_to_local_datetime :: "string \<Rightarrow> int option" where
  "iso8601_to_local_datetime s = do {
     (micros, rest) \<leftarrow> parse_local_micros s;
     if rest = [] \<and> in_i64 micros then Some micros else None
   }"

text \<open>The errors of the text forms, with what their messages carry.\<close>

datatype text_error =
    OffsetOutOfRange int
  | NotAValueTag string
  | BadPayload string string string

definition datetime_to_iso8601 :: "int \<Rightarrow> int \<Rightarrow> text_error + string" where
  "datetime_to_iso8601 micros_utc offset_seconds =
     (if \<bar>offset_seconds\<bar> > MAX_OFFSET_SECONDS then Inl (OffsetOutOfRange offset_seconds)
      else
        let local = micros_utc + offset_seconds * MICROS_PER_SECOND;
            sign = (if offset_seconds < 0 then ''-'' else ''+'');
            off = \<bar>offset_seconds\<bar>;
            h = off div 3600; m = off div 60 mod 60; s = off mod 60;
            hm = format_local_micros local @ sign @ zpad 2 (nat h) @ '':'' @ zpad 2 (nat m)
        in Inr (if s = 0 then hm else hm @ '':'' @ zpad 2 (nat s)))"

definition iso8601_to_datetime :: "string \<Rightarrow> (int \<times> int) option" where
  "iso8601_to_datetime s = do {
     (local, rest) \<leftarrow> parse_local_micros s;
     offset \<leftarrow> parse_offset rest;
     let utc = local - offset * MICROS_PER_SECOND;
     if in_i64 utc then Some (utc, offset) else None
   }"

section \<open>Decimal printing and parsing\<close>

lemma of_char_digit: "d < 10 \<Longrightarrow> (of_char (digit_char d) :: nat) = 48 + d"
  by (simp add: digit_char_def)

lemma is_digit_char [simp]: "d < 10 \<Longrightarrow> is_ascii_digit (digit_char d)"
  by (simp add: is_ascii_digit_def of_char_digit)

lemma digit_value_char [simp]: "d < 10 \<Longrightarrow> digit_value (digit_char d) = d"
  by (simp add: digit_value_def of_char_digit)

lemma digits_value_snoc: "digits_value (s @ [c]) = 10 * digits_value s + digit_value c"
  by (simp add: digits_value_def)

lemma decimal_digits [simp]: "list_all is_ascii_digit (decimal n)"
  by (induction n rule: decimal.induct) (subst decimal.simps, auto)

lemma digits_value_decimal [simp]: "digits_value (decimal n) = n"
proof (induction n rule: decimal.induct)
  case (1 n)
  show ?case
  proof (cases "n < 10")
    case True
    then show ?thesis by (subst decimal.simps) (simp add: digits_value_def)
  next
    case False
    then have "digits_value (decimal (n div 10)) = n div 10" using 1 by simp
    then show ?thesis using False by (subst decimal.simps) (simp add: digits_value_snoc)
  qed
qed

lemma decimal_ne [simp]: "decimal n \<noteq> []"
  by (subst decimal.simps) auto

lemma length_decimal: "n < 10 ^ k \<Longrightarrow> 0 < k \<Longrightarrow> length (decimal n) \<le> k"
proof (induction n arbitrary: k rule: decimal.induct)
  case (1 n)
  show ?case
  proof (cases "n < 10")
    case True
    then show ?thesis using 1(3) by (subst decimal.simps) simp
  next
    case False
    then obtain k' where k: "k = Suc k'" "0 < k'" using 1(2,3) by (cases k; cases "k - 1") auto
    then have "length (decimal (n div 10)) \<le> k'" using 1 False by (intro "1.IH") auto
    then show ?thesis using False k by (subst decimal.simps) simp
  qed
qed

lemma digits_value_zeros: "digits_value (replicate k (CHR ''0'') @ s) = digits_value s"
  by (induction k) (simp_all add: digits_value_def digit_value_def)

lemma digits_value_zpad [simp]: "digits_value (zpad w n) = n"
  by (simp add: zpad_def digits_value_zeros)

lemma zpad_digits [simp]: "list_all is_ascii_digit (zpad w n)"
  by (auto simp: zpad_def list_all_iff is_ascii_digit_def decimal_digits [unfolded list_all_iff is_ascii_digit_def])

lemma length_zpad: "length (zpad w n) = max w (length (decimal n))"
  by (simp add: zpad_def)

lemma length_zpad_fits: "n < 10 ^ w \<Longrightarrow> 0 < w \<Longrightarrow> length (zpad w n) = w"
  using length_decimal [of n w] by (simp add: length_zpad)

lemma zpad_ne [simp]: "zpad w n \<noteq> []"
  by (simp add: zpad_def)

definition starts_digit :: "string \<Rightarrow> bool" where
  "starts_digit s = (case s of [] \<Rightarrow> False | c # _ \<Rightarrow> is_ascii_digit c)"

lemma digit_len_append: "list_all is_ascii_digit d \<Longrightarrow> \<not> starts_digit r \<Longrightarrow> digit_len (d @ r) = length d"
proof -
  assume d: "list_all is_ascii_digit d" and r: "\<not> starts_digit r"
  have eq: "takeWhile is_ascii_digit (d @ r) = d @ takeWhile is_ascii_digit r"
    using d by (induction d) auto
  show ?thesis using r unfolding digit_len_def eq by (cases r) (simp_all add: starts_digit_def)
qed

lemma fixed_digits_zpad:
  assumes "n < 10 ^ w" "0 < w" "n < 2 ^ 32"
  shows "fixed_digits (zpad w n @ r) w = Some (int n, r)"
  using length_zpad_fits [OF assms(1,2)] assms(3) by (simp add: fixed_digits_def parse_uint_def)

lemma fixed_two: "0 \<le> i \<Longrightarrow> i < 100 \<Longrightarrow> fixed_digits (zpad 2 (nat i) @ r) 2 = Some (i, r)"
  using fixed_digits_zpad [of "nat i" 2 r] by simp

lemma strip_prefix_simps [simp]:
  "strip_prefix c (c # s) = Some s" "strip_prefix c [] = None" "x \<noteq> c \<Longrightarrow> strip_prefix c (x # s) = None"
  by (simp_all add: strip_prefix_def)

section \<open>Dates read back\<close>

lemma civil_year_bound:
  assumes "civil_from_days days = (y, m, d)" "\<bar>days\<bar> \<le> 10 ^ 14"
  shows "\<bar>y\<bar> < 10 ^ 12"
proof -
  define y' where "y' = (if m \<le> 2 then y - 1 else y)"
  have v: "valid_date y m d" "days_from_civil y m d = days" using days_roundtrip [OF assms(1)] by auto
  define t where "t = (153 * (if m > 2 then m - 3 else m + 9) + 2) div 5 + d - 1"
  define u where "u = y' mod 400 * 365 + y' mod 400 div 4 - y' mod 400 div 100"
  have "days = y' div 400 * 146097 + (u + t) - 719468"
    using v(2) by (simp add: days_from_civil_def Let_def y'_def t_def u_def algebra_simps)
  moreover have "0 \<le> t" "t \<le> 400" using v(1)
    by (auto simp: t_def valid_date_def days_in_month_def split: if_splits)
  moreover have "0 \<le> u" "u \<le> 400 * 365 + 100"
  proof -
    have "0 \<le> y' mod 400" "y' mod 400 < 400" by simp_all
    then show "0 \<le> u" "u \<le> 400 * 365 + 100" unfolding u_def by linarith+
  qed
  ultimately have "\<bar>y' div 400\<bar> \<le> 10 ^ 9" using assms(2) by (simp add: abs_le_iff)
  moreover have "y' = 400 * (y' div 400) + y' mod 400" "0 \<le> y' mod 400" "y' mod 400 < 400" by simp_all
  ultimately have "\<bar>y'\<bar> \<le> 400 * 10 ^ 9 + 400" by linarith
  then show ?thesis by (auto simp: y'_def split: if_splits)
qed

lemma not_starts_dash [simp]: "\<not> starts_digit (CHR ''-'' # r)"
  by (simp add: starts_digit_def is_ascii_digit_def)

text \<open>A year of either sign, followed by the dash of the month.\<close>

definition year_text :: "int \<Rightarrow> string" where
  "year_text year =
     (if 0 \<le> year \<and> year \<le> 9999 then zpad 4 (nat year)
      else if year < 0 then ''-'' @ zpad 6 (nat (- year)) else ''+'' @ zpad 6 (nat year))"

lemma first_digit_not_sign: "zpad w n = c # cs \<Longrightarrow> c \<noteq> CHR ''+'' \<and> c \<noteq> CHR ''-''"
  using zpad_digits [of w n] by (auto simp: is_ascii_digit_def)

lemma parse_civil_year:
  assumes "\<bar>year\<bar> < 10 ^ 12"
  shows "parse_civil (year_text year @ CHR ''-'' # r) = do {
       (month, rest) \<leftarrow> fixed_digits r 2;
       rest \<leftarrow> strip_prefix (CHR ''-'') rest;
       (day, rest) \<leftarrow> fixed_digits rest 2;
       if \<not> (1 \<le> month \<and> month \<le> 12) \<or> day = 0 \<or> day > days_in_month year month then None
       else Some (days_from_civil year month day, rest) }"
proof -
  have uint: "parse_uint (2 ^ 63) (zpad w n) = Some n" if "n < 10 ^ 12" for w n
    using that by (simp add: parse_uint_def)
  have len: "length (zpad 6 n) \<le> 12" "6 \<le> length (zpad 6 n)" if "n < 10 ^ 12" for n
    using length_decimal [OF that] by (simp_all add: length_zpad)
  consider "0 \<le> year \<and> year \<le> 9999" | "year < 0" | "9999 < year" by linarith
  then show ?thesis
  proof cases
    case 1
    then have l: "length (zpad 4 (nat year)) = 4" by (intro length_zpad_fits) auto
    obtain c cs where c: "zpad 4 (nat year) = c # cs" "c \<noteq> CHR ''+''" "c \<noteq> CHR ''-''"
      using first_digit_not_sign zpad_ne by (metis list.exhaust)
    have dl: "digit_len (zpad 4 (nat year) @ CHR ''-'' # r) = 4" by (simp add: digit_len_append l)
    have "parse_uint (2 ^ 63) (zpad 4 (nat year)) = Some (nat year)" using 1 by (intro uint) auto
    then show ?thesis using 1 l dl c(2,3)
      by (simp add: year_text_def parse_civil_def c(1) [symmetric] split: list.split) (simp add: c(1))
  next
    case 2
    then have "nat (- year) < 10 ^ 12" using assms by simp
    then show ?thesis using 2 len [of "nat (- year)"] uint [of "nat (- year)" 6]
      by (simp add: year_text_def parse_civil_def digit_len_append)
  next
    case 3
    then have "nat year < 10 ^ 12" using assms by simp
    then show ?thesis using 3 len [of "nat year"] uint [of "nat year" 6]
      by (simp add: year_text_def parse_civil_def digit_len_append)
  qed
qed

lemma parse_format_civil:
  assumes "\<bar>days\<bar> \<le> 10 ^ 14"
  shows "parse_civil (format_civil days @ r) = Some (days, r)"
proof -
  obtain y m d where c: "civil_from_days days = (y, m, d)" by (cases "civil_from_days days")
  have v: "valid_date y m d" "days_from_civil y m d = days" using days_roundtrip [OF c] by auto
  have b: "1 \<le> m" "m \<le> 12" "1 \<le> d" "d \<le> days_in_month y m" "d < 100"
    using v(1) by (auto simp: valid_date_def days_in_month_def split: if_splits)
  have "format_civil days @ r = year_text y @ CHR ''-'' # zpad 2 (nat m) @ CHR ''-'' # zpad 2 (nat d) @ r"
    by (simp add: format_civil_def c year_text_def)
  then show ?thesis
    using b v(2) by (simp add: parse_civil_year [OF civil_year_bound [OF c assms]] fixed_two)
qed

section \<open>Times read back\<close>

definition ends_time :: "string \<Rightarrow> bool" where
  "ends_time r \<longleftrightarrow> \<not> starts_digit r \<and> strip_point r = None \<and> strip_prefix (CHR '':'') r = None"

lemma parse_seconds_text:
  assumes "0 \<le> s" "s < 60" "0 \<le> sub" "sub < 1000000" "ends_time r"
  shows "parse_seconds (CHR '':'' # zpad 2 (nat s) @ (if sub = 0 then r else CHR ''.'' # zpad 6 (nat sub) @ r)) =
    Some (s, sub * 1000, r)"
proof (cases "sub = 0")
  case True
  then show ?thesis using assms by (simp add: parse_seconds_def fixed_two ends_time_def)
next
  case False
  have "length (zpad 6 (nat sub)) = 6" using assms(3,4) by (intro length_zpad_fits) auto
  moreover have "parse_uint (2 ^ 63) (zpad 6 (nat sub)) = Some (nat sub)"
    using assms(3,4) by (simp add: parse_uint_def)
  ultimately show ?thesis
    using False assms by (simp add: parse_seconds_def fixed_two strip_point_def digit_len_append ends_time_def)
qed

lemma sod_split: "x div 3600 * 3600 + x div 60 mod 60 * 60 + x mod 60 = x" for x :: int
proof -
  have "x div 3600 = x div 60 div 60" by (simp add: div_mult2_eq [symmetric] zdiv_zmult2_eq [symmetric])
  then have "x div 3600 * 60 + x div 60 mod 60 = x div 60" by simp
  moreover have "x div 60 * 60 + x mod 60 = x" by simp
  ultimately show ?thesis by linarith
qed

lemma parse_format_local:
  assumes "\<bar>micros\<bar> \<le> 10 ^ 24" "ends_time r"
  shows "parse_local_micros (format_local_micros micros @ r) = Some (micros, r)"
proof -
  define day where "day = SECONDS_PER_DAY * MICROS_PER_SECOND"
  define days where "days = micros div day"
  define of_day where "of_day = micros mod day"
  define sub where "sub = of_day mod MICROS_PER_SECOND"
  define sod where "sod = of_day div MICROS_PER_SECOND"
  define h m s where "h = sod div 3600" and "m = sod div 60 mod 60" and "s = sod mod 60"
  have day: "day = 86400000000" by (simp add: day_def SECONDS_PER_DAY_def MICROS_PER_SECOND_def)
  have od: "0 \<le> of_day" "of_day < day" by (simp_all add: of_day_def day)
  have sub: "0 \<le> sub" "sub < 1000000" by (simp_all add: sub_def MICROS_PER_SECOND_def)
  have sod: "0 \<le> sod" "sod < 86400" using od unfolding sod_def day MICROS_PER_SECOND_def by linarith+
  have hms: "0 \<le> h" "h < 24" "0 \<le> m" "m < 60" "0 \<le> s" "s < 60"
    using sod unfolding h_def m_def s_def by simp_all
  have total: "h * 3600 + m * 60 + s = sod" unfolding h_def m_def s_def by (rule sod_split)
  have odv: "of_day = sod * 1000000 + sub" by (simp add: sod_def sub_def MICROS_PER_SECOND_def)
  have days: "\<bar>days\<bar> \<le> 10 ^ 14"
  proof -
    have "day * days + of_day = micros" by (simp add: days_def of_day_def)
    then show ?thesis using assms(1) od unfolding day by (simp add: abs_le_iff)
  qed
  have form: "format_local_micros micros @ r = format_civil days @ CHR ''T'' # zpad 2 (nat h) @ CHR '':'' # zpad 2 (nat m) @
      CHR '':'' # zpad 2 (nat s) @ (if sub = 0 then r else CHR ''.'' # zpad 6 (nat sub) @ r)"
    by (simp add: format_local_micros_def Let_def day_def [symmetric] days_def [symmetric] of_day_def [symmetric]
        sub_def [symmetric] sod_def [symmetric] h_def [symmetric] m_def [symmetric] s_def [symmetric])
  have "parse_time_of_day (zpad 2 (nat h) @ CHR '':'' # zpad 2 (nat m) @
      CHR '':'' # zpad 2 (nat s) @ (if sub = 0 then r else CHR ''.'' # zpad 6 (nat sub) @ r)) =
      Some (of_day * 1000, r)"
    using hms total odv
    by (simp add: parse_time_of_day_def fixed_two parse_seconds_text [OF hms(5,6) sub assms(2), simplified append_Cons] NANOS_PER_SECOND_def)
  then have "parse_local_micros (format_local_micros micros @ r) = Some (days * day + of_day, r)"
    unfolding form using parse_format_civil [OF days] by (simp add: parse_local_micros_def day_def)
  then show ?thesis by (simp add: days_def of_day_def)
qed

lemma ends_time_Nil [simp]: "ends_time []"
  by (simp add: ends_time_def starts_digit_def strip_point_def)

lemma parse_offset_text:
  assumes "\<bar>off\<bar> \<le> MAX_OFFSET_SECONDS" "h = \<bar>off\<bar> div 3600" "m = \<bar>off\<bar> div 60 mod 60" "s = \<bar>off\<bar> mod 60"
  shows "parse_offset ((if off < 0 then ''-'' else ''+'') @ zpad 2 (nat h) @ '':'' @ zpad 2 (nat m) @
    (if s = 0 then [] else '':'' @ zpad 2 (nat s))) = Some off"
proof -
  have a: "0 \<le> \<bar>off\<bar>" "\<bar>off\<bar> \<le> 64800" using assms(1) by (auto simp: MAX_OFFSET_SECONDS_def)
  have "0 \<le> h" "h < 100" unfolding assms(2) using a by linarith+
  then have hms: "0 \<le> h" "h < 100" "0 \<le> m" "m < 60" "0 \<le> s" "s < 60" by (simp_all add: assms(3,4))
  have total: "h * 3600 + m * 60 + s = \<bar>off\<bar>" unfolding assms(2-4) by (rule sod_split)
  have i32: "in_i32 \<bar>off\<bar>" using a by (simp add: in_i32_def)
  have two: "fixed_digits (zpad 2 (nat s)) 2 = Some (s, [])" using fixed_two [of s "[]"] hms by simp
  show ?thesis
    using hms total i32 assms(1) fixed_two [of m "[]"]
    by (cases "s = 0"; cases "off < 0") (auto simp: parse_offset_def fixed_two two Let_def)
qed

lemma offset_ends_time: "ends_time ((if off < 0 then ''-'' else ''+'') @ r)"
  by (simp add: ends_time_def starts_digit_def is_ascii_digit_def strip_point_def)

lemma date_reads_back:
  assumes "in_i32 days"
  shows "iso8601_to_date (date_to_iso8601 days) = Some days"
proof -
  have "\<bar>days\<bar> \<le> 10 ^ 14" using assms by (simp add: in_i32_def abs_le_iff)
  then show ?thesis
    using assms parse_format_civil [of days "[]"] by (simp add: iso8601_to_date_def date_to_iso8601_def)
qed

lemma local_datetime_reads_back:
  assumes "in_i64 micros"
  shows "iso8601_to_local_datetime (local_datetime_to_iso8601 micros) = Some micros"
proof -
  have "\<bar>micros\<bar> \<le> 10 ^ 24" using assms by (simp add: in_i64_def abs_le_iff)
  then show ?thesis
    using assms parse_format_local [of micros "[]"]
    by (simp add: iso8601_to_local_datetime_def local_datetime_to_iso8601_def)
qed

lemma datetime_reads_back:
  assumes "in_i64 micros"
  shows "case datetime_to_iso8601 micros off of
      Inl e \<Rightarrow> e = OffsetOutOfRange off \<and> 18 * 3600 < \<bar>off\<bar>
    | Inr text \<Rightarrow> \<bar>off\<bar> \<le> 18 * 3600 \<and> iso8601_to_datetime text = Some (micros, off)"
proof (cases "\<bar>off\<bar> \<le> MAX_OFFSET_SECONDS")
  case True
  define r where "r = (if off < 0 then ''-'' else ''+'') @ zpad 2 (nat (\<bar>off\<bar> div 3600)) @ '':'' @
    zpad 2 (nat (\<bar>off\<bar> div 60 mod 60)) @ (if \<bar>off\<bar> mod 60 = 0 then [] else '':'' @ zpad 2 (nat (\<bar>off\<bar> mod 60)))"
  define local where "local = micros + off * MICROS_PER_SECOND"
  have form: "datetime_to_iso8601 micros off = Inr (format_local_micros local @ r)"
    using True by (simp add: datetime_to_iso8601_def Let_def r_def local_def)
  have "\<bar>local\<bar> \<le> 10 ^ 24"
    using assms True by (simp add: local_def in_i64_def MICROS_PER_SECOND_def MAX_OFFSET_SECONDS_def abs_le_iff)
  then have "parse_local_micros (format_local_micros local @ r) = Some (local, r)"
    by (rule parse_format_local) (simp only: r_def offset_ends_time)
  moreover have "parse_offset r = Some off" unfolding r_def by (rule parse_offset_text [OF True refl refl refl])
  ultimately show ?thesis
    using True assms by (simp add: form iso8601_to_datetime_def local_def MAX_OFFSET_SECONDS_def)
next
  case False
  then show ?thesis by (simp add: datetime_to_iso8601_def MAX_OFFSET_SECONDS_def)
qed

section \<open>Properties\<close>

text \<open>Every representable date, local date-time and date-time with a valid offset has text
  that parses back to exactly that value, expanded years included; a date-time whose offset
  is past 18 hours is the one value with no text.\<close>

theorem iso8601_roundtrips:
  "(in_i32 days \<longrightarrow> iso8601_to_date (date_to_iso8601 days) = Some days) \<and>
   (in_i64 micros \<longrightarrow> iso8601_to_local_datetime (local_datetime_to_iso8601 micros) = Some micros) \<and>
   (in_i64 micros \<longrightarrow>
     (case datetime_to_iso8601 micros off of
        Inl e \<Rightarrow> e = OffsetOutOfRange off \<and> 18 * 3600 < \<bar>off\<bar>
      | Inr text \<Rightarrow> \<bar>off\<bar> \<le> 18 * 3600 \<and> iso8601_to_datetime text = Some (micros, off)))"
  using date_reads_back local_datetime_reads_back datetime_reads_back by blast

theorem iso8601_roundtrips_witness:
  "iso8601_to_date (date_to_iso8601 (- 719529)) = Some (- 719529) \<and>
   iso8601_to_local_datetime (local_datetime_to_iso8601 (- 1)) = Some (- 1) \<and>
   (\<exists>text. datetime_to_iso8601 (- 1) (- 19815) = Inr text \<and> iso8601_to_datetime text = Some (- 1, - 19815)) \<and>
   datetime_to_iso8601 (- 1) 64801 = Inl (OffsetOutOfRange 64801)"
  using iso8601_roundtrips [of "- 719529" "- 1" "- 19815"] iso8601_roundtrips [of "- 719529" "- 1" 64801]
  by (auto simp: in_i32_def in_i64_def split: sum.splits)

end
