(* ===== verification/Duration_Text.thy ===== *)
theory Duration_Text
  imports Iso_Text
begin

text \<open>
  The ISO 8601 text of durations, \<open>crates/core-storage/src/types.rs\<close>: months, days and
  nanoseconds printed as independent signed components and parsed back with every check
  of order, fraction and overflow. The unit of a component is its first byte; a longer
  character is no unit the callers accept, so they refuse it as the code does. The
  \<open>i128\<close> sums of the time part stay far inside their type and are integers here.
\<close>

section \<open>The code\<close>

definition NANOS_PER_MINUTE :: int where "NANOS_PER_MINUTE = 60 * NANOS_PER_SECOND"
definition NANOS_PER_HOUR :: int where "NANOS_PER_HOUR = 60 * NANOS_PER_MINUTE"

text \<open>\<open>Display\<close> of a signed integer.\<close>

definition show_int :: "int \<Rightarrow> string" where
  "show_int i = (if i < 0 then ''-'' @ decimal (nat (- i)) else decimal (nat i))"

definition trim_end_matches :: "char \<Rightarrow> string \<Rightarrow> string" where
  "trim_end_matches c s = rev (dropWhile (\<lambda>x. x = c) (rev s))"

definition seconds_text :: "string \<Rightarrow> int \<Rightarrow> int \<Rightarrow> string" where
  "seconds_text sign seconds frac =
     (if seconds \<noteq> 0 \<or> frac \<noteq> 0
      then sign @ decimal (nat seconds) @
        (if frac \<noteq> 0 then ''.'' @ trim_end_matches (CHR ''0'') (zpad 9 (nat frac)) else []) @ ''S''
      else [])"

definition duration_to_iso8601 :: "int \<Rightarrow> int \<Rightarrow> int \<Rightarrow> string" where
  "duration_to_iso8601 months days nanos =
     (let month_sign = (if months < 0 then ''-'' else []);
          years = \<bar>months\<bar> div 12; rest_months = \<bar>months\<bar> mod 12;
          date = (if years \<noteq> 0 then month_sign @ decimal (nat years) @ ''Y'' else []) @
            (if rest_months \<noteq> 0 then month_sign @ decimal (nat rest_months) @ ''M'' else []) @
            (if days \<noteq> 0 then show_int days @ ''D'' else []);
          time = (if nanos \<noteq> 0 then
              let sign = (if nanos < 0 then ''-'' else []); abs = \<bar>nanos\<bar>;
                  hours = abs div NANOS_PER_HOUR;
                  minutes = abs mod NANOS_PER_HOUR div NANOS_PER_MINUTE;
                  seconds = abs mod NANOS_PER_MINUTE div NANOS_PER_SECOND;
                  frac = abs mod NANOS_PER_SECOND
              in ''T'' @
                (if hours \<noteq> 0 then sign @ decimal (nat hours) @ ''H'' else []) @
                (if minutes \<noteq> 0 then sign @ decimal (nat minutes) @ ''M'' else []) @
                seconds_text sign seconds frac
            else []);
          out = ''P'' @ date @ time
      in if out = ''P'' then out @ ''T0S'' else out)"

definition opt_minus :: "string \<Rightarrow> bool \<times> string" where
  "opt_minus s = (case strip_prefix (CHR ''-'') s of Some rest \<Rightarrow> (True, rest) | None \<Rightarrow> (False, s))"

definition duration_component :: "string \<Rightarrow> (int \<times> char \<times> int option \<times> string) option" where
  "duration_component s =
     (case opt_minus s of (negative, rest) \<Rightarrow>
       let int_len = digit_len rest in
       if int_len = 0 then None
       else do {
         magnitude \<leftarrow> parse_uint (2 ^ 63) (take int_len rest);
         let rest = drop int_len rest;
         (frac, rest) \<leftarrow> (case strip_point rest of
             None \<Rightarrow> Some (None, rest)
           | Some after_dot \<Rightarrow>
               let frac_len = digit_len after_dot in
               if frac_len = 0 \<or> frac_len > 9 then None
               else do {
                 digits \<leftarrow> parse_uint (2 ^ 127) (take frac_len after_dot);
                 Some (Some (int digits * 10 ^ (9 - frac_len)), drop frac_len after_dot)
               });
         (case rest of [] \<Rightarrow> None
          | unit # next \<Rightarrow> Some (if negative then - int magnitude else int magnitude, unit, frac, next))
       })"

definition checked :: "int \<Rightarrow> int option" where
  "checked i = (if in_i64 i then Some i else None)"

definition date_rank :: "char \<Rightarrow> nat option" where
  "date_rank u = (if u = CHR ''Y'' then Some 1 else if u = CHR ''M'' then Some 2
     else if u = CHR ''W'' then Some 3 else if u = CHR ''D'' then Some 4 else None)"

definition time_rank :: "char \<Rightarrow> nat option" where
  "time_rank u = (if u = CHR ''H'' then Some 1 else if u = CHR ''M'' then Some 2
     else if u = CHR ''S'' then Some 3 else None)"

definition add_date :: "char \<Rightarrow> int \<Rightarrow> int \<times> int \<Rightarrow> (int \<times> int) option" where
  "add_date u n md =
     (case md of (months, days) \<Rightarrow>
        if u = CHR ''Y'' then do { p \<leftarrow> checked (n * 12); m \<leftarrow> checked (months + p); Some (m, days) }
        else if u = CHR ''M'' then do { m \<leftarrow> checked (months + n); Some (m, days) }
        else if u = CHR ''W'' then do { p \<leftarrow> checked (n * 7); d \<leftarrow> checked (days + p); Some (months, d) }
        else do { d \<leftarrow> checked (days + n); Some (months, d) })"

definition time_scale :: "char \<Rightarrow> int" where
  "time_scale u = (if u = CHR ''H'' then NANOS_PER_HOUR else if u = CHR ''M'' then NANOS_PER_MINUTE else NANOS_PER_SECOND)"

lemma duration_component_shorter:
  assumes "duration_component s = Some (n, u, f, r)"
  shows "length r < length s"
proof -
  have "length (snd (opt_minus s)) \<le> length s"
    by (auto simp: opt_minus_def strip_prefix_def split: list.splits option.splits if_splits)
  moreover have "length r < length (snd (opt_minus s))"
    using assms
    by (auto simp: duration_component_def Let_def strip_point_def split: prod.splits if_splits list.splits bind_splits;
        metis length_drop length_Cons diff_le_self le_imp_less_Suc lessI less_le_trans le_trans drop_eq_Nil list.size(4) diff_less_Suc Suc_leD)
  ultimately show ?thesis by simp
qed

function (sequential) date_loop :: "string \<Rightarrow> nat \<Rightarrow> int \<times> int \<Rightarrow> bool \<Rightarrow> ((int \<times> int) \<times> bool) option" where
  "date_loop [] order md any = Some (md, any)"
| "date_loop cursor order md any =
     (case duration_component cursor of
        None \<Rightarrow> None
      | Some (n, unit, frac, next) \<Rightarrow>
          if frac \<noteq> None then None
          else (case date_rank unit of
              None \<Rightarrow> None
            | Some rank \<Rightarrow>
                if rank \<le> order then None
                else (case add_date unit n md of None \<Rightarrow> None | Some md' \<Rightarrow> date_loop next rank md' True)))"
  by pat_completeness auto
termination
  by (relation "measure (\<lambda>(cursor, _). length cursor)") (auto dest: duration_component_shorter)

function (sequential) time_loop :: "string \<Rightarrow> nat \<Rightarrow> int \<Rightarrow> bool \<Rightarrow> (int \<times> bool) option" where
  "time_loop [] order nanos any = Some (nanos, any)"
| "time_loop cursor order nanos any =
     (case duration_component cursor of
        None \<Rightarrow> None
      | Some (n, unit, frac, next) \<Rightarrow>
          (case time_rank unit of
             None \<Rightarrow> None
           | Some rank \<Rightarrow>
               if rank \<le> order \<or> (frac \<noteq> None \<and> unit \<noteq> CHR ''S'') then None
               else
                 let part = n * time_scale unit +
                       (case frac of None \<Rightarrow> 0
                        | Some f \<Rightarrow> if n < 0 \<or> strip_prefix (CHR ''-'') cursor \<noteq> None then - f else f)
                 in time_loop next rank (nanos + part) True))"
  by pat_completeness auto
termination
  by (relation "measure (\<lambda>(cursor, _). length cursor)") (auto dest: duration_component_shorter)

definition split_once :: "char \<Rightarrow> string \<Rightarrow> (string \<times> string) option" where
  "split_once c s =
     (case dropWhile (\<lambda>x. x \<noteq> c) s of [] \<Rightarrow> None | _ # t \<Rightarrow> Some (takeWhile (\<lambda>x. x \<noteq> c) s, t))"

definition iso8601_to_duration :: "string \<Rightarrow> (int \<times> int \<times> int) option" where
  "iso8601_to_duration s =
     (case opt_minus s of (negate_all, rest) \<Rightarrow> do {
        body \<leftarrow> strip_prefix (CHR ''P'') rest;
        let (date_part, time_part) =
          (case split_once (CHR ''T'') body of Some (d, t) \<Rightarrow> (d, Some t) | None \<Rightarrow> (body, None));
        ((months, days), any) \<leftarrow> date_loop date_part 0 (0, 0) False;
        (nanos, any) \<leftarrow> (case time_part of
            None \<Rightarrow> Some (0, any)
          | Some t \<Rightarrow> if t = [] then None else time_loop t 0 0 any);
        if \<not> any then None
        else do {
          (months, days, nanos) \<leftarrow>
            (if negate_all then do { m \<leftarrow> checked (- months); d \<leftarrow> checked (- days); Some (m, d, - nanos) }
             else Some (months, days, nanos));
          if in_i32 months \<and> in_i32 days \<and> in_i64 nanos then Some (months, days, nanos) else None
        }
      })"

section \<open>Components read back\<close>

text \<open>One printed component: a sign, a magnitude, perhaps a fraction, a unit.\<close>

definition is_unit :: "char \<Rightarrow> bool" where
  "is_unit u \<longleftrightarrow> u \<in> {CHR ''Y'', CHR ''M'', CHR ''D'', CHR ''H'', CHR ''S''}"

definition sign_text :: "bool \<Rightarrow> string" where
  "sign_text neg = (if neg then ''-'' else [])"

lemma digit_not: "is_ascii_digit c \<Longrightarrow> c \<noteq> CHR ''-'' \<and> c \<noteq> CHR ''.'' \<and> c \<noteq> CHR '','' \<and> c \<noteq> CHR ''T''"
  by (auto simp: is_ascii_digit_def)

lemma decimal_first: "decimal n = c # cs \<Longrightarrow> is_ascii_digit c"
  using decimal_digits [of n] by simp

lemma opt_minus_sign: "opt_minus (sign_text neg @ decimal n @ r) = (neg, decimal n @ r)"
proof (cases "decimal n")
  case (Cons c cs)
  then have "c \<noteq> CHR ''-''" using decimal_first digit_not by blast
  then show ?thesis by (simp add: opt_minus_def sign_text_def Cons)
qed simp

lemma unit_not_digit: "is_unit u \<Longrightarrow> \<not> starts_digit (u # r) \<and> strip_point (u # r) = None"
  by (auto simp: is_unit_def starts_digit_def strip_point_def is_ascii_digit_def)

lemma component_whole:
  assumes "is_unit u" "n < 2 ^ 63"
  shows "duration_component (sign_text neg @ decimal n @ u # r) =
    Some (if neg then - int n else int n, u, None, r)"
proof -
  have "digit_len (decimal n @ u # r) = length (decimal n)"
    using unit_not_digit [OF assms(1), of r] by (simp add: digit_len_append)
  moreover have "parse_uint (2 ^ 63) (decimal n) = Some n" using assms(2) by (simp add: parse_uint_def)
  ultimately show ?thesis
    using unit_not_digit [OF assms(1), of r] by (simp add: duration_component_def opt_minus_sign)
qed

lemma digits_value_append: "digits_value (s @ t) = digits_value s * 10 ^ length t + digits_value t"
proof (induction t rule: rev_induct)
  case (snoc c t)
  then show ?case by (simp add: digits_value_snoc append.assoc [symmetric] algebra_simps del: append_assoc append.assoc)
qed (simp add: digits_value_def)

lemma digits_value_zero_list: "digits_value (replicate k (CHR ''0'')) = 0"
  using digits_value_zeros [of k "[]"] by (simp add: digits_value_def)

lemma trim_zeros:
  obtains k where "s = trim_end_matches (CHR ''0'') s @ replicate k (CHR ''0'')"
proof -
  define z where "z = takeWhile (\<lambda>x. x = CHR ''0'') (rev s)"
  have "rev s = z @ dropWhile (\<lambda>x. x = CHR ''0'') (rev s)" by (simp add: z_def)
  then have "s = trim_end_matches (CHR ''0'') s @ rev z" by (metis rev_append rev_rev_ident trim_end_matches_def)
  moreover have "rev z = replicate (length z) (CHR ''0'')"
    by (rule replicate_eqI) (auto simp: z_def dest: set_takeWhileD)
  ultimately show ?thesis using that by metis
qed

lemma trim_zpad:
  assumes "0 < f" "f < 10 ^ 9" "t = trim_end_matches (CHR ''0'') (zpad 9 f)"
  shows "list_all is_ascii_digit t" "t \<noteq> []" "length t \<le> 9" "digits_value t * 10 ^ (9 - length t) = f"
    "digits_value t < 2 ^ 127"
proof -
  obtain k where k: "zpad 9 f = t @ replicate k (CHR ''0'')" using trim_zeros assms(3) by metis
  have "length (zpad 9 f) = 9" using assms(2) by (intro length_zpad_fits) auto
  then have l: "length t + k = 9" by (simp add: k)
  show "list_all is_ascii_digit t" using zpad_digits [of 9 f] by (simp add: k)
  show "length t \<le> 9" using l by simp
  have v: "f = digits_value t * 10 ^ k" using digits_value_zpad [of 9 f]
    by (simp add: k digits_value_append digits_value_zero_list)
  then show "t \<noteq> []" using assms(1) by (auto simp: digits_value_def)
  show "digits_value t * 10 ^ (9 - length t) = f" using v l by (metis add_diff_cancel_left')
  have "digits_value t * 1 \<le> f" unfolding v by (rule mult_le_mono) auto
  then show "digits_value t < 2 ^ 127" using assms(2) by simp
qed

lemma component_fraction:
  assumes "n < 2 ^ 63" "0 < f" "f < 10 ^ 9"
  shows "duration_component (sign_text neg @ decimal n @ CHR ''.'' # trim_end_matches (CHR ''0'') (zpad 9 f) @ CHR ''S'' # r) =
    Some (if neg then - int n else int n, CHR ''S'', Some (int f), r)"
proof -
  define t where "t = trim_end_matches (CHR ''0'') (zpad 9 f)"
  note t = trim_zpad [OF assms(2,3) t_def]
  have point: "\<not> starts_digit (CHR ''.'' # x)" for x by (simp add: starts_digit_def is_ascii_digit_def)
  have S: "\<not> starts_digit (CHR ''S'' # r)" by (simp add: starts_digit_def is_ascii_digit_def)
  have "digit_len (decimal n @ CHR ''.'' # t @ CHR ''S'' # r) = length (decimal n)"
    using point by (simp add: digit_len_append)
  moreover have "digit_len (t @ CHR ''S'' # r) = length t" using t(1) S by (simp add: digit_len_append)
  moreover have "parse_uint (2 ^ 63) (decimal n) = Some n" using assms(1) by (simp add: parse_uint_def)
  moreover have "parse_uint (2 ^ 127) t = Some (digits_value t)" using t by (simp add: parse_uint_def)
  moreover have "int (digits_value t) * 10 ^ (9 - length t) = int f" using t(4) by (metis of_nat_mult of_nat_numeral of_nat_power)
  ultimately show ?thesis
    using t(2,3) by (simp add: duration_component_def opt_minus_sign strip_point_def t_def [symmetric])
qed

section \<open>The loops over printed components\<close>

lemma loop_unfold:
  assumes "duration_component c = Some (n, u, f, r)"
  shows "date_loop c order md any =
      (if f \<noteq> None then None
       else (case date_rank u of None \<Rightarrow> None
         | Some rank \<Rightarrow> if rank \<le> order then None
             else (case add_date u n md of None \<Rightarrow> None | Some md' \<Rightarrow> date_loop r rank md' True)))"
    "time_loop c order nanos any =
      (case time_rank u of None \<Rightarrow> None
       | Some rank \<Rightarrow> if rank \<le> order \<or> (f \<noteq> None \<and> u \<noteq> CHR ''S'') then None
           else time_loop r rank (nanos + (n * time_scale u +
             (case f of None \<Rightarrow> 0 | Some f \<Rightarrow> if n < 0 \<or> strip_prefix (CHR ''-'') c \<noteq> None then - f else f))) True)"
proof -
  have "c \<noteq> []" using duration_component_shorter [OF assms] by auto
  then obtain x xs where "c = x # xs" by (cases c) auto
  then show "date_loop c order md any =
      (if f \<noteq> None then None
       else (case date_rank u of None \<Rightarrow> None
         | Some rank \<Rightarrow> if rank \<le> order then None
             else (case add_date u n md of None \<Rightarrow> None | Some md' \<Rightarrow> date_loop r rank md' True)))"
    "time_loop c order nanos any =
      (case time_rank u of None \<Rightarrow> None
       | Some rank \<Rightarrow> if rank \<le> order \<or> (f \<noteq> None \<and> u \<noteq> CHR ''S'') then None
           else time_loop r rank (nanos + (n * time_scale u +
             (case f of None \<Rightarrow> 0 | Some f \<Rightarrow> if n < 0 \<or> strip_prefix (CHR ''-'') c \<noteq> None then - f else f))) True)"
    using assms by (simp_all add: Let_def split: option.split)
qed

declare date_loop.simps(2) [simp del] time_loop.simps(2) [simp del]

lemmas loop_whole = loop_unfold [OF component_whole]

lemma strip_sign: "strip_prefix (CHR ''-'') (sign_text neg @ decimal n @ r) \<noteq> None \<longleftrightarrow> neg"
proof (cases "decimal n")
  case (Cons c cs)
  then have "c \<noteq> CHR ''-''" using decimal_first digit_not by blast
  then show ?thesis by (auto simp: sign_text_def Cons)
qed simp

definition part :: "bool \<Rightarrow> nat \<Rightarrow> char \<Rightarrow> string" where
  "part neg n u = (if n = 0 then [] else sign_text neg @ decimal n @ [u])"

definition with_sign :: "bool \<Rightarrow> nat \<Rightarrow> int" where
  "with_sign neg n = (if neg then - int n else int n)"

lemma part_shape: "part neg n u @ r = (if n = 0 then r else sign_text neg @ decimal n @ u # r)"
  by (simp add: part_def)

lemma date_parts:
  assumes "years < 2 ^ 31" "months < 12" "days < 2 ^ 32"
  shows "date_loop (part neg years (CHR ''Y'') @ part neg months (CHR ''M'') @ part neg' days (CHR ''D'')) 0 (0, 0) False =
    Some ((with_sign neg years * 12 + with_sign neg months, with_sign neg' days), years \<noteq> 0 \<or> months \<noteq> 0 \<or> days \<noteq> 0)"
proof -
  have unit: "is_unit (CHR ''Y'')" "is_unit (CHR ''M'')" "is_unit (CHR ''D'')" by (simp_all add: is_unit_def)
  have ok: "checked (with_sign neg years * 12) = Some (with_sign neg years * 12)"
    "checked (with_sign neg years * 12 + with_sign neg months) = Some (with_sign neg years * 12 + with_sign neg months)"
    "checked (with_sign neg months) = Some (with_sign neg months)"
    "checked (with_sign neg' days) = Some (with_sign neg' days)"
    using assms by (auto simp: checked_def in_i64_def with_sign_def)
  have sg: "(if b then - int k else int k) = with_sign b k" for b k by (simp add: with_sign_def)
  have z: "with_sign b 0 = 0" for b by (simp add: with_sign_def)
  have dpart: "date_loop (part neg' days (CHR ''D'')) k (m, 0) any =
      Some ((m, with_sign neg' days), any \<or> days \<noteq> 0)" if "k < 4" for k m any
    using that loop_whole(1) [OF unit(3), of days neg' "[]"] assms(3) ok(4)
    by (simp add: part_def date_rank_def add_date_def sg z)
  have mpart: "date_loop (part neg months (CHR ''M'') @ part neg' days (CHR ''D'')) k (with_sign neg years * 12, 0) any =
      Some ((with_sign neg years * 12 + with_sign neg months, with_sign neg' days), any \<or> months \<noteq> 0 \<or> days \<noteq> 0)"
    if "k < 2" for k any
    using that loop_whole(1) [OF unit(2), of months neg "part neg' days (CHR ''D'')"] assms(2) ok(2) dpart
    by (simp add: part_shape date_rank_def add_date_def sg z)
  show ?thesis
  proof (cases "years = 0")
    case True
    then show ?thesis using mpart [of 0 False] by (simp add: part_shape z)
  next
    case False
    then show ?thesis
      using loop_whole(1) [OF unit(1), of years neg "part neg months (CHR ''M'') @ part neg' days (CHR ''D'')"] assms(1) ok(1) mpart
      by (simp add: part_shape date_rank_def add_date_def sg)
  qed
qed

definition sec_part :: "bool \<Rightarrow> nat \<Rightarrow> nat \<Rightarrow> string" where
  "sec_part neg secs frac =
     (if secs = 0 \<and> frac = 0 then []
      else sign_text neg @ decimal secs @
        (if frac \<noteq> 0 then CHR ''.'' # trim_end_matches (CHR ''0'') (zpad 9 frac) @ ''S'' else ''S''))"

lemma sec_loop:
  assumes "secs < 60" "frac < 10 ^ 9" "order < 3"
  shows "time_loop (sec_part neg secs frac) order nanos any =
    Some (nanos + (with_sign neg secs * NANOS_PER_SECOND + with_sign neg frac), any \<or> secs \<noteq> 0 \<or> frac \<noteq> 0)"
proof (cases "frac = 0")
  case True
  have "is_unit (CHR ''S'')" by (simp add: is_unit_def)
  then show ?thesis
    using True assms loop_whole(2) [of "CHR ''S''" secs neg "[]"]
    by (simp add: sec_part_def time_rank_def time_scale_def with_sign_def)
next
  case False
  have "duration_component (sec_part neg secs frac) = Some (with_sign neg secs, CHR ''S'', Some (int frac), [])"
    using component_fraction [of secs frac neg "[]"] False assms by (simp add: sec_part_def with_sign_def)
  moreover have "strip_prefix (CHR ''-'') (sec_part neg secs frac) \<noteq> None \<longleftrightarrow> neg"
    using False strip_sign by (simp add: sec_part_def)
  ultimately show ?thesis
    using assms(3) False by (auto simp: loop_unfold time_rank_def time_scale_def with_sign_def)
qed

lemma time_parts:
  assumes "hours < 2 ^ 32" "minutes < 60" "secs < 60" "frac < 10 ^ 9"
  shows "time_loop (part neg hours (CHR ''H'') @ part neg minutes (CHR ''M'') @ sec_part neg secs frac) 0 0 any =
    Some (with_sign neg hours * NANOS_PER_HOUR + with_sign neg minutes * NANOS_PER_MINUTE +
      (with_sign neg secs * NANOS_PER_SECOND + with_sign neg frac),
      any \<or> hours \<noteq> 0 \<or> minutes \<noteq> 0 \<or> secs \<noteq> 0 \<or> frac \<noteq> 0)"
proof -
  have unit: "is_unit (CHR ''H'')" "is_unit (CHR ''M'')" by (simp_all add: is_unit_def)
  have sg: "(if b then - int k else int k) = with_sign b k" for b k by (simp add: with_sign_def)
  have z: "with_sign b 0 = 0" for b by (simp add: with_sign_def)
  have mpart: "time_loop (part neg minutes (CHR ''M'') @ sec_part neg secs frac) k n any =
      Some (n + with_sign neg minutes * NANOS_PER_MINUTE + (with_sign neg secs * NANOS_PER_SECOND + with_sign neg frac),
        any \<or> minutes \<noteq> 0 \<or> secs \<noteq> 0 \<or> frac \<noteq> 0)"
    if "k < 2" for k n any
    using that loop_whole(2) [OF unit(2), of minutes neg "sec_part neg secs frac"] assms(2) sec_loop [OF assms(3,4)]
    by (simp add: part_shape time_rank_def time_scale_def sg z)
  show ?thesis
  proof (cases "hours = 0")
    case True
    then show ?thesis using mpart [of 0 0 any] by (simp add: part_shape z)
  next
    case False
    then show ?thesis
      using loop_whole(2) [OF unit(1), of hours neg "part neg minutes (CHR ''M'') @ sec_part neg secs frac"] assms(1) mpart
      by (simp add: part_shape time_rank_def time_scale_def sg)
  qed
qed

section \<open>The whole text\<close>

lemma decimal_zero: "decimal 0 = ''0''"
  by code_simp

lemma part_no_T: "u \<noteq> CHR ''T'' \<Longrightarrow> CHR ''T'' \<notin> set (part neg n u)"
  using decimal_digits [of n] digit_not by (auto simp: part_def sign_text_def list_all_iff)

lemma split_once_at: "c \<notin> set d \<Longrightarrow> split_once c (d @ c # t) = Some (d, t)"
  by (induction d) (simp_all add: split_once_def split: list.splits)

lemma split_once_none: "c \<notin> set d \<Longrightarrow> split_once c d = None"
proof -
  assume "c \<notin> set d"
  then have eq: "dropWhile (\<lambda>x. x \<noteq> c) d = []" by (induction d) auto
  show ?thesis unfolding split_once_def eq by simp
qed

lemma parse_duration_parts:
  assumes "CHR ''T'' \<notin> set d"
    "date_loop d 0 (0, 0) False = Some ((months, days), any)"
    "t \<noteq> [] \<Longrightarrow> time_loop t 0 0 any = Some (nanos, True)" "t = [] \<Longrightarrow> nanos = 0 \<and> any"
    "in_i32 months" "in_i32 days" "in_i64 nanos"
  shows "iso8601_to_duration (CHR ''P'' # d @ (if t = [] then [] else CHR ''T'' # t)) = Some (months, days, nanos)"
  using assms
  by (cases "t = []") (auto simp: iso8601_to_duration_def opt_minus_def split_once_at split_once_none)

lemma with_sign_abs: "with_sign (i < 0) (nat \<bar>i\<bar>) = i"
  by (simp add: with_sign_def)

lemma part_text: "0 \<le> k \<Longrightarrow> (if k \<noteq> 0 then sign_text neg @ decimal (nat k) @ [u] else []) = part neg (nat k) u"
  by (simp add: part_def)

lemma nanos_split:
  fixes a :: int
  assumes "0 \<le> a" "a \<le> 2 ^ 63"
    "h = nat (a div NANOS_PER_HOUR)" "m = nat (a mod NANOS_PER_HOUR div NANOS_PER_MINUTE)"
    "s = nat (a mod NANOS_PER_MINUTE div NANOS_PER_SECOND)" "f = nat (a mod NANOS_PER_SECOND)"
  shows "h < 2 ^ 32" "m < 60" "s < 60" "f < 10 ^ 9"
    "int h * NANOS_PER_HOUR + int m * NANOS_PER_MINUTE + (int s * NANOS_PER_SECOND + int f) = a"
proof -
  have d: "NANOS_PER_HOUR = 3600000000000" "NANOS_PER_MINUTE = 60000000000" "NANOS_PER_SECOND = 1000000000"
    by (simp_all add: NANOS_PER_HOUR_def NANOS_PER_MINUTE_def NANOS_PER_SECOND_def)
  have pos: "0 \<le> a div NANOS_PER_HOUR" "0 \<le> a mod NANOS_PER_HOUR div NANOS_PER_MINUTE"
    "0 \<le> a mod NANOS_PER_MINUTE div NANOS_PER_SECOND" "0 \<le> a mod NANOS_PER_SECOND"
    using assms(1) unfolding d by (simp_all add: pos_imp_zdiv_nonneg_iff)
  have hb: "a div NANOS_PER_HOUR < 2 ^ 32" using assms(1,2) unfolding d by simp
  have mb: "a mod NANOS_PER_HOUR div NANOS_PER_MINUTE < 60"
    using pos_mod_bound [of NANOS_PER_HOUR a] pos_mod_bound [of NANOS_PER_MINUTE a] unfolding d by linarith
  have sb: "a mod NANOS_PER_MINUTE div NANOS_PER_SECOND < 60"
    using pos_mod_bound [of NANOS_PER_HOUR a] pos_mod_bound [of NANOS_PER_MINUTE a] unfolding d by linarith
  have fb: "a mod NANOS_PER_SECOND < 10 ^ 9" unfolding d by simp
  show "h < 2 ^ 32" "m < 60" "s < 60" "f < 10 ^ 9" using pos hb mb sb fb unfolding assms(3-6) by (simp_all add: nat_less_iff)
  have 1: "a mod NANOS_PER_HOUR mod NANOS_PER_MINUTE = a mod NANOS_PER_MINUTE"
    by (rule mod_mod_cancel) (simp add: NANOS_PER_HOUR_def)
  have 2: "a mod NANOS_PER_MINUTE mod NANOS_PER_SECOND = a mod NANOS_PER_SECOND"
    by (rule mod_mod_cancel) (simp add: NANOS_PER_MINUTE_def)
  have ints: "int h = a div NANOS_PER_HOUR" "int m = a mod NANOS_PER_HOUR div NANOS_PER_MINUTE"
    "int s = a mod NANOS_PER_MINUTE div NANOS_PER_SECOND" "int f = a mod NANOS_PER_SECOND"
    using pos by (simp_all add: assms(3-6))
  have "a div NANOS_PER_HOUR * NANOS_PER_HOUR + a mod NANOS_PER_HOUR = a" by simp
  moreover have "a mod NANOS_PER_HOUR div NANOS_PER_MINUTE * NANOS_PER_MINUTE + a mod NANOS_PER_MINUTE = a mod NANOS_PER_HOUR"
    using div_mult_mod_eq [of "a mod NANOS_PER_HOUR" NANOS_PER_MINUTE] by (simp only: 1)
  moreover have "a mod NANOS_PER_MINUTE div NANOS_PER_SECOND * NANOS_PER_SECOND + a mod NANOS_PER_SECOND = a mod NANOS_PER_MINUTE"
    using div_mult_mod_eq [of "a mod NANOS_PER_MINUTE" NANOS_PER_SECOND] by (simp only: 2)
  ultimately show "int h * NANOS_PER_HOUR + int m * NANOS_PER_MINUTE + (int s * NANOS_PER_SECOND + int f) = a"
    unfolding ints by linarith
qed

definition duration_date :: "int \<Rightarrow> int \<Rightarrow> string" where
  "duration_date months days =
     part (months < 0) (nat (\<bar>months\<bar> div 12)) (CHR ''Y'') @ part (months < 0) (nat (\<bar>months\<bar> mod 12)) (CHR ''M'') @
     part (days < 0) (nat \<bar>days\<bar>) (CHR ''D'')"

definition duration_time :: "int \<Rightarrow> string" where
  "duration_time nanos =
     part (nanos < 0) (nat (\<bar>nanos\<bar> div NANOS_PER_HOUR)) (CHR ''H'') @
     part (nanos < 0) (nat (\<bar>nanos\<bar> mod NANOS_PER_HOUR div NANOS_PER_MINUTE)) (CHR ''M'') @
     sec_part (nanos < 0) (nat (\<bar>nanos\<bar> mod NANOS_PER_MINUTE div NANOS_PER_SECOND)) (nat (\<bar>nanos\<bar> mod NANOS_PER_SECOND))"

lemma duration_date_loop:
  assumes "in_i32 months" "in_i32 days"
  shows "date_loop (duration_date months days) 0 (0, 0) False = Some ((months, days), months \<noteq> 0 \<or> days \<noteq> 0)"
proof -
  have b: "nat (\<bar>months\<bar> div 12) < 2 ^ 31" "nat (\<bar>months\<bar> mod 12) < 12" "nat \<bar>days\<bar> < 2 ^ 32"
    using assms by (auto simp: in_i32_def nat_less_iff)
  define q r where "q = \<bar>months\<bar> div 12" and "r = \<bar>months\<bar> mod 12"
  have qr: "q * 12 + r = \<bar>months\<bar>" "0 \<le> q" "0 \<le> r" by (simp_all add: q_def r_def pos_imp_zdiv_nonneg_iff)
  then have m: "with_sign (months < 0) (nat q) * 12 + with_sign (months < 0) (nat r) = months"
    by (cases "months < 0") (simp_all add: with_sign_def)
  have "nat q \<noteq> 0 \<or> nat r \<noteq> 0 \<longleftrightarrow> months \<noteq> 0" using qr by linarith
  then show ?thesis
    unfolding duration_date_def using date_parts [OF b, of "months < 0" "days < 0"] m with_sign_abs
    unfolding q_def r_def by auto
qed

lemma duration_time_loop:
  assumes "in_i64 nanos" "nanos \<noteq> 0"
  shows "time_loop (duration_time nanos) 0 0 any = Some (nanos, True)" "duration_time nanos \<noteq> []"
proof -
  define h m s f where "h = nat (\<bar>nanos\<bar> div NANOS_PER_HOUR)" and "m = nat (\<bar>nanos\<bar> mod NANOS_PER_HOUR div NANOS_PER_MINUTE)"
    and "s = nat (\<bar>nanos\<bar> mod NANOS_PER_MINUTE div NANOS_PER_SECOND)" and "f = nat (\<bar>nanos\<bar> mod NANOS_PER_SECOND)"
  have "\<bar>nanos\<bar> \<le> 2 ^ 63" using assms(1) by (auto simp: in_i64_def)
  note b = nanos_split [OF abs_ge_zero this h_def m_def s_def f_def]
  have some: "h \<noteq> 0 \<or> m \<noteq> 0 \<or> s \<noteq> 0 \<or> f \<noteq> 0"
  proof (rule ccontr)
    assume "\<not> (h \<noteq> 0 \<or> m \<noteq> 0 \<or> s \<noteq> 0 \<or> f \<noteq> 0)"
    then show False using b(5) assms(2) by simp
  qed
  have "with_sign (nanos < 0) h * NANOS_PER_HOUR + with_sign (nanos < 0) m * NANOS_PER_MINUTE +
      (with_sign (nanos < 0) s * NANOS_PER_SECOND + with_sign (nanos < 0) f) = nanos"
    using b(5) by (auto simp: with_sign_def)
  then show l: "time_loop (duration_time nanos) 0 0 any = Some (nanos, True)"
    unfolding duration_time_def h_def [symmetric] m_def [symmetric] s_def [symmetric] f_def [symmetric]
    using time_parts [OF b(1-4), of "nanos < 0" any] some by auto
  show "duration_time nanos \<noteq> []" using l assms(2) by auto
qed

lemma duration_text_shape:
  "duration_to_iso8601 months days nanos =
     (if months = 0 \<and> days = 0 \<and> nanos = 0 then ''PT0S''
      else CHR ''P'' # duration_date months days @ (if nanos = 0 then [] else CHR ''T'' # duration_time nanos))"
proof -
  have sgn: "(if i < 0 then ''-'' else []) = sign_text (i < 0)" for i :: int by (simp add: sign_text_def)
  have pos: "0 \<le> \<bar>i\<bar> div k" "0 \<le> \<bar>i\<bar> mod k" "0 \<le> \<bar>i\<bar> mod k div l" if "0 < k" "0 < l" for i k l :: int
    using that by (simp_all add: pos_imp_zdiv_nonneg_iff)
  have N: "0 < NANOS_PER_HOUR" "0 < NANOS_PER_MINUTE" "0 < NANOS_PER_SECOND"
    by (simp_all add: NANOS_PER_HOUR_def NANOS_PER_MINUTE_def NANOS_PER_SECOND_def)
  have day: "(if days \<noteq> 0 then show_int days @ ''D'' else []) = part (days < 0) (nat \<bar>days\<bar>) (CHR ''D'')"
    by (auto simp: show_int_def part_def sign_text_def)
  have sec: "seconds_text (sign_text neg) x y = sec_part neg (nat x) (nat y)" if "0 \<le> x" "0 \<le> y" for neg x y
    using that by (auto simp: seconds_text_def sec_part_def)
  have date: "(if \<bar>months\<bar> div 12 \<noteq> 0 then sign_text (months < 0) @ decimal (nat (\<bar>months\<bar> div 12)) @ ''Y'' else []) @
      (if \<bar>months\<bar> mod 12 \<noteq> 0 then sign_text (months < 0) @ decimal (nat (\<bar>months\<bar> mod 12)) @ ''M'' else []) @
      (if days \<noteq> 0 then show_int days @ ''D'' else []) = duration_date months days"
    unfolding duration_date_def day using pos [of 12 1 months] by (simp add: part_text)
  have time: "(if \<bar>nanos\<bar> div NANOS_PER_HOUR \<noteq> 0 then sign_text (nanos < 0) @ decimal (nat (\<bar>nanos\<bar> div NANOS_PER_HOUR)) @ ''H'' else []) @
      (if \<bar>nanos\<bar> mod NANOS_PER_HOUR div NANOS_PER_MINUTE \<noteq> 0
       then sign_text (nanos < 0) @ decimal (nat (\<bar>nanos\<bar> mod NANOS_PER_HOUR div NANOS_PER_MINUTE)) @ ''M'' else []) @
      seconds_text (sign_text (nanos < 0)) (\<bar>nanos\<bar> mod NANOS_PER_MINUTE div NANOS_PER_SECOND) (\<bar>nanos\<bar> mod NANOS_PER_SECOND) =
      duration_time nanos"
    unfolding duration_time_def using pos [of _ _ nanos] N by (simp add: part_text sec)
  have out: "duration_to_iso8601 months days nanos =
      (let out = CHR ''P'' # duration_date months days @ (if nanos \<noteq> 0 then CHR ''T'' # duration_time nanos else [])
       in if out = ''P'' then out @ ''T0S'' else out)"
    unfolding duration_to_iso8601_def Let_def sgn date time by simp
  have "duration_date months days = [] \<longleftrightarrow> months = 0 \<and> days = 0"
  proof -
    have "\<bar>months\<bar> div 12 * 12 + \<bar>months\<bar> mod 12 = \<bar>months\<bar>" by simp
    then show ?thesis using pos [of 12 1 months] by (auto simp: duration_date_def part_def)
  qed
  then show ?thesis unfolding out Let_def by (cases "months = 0 \<and> days = 0") auto
qed

lemma duration_reads_back:
  assumes "in_i32 months" "in_i32 days" "in_i64 nanos"
  shows "iso8601_to_duration (duration_to_iso8601 months days nanos) = Some (months, days, nanos)"
proof (cases "months = 0 \<and> days = 0 \<and> nanos = 0")
  case True
  have "duration_component ''0S'' = Some (0, CHR ''S'', None, [])"
    using component_whole [of "CHR ''S''" 0 False "[]"]
    by (simp add: is_unit_def sign_text_def decimal_zero)
  then have "time_loop ''0S'' 0 0 False = Some (0, True)" by (simp add: loop_unfold time_rank_def)
  then show ?thesis
    using True parse_duration_parts [of "[]" 0 0 False "''0S''" 0]
    by (simp add: duration_text_shape in_i32_def in_i64_def)
next
  case False
  have T: "CHR ''T'' \<notin> set (duration_date months days)" by (simp add: duration_date_def part_no_T)
  note d = duration_date_loop [OF assms(1,2)]
  show ?thesis
  proof (cases "nanos = 0")
    case True
    then show ?thesis
      using parse_duration_parts [OF T d, of "[]" 0] False assms by (auto simp: duration_text_shape)
  next
    case nz: False
    note t = duration_time_loop [OF assms(3) nz]
    show ?thesis
      using parse_duration_parts [OF T d, of "duration_time nanos" nanos] t nz assms by (simp add: duration_text_shape)
  qed
qed

section \<open>Properties\<close>

text \<open>Every representable duration prints to text that parses back to the same months, days
  and nanoseconds: no component is folded into another, each carries its own sign, and the
  trimmed fraction of a second loses nothing.\<close>

theorem duration_roundtrip:
  assumes "in_i32 months" "in_i32 days" "in_i64 nanos"
  shows "iso8601_to_duration (duration_to_iso8601 months days nanos) = Some (months, days, nanos)"
  using assms by (rule duration_reads_back)

theorem duration_roundtrip_witness:
  "iso8601_to_duration (duration_to_iso8601 (- 14) 3 (- 500000000)) = Some (- 14, 3, - 500000000)"
  by (rule duration_roundtrip) (simp_all add: in_i32_def in_i64_def)

end
