(* ===== verification/Base64.thy ===== *)
theory Base64
  imports Prelude "HOL-Library.Monad_Syntax"
begin

unbundle bit_operations_syntax

text \<open>
  Standard padded base64, \<open>crates/core-storage/src/types.rs\<close>, on 32-bit words as the code
  computes it. The input of the decoder is its bytes, one character each.
\<close>

section \<open>The code\<close>

definition BASE64_ALPHABET :: string where
  "BASE64_ALPHABET = ''ABCDEFGHIJKLMNOPQRSTUVWXYZabcdefghijklmnopqrstuvwxyz0123456789+/''"

definition get_or_zero :: "u8 list \<Rightarrow> nat \<Rightarrow> u8" where
  "get_or_zero xs i = (if i < length xs then xs ! i else 0)"

definition chunk_word :: "u8 list \<Rightarrow> u32" where
  "chunk_word chunk =
     push_bit 16 (ucast (get_or_zero chunk 0)) OR push_bit 8 (ucast (get_or_zero chunk 1)) OR ucast (get_or_zero chunk 2)"

definition encode_chunk :: "u8 list \<Rightarrow> string" where
  "encode_chunk chunk =
     map (\<lambda>i. if i \<le> length chunk
              then BASE64_ALPHABET ! unat (drop_bit (18 - 6 * i) (chunk_word chunk) AND 0x3f)
              else CHR ''='') [0..<4]"

definition base64_encode :: "u8 list \<Rightarrow> string" where
  "base64_encode bytes = concat (map encode_chunk (slice_chunks 3 bytes))"

definition sextet :: "char \<Rightarrow> u32 option" where
  "sextet c = (let b = of_char c :: nat in
     if 65 \<le> b \<and> b \<le> 90 then Some (of_nat (b - 65))
     else if 97 \<le> b \<and> b \<le> 122 then Some (of_nat (b - 97) + 26)
     else if 48 \<le> b \<and> b \<le> 57 then Some (of_nat (b - 48) + 52)
     else if c = CHR ''+'' then Some 62
     else if c = CHR ''/'' then Some 63
     else None)"

fun fold_sextets :: "string \<Rightarrow> u32 \<Rightarrow> u32 option" where
  "fold_sextets [] n = Some n"
| "fold_sextets (c # cs) n = do { k \<leftarrow> sextet c; fold_sextets cs (push_bit 6 n OR k) }"

text \<open>\<open>u32::to_be_bytes\<close>, without its first byte.\<close>

definition be_tail :: "u32 \<Rightarrow> u8 list" where
  "be_tail n = [ucast (drop_bit 16 n), ucast (drop_bit 8 n), ucast n]"

definition pad_of :: "string \<Rightarrow> nat" where
  "pad_of quad = length (takeWhile (\<lambda>c. c = CHR ''='') (rev quad))"

definition decode_quad :: "string \<Rightarrow> bool \<Rightarrow> u8 list option" where
  "decode_quad quad is_last =
     (let pad = pad_of quad in
      if pad > 2 \<or> (pad > 0 \<and> \<not> is_last) then None
      else do {
        n \<leftarrow> fold_sextets (take (4 - pad) quad) 0;
        let n = push_bit (6 * pad) n;
        if n AND (push_bit (8 * pad) 1 - 1) \<noteq> 0 then None
        else Some (take (3 - pad) (be_tail n))
      })"

fun decode_quads :: "string list \<Rightarrow> nat \<Rightarrow> nat \<Rightarrow> u8 list option" where
  "decode_quads [] i quads = Some []"
| "decode_quads (quad # rest) i quads = do {
     out \<leftarrow> decode_quad quad (i + 1 = quads);
     more \<leftarrow> decode_quads rest (i + 1) quads;
     Some (out @ more)
   }"

definition base64_decode :: "string \<Rightarrow> u8 list option" where
  "base64_decode s =
     (if length s mod 4 \<noteq> 0 then None
      else decode_quads (slice_chunks 4 s) 0 (length s div 4))"

section \<open>Words as numbers\<close>

lemma unat_shift:
  fixes n :: u32
  assumes "unat n * 2 ^ b < 2 ^ 32"
  shows "unat (push_bit b n) = unat n * 2 ^ b"
  unfolding unsigned_push_bit_eq using assms by (simp add: push_bit_eq_mult take_bit_nat_eq_self)

lemma unat_shift_or:
  fixes n k :: u32
  assumes "unat n * 2 ^ b < 2 ^ 32" "unat k < 2 ^ b"
  shows "unat (push_bit b n OR k) = unat n * 2 ^ b + unat k"
proof -
  have "take_bit b (unat k) = unat k" using assms(2) by (simp add: take_bit_nat_eq_self)
  then have "push_bit b (unat n) AND unat k = push_bit b (unat n) AND take_bit b (unat k)" by simp
  also have "\<dots> = 0" by (rule bit_eqI) (auto simp: bit_simps)
  finally have "push_bit b (unat n) OR unat k = push_bit b (unat n) + unat k"
    by (rule disjunctive_add_eq_or [symmetric])
  then show ?thesis using unat_shift [OF assms(1)] by (simp add: unsigned_or_eq push_bit_eq_mult)
qed

lemma unat_ucast_byte: "unat (ucast (b :: u8) :: u32) = unat b"
  unfolding unsigned_ucast_eq using byte_lt [of b] by (simp add: take_bit_nat_eq_self)

lemma chunk_word_value:
  "unat (chunk_word c) = unat (get_or_zero c 0) * 65536 + unat (get_or_zero c 1) * 256 + unat (get_or_zero c 2)"
proof -
  define a b d where "a = get_or_zero c 0" and "b = get_or_zero c 1" and "d = get_or_zero c 2"
  have l: "unat a < 256" "unat b < 256" "unat d < 256" by (rule byte_lt)+
  have bd: "unat (push_bit 8 (ucast b :: u32) OR ucast d) = unat b * 256 + unat d"
    using unat_shift_or [of "ucast b :: u32" 8 "ucast d"] l by (simp add: unat_ucast_byte)
  then have "unat (push_bit 16 (ucast a :: u32) OR (push_bit 8 (ucast b) OR ucast d)) = unat a * 65536 + (unat b * 256 + unat d)"
    using unat_shift_or [of "ucast a :: u32" 16 "push_bit 8 (ucast b) OR ucast d"] l by (simp add: unat_ucast_byte)
  then show ?thesis by (simp add: chunk_word_def a_def b_def d_def or.assoc)
qed

lemma unat_sextet_of: "unat (drop_bit k (n :: u32) AND 0x3f) = unat n div 2 ^ k mod 64"
proof -
  have "(0x3f :: u32) = mask 6" by (simp add: mask_eq_exp_minus_1)
  then have "drop_bit k n AND 0x3f = take_bit 6 (drop_bit k n)" by (simp add: take_bit_eq_mask)
  then have "unat (drop_bit k n AND 0x3f) = take_bit 6 (drop_bit k (unat n))"
    by (simp only: unsigned_take_bit_eq unsigned_drop_bit_eq) (simp add: take_bit_nat_eq_self unat_bound [of n, simplified])
  then show ?thesis by (simp add: take_bit_eq_mod drop_bit_eq_div)
qed

lemma unat_byte_of: "unat (ucast (drop_bit k (n :: u32)) :: u8) = unat n div 2 ^ k mod 256"
proof -
  have "unat (ucast (drop_bit k n) :: u8) = take_bit 8 (drop_bit k (unat n))"
    unfolding unsigned_ucast_eq unsigned_drop_bit_eq using unat_bound [of n] by (simp add: take_bit_nat_eq_self)
  then show ?thesis by (simp add: take_bit_eq_mod drop_bit_eq_div)
qed

lemma be_tail_value:
  "map unat (be_tail n) = [unat n div 65536 mod 256, unat n div 256 mod 256, unat n mod 256]"
  using unat_byte_of [of 16 n] unat_byte_of [of 8 n] unat_byte_of [of 0 n] by (simp add: be_tail_def)

section \<open>The alphabet\<close>

lemma alphabet_codes: "BASE64_ALPHABET = map char_of ([65..<91] @ [97..<123] @ [48..<58] @ [43, 47 :: nat])"
  unfolding BASE64_ALPHABET_def by code_simp

lemma alphabet_nth:
  assumes "k < 64"
  shows "BASE64_ALPHABET ! k = char_of (if k < 26 then 65 + k else if k < 52 then 71 + k else if k < 62 then k - 4
    else if k = 62 then 43 else 47)"
  using assms unfolding alphabet_codes by (auto simp: nth_append simp del: upt_rec_numeral)

lemma of_char_code:
  "(of_char c :: nat) = 43 \<Longrightarrow> c = CHR ''+''" "(of_char c :: nat) = 47 \<Longrightarrow> c = CHR ''/''" "(of_char c :: nat) = 61 \<Longrightarrow> c = CHR ''=''"
proof -
  have *: "c = d" if "(of_char c :: nat) = of_char d" for d using that by (metis char_of_char)
  show "(of_char c :: nat) = 43 \<Longrightarrow> c = CHR ''+''" "(of_char c :: nat) = 47 \<Longrightarrow> c = CHR ''/''" "(of_char c :: nat) = 61 \<Longrightarrow> c = CHR ''=''"
    by (rule *, simp)+
qed

lemma sextet_of_alphabet:
  assumes "k < 64"
  shows "sextet (BASE64_ALPHABET ! k) = Some (of_nat k)" "BASE64_ALPHABET ! k \<noteq> CHR ''=''"
proof -
  define c where "c = BASE64_ALPHABET ! k"
  define b where "b = (if k < 26 then 65 + k else if k < 52 then 71 + k else if k < 62 then k - 4
    else if k = 62 then 43 else 47)"
  have b: "(of_char c :: nat) = b" using assms by (simp add: c_def b_def alphabet_nth)
  have plus: "c = CHR ''+'' \<longleftrightarrow> b = 43" "c = CHR ''/'' \<longleftrightarrow> b = 47" "c = CHR ''='' \<longleftrightarrow> b = 61"
    unfolding b [symmetric] by (auto dest: of_char_code)
  show "BASE64_ALPHABET ! k \<noteq> CHR ''=''" using plus(3) assms by (auto simp: c_def [symmetric] b_def)
  have w: "(of_nat (k - 26) :: u32) + 26 = of_nat k" if "26 \<le> k" using that by (simp add: of_nat_diff)
  have w': "(of_nat (k - 52) :: u32) + 52 = of_nat k" if "52 \<le> k" using that by (simp add: of_nat_diff)
  have w63: "(of_nat k :: u32) = 63" if "\<not> k < 62" "k \<noteq> 62"
  proof -
    have "k = 63" using that assms by linarith
    then show ?thesis by simp
  qed
  show "sextet (BASE64_ALPHABET ! k) = Some (of_nat k)"
    unfolding c_def [symmetric] sextet_def Let_def b plus(1,2) using assms w w' w63
    by (auto simp: b_def)
qed

lemma alphabet_of_sextet:
  assumes "sextet c = Some k"
  shows "unat k < 64" "BASE64_ALPHABET ! unat k = c" "c \<noteq> CHR ''=''"
proof -
  define b where "b = (of_char c :: nat)"
  have c: "c = char_of b" by (simp add: b_def)
  obtain m where m: "m < 64" "k = of_nat m"
    "b = (if m < 26 then 65 + m else if m < 52 then 71 + m else if m < 62 then m - 4 else if m = 62 then 43 else 47)"
  proof -
    consider "65 \<le> b" "b \<le> 90" "k = of_nat (b - 65)" | "97 \<le> b" "b \<le> 122" "k = of_nat (b - 97 + 26)"
      | "48 \<le> b" "b \<le> 57" "k = of_nat (b - 48 + 52)" | "b = 43" "k = of_nat 62" | "b = 47" "k = of_nat 63"
      using assms by (auto simp: sextet_def Let_def b_def [symmetric] split: if_splits) (auto simp: b_def)
    then show ?thesis
    proof cases
      case 1
      then show ?thesis by (intro that [of "b - 65"]) auto
    next
      case 2
      then show ?thesis by (intro that [of "b - 97 + 26"]) auto
    next
      case 3
      then show ?thesis by (intro that [of "b - 48 + 52"]) auto
    next
      case 4
      then show ?thesis by (intro that [of 62]) auto
    next
      case 5
      then show ?thesis by (intro that [of 63]) auto
    qed
  qed
  have "unat k = m" using m(1,2) by (simp add: unat_of_nat)
  then show "unat k < 64" "BASE64_ALPHABET ! unat k = c" using m by (auto simp: alphabet_nth c)
  show "c \<noteq> CHR ''=''" using assms by (auto simp: sextet_def Let_def)
qed

section \<open>One chunk and its four characters\<close>

text \<open>The number of one to four sextets.\<close>

definition sextets_value :: "nat list \<Rightarrow> nat" where
  "sextets_value ks = foldl (\<lambda>a k. a * 64 + k) 0 ks"

lemma fold_sextets_value:
  assumes "length ks \<le> 4" "\<And>k. k \<in> set ks \<Longrightarrow> k < 64"
  shows "\<exists>n. fold_sextets (map (\<lambda>k. BASE64_ALPHABET ! k) ks) 0 = Some n \<and> unat n = sextets_value ks"
proof -
  have "\<exists>m. fold_sextets (map (\<lambda>k. BASE64_ALPHABET ! k) ks) n = Some m \<and> unat m = foldl (\<lambda>a k. a * 64 + k) (unat n) ks"
    if "unat n < 64 ^ j" "j + length ks \<le> 4" "\<And>k. k \<in> set ks \<Longrightarrow> k < 64" for n j
    using that
  proof (induction ks arbitrary: n j)
    case (Cons k ks)
    have k: "k < 64" "unat (of_nat k :: u32) = k" using Cons.prems(3) [of k] by (auto simp: unat_of_nat)
    have "(64 :: nat) ^ j \<le> 64 ^ 3" using Cons.prems(2) by (intro power_increasing) auto
    then have v: "unat (push_bit 6 n OR of_nat k) = unat n * 64 + k"
      using unat_shift_or [of n 6 "of_nat k"] Cons.prems(1) k by simp
    have "unat n + 1 \<le> 64 ^ j" using Cons.prems(1) by simp
    then have "(unat n + 1) * 64 \<le> 64 ^ j * 64" by (rule mult_le_mono1)
    then have "unat (push_bit 6 n OR of_nat k :: u32) < 64 ^ Suc j" using k(1) by (simp add: v)
    then show ?case
      using Cons.IH [of "push_bit 6 n OR of_nat k" "Suc j"] Cons.prems(2,3) sextet_of_alphabet(1) [OF k(1)]
      by (simp add: v)
  qed simp
  from this [of 0 0] assms show ?thesis by (simp add: sextets_value_def)
qed

lemma fold_sextets_inv:
  "fold_sextets cs n = Some m \<Longrightarrow> \<exists>ks. cs = map (\<lambda>k. BASE64_ALPHABET ! k) ks \<and> (\<forall>k \<in> set ks. k < 64)"
proof (induction cs arbitrary: n)
  case (Cons c cs)
  then obtain k where k: "sextet c = Some k" "fold_sextets cs (push_bit 6 n OR k) = Some m" by (auto split: bind_splits)
  then obtain ks where "cs = map (\<lambda>k. BASE64_ALPHABET ! k) ks" "\<forall>k \<in> set ks. k < 64" using Cons.IH by blast
  then show ?case using alphabet_of_sextet [OF k(1)] by (intro exI [of _ "unat k # ks"]) auto
qed simp

text \<open>The characters of a number of 24 bits with a count of padding.\<close>

definition quad_of :: "nat \<Rightarrow> nat \<Rightarrow> string" where
  "quad_of v pad =
     take (4 - pad) (map (\<lambda>k. BASE64_ALPHABET ! k) [v div 262144 mod 64, v div 4096 mod 64, v div 64 mod 64, v mod 64]) @
     replicate pad (CHR ''='')"

definition bytes_value :: "u8 list \<Rightarrow> nat" where
  "bytes_value c = unat (get_or_zero c 0) * 65536 + unat (get_or_zero c 1) * 256 + unat (get_or_zero c 2)"

lemma replicate_two: "replicate 2 x = [x, x]"
  by (simp add: numeral_2_eq_2)

lemma encode_chunk_quad:
  assumes "1 \<le> length c" "length c \<le> 3"
  shows "encode_chunk c = quad_of (bytes_value c) (3 - length c)"
proof -
  have v: "unat (chunk_word c) = bytes_value c" by (simp add: chunk_word_value bytes_value_def)
  have sx: "unat (drop_bit 18 (chunk_word c) AND 0x3f) = bytes_value c div 262144 mod 64"
    "unat (drop_bit 12 (chunk_word c) AND 0x3f) = bytes_value c div 4096 mod 64"
    "unat (drop_bit 6 (chunk_word c) AND 0x3f) = bytes_value c div 64 mod 64"
    "unat (drop_bit 0 (chunk_word c) AND 0x3f) = bytes_value c mod 64"
    using unat_sextet_of [of 18 "chunk_word c"] unat_sextet_of [of 12 "chunk_word c"]
      unat_sextet_of [of 6 "chunk_word c"] unat_sextet_of [of 0 "chunk_word c"] by (simp_all add: v)
  have four: "[0..<4] = [0, 1, 2, 3 :: nat]" by (simp add: upt_rec)
  have "length c = 1 \<or> length c = 2 \<or> length c = 3" using assms by linarith
  then show ?thesis
    unfolding encode_chunk_def quad_of_def four
    by (elim disjE) (simp_all add: sx [simplified] replicate_two)
qed

lemma pad_of_quad: "pad \<le> 2 \<Longrightarrow> pad_of (quad_of v pad) = pad"
proof -
  assume "pad \<le> 2"
  then have "pad = 0 \<or> pad = 1 \<or> pad = 2" by linarith
  moreover have "BASE64_ALPHABET ! (x mod 64) \<noteq> CHR ''=''" for x by (rule sextet_of_alphabet(2)) simp
  ultimately show ?thesis by (auto simp: pad_of_def quad_of_def numeral_2_eq_2)
qed

lemma sextets_of_value:
  assumes "v < 16777216"
  shows "sextets_value [v div 262144 mod 64, v div 4096 mod 64, v div 64 mod 64, v mod 64] = v"
    "v mod 256 = 0 \<Longrightarrow> sextets_value [v div 262144 mod 64, v div 4096 mod 64, v div 64 mod 64] * 64 = v"
    "v mod 65536 = 0 \<Longrightarrow> sextets_value [v div 262144 mod 64, v div 4096 mod 64] * 4096 = v"
proof -
  have a: "v div 262144 mod 64 = v div 262144" using assms by simp
  have b: "v div 262144 * 64 + v div 4096 mod 64 = v div 4096"
    using div_mult_mod_eq [of "v div 4096" 64] by (simp add: div_mult2_eq [symmetric])
  have c: "v div 4096 * 64 + v div 64 mod 64 = v div 64"
    using div_mult_mod_eq [of "v div 64" 64] by (simp add: div_mult2_eq [symmetric])
  have d: "v div 64 * 64 + v mod 64 = v" by simp
  show "sextets_value [v div 262144 mod 64, v div 4096 mod 64, v div 64 mod 64, v mod 64] = v"
    by (simp add: sextets_value_def a b c d)
  show "sextets_value [v div 262144 mod 64, v div 4096 mod 64, v div 64 mod 64] * 64 = v" if "v mod 256 = 0"
    using that mod_mod_cancel [of 64 256 v] d by (simp add: sextets_value_def a b c)
  show "sextets_value [v div 262144 mod 64, v div 4096 mod 64] * 4096 = v" if "v mod 65536 = 0"
    using that mod_mod_cancel [of 4096 65536 v] div_mult_mod_eq [of v 4096] by (simp add: sextets_value_def a b)
qed

lemma bytes_value_bound: "bytes_value c < 16777216"
  using byte_lt [of "get_or_zero c 0"] byte_lt [of "get_or_zero c 1"] byte_lt [of "get_or_zero c 2"]
  by (simp add: bytes_value_def)

lemma bytes_value_pad:
  assumes "1 \<le> length c" "length c \<le> 3"
  shows "bytes_value c mod 2 ^ (8 * (3 - length c)) = 0"
proof -
  have "length c = 1 \<or> length c = 2 \<or> length c = 3" using assms by linarith
  then show ?thesis by (elim disjE) (auto simp: bytes_value_def get_or_zero_def)
qed

lemma three_bytes:
  fixes x y z :: nat
  assumes "x < 256" "y < 256" "z < 256"
  shows "(x * 65536 + y * 256 + z) div 65536 = x" "(x * 65536 + y * 256 + z) div 256 mod 256 = y"
    "(x * 65536 + y * 256 + z) mod 256 = z"
proof -
  show "(x * 65536 + y * 256 + z) div 65536 = x" using assms by (intro div_nat_eqI) auto
  have "(x * 65536 + y * 256 + z) div 256 = x * 256 + y" using assms by (intro div_nat_eqI) auto
  then show "(x * 65536 + y * 256 + z) div 256 mod 256 = y" using assms by simp
  have "x * 65536 + y * 256 + z = z + 256 * (x * 256 + y)" by simp
  then show "(x * 65536 + y * 256 + z) mod 256 = z" using assms by (metis mod_mult_self2 mod_less)
qed

lemma be_tail_of_value:
  assumes "unat n = bytes_value c" "1 \<le> length c" "length c \<le> 3"
  shows "take (length c) (be_tail n) = c"
proof -
  define x y z where "x = get_or_zero c 0" and "y = get_or_zero c 1" and "z = get_or_zero c 2"
  have v: "unat n = unat x * 65536 + unat y * 256 + unat z"
    using assms(1) by (simp add: bytes_value_def x_def y_def z_def)
  have "map unat (be_tail n) = map unat [x, y, z]"
    unfolding be_tail_value v using byte_lt [of x] byte_lt [of y] byte_lt [of z] by (simp add: three_bytes)
  then have "be_tail n = [x, y, z]" by (simp add: map_injective word_unat_eq_iff be_tail_def)
  moreover have "take (length c) [x, y, z] = c"
    by (rule nth_equalityI) (use assms(2,3) in \<open>auto simp: x_def y_def z_def get_or_zero_def less_Suc_eq nth_Cons numeral_2_eq_2 split: nat.splits\<close>)
  ultimately show ?thesis by simp
qed

lemma low_bits_zero: "n AND (push_bit k 1 - 1) = 0 \<longleftrightarrow> unat n mod 2 ^ k = 0" for n :: u32
proof -
  have "push_bit k (1 :: u32) - 1 = mask k" by (simp add: mask_eq_exp_minus_1 push_bit_eq_mult)
  then have "n AND (push_bit k 1 - 1) = take_bit k n" by (simp add: take_bit_eq_mask)
  moreover have "unat (take_bit k n) = unat n mod 2 ^ k" unfolding unsigned_take_bit_eq by (simp add: take_bit_eq_mod)
  ultimately show ?thesis by (metis unat_eq_0)
qed

text \<open>A number of 24 bits whose padded bits are zero decodes from its characters.\<close>

lemma decode_quad_of:
  assumes "v < 16777216" "pad \<le> 2" "v mod 2 ^ (8 * pad) = 0" "pad = 0 \<or> is_last"
  obtains n where "unat n = v" "decode_quad (quad_of v pad) is_last = Some (take (3 - pad) (be_tail n))"
proof -
  define ks where "ks = take (4 - pad) [v div 262144 mod 64, v div 4096 mod 64, v div 64 mod 64, v mod 64]"
  have p: "pad = 0 \<or> pad = 1 \<or> pad = 2" using assms(2) by linarith
  have ks: "length ks = 4 - pad" "\<And>k. k \<in> set ks \<Longrightarrow> k < 64" by (auto simp: ks_def dest!: in_set_takeD)
  obtain m where m: "fold_sextets (map (\<lambda>k. BASE64_ALPHABET ! k) ks) 0 = Some m" "unat m = sextets_value ks"
    using fold_sextets_value [of ks] ks by auto
  have val: "sextets_value ks * 2 ^ (6 * pad) = v"
    using p sextets_of_value [OF assms(1)] assms(3) by (auto simp: ks_def)
  have n: "unat (push_bit (6 * pad) m) = v" using unat_shift [of m "6 * pad"] val assms(1) by (simp add: m(2))
  have "take (4 - pad) (quad_of v pad) = map (\<lambda>k. BASE64_ALPHABET ! k) ks"
    using p by (auto simp: quad_of_def ks_def)
  then have "decode_quad (quad_of v pad) is_last = Some (take (3 - pad) (be_tail (push_bit (6 * pad) m)))"
    using assms(2-4) m(1) n low_bits_zero [of "push_bit (6 * pad) m" "8 * pad"]
    by (auto simp: decode_quad_def pad_of_quad)
  then show ?thesis using that n by blast
qed

lemma decode_encode_chunk:
  assumes "1 \<le> length c" "length c \<le> 3" "length c = 3 \<or> is_last"
  shows "decode_quad (encode_chunk c) is_last = Some c"
proof -
  have "3 - length c \<le> 2" "3 - length c = 0 \<or> is_last" using assms by auto
  then obtain n where "unat n = bytes_value c" "decode_quad (encode_chunk c) is_last = Some (take (3 - (3 - length c)) (be_tail n))"
    using decode_quad_of [OF bytes_value_bound, of "3 - length c" c is_last] bytes_value_pad [OF assms(1,2)]
      encode_chunk_quad [OF assms(1,2)] by metis
  then show ?thesis using be_tail_of_value assms(1,2) by simp
qed

lemma four_sextets:
  fixes a b c d :: nat
  assumes "a < 64" "b < 64" "c < 64" "d < 64" "v = ((a * 64 + b) * 64 + c) * 64 + d"
  shows "v div 262144 mod 64 = a" "v div 4096 mod 64 = b" "v div 64 mod 64 = c" "v mod 64 = d"
proof -
  have s: "(x * 64 + y) div 64 = x" "(x * 64 + y) mod 64 = y" if "y < 64" for x y :: nat using that by auto
  have v1: "v div 64 = (a * 64 + b) * 64 + c" unfolding assms(5) using assms(4) by (rule s)
  then have v2: "v div 4096 = a * 64 + b" using s(1) [OF assms(3), of "a * 64 + b"] div_mult2_eq [of v 64 64] by simp
  then have v3: "v div 262144 = a" using s(1) [OF assms(2), of a] div_mult2_eq [of v 4096 64] by simp
  show "v div 262144 mod 64 = a" using assms(1) by (simp add: v3)
  show "v div 4096 mod 64 = b" unfolding v2 using assms(2) by (rule s)
  show "v div 64 mod 64 = c" unfolding v1 using assms(3) by (rule s)
  show "v mod 64 = d" unfolding assms(5) using assms(4) by (rule s)
qed

lemma quad_of_sextets:
  assumes "\<And>k. k \<in> set ks \<Longrightarrow> k < 64" "length ks = 4 - pad" "pad \<le> 2"
  shows "quad_of (sextets_value ks * 2 ^ (6 * pad)) pad = map (\<lambda>k. BASE64_ALPHABET ! k) ks @ replicate pad (CHR ''='')"
    "sextets_value ks * 2 ^ (6 * pad) < 16777216"
proof -
  have p: "pad = 0 \<or> pad = 1 \<or> pad = 2" using assms(3) by linarith
  consider a b c d where "pad = 0" "ks = [a, b, c, d]" | a b c where "pad = 1" "ks = [a, b, c]" | a b where "pad = 2" "ks = [a, b]"
    using p assms(2) by (auto simp: numeral_eq_Suc length_Suc_conv)
  note cs = this
  define v where "v = sextets_value ks * 2 ^ (6 * pad)"
  have "quad_of v pad = map (\<lambda>k. BASE64_ALPHABET ! k) ks @ replicate pad (CHR ''='')"
    using cs
  proof cases
    case (1 a b c d)
    then have "a < 64" "b < 64" "c < 64" "d < 64" "v = ((a * 64 + b) * 64 + c) * 64 + d"
      using assms(1) by (auto simp: v_def sextets_value_def)
    note q = four_sextets [OF this]
    show ?thesis using 1 by (simp add: quad_of_def q)
  next
    case (2 a b c)
    then have "a < 64" "b < 64" "c < 64" "(0 :: nat) < 64" "v = ((a * 64 + b) * 64 + c) * 64 + 0"
      using assms(1) by (auto simp: v_def sextets_value_def)
    note q = four_sextets [OF this]
    show ?thesis using 2 by (simp add: quad_of_def q)
  next
    case (3 a b)
    then have "a < 64" "b < 64" "(0 :: nat) < 64" "(0 :: nat) < 64" "v = ((a * 64 + b) * 64 + 0) * 64 + 0"
      using assms(1) by (auto simp: v_def sextets_value_def)
    note q = four_sextets [OF this]
    show ?thesis using 3 by (simp add: quad_of_def q replicate_two)
  qed
  then show "quad_of (sextets_value ks * 2 ^ (6 * pad)) pad = map (\<lambda>k. BASE64_ALPHABET ! k) ks @ replicate pad (CHR ''='')"
    by (simp add: v_def)
  have bound: "((a * 64 + b) * 64 + c) * 64 + d < 16777216" if "a < 64" "b < 64" "c < 64" "d < 64" for a b c d :: nat
    using that by simp
  show "sextets_value ks * 2 ^ (6 * pad) < 16777216"
    using cs
  proof cases
    case (1 a b c d)
    then show ?thesis using bound [of a b c d] assms(1) by (simp add: sextets_value_def)
  next
    case (2 a b c)
    then show ?thesis using bound [of a b c 0] assms(1) by (simp add: sextets_value_def)
  next
    case (3 a b)
    then show ?thesis using bound [of a b 0 0] assms(1) by (simp add: sextets_value_def)
  qed
qed

lemma drop_pad:
  assumes "length q = 4"
  shows "drop (4 - pad_of q) q = replicate (pad_of q) (CHR ''='')"
proof -
  define z where "z = takeWhile (\<lambda>c. c = CHR ''='') (rev q)"
  have "rev q = z @ dropWhile (\<lambda>c. c = CHR ''='') (rev q)" by (simp add: z_def)
  then have q: "q = rev (dropWhile (\<lambda>c. c = CHR ''='') (rev q)) @ rev z" by (metis rev_append rev_rev_ident)
  then have "length (rev (dropWhile (\<lambda>c. c = CHR ''='') (rev q))) = 4 - length z" using assms
    by (metis diff_add_inverse2 length_append length_rev)
  then have "drop (4 - length z) q = rev z" using q by (metis append_eq_conv_conj)
  moreover have "rev z = replicate (length z) (CHR ''='')" by (rule replicate_eqI) (auto simp: z_def dest: set_takeWhileD)
  ultimately show ?thesis by (simp add: pad_of_def z_def)
qed

lemma bytes_value_of:
  assumes "map unat c = take (3 - pad) [v div 65536 mod 256, v div 256 mod 256, v mod 256]" "pad \<le> 2"
    "v mod 2 ^ (8 * pad) = 0" "v < 16777216"
  shows "bytes_value c = v"
proof -
  have a: "v div 65536 mod 256 = v div 65536" using assms(4) by simp
  have b: "v div 65536 * 256 + v div 256 mod 256 = v div 256"
    using div_mult_mod_eq [of "v div 256" 256] by (simp add: div_mult2_eq [symmetric])
  have e: "v div 256 * 256 + v mod 256 = v" "v div 65536 * 65536 + v mod 65536 = v" by simp_all
  have p: "pad = 0 \<or> pad = 1 \<or> pad = 2" using assms(2) by linarith
  have "v div 65536 * 65536 + v div 256 mod 256 * 256 + v mod 256 = v" using b e by linarith
  then show ?thesis
    using p assms(1,3) a e(2) by (elim disjE) (auto simp: bytes_value_def get_or_zero_def map_eq_Cons_conv)
qed

lemma encode_decode_quad:
  assumes "length q = 4" "decode_quad q is_last = Some c"
  shows "encode_chunk c = q" "1 \<le> length c" "length c \<le> 3" "length c = 3 \<or> is_last"
proof -
  define pad where "pad = pad_of q"
  obtain m where m: "pad \<le> 2" "pad = 0 \<or> is_last" "fold_sextets (take (4 - pad) q) 0 = Some m"
    "push_bit (6 * pad) m AND (push_bit (8 * pad) 1 - 1) = 0" "c = take (3 - pad) (be_tail (push_bit (6 * pad) m))"
    using assms(2) by (auto simp: decode_quad_def pad_def [symmetric] Let_def split: if_splits bind_splits)
  obtain ks where ks: "take (4 - pad) q = map (\<lambda>k. BASE64_ALPHABET ! k) ks" "\<And>k. k \<in> set ks \<Longrightarrow> k < 64"
    using fold_sextets_inv [OF m(3)] by blast
  have len: "length ks = 4 - pad" using ks(1) assms(1) by (metis length_map length_take min.absorb2 diff_le_self)
  define v where "v = sextets_value ks * 2 ^ (6 * pad)"
  have v: "quad_of v pad = map (\<lambda>k. BASE64_ALPHABET ! k) ks @ replicate pad (CHR ''='')" "v < 16777216"
    using quad_of_sextets [OF ks(2) len m(1)] by (simp_all add: v_def)
  have q: "q = quad_of v pad"
  proof -
    have "drop (4 - pad) q = replicate pad (CHR ''='')" unfolding pad_def by (rule drop_pad [OF assms(1)])
    then show ?thesis using v(1) ks(1) append_take_drop_id [of "4 - pad" q] by simp
  qed
  have "unat m = sextets_value ks"
    using fold_sextets_value [of ks] ks len m(3) by auto
  then have n: "unat (push_bit (6 * pad) m) = v" using unat_shift [of m "6 * pad"] v(2) by (simp add: v_def)
  have lc: "length c = 3 - pad" using m(5) by (simp add: be_tail_def)
  then show "1 \<le> length c" "length c \<le> 3" "length c = 3 \<or> is_last" using m(1,2) by auto
  have "bytes_value c = v"
  proof -
    have low: "v mod 2 ^ (8 * pad) = 0" using m(4) low_bits_zero n by simp
    have "map unat (be_tail (push_bit (6 * pad) m)) = [v div 65536 mod 256, v div 256 mod 256, v mod 256]"
      by (simp add: be_tail_value n)
    then have "map unat c = take (3 - pad) [v div 65536 mod 256, v div 256 mod 256, v mod 256]"
      unfolding m(5) take_map [symmetric] by simp
    then show ?thesis using m(1) low v(2) by (rule bytes_value_of)
  qed
  then show "encode_chunk c = q"
    using encode_chunk_quad [of c] m(1) lc by (simp add: q)
qed

section \<open>Whole texts\<close>

lemma length_encode_chunk [simp]: "length (encode_chunk c) = 4"
  by (simp add: encode_chunk_def)

lemma length_chunks_map: "length (concat (map encode_chunk cs)) = 4 * length cs"
  by (induction cs) auto

lemma chunks_encoded: "slice_chunks 4 (concat (map encode_chunk cs)) = map encode_chunk cs"
  by (induction cs) (auto simp: chunks_append)

lemma decode_encoded_chunks:
  "i + length (slice_chunks 3 bytes) = quads \<Longrightarrow> decode_quads (map encode_chunk (slice_chunks 3 bytes)) i quads = Some bytes"
proof (induction "length bytes" arbitrary: bytes i rule: less_induct)
  case less
  show ?case
  proof (cases "bytes = []")
    case False
    then show ?thesis
    proof (rule chunks_cases [of 3, rotated])
      assume c: "length bytes \<le> 3" "slice_chunks 3 bytes = [bytes]"
      have "1 \<le> length bytes" using False by (cases bytes) auto
      then have "decode_quad (encode_chunk bytes) True = Some bytes" using c(1) by (intro decode_encode_chunk) auto
      then show ?thesis using less.prems by (simp add: c(2))
    next
      fix x ys
      assume c: "length x = 3" "ys \<noteq> []" "bytes = x @ ys" "slice_chunks 3 bytes = x # slice_chunks 3 ys"
      then have "decode_quads (map encode_chunk (slice_chunks 3 ys)) (i + 1) quads = Some ys"
        using less.hyps [of ys "i + 1"] less.prems by simp
      moreover have "decode_quad (encode_chunk x) b = Some x" for b using c(1) by (intro decode_encode_chunk) auto
      ultimately show ?thesis unfolding c(4) by (simp add: c(3))
    qed simp
  qed simp
qed

lemma encode_decoded_quads:
  assumes "decode_quads qs i (i + length qs) = Some bytes" "\<And>q. q \<in> set qs \<Longrightarrow> length q = 4"
  shows "map encode_chunk (slice_chunks 3 bytes) = qs"
  using assms
proof (induction qs arbitrary: i bytes)
  case (Cons q qs)
  obtain c more where c: "decode_quad q (i + 1 = i + length (q # qs)) = Some c"
    "decode_quads qs (i + 1) (i + 1 + length qs) = Some more" "bytes = c @ more"
    using Cons.prems(1) by (auto split: bind_splits)
  note e = encode_decode_quad [OF Cons.prems(2) c(1)]
  have m: "map encode_chunk (slice_chunks 3 more) = qs" using Cons.IH [OF c(2)] Cons.prems(2) by simp
  show ?case
  proof (cases "qs = []")
    case True
    then have "more = []" using c(2) by simp
    then show ?thesis using e True c(3) chunks_single [of c 3] by (cases c) auto
  next
    case False
    then have "length c = 3" using e(4) by auto
    then show ?thesis using e(1) m c(3) by (simp add: chunks_append)
  qed
qed simp

lemma base64_decode_iff: "base64_decode s = Some bytes \<longleftrightarrow> base64_encode bytes = s"
proof
  assume "base64_encode bytes = s"
  then show "base64_decode s = Some bytes"
    by (auto simp: base64_decode_def base64_encode_def length_chunks_map chunks_encoded decode_encoded_chunks)
next
  assume d: "base64_decode s = Some bytes"
  then have l: "length s = 4 * (length s div 4)" by (auto simp: base64_decode_def split: if_splits)
  note c = chunks_lengths [OF l]
  have "map encode_chunk (slice_chunks 3 bytes) = slice_chunks 4 s"
    by (rule encode_decoded_quads [of _ 0]) (use d c in \<open>auto simp: base64_decode_def split: if_splits\<close>)
  then show "base64_encode bytes = s" using c by (simp add: base64_encode_def)
qed

section \<open>Properties\<close>

text \<open>Base64 is exact both ways: every byte string decodes from its encoding, and every text
  the decoder accepts is the one encoding of the bytes it gives, so no two texts name the
  same bytes and padding or stray trailing bits are always refused.\<close>

theorem base64_exact: "base64_decode s = Some bytes \<longleftrightarrow> base64_encode bytes = s"
  by (rule base64_decode_iff)

end
