(* ===== verification/Value.thy ===== *)
theory Value
  imports Duration_Text Base64
begin

text \<open>
  The property values of the store, \<open>crates/core-storage/src/types.rs\<close>: the value type and
  its index keys, the checks every write path makes on a value (nulls, format-V11 types,
  namespaces) and the tagged text of the V11 types. A \<open>f64\<close> is its 64 bits; a map is its
  entries in key order, as \<open>BTreeMap\<close> iterates them.
\<close>

section \<open>Values and keys\<close>

datatype val =
    VInt int
  | VFloat u64
  | VStr string
  | VBool bool
  | VList "val list"
  | VMap "(string \<times> val) list"
  | VDate int
  | VLocalDateTime int
  | VDateTime int int
  | VDuration int int int
  | VBinary "u8 list"
  | VNull

fun contains_null :: "val \<Rightarrow> bool" where
  "contains_null VNull = True"
| "contains_null (VList items) = list_ex contains_null items"
| "contains_null (VMap m) = list_ex (\<lambda>e. contains_null (snd e)) m"
| "contains_null _ = False"

definition BINARY_MAX_BYTES :: nat where "BINARY_MAX_BYTES = 1048576"

datatype value_key =
    KInt int
  | KFloatBits u64
  | KStr string
  | KBool bool
  | KDateDays int
  | KLocalDateTimeMicros int
  | KDateTimeMicrosUtc int
  | KBinaryBytes "u8 list"

fun key_from_value :: "val \<Rightarrow> value_key option" where
  "key_from_value (VInt i) = Some (KInt i)"
| "key_from_value (VFloat f) = Some (KFloatBits f)"
| "key_from_value (VStr s) = Some (KStr s)"
| "key_from_value (VBool b) = Some (KBool b)"
| "key_from_value (VList _) = None"
| "key_from_value (VMap _) = None"
| "key_from_value (VDate d) = Some (KDateDays d)"
| "key_from_value (VLocalDateTime us) = Some (KLocalDateTimeMicros us)"
| "key_from_value (VDateTime micros_utc _) = Some (KDateTimeMicrosUtc micros_utc)"
| "key_from_value (VBinary b) = Some (KBinaryBytes b)"
| "key_from_value (VDuration _ _ _) = None"
| "key_from_value VNull = None"

text \<open>\<open>Iterator::find_map\<close>.\<close>

fun find_map :: "('a \<Rightarrow> 'b option) \<Rightarrow> 'a list \<Rightarrow> 'b option" where
  "find_map f [] = None"
| "find_map f (x # xs) = (case f x of Some y \<Rightarrow> Some y | None \<Rightarrow> find_map f xs)"

lemma find_map_cong [fundef_cong]:
  "xs = ys \<Longrightarrow> (\<And>x. x \<in> set ys \<Longrightarrow> f x = g x) \<Longrightarrow> find_map f xs = find_map g ys"
proof (induction ys arbitrary: xs)
  case (Cons y ys)
  then show ?case by (auto split: option.split)
qed simp

fun v11_only_type :: "val \<Rightarrow> string option" where
  "v11_only_type (VList items) = find_map v11_only_type items"
| "v11_only_type (VMap m) = find_map (\<lambda>e. v11_only_type (snd e)) m"
| "v11_only_type (VDate _) = Some ''Date''"
| "v11_only_type (VLocalDateTime _) = Some ''LocalDateTime''"
| "v11_only_type (VDateTime _ _) = Some ''DateTime''"
| "v11_only_type (VDuration _ _ _) = Some ''Duration''"
| "v11_only_type (VBinary _) = Some ''Binary''"
| "v11_only_type _ = None"

definition list_tokens :: "val \<Rightarrow> value_key set option" where
  "list_tokens v = (case v of VList items \<Rightarrow> Some (set (List.map_filter key_from_value items)) | _ \<Rightarrow> None)"

section \<open>Namespaces\<close>

definition NS_PROP :: string where "NS_PROP = ''ns''"
definition NS_DEFAULT :: string where "NS_DEFAULT = ''default''"
definition NS_MAX_LEN :: nat where "NS_MAX_LEN = 64"

text \<open>
  A character of a Rust string starts at each byte that does not continue one. On the
  strings whose characters are all ASCII, as \<open>valid_namespace\<close> requires, they are the bytes.
\<close>

definition is_ascii_alphanumeric :: "char \<Rightarrow> bool" where
  "is_ascii_alphanumeric c = (let b = of_char c :: nat in
     (48 \<le> b \<and> b \<le> 57) \<or> (65 \<le> b \<and> b \<le> 90) \<or> (97 \<le> b \<and> b \<le> 122))"

definition chars_count :: "string \<Rightarrow> nat" where
  "chars_count s = length (filter (\<lambda>b. \<not> is_cont b) (as_bytes s))"

definition valid_namespace :: "string \<Rightarrow> bool" where
  "valid_namespace name \<longleftrightarrow>
     name \<noteq> [] \<and> chars_count name \<le> NS_MAX_LEN \<and>
     list_all (\<lambda>c. is_ascii_alphanumeric c \<or> c = CHR ''_'' \<or> c = CHR ''.'' \<or> c = CHR ''-'') name"

definition namespace_of_value :: "val option \<Rightarrow> string" where
  "namespace_of_value v = (case v of Some (VStr s) \<Rightarrow> s | _ \<Rightarrow> NS_DEFAULT)"

section \<open>Tagged text\<close>

definition TAG_DATE :: string where "TAG_DATE = ''$date''"
definition TAG_LOCAL_DATETIME :: string where "TAG_LOCAL_DATETIME = ''$ldt''"
definition TAG_DATETIME :: string where "TAG_DATETIME = ''$dt''"
definition TAG_DURATION :: string where "TAG_DURATION = ''$dur''"
definition TAG_BINARY :: string where "TAG_BINARY = ''$binary''"

definition V11_TAGS :: "string list" where
  "V11_TAGS = [TAG_DATE, TAG_LOCAL_DATETIME, TAG_DATETIME, TAG_DURATION, TAG_BINARY]"

definition tagged_text :: "val \<Rightarrow> text_error + (string \<times> string) option" where
  "tagged_text v =
     (case v of
        VDate days \<Rightarrow> Inr (Some (TAG_DATE, date_to_iso8601 days))
      | VLocalDateTime us \<Rightarrow> Inr (Some (TAG_LOCAL_DATETIME, local_datetime_to_iso8601 us))
      | VDateTime micros_utc offset_seconds \<Rightarrow>
          (case datetime_to_iso8601 micros_utc offset_seconds of
             Inl e \<Rightarrow> Inl e
           | Inr t \<Rightarrow> Inr (Some (TAG_DATETIME, t)))
      | VDuration months days nanos \<Rightarrow> Inr (Some (TAG_DURATION, duration_to_iso8601 months days nanos))
      | VBinary bytes \<Rightarrow> Inr (Some (TAG_BINARY, base64_encode bytes))
      | _ \<Rightarrow> Inr None)"

text \<open>What human-facing output shows: the text without its tag, or what is wrong with it.\<close>

definition v11_display_text :: "val \<Rightarrow> (text_error + string) option" where
  "v11_display_text v =
     (case tagged_text v of
        Inr tagged \<Rightarrow> map_option (\<lambda>(_, t). Inr t) tagged
      | Inl reason \<Rightarrow> Some (Inl reason))"

definition tag_expects :: "string \<Rightarrow> string" where
  "tag_expects tag =
     (if tag = TAG_DATE then ''an ISO 8601 date (YYYY-MM-DD)''
      else if tag = TAG_LOCAL_DATETIME then
        ''an ISO 8601 local date-time with no offset (YYYY-MM-DDTHH:MM:SS[.f])''
      else if tag = TAG_DATETIME then
        ''an ISO 8601 date-time with an offset within '' @ [CHR 0xC2, CHR 0xB1] @
        ''18:00 (YYYY-MM-DDTHH:MM:SS[.f]'' @ [CHR 0xC2, CHR 0xB1] @ ''HH:MM, or Z)''
      else if tag = TAG_DURATION then
        ''an ISO 8601 duration (such as P1Y2M3DT4H5M6.789S) that fits its fields''
      else if tag = TAG_BINARY then ''padded standard base64''
      else ''a known form'')"

definition value_from_tagged_text :: "string \<Rightarrow> string \<Rightarrow> text_error + val" where
  "value_from_tagged_text tag payload =
     (let or_bad = (\<lambda>parsed. case parsed of
            Some v \<Rightarrow> Inr v
          | None \<Rightarrow> Inl (BadPayload tag payload (tag_expects tag)))
      in if tag = TAG_DATE then or_bad (map_option VDate (iso8601_to_date payload))
         else if tag = TAG_LOCAL_DATETIME then or_bad (map_option VLocalDateTime (iso8601_to_local_datetime payload))
         else if tag = TAG_DATETIME then or_bad (map_option (\<lambda>(us, off). VDateTime us off) (iso8601_to_datetime payload))
         else if tag = TAG_DURATION then or_bad (map_option (\<lambda>(m, d, n). VDuration m d n) (iso8601_to_duration payload))
         else if tag = TAG_BINARY then or_bad (map_option VBinary (base64_decode payload))
         else Inl (NotAValueTag tag))"

section \<open>Representable values\<close>

text \<open>A value whose integers are in the range of their machine types.\<close>

fun value_ok :: "val \<Rightarrow> bool" where
  "value_ok (VInt i) = in_i64 i"
| "value_ok (VList items) = list_all value_ok items"
| "value_ok (VMap m) = list_all (\<lambda>e. value_ok (snd e)) m"
| "value_ok (VDate d) = in_i32 d"
| "value_ok (VLocalDateTime us) = in_i64 us"
| "value_ok (VDateTime us off) = (in_i64 us \<and> in_i32 off)"
| "value_ok (VDuration m d n) = (in_i32 m \<and> in_i32 d \<and> in_i64 n)"
| "value_ok _ = True"

lemma namespace_chars_are_bytes: "valid_namespace name \<Longrightarrow> chars_count name = length name"
proof -
  assume "valid_namespace name"
  then have "\<forall>c \<in> set name. (of_char c :: nat) < 128"
    by (auto simp: valid_namespace_def list_all_iff is_ascii_alphanumeric_def Let_def)
  then have "\<forall>b \<in> set (as_bytes name). \<not> is_cont b"
    by (auto simp: as_bytes_def is_cont_def word_le_nat_alt)
  then show ?thesis by (simp add: chars_count_def)
qed

section \<open>Properties\<close>

text \<open>C21. No encoder writes a tag that does not parse back: for every representable value the
  tagged text names one of the five tags and reads back as that very value; a value of the
  other types has none, and the only error is a date-time whose offset is past 18 hours.\<close>

theorem tagged_text_roundtrip:
  assumes "value_ok v"
  shows "case tagged_text v of
      Inr (Some (tag, t)) \<Rightarrow> tag \<in> set V11_TAGS \<and> value_from_tagged_text tag t = Inr v
    | Inr None \<Rightarrow> (\<forall>d us off m n b. v \<noteq> VDate d \<and> v \<noteq> VLocalDateTime us \<and> v \<noteq> VDateTime us off \<and>
        v \<noteq> VDuration m d n \<and> v \<noteq> VBinary b)
    | Inl e \<Rightarrow> (\<exists>us off. v = VDateTime us off \<and> 18 * 3600 < \<bar>off\<bar> \<and> e = OffsetOutOfRange off)"
proof -
  note tags = TAG_DATE_def TAG_LOCAL_DATETIME_def TAG_DATETIME_def TAG_DURATION_def TAG_BINARY_def
  show ?thesis
  proof (cases v)
    case (VDateTime us off)
    then show ?thesis
      using datetime_reads_back [of us off] assms
      by (auto simp: tagged_text_def value_from_tagged_text_def V11_TAGS_def tags split: sum.splits)
  next
    case (VBinary b)
    have "base64_decode (base64_encode b) = Some b" by (simp add: base64_decode_iff)
    then show ?thesis by (simp add: VBinary tagged_text_def value_from_tagged_text_def V11_TAGS_def tags)
  qed (use assms in \<open>auto simp: tagged_text_def value_from_tagged_text_def V11_TAGS_def tags date_reads_back
    local_datetime_reads_back duration_reads_back\<close>)
qed

theorem tagged_text_roundtrip_witness:
  "\<exists>t. tagged_text (VDuration 1 (- 2) 3) = Inr (Some (TAG_DURATION, t)) \<and>
     value_from_tagged_text TAG_DURATION t = Inr (VDuration 1 (- 2) 3)"
  using tagged_text_roundtrip [of "VDuration 1 (- 2) 3"]
  by (simp add: in_i32_def in_i64_def) (simp add: tagged_text_def)

end
