(* ===== verification/Wal.thy ===== *)
theory Wal
  imports Value
begin

text \<open>
  The write-ahead log, \<open>crates/core-storage/src/wal.rs\<close>: the record type, the frame
  \<open>[len u32][crc u32][payload]\<close>, and the decoder that returns the valid prefix of a log and
  where it ends. The payload encoding (the \<open>bincode\<close> crate) and the checksum (the
  \<open>crc32fast\<close> crate) are parameters: a serializer that may fail, a deserializer and a hash.
  What the theorems rely on is that the deserializer reads back what the serializer wrote;
  of the checksum they rely on nothing but that it is a function.
\<close>

section \<open>Records\<close>

datatype wal_record =
    InsertNode string string "(string \<times> val) list"
  | InsertEdge string string string
  | SetProp string string val
  | CreateRule "u8 list"
  | DeleteRule string
  | RemoveProp string string
  | DeleteEdge string string string
  | DeleteNode string
  | Batch "wal_record list"
  | RebuildRule string
  | CreateView "u8 list"
  | DeleteView string
  | EnableFulltext string string
  | DisableFulltext string string
  | InsertNodeId u32 string "(u32 \<times> val) list"
  | SetPropId u32 u32 val
  | InsertEdgeId u32 u32 u32
  | Intern u32 string
  | DerivedEdgeAdded string string string string
  | DerivedEdgeRetracted string string string string
  | RenameNode string string
  | EnableIndex string string
  | DisableIndex string string
  | SetEdgeCount u32 u32 u32 u64
  | CreateConstraint string string string
  | DropConstraint string
  | EnableRangeIndex string string string
  | DisableRangeIndex string
  | SetEdgePropId u32 u32 u32 u32 val
  | RemoveEdgePropId u32 u32 u32 u32

definition U32_MAX :: u32 where "U32_MAX = - 1"

definition MULTIPLICITY_ENABLED :: wal_record where
  "MULTIPLICITY_ENABLED = SetEdgeCount U32_MAX U32_MAX U32_MAX 0"

definition is_multiplicity_decl :: "wal_record \<Rightarrow> bool" where
  "is_multiplicity_decl r = (case r of SetEdgeCount _ _ _ n \<Rightarrow> n = 0 | _ \<Rightarrow> False)"

fun carries_null :: "wal_record \<Rightarrow> bool" where
  "carries_null (InsertNode _ _ props) = list_ex (\<lambda>e. contains_null (snd e)) props"
| "carries_null (InsertNodeId _ _ props) = list_ex (\<lambda>e. contains_null (snd e)) props"
| "carries_null (SetProp _ _ v) = contains_null v"
| "carries_null (SetPropId _ _ v) = contains_null v"
| "carries_null (SetEdgePropId _ _ _ _ v) = contains_null v"
| "carries_null (Batch inner) = list_ex carries_null inner"
| "carries_null _ = False"

definition is_batch :: "wal_record \<Rightarrow> bool" where
  "is_batch r = (case r of Batch _ \<Rightarrow> True | _ \<Rightarrow> False)"

definition nested_batch :: "wal_record \<Rightarrow> bool" where
  "nested_batch r = (case r of Batch inner \<Rightarrow> list_ex is_batch inner | _ \<Rightarrow> False)"

section \<open>Frames\<close>

definition frame :: "(u8 list \<Rightarrow> u32) \<Rightarrow> u8 list \<Rightarrow> u8 list" where
  "frame crc32 payload = u32_to_le (of_nat (length payload)) @ u32_to_le (crc32 payload) @ payload"

text \<open>
  The assertion against a nested batch is a debug one: a release build frames it, and the
  decoder refuses the frame. A failure of the serializer is an error.
\<close>

definition try_encode_record ::
  "(u8 list \<Rightarrow> u32) \<Rightarrow> (wal_record \<Rightarrow> u8 list option) \<Rightarrow> wal_record \<Rightarrow> u8 list res" where
  "try_encode_record crc32 serialize rec =
     (if carries_null rec
      then Inl (Corrupt ''refusing to write a WAL frame whose property value holds a null'' [])
      else (case serialize rec of
          None \<Rightarrow> Inl (Corrupt ''WAL record failed to encode'' [])
        | Some payload \<Rightarrow> Inr (frame crc32 payload)))"

text \<open>The loop of the decoder at a position, with the records read so far.\<close>

function decode_loop ::
  "(u8 list \<Rightarrow> u32) \<Rightarrow> (u8 list \<Rightarrow> wal_record option) \<Rightarrow> u8 list \<Rightarrow> wal_record list \<Rightarrow> nat \<Rightarrow> wal_record list \<times> nat" where
  "decode_loop crc32 deserialize bytes recs pos =
     (if length bytes < pos + 8 then (recs, pos)
      else
        let len = unat (u32_from_le (take 4 (drop pos bytes)));
            crc = u32_from_le (take 4 (drop (pos + 4) bytes));
            start = pos + 8
        in if length bytes < start + len then (recs, pos)
           else
             let payload = take len (drop start bytes) in
             if crc32 payload \<noteq> crc then (recs, pos)
             else (case deserialize payload of
                 None \<Rightarrow> (recs, pos)
               | Some r \<Rightarrow>
                   if nested_batch r then (recs, pos)
                   else decode_loop crc32 deserialize bytes (recs @ [r]) (start + len)))"
  by pat_completeness auto
termination
  by (relation "measure (\<lambda>(_, _, bytes, _, pos). length bytes - pos)") auto

declare decode_loop.simps [simp del]

definition decode_all ::
  "(u8 list \<Rightarrow> u32) \<Rightarrow> (u8 list \<Rightarrow> wal_record option) \<Rightarrow> u8 list \<Rightarrow> wal_record list \<times> nat" where
  "decode_all crc32 deserialize bytes = decode_loop crc32 deserialize bytes [] 0"

definition wal_commits :: "(u8 list \<Rightarrow> u32) \<Rightarrow> (u8 list \<Rightarrow> wal_record option) \<Rightarrow> u8 list \<Rightarrow> u64" where
  "wal_commits crc32 deserialize bytes = of_nat (length (fst (decode_all crc32 deserialize bytes)))"

section \<open>One frame\<close>

text \<open>What the decoder makes of the front of the bytes at a position.\<close>

definition read_frame ::
  "(u8 list \<Rightarrow> u32) \<Rightarrow> (u8 list \<Rightarrow> wal_record option) \<Rightarrow> u8 list \<Rightarrow> (wal_record \<times> nat) option" where
  "read_frame crc32 deserialize bs =
     (if length bs < 8 then None
      else
        let len = unat (u32_from_le (take 4 bs)); payload = take len (drop 8 bs) in
        if length bs < 8 + len \<or> crc32 payload \<noteq> u32_from_le (take 4 (drop 4 bs)) then None
        else (case deserialize payload of
            None \<Rightarrow> None
          | Some r \<Rightarrow> if nested_batch r then None else Some (r, 8 + len)))"

lemma decode_loop_step:
  assumes "pos \<le> length bytes"
  shows "decode_loop crc32 deserialize bytes recs pos =
    (case read_frame crc32 deserialize (drop pos bytes) of
       None \<Rightarrow> (recs, pos)
     | Some (r, n) \<Rightarrow> decode_loop crc32 deserialize bytes (recs @ [r]) (pos + n))"
proof -
  define len where "len = unat (u32_from_le (take 4 (drop pos bytes)))"
  have e: "length (drop pos bytes) < 8 \<longleftrightarrow> length bytes < pos + 8"
    "length (drop pos bytes) < 8 + len \<longleftrightarrow> length bytes < pos + 8 + len"
    "drop 4 (drop pos bytes) = drop (pos + 4) bytes" "drop 8 (drop pos bytes) = drop (pos + 8) bytes"
    using assms by (auto simp: add.commute)
  have a: "pos + (8 + len) = pos + 8 + len" by simp
  show ?thesis
    unfolding read_frame_def Let_def e(1,3,4) len_def [symmetric] e(2)
    by (subst decode_loop.simps) (simp add: Let_def len_def [symmetric] a split: option.split)
qed

lemma read_frame_bounds:
  "read_frame crc32 deserialize bs = Some (r, n) \<Longrightarrow> 8 \<le> n \<and> n \<le> length bs \<and> \<not> nested_batch r"
  by (auto simp: read_frame_def Let_def split: if_splits option.splits)

lemma read_frame_extend:
  assumes "read_frame crc32 deserialize bs = Some (r, n)"
  shows "read_frame crc32 deserialize (take n bs @ more) = Some (r, n)"
proof -
  define len where "len = unat (u32_from_le (take 4 bs))"
  have n: "n = 8 + len" "8 + len \<le> length bs"
    using assms by (auto simp: read_frame_def Let_def len_def split: if_splits option.splits)
  have t: "take 4 (take n bs @ more) = take 4 bs" "take 4 (drop 4 (take n bs @ more)) = take 4 (drop 4 bs)"
    "take len (drop 8 (take n bs @ more)) = take len (drop 8 bs)"
    using n by (simp_all add: drop_take take_take)
  show ?thesis
    using assms n(2) unfolding read_frame_def t Let_def len_def [symmetric]
    by (auto simp: t n split: if_splits option.splits)
qed

lemma read_frame_of_frame:
  assumes "length payload < 2 ^ 32" "deserialize payload = Some r" "\<not> nested_batch r"
  shows "read_frame crc32 deserialize (frame crc32 payload @ more) = Some (r, length (frame crc32 payload))"
proof -
  have "unat (of_nat (length payload) :: u32) = length payload" using assms(1) by (simp add: unat_of_nat)
  then show ?thesis using assms(2,3) by (simp add: read_frame_def frame_def)
qed

lemma read_frame_torn:
  assumes "length payload < 2 ^ 32" "k < length (frame crc32 payload)"
  shows "read_frame crc32 deserialize (take k (frame crc32 payload)) = None"
proof (cases "k < 8")
  case False
  have "unat (of_nat (length payload) :: u32) = length payload" using assms(1) by (simp add: unat_of_nat)
  moreover have "take 4 (take k (frame crc32 payload)) = u32_to_le (of_nat (length payload))"
    using False by (simp add: frame_def)
  ultimately show ?thesis using assms(2) False by (simp add: read_frame_def frame_def Let_def)
next
  case True
  then have "length (take k (frame crc32 payload)) < 8" by simp
  then show ?thesis unfolding read_frame_def by (simp only: if_True)
qed

section \<open>Whole logs\<close>

text \<open>Reading frames one after another from the front of a byte string.\<close>

function read_frames ::
  "(u8 list \<Rightarrow> u32) \<Rightarrow> (u8 list \<Rightarrow> wal_record option) \<Rightarrow> u8 list \<Rightarrow> wal_record list \<times> nat" where
  "read_frames crc32 deserialize bs =
     (case read_frame crc32 deserialize bs of
        None \<Rightarrow> ([], 0)
      | Some (r, n) \<Rightarrow> (case read_frames crc32 deserialize (drop n bs) of (rs, m) \<Rightarrow> (r # rs, n + m)))"
  by pat_completeness auto
termination
  by (relation "measure (\<lambda>(_, _, bs). length bs)") (auto dest: read_frame_bounds)

declare read_frames.simps [simp del]

lemma decode_loop_frames:
  "pos \<le> length bytes \<Longrightarrow>
   decode_loop crc32 deserialize bytes recs pos =
     (case read_frames crc32 deserialize (drop pos bytes) of (rs, m) \<Rightarrow> (recs @ rs, pos + m))"
proof (induction "length bytes - pos" arbitrary: recs pos rule: less_induct)
  case less
  show ?case
  proof (cases "read_frame crc32 deserialize (drop pos bytes)")
    case None
    then show ?thesis using less.prems by (simp add: decode_loop_step read_frames.simps [of _ _ "drop pos bytes"])
  next
    case (Some rn)
    obtain r n where rn: "rn = (r, n)" by (cases rn)
    have n: "8 \<le> n" "pos + n \<le> length bytes" using read_frame_bounds Some rn less.prems by fastforce+
    have "decode_loop crc32 deserialize bytes (recs @ [r]) (pos + n) =
        (case read_frames crc32 deserialize (drop (pos + n) bytes) of (rs, m) \<Rightarrow> ((recs @ [r]) @ rs, pos + n + m))"
      using n by (intro less.hyps) auto
    then show ?thesis
      using Some rn less.prems
      by (simp add: decode_loop_step read_frames.simps [of _ _ "drop pos bytes"] add.commute split: prod.splits)
  qed
qed

lemma decode_all_frames: "decode_all crc32 deserialize bytes = read_frames crc32 deserialize bytes"
  unfolding decode_all_def by (subst decode_loop_frames) (auto split: prod.split)

lemma read_frames_Nil [simp]: "read_frames crc32 deserialize [] = ([], 0)"
  by (subst read_frames.simps) (simp add: read_frame_def)

lemma read_frames_none: "read_frame crc32 deserialize bs = None \<Longrightarrow> read_frames crc32 deserialize bs = ([], 0)"
  by (subst read_frames.simps) simp

lemma read_frames_some:
  "read_frame crc32 deserialize bs = Some (r, n) \<Longrightarrow>
   read_frames crc32 deserialize bs =
     (r # fst (read_frames crc32 deserialize (drop n bs)), n + snd (read_frames crc32 deserialize (drop n bs)))"
  by (subst read_frames.simps) (simp split: prod.split)

text \<open>Cutting the log where its valid prefix ends keeps every record; what is appended there
  is read after them.\<close>

lemma read_frames_cut_append:
  assumes "read_frames crc32 deserialize bs = (rs, n)" "read_frames crc32 deserialize more = (rs', m)"
  shows "n \<le> length bs \<and> read_frames crc32 deserialize (take n bs @ more) = (rs @ rs', n + m) \<and> list_all (\<lambda>r. \<not> nested_batch r) rs"
  using assms(1)
proof (induction "length bs" arbitrary: bs rs n rule: less_induct)
  case less
  show ?case
  proof (cases "read_frame crc32 deserialize bs")
    case None
    then show ?thesis using less.prems assms(2) read_frames_none [OF None] by auto
  next
    case (Some rk)
    obtain r k where rk: "rk = (r, k)" by (cases rk)
    have k: "8 \<le> k" "k \<le> length bs" "\<not> nested_batch r" using read_frame_bounds Some rk by blast+
    obtain rs1 n1 where rest: "read_frames crc32 deserialize (drop k bs) = (rs1, n1)" by (cases "read_frames crc32 deserialize (drop k bs)")
    have eq: "rs = r # rs1" "n = k + n1" using less.prems read_frames_some [OF Some [unfolded rk]] rest by auto
    have IH: "n1 \<le> length (drop k bs)" "read_frames crc32 deserialize (take n1 (drop k bs) @ more) = (rs1 @ rs', n1 + m)"
      "list_all (\<lambda>r. \<not> nested_batch r) rs1"
      using less.hyps [OF _ rest] k(1,2) by auto
    have "take n bs @ more = take k bs @ (take n1 (drop k bs) @ more)" by (simp add: eq take_add)
    moreover have "read_frame crc32 deserialize (take k bs @ (take n1 (drop k bs) @ more)) = Some (r, k)"
      using read_frame_extend Some rk by blast
    ultimately have "read_frames crc32 deserialize (take n bs @ more) = (rs @ rs', n + m)"
      using read_frames_some IH(2) k(2) by (simp add: eq)
    then show ?thesis using IH k(2,3) by (simp add: eq)
  qed
qed

section \<open>What was written\<close>

text \<open>What the documentation of the encoding promises: a payload reads back as its record.\<close>

definition reads_back :: "(wal_record \<Rightarrow> u8 list option) \<Rightarrow> (u8 list \<Rightarrow> wal_record option) \<Rightarrow> bool" where
  "reads_back serialize deserialize \<longleftrightarrow> (\<forall>r p. serialize r = Some p \<longrightarrow> deserialize p = Some r)"

text \<open>A record the write path frames: its payload fits the length field, and it is no batch of
  batches.\<close>

definition writable :: "(wal_record \<Rightarrow> u8 list option) \<Rightarrow> wal_record \<Rightarrow> bool" where
  "writable serialize r \<longleftrightarrow> \<not> carries_null r \<and> \<not> nested_batch r \<and>
     (case serialize r of None \<Rightarrow> False | Some p \<Rightarrow> length p < 2 ^ 32)"

definition written :: "(u8 list \<Rightarrow> u32) \<Rightarrow> (wal_record \<Rightarrow> u8 list option) \<Rightarrow> wal_record \<Rightarrow> u8 list" where
  "written crc32 serialize r = (case try_encode_record crc32 serialize r of Inr bs \<Rightarrow> bs | Inl _ \<Rightarrow> [])"

lemma writable_frame:
  assumes "writable serialize r"
  obtains p where "serialize r = Some p" "length p < 2 ^ 32" "written crc32 serialize r = frame crc32 p"
    "try_encode_record crc32 serialize r = Inr (frame crc32 p)"
  using assms by (auto simp: writable_def written_def try_encode_record_def split: option.splits)

lemma read_written:
  assumes "reads_back serialize deserialize" "list_all (writable serialize) rs" "read_frame crc32 deserialize more = None"
  shows "read_frames crc32 deserialize (concat (map (written crc32 serialize) rs) @ more) =
    (rs, length (concat (map (written crc32 serialize) rs)))"
  using assms(2)
proof (induction rs)
  case Nil
  then show ?case using read_frames_none [OF assms(3)] by simp
next
  case (Cons r rs)
  have "writable serialize r" using Cons.prems by simp
  then obtain p where p: "serialize r = Some p" "length p < 2 ^ 32" "written crc32 serialize r = frame crc32 p"
    by (rule writable_frame)
  have "deserialize p = Some r" "\<not> nested_batch r"
    using p(1) assms(1) \<open>writable serialize r\<close> by (auto simp: reads_back_def writable_def)
  note f = read_frame_of_frame [where deserialize = deserialize, OF p(2) this, of crc32 "concat (map (written crc32 serialize) rs) @ more"]
  show ?case using read_frames_some [OF f] Cons by (simp add: p(3))
qed

section \<open>Properties\<close>

text \<open>C2. A log is exactly what was committed to it: the frames of any records, followed by any
  torn tail (a strict prefix of one more frame, the empty one included), decode to those
  records in order, and the valid length is where the last whole frame ends.\<close>

theorem wal_recovers_commits:
  assumes "reads_back serialize deserialize" "list_all (writable serialize) rs" "writable serialize r"
    "k < length (written crc32 serialize r)"
  shows "decode_all crc32 deserialize (concat (map (written crc32 serialize) rs) @ take k (written crc32 serialize r)) =
    (rs, length (concat (map (written crc32 serialize) rs)))"
proof -
  obtain p where p: "length p < 2 ^ 32" "written crc32 serialize r = frame crc32 p" using writable_frame [OF assms(3)] by metis
  have "read_frame crc32 deserialize (take k (written crc32 serialize r)) = None"
    using read_frame_torn [OF p(1)] assms(4) by (simp add: p(2))
  then show ?thesis unfolding decode_all_frames by (rule read_written [OF assms(1,2)])
qed

text \<open>C19. Repair loses nothing and leaves a log that can be written on: whatever the bytes of a
  log, cutting it at the valid length the decoder reports and appending the frames of
  further records gives a log that decodes to the old records followed by the new ones; no
  decoded record is a batch of batches.\<close>

theorem wal_repair_then_append:
  assumes "reads_back serialize deserialize" "list_all (writable serialize) more"
    "decode_all crc32 deserialize bytes = (rs, n)"
  shows "n \<le> length bytes \<and> list_all (\<lambda>r. \<not> nested_batch r) rs \<and>
    decode_all crc32 deserialize (take n bytes @ concat (map (written crc32 serialize) more)) =
      (rs @ more, n + length (concat (map (written crc32 serialize) more)))"
proof -
  have "read_frame crc32 deserialize [] = None" by (simp add: read_frame_def)
  from read_written [OF assms(1,2) this]
  have "read_frames crc32 deserialize (concat (map (written crc32 serialize) more)) =
      (more, length (concat (map (written crc32 serialize) more)))" by simp
  from read_frames_cut_append [OF assms(3) [unfolded decode_all_frames] this] show ?thesis
    by (simp add: decode_all_frames)
qed


text \<open>A serializer of one record, a checksum and what they make of a log.\<close>

definition demo_serialize :: "wal_record \<Rightarrow> u8 list option" where
  "demo_serialize r = (if r = DeleteNode ''a'' then Some [7] else if r = DeleteNode ''b'' then Some [8, 9] else None)"

definition demo_deserialize :: "u8 list \<Rightarrow> wal_record option" where
  "demo_deserialize p = (if p = [7] then Some (DeleteNode ''a'') else if p = [8, 9] then Some (DeleteNode ''b'') else None)"

lemma demo_codec:
  "reads_back demo_serialize demo_deserialize" "writable demo_serialize (DeleteNode ''a'')" "writable demo_serialize (DeleteNode ''b'')"
  by (auto simp: reads_back_def demo_serialize_def demo_deserialize_def writable_def nested_batch_def split: if_splits)

lemma demo_length: "length (written (\<lambda>_. 0) demo_serialize (DeleteNode ''b'')) = 10"
  by (simp add: written_def try_encode_record_def demo_serialize_def frame_def)

theorem wal_recovers_commits_witness:
  "fst (decode_all (\<lambda>_. 0) demo_deserialize
     (written (\<lambda>_. 0) demo_serialize (DeleteNode ''a'') @ take 9 (written (\<lambda>_. 0) demo_serialize (DeleteNode ''b'')))) = [DeleteNode ''a'']"
  using wal_recovers_commits [OF demo_codec(1), of "[DeleteNode ''a'']" "DeleteNode ''b''" 9 "\<lambda>_. 0"] demo_codec demo_length by simp

theorem wal_repair_then_append_witness:
  "fst (decode_all (\<lambda>_. 0) demo_deserialize
     (take (snd (decode_all (\<lambda>_. 0) demo_deserialize [1, 2, 3])) [1, 2, 3] @ written (\<lambda>_. 0) demo_serialize (DeleteNode ''b''))) =
   fst (decode_all (\<lambda>_. 0) demo_deserialize [1, 2, 3]) @ [DeleteNode ''b'']"
  using wal_repair_then_append [OF demo_codec(1), of "[DeleteNode ''b'']" "\<lambda>_. 0" "[1, 2, 3]"] demo_codec
  by (cases "decode_all (\<lambda>_. 0) demo_deserialize [1, 2, 3]") simp


end
