(* ===== verification/Packstream.thy ===== *)
theory Packstream
  imports Prelude
begin

unbundle bit_operations_syntax

text \<open>
  PackStream v1, \<open>crates/bolt/src/packstream.rs\<close>: the value type, the encoder, and the
  decoder with its errors and its bound on nesting. The encoder is the bytes it appends to
  its buffer. The decoder's cursor is the bytes it has not read yet; its recursion counts
  the levels of nesting still allowed down to none, where the code counts the depth up to
  \<open>MAX_DEPTH\<close>. A \<open>f64\<close> is its 64 bits.
\<close>

section \<open>Values and errors\<close>

definition TAG_NODE :: u8 where "TAG_NODE = 0x4E"
definition TAG_RELATIONSHIP :: u8 where "TAG_RELATIONSHIP = 0x52"
definition TAG_UNBOUND_RELATIONSHIP :: u8 where "TAG_UNBOUND_RELATIONSHIP = 0x72"
definition TAG_PATH :: u8 where "TAG_PATH = 0x50"
definition PACK_MAX_DEPTH :: nat where "PACK_MAX_DEPTH = 128"

datatype pack_value =
    PNull
  | PBool bool
  | PInt int
  | PFloat u64
  | PBytes "u8 list"
  | PString string
  | PList "pack_value list"
  | PMap "(string \<times> pack_value) list"
  | PStruct u8 "pack_value list"

definition struct_node :: "int \<Rightarrow> string list \<Rightarrow> (string \<times> pack_value) list \<Rightarrow> pack_value" where
  "struct_node i labels properties = PStruct TAG_NODE [PInt i, PList (map PString labels), PMap properties]"

definition struct_relationship ::
  "int \<Rightarrow> int \<Rightarrow> int \<Rightarrow> string \<Rightarrow> (string \<times> pack_value) list \<Rightarrow> pack_value" where
  "struct_relationship i start end' rel_type properties =
     PStruct TAG_RELATIONSHIP [PInt i, PInt start, PInt end', PString rel_type, PMap properties]"

definition struct_path :: "pack_value list \<Rightarrow> pack_value list \<Rightarrow> int list \<Rightarrow> pack_value" where
  "struct_path nodes rels sequence = PStruct TAG_PATH [PList nodes, PList rels, PList (map PInt sequence)]"

datatype pack_error = Truncated | ReservedMarker u8 | InvalidUtf8 | NonStringKey | TooDeep

section \<open>Encoding\<close>

text \<open>\<open>to_be_bytes\<close> and \<open>from_be_bytes\<close>.\<close>

definition nat_to_be :: "nat \<Rightarrow> nat \<Rightarrow> u8 list" where "nat_to_be k n = rev (nat_to_le k n)"
definition be_to_nat :: "u8 list \<Rightarrow> nat" where "be_to_nat bs = le_to_nat (rev bs)"

definition int_to_be :: "nat \<Rightarrow> int \<Rightarrow> u8 list" where
  "int_to_be k i = nat_to_be k (nat (i mod 256 ^ k))"

definition be_to_int :: "u8 list \<Rightarrow> int" where
  "be_to_int bs =
     (let n = int (be_to_nat bs); m = 256 ^ length bs in if 2 * n < m then n else n - m)"

definition pack_size :: "nat \<Rightarrow> u8 \<times> u8 \<times> u8 \<Rightarrow> u8 option \<Rightarrow> u8 list" where
  "pack_size len markers tiny =
     (case markers of (m8, m16, m32) \<Rightarrow>
       if tiny \<noteq> None \<and> len < 16 then [the tiny OR of_nat len]
       else if len \<le> 0xFF then [m8, of_nat len]
       else if len \<le> 0xFFFF then m16 # nat_to_be 2 len
       else m32 # nat_to_be 4 len)"

definition pack_int :: "int \<Rightarrow> u8 list" where
  "pack_int i =
     (if -16 \<le> i \<and> i \<le> 127 then [of_int i]
      else if -128 \<le> i \<and> i \<le> 127 then [0xC8, of_int i]
      else if - (2 ^ 15) \<le> i \<and> i < 2 ^ 15 then 0xC9 # int_to_be 2 i
      else if in_i32 i then 0xCA # int_to_be 4 i
      else 0xCB # int_to_be 8 i)"

definition struct_header :: "nat \<Rightarrow> u8 list" where
  "struct_header n =
     (if n < 16 then [0xB0 OR of_nat n]
      else if n \<le> 0xFF then [0xDC, of_nat n]
      else 0xDD # nat_to_be 2 n)"

definition pack_string :: "string \<Rightarrow> u8 list" where
  "pack_string s = pack_size (length s) (0xD0, 0xD1, 0xD2) (Some 0x80) @ as_bytes s"

fun pack :: "pack_value \<Rightarrow> u8 list" where
  "pack PNull = [0xC0]"
| "pack (PBool b) = [if b then 0xC3 else 0xC2]"
| "pack (PInt i) = pack_int i"
| "pack (PFloat x) = 0xC1 # nat_to_be 8 (unat x)"
| "pack (PBytes b) = pack_size (length b) (0xCC, 0xCD, 0xCE) None @ b"
| "pack (PString s) = pack_string s"
| "pack (PList items) = pack_size (length items) (0xD4, 0xD5, 0xD6) (Some 0x90) @ concat (map pack items)"
| "pack (PMap entries) = pack_size (length entries) (0xD8, 0xD9, 0xDA) (Some 0xA0) @
     concat (map (\<lambda>e. pack_string (fst e) @ pack (snd e)) entries)"
| "pack (PStruct tag fields) = struct_header (length fields) @ tag # concat (map pack fields)"

section \<open>Decoding\<close>

type_synonym 'a cursor_res = "pack_error + ('a \<times> u8 list)"

definition cursor_take :: "nat \<Rightarrow> u8 list \<Rightarrow> u8 list cursor_res" where
  "cursor_take n bs = (if length bs < n then Inl Truncated else Inr (take n bs, drop n bs))"

definition cursor_byte :: "u8 list \<Rightarrow> u8 cursor_res" where
  "cursor_byte bs = bind_res (cursor_take 1 bs) (\<lambda>(b, bs). Inr (hd b, bs))"

definition cursor_uint :: "nat \<Rightarrow> u8 list \<Rightarrow> nat cursor_res" where
  "cursor_uint width bs = bind_res (cursor_take width bs) (\<lambda>(b, bs). Inr (be_to_nat b, bs))"

definition cursor_sized :: "u8 \<Rightarrow> u8 \<times> u8 \<times> u8 \<Rightarrow> u8 list \<Rightarrow> nat cursor_res" where
  "cursor_sized marker markers bs =
     (case markers of (m8, m16, m32) \<Rightarrow>
        cursor_uint (if marker = m8 then 1 else if marker = m16 then 2 else 4) bs)"

definition cursor_string :: "nat \<Rightarrow> u8 list \<Rightarrow> string cursor_res" where
  "cursor_string len bs = bind_res (cursor_take len bs)
     (\<lambda>(b, bs). case from_utf8 b of Some s \<Rightarrow> Inr (s, bs) | None \<Rightarrow> Inl InvalidUtf8)"

definition check_count :: "nat \<Rightarrow> u8 list \<Rightarrow> pack_error + unit" where
  "check_count n bs = (if n > length bs then Inl Truncated else Inr ())"

text \<open>The loops that read a declared number of elements or entries.\<close>

fun items_loop :: "(u8 list \<Rightarrow> pack_value cursor_res) \<Rightarrow> nat \<Rightarrow> u8 list \<Rightarrow> pack_value list cursor_res" where
  "items_loop val 0 bs = Inr ([], bs)"
| "items_loop val (Suc n) bs =
     bind_res (val bs) (\<lambda>(v, bs). bind_res (items_loop val n bs) (\<lambda>(vs, bs). Inr (v # vs, bs)))"

fun entries_loop :: "(u8 list \<Rightarrow> pack_value cursor_res) \<Rightarrow> nat \<Rightarrow> u8 list \<Rightarrow> (string \<times> pack_value) list cursor_res" where
  "entries_loop val 0 bs = Inr ([], bs)"
| "entries_loop val (Suc n) bs =
     bind_res (val bs) (\<lambda>(k, bs). case k of
         PString key \<Rightarrow> bind_res (val bs) (\<lambda>(v, bs).
           bind_res (entries_loop val n bs) (\<lambda>(es, bs). Inr ((key, v) # es, bs)))
       | _ \<Rightarrow> Inl NonStringKey)"

definition cursor_list :: "(u8 list \<Rightarrow> pack_value cursor_res) \<Rightarrow> nat \<Rightarrow> u8 list \<Rightarrow> pack_value cursor_res" where
  "cursor_list val n bs = bind_res (check_count n bs) (\<lambda>_.
     bind_res (items_loop val n bs) (\<lambda>(vs, bs). Inr (PList vs, bs)))"

definition cursor_map :: "(u8 list \<Rightarrow> pack_value cursor_res) \<Rightarrow> nat \<Rightarrow> u8 list \<Rightarrow> pack_value cursor_res" where
  "cursor_map val n bs = bind_res (check_count n bs) (\<lambda>_.
     bind_res (entries_loop val n bs) (\<lambda>(es, bs). Inr (PMap es, bs)))"

definition cursor_structure :: "(u8 list \<Rightarrow> pack_value cursor_res) \<Rightarrow> nat \<Rightarrow> u8 list \<Rightarrow> pack_value cursor_res" where
  "cursor_structure val n bs = bind_res (cursor_byte bs) (\<lambda>(tag, bs).
     bind_res (check_count n bs) (\<lambda>_.
     bind_res (items_loop val n bs) (\<lambda>(vs, bs). Inr (PStruct tag vs, bs))))"

text \<open>The match on the marker, with the reader of nested values.\<close>

definition read_marked :: "(u8 list \<Rightarrow> pack_value cursor_res) \<Rightarrow> u8 \<Rightarrow> u8 list \<Rightarrow> pack_value cursor_res" where
  "read_marked val marker bs =
     (if marker \<le> 0x7F then Inr (PInt (uint marker), bs)
      else if 0xF0 \<le> marker then Inr (PInt (sint marker), bs)
      else if marker \<le> 0x8F then bind_res (cursor_string (unat (marker AND 0x0F)) bs) (\<lambda>(s, bs). Inr (PString s, bs))
      else if marker \<le> 0x9F then cursor_list val (unat (marker AND 0x0F)) bs
      else if marker \<le> 0xAF then cursor_map val (unat (marker AND 0x0F)) bs
      else if marker \<le> 0xBF then cursor_structure val (unat (marker AND 0x0F)) bs
      else if marker = 0xC0 then Inr (PNull, bs)
      else if marker = 0xC1 then bind_res (cursor_take 8 bs) (\<lambda>(b, bs). Inr (PFloat (of_nat (be_to_nat b)), bs))
      else if marker = 0xC2 then Inr (PBool False, bs)
      else if marker = 0xC3 then Inr (PBool True, bs)
      else if marker = 0xC8 then bind_res (cursor_byte bs) (\<lambda>(b, bs). Inr (PInt (sint b), bs))
      else if marker = 0xC9 then bind_res (cursor_take 2 bs) (\<lambda>(b, bs). Inr (PInt (be_to_int b), bs))
      else if marker = 0xCA then bind_res (cursor_take 4 bs) (\<lambda>(b, bs). Inr (PInt (be_to_int b), bs))
      else if marker = 0xCB then bind_res (cursor_take 8 bs) (\<lambda>(b, bs). Inr (PInt (be_to_int b), bs))
      else if 0xCC \<le> marker \<and> marker \<le> 0xCE then
        bind_res (cursor_sized marker (0xCC, 0xCD, 0xCE) bs) (\<lambda>(len, bs).
        bind_res (cursor_take len bs) (\<lambda>(b, bs). Inr (PBytes b, bs)))
      else if 0xD0 \<le> marker \<and> marker \<le> 0xD2 then
        bind_res (cursor_sized marker (0xD0, 0xD1, 0xD2) bs) (\<lambda>(len, bs).
        bind_res (cursor_string len bs) (\<lambda>(s, bs). Inr (PString s, bs)))
      else if 0xD4 \<le> marker \<and> marker \<le> 0xD6 then
        bind_res (cursor_sized marker (0xD4, 0xD5, 0xD6) bs) (\<lambda>(n, bs). cursor_list val n bs)
      else if 0xD8 \<le> marker \<and> marker \<le> 0xDA then
        bind_res (cursor_sized marker (0xD8, 0xD9, 0xDA) bs) (\<lambda>(n, bs). cursor_map val n bs)
      else if marker = 0xDC then bind_res (cursor_uint 1 bs) (\<lambda>(n, bs). cursor_structure val n bs)
      else if marker = 0xDD then bind_res (cursor_uint 2 bs) (\<lambda>(n, bs). cursor_structure val n bs)
      else Inl (ReservedMarker marker))"

fun cursor_value :: "nat \<Rightarrow> u8 list \<Rightarrow> pack_value cursor_res" where
  "cursor_value 0 bs = Inl TooDeep"
| "cursor_value (Suc levels) bs =
     bind_res (cursor_byte bs) (\<lambda>(marker, bs). read_marked (cursor_value levels) marker bs)"

definition unpack :: "u8 list \<Rightarrow> pack_error + (pack_value \<times> nat)" where
  "unpack buf =
     bind_res (cursor_value (PACK_MAX_DEPTH + 1) buf) (\<lambda>(v, rest). Inr (v, length buf - length rest))"

section \<open>Values the encoder is exact on\<close>

text \<open>The levels of nesting a value takes: an entry of a map has its key one level down.\<close>

fun levels :: "pack_value \<Rightarrow> nat" where
  "levels (PList items) = Suc (fold max (map levels items) 0)"
| "levels (PMap entries) = Suc (fold max (map (\<lambda>e. max 1 (levels (snd e))) entries) 0)"
| "levels (PStruct tag fields) = Suc (fold max (map levels fields) 0)"
| "levels _ = 1"

fun pack_ok :: "pack_value \<Rightarrow> bool" where
  "pack_ok (PInt i) = in_i64 i"
| "pack_ok (PBytes b) = (length b < 2 ^ 32)"
| "pack_ok (PString s) = (length s < 2 ^ 32 \<and> rust_string s)"
| "pack_ok (PList items) = (length items < 2 ^ 32 \<and> list_all pack_ok items)"
| "pack_ok (PMap entries) = (length entries < 2 ^ 32 \<and>
     list_all (\<lambda>e. length (fst e) < 2 ^ 32 \<and> rust_string (fst e) \<and> pack_ok (snd e)) entries)"
| "pack_ok (PStruct tag fields) = (length fields < 2 ^ 16 \<and> list_all pack_ok fields)"
| "pack_ok _ = True"

section \<open>Numbers\<close>

lemma length_nat_to_be [simp]: "length (nat_to_be k n) = k"
  by (simp add: nat_to_be_def)

lemma be_to_nat_to_be: "n < 256 ^ k \<Longrightarrow> be_to_nat (nat_to_be k n) = n"
  by (simp add: be_to_nat_def nat_to_be_def)

lemma be_to_nat_bound: "be_to_nat bs < 256 ^ length bs"
  using le_to_nat_bound [of "rev bs"] by (simp add: be_to_nat_def)

lemma length_int_to_be [simp]: "length (int_to_be k i) = k"
  by (simp add: int_to_be_def)

lemma be_to_int_to_be:
  assumes "- (256 ^ k) \<le> 2 * i" "2 * i < 256 ^ k"
  shows "be_to_int (int_to_be k i) = i"
proof -
  define m :: int where "m = 256 ^ k"
  have m: "0 < m" by (simp add: m_def)
  have i: "- m \<le> 2 * i" "2 * i < m" using assms by (simp_all add: m_def)
  have "nat (i mod m) < 256 ^ k" using m by (simp add: nat_less_iff m_def)
  then have v: "int (be_to_nat (int_to_be k i)) = i mod m"
    using m by (simp add: int_to_be_def be_to_nat_to_be m_def [symmetric])
  have "i mod m = (if 0 \<le> i then i else i + m)"
  proof (cases "0 \<le> i")
    case True
    then show ?thesis using i m by simp
  next
    case False
    have "i mod m = (i + m) mod m" by simp
    also have "\<dots> = i + m" using False i m by (intro mod_pos_pos_trivial) auto
    finally show ?thesis using False by simp
  qed
  then show ?thesis using i by (auto simp: be_to_int_def v m_def [symmetric] Let_def)
qed

lemma sint_of_int_byte: "-128 \<le> i \<Longrightarrow> i < 128 \<Longrightarrow> sint (of_int i :: u8) = i"
  by (simp add: sint_sbintrunc' signed_take_bit_int_eq_self)

lemma u8_le_iff: "a \<le> b \<longleftrightarrow> unat a \<le> unat b" for a b :: u8
  by (rule word_le_nat_alt)

lemma tiny_marker:
  assumes "n < 16" "b \<in> {0x80, 0x90, 0xA0, 0xB0 :: u8}"
  shows "unat (b OR of_nat n) = unat b + n" "unat ((b OR of_nat n) AND 0x0F) = n"
proof -
  have n: "(of_nat n :: u8) AND 0x0F = of_nat n"
  proof -
    have "(0x0F :: u8) = mask 4" by (simp add: mask_eq_exp_minus_1)
    then have "(of_nat n :: u8) AND 0x0F = take_bit 4 (of_nat n)" by (simp add: take_bit_eq_mask)
    also have "\<dots> = of_nat (take_bit 4 n)" by (simp add: take_bit_of_nat)
    also have "take_bit 4 n = n" using assms(1) by (simp add: take_bit_nat_eq_self)
    finally show ?thesis .
  qed
  have b: "b AND 0x0F = 0" using assms(2) by auto
  have "b AND of_nat n = (b AND 0x0F) AND of_nat n" by (subst n [symmetric]) (simp only: and.assoc and.commute and.left_commute)
  then have disj: "b AND of_nat n = 0" by (simp add: b)
  have "(b OR of_nat n) AND 0x0F = of_nat n"
    by (simp only: bit.conj_disj_distrib2 n b) simp
  then show "unat ((b OR of_nat n) AND 0x0F) = n" using assms(1) by (simp add: unat_of_nat)
  have "b OR of_nat n = b + of_nat n" using disj by (rule disjunctive_add_eq_or [symmetric])
  then show "unat (b OR of_nat n) = unat b + n"
    using assms by (auto simp: unat_word_ariths unat_of_nat)
qed

section \<open>Headers read back\<close>

lemma cursor_take_append [simp]: "length a = n \<Longrightarrow> cursor_take n (a @ bs) = Inr (a, bs)"
  by (simp add: cursor_take_def)

lemma cursor_byte_Cons [simp]: "cursor_byte (b # bs) = Inr (b, bs)"
  by (simp add: cursor_byte_def cursor_take_def)

lemma cursor_uint_be: "n < 256 ^ k \<Longrightarrow> cursor_uint k (nat_to_be k n @ bs) = Inr (n, bs)"
  by (simp add: cursor_uint_def be_to_nat_to_be)

lemma cursor_uint_one: "n < 256 \<Longrightarrow> cursor_uint 1 (of_nat n # bs) = Inr (n, bs)"
  by (simp add: cursor_uint_def cursor_take_def be_to_nat_def unat_of_nat)

lemma value_step: "cursor_value (Suc d) (m # bs) = read_marked (cursor_value d) m bs"
  by simp

declare cursor_value.simps(2) [simp del] value_step [simp]

lemma tiny_read:
  assumes "n < 16"
  shows "read_marked val (0x80 OR of_nat n) bs = bind_res (cursor_string n bs) (\<lambda>(s, bs). Inr (PString s, bs))"
    "read_marked val (0x90 OR of_nat n) bs = cursor_list val n bs"
    "read_marked val (0xA0 OR of_nat n) bs = cursor_map val n bs"
    "read_marked val (0xB0 OR of_nat n) bs = cursor_structure val n bs"
  using tiny_marker [where b = "0x80", OF assms] tiny_marker [where b = "0x90", OF assms] tiny_marker [where b = "0xA0", OF assms]
    tiny_marker [where b = "0xB0", OF assms] assms
  by (simp_all add: read_marked_def u8_le_iff)

lemma sized_read:
  "read_marked val 0xD0 bs = bind_res (cursor_uint 1 bs) (\<lambda>(len, bs). bind_res (cursor_string len bs) (\<lambda>(s, bs). Inr (PString s, bs)))"
  "read_marked val 0xD1 bs = bind_res (cursor_uint 2 bs) (\<lambda>(len, bs). bind_res (cursor_string len bs) (\<lambda>(s, bs). Inr (PString s, bs)))"
  "read_marked val 0xD2 bs = bind_res (cursor_uint 4 bs) (\<lambda>(len, bs). bind_res (cursor_string len bs) (\<lambda>(s, bs). Inr (PString s, bs)))"
  "read_marked val 0xCC bs = bind_res (cursor_uint 1 bs) (\<lambda>(len, bs). bind_res (cursor_take len bs) (\<lambda>(b, bs). Inr (PBytes b, bs)))"
  "read_marked val 0xCD bs = bind_res (cursor_uint 2 bs) (\<lambda>(len, bs). bind_res (cursor_take len bs) (\<lambda>(b, bs). Inr (PBytes b, bs)))"
  "read_marked val 0xCE bs = bind_res (cursor_uint 4 bs) (\<lambda>(len, bs). bind_res (cursor_take len bs) (\<lambda>(b, bs). Inr (PBytes b, bs)))"
  "read_marked val 0xD4 bs = bind_res (cursor_uint 1 bs) (\<lambda>(n, bs). cursor_list val n bs)"
  "read_marked val 0xD5 bs = bind_res (cursor_uint 2 bs) (\<lambda>(n, bs). cursor_list val n bs)"
  "read_marked val 0xD6 bs = bind_res (cursor_uint 4 bs) (\<lambda>(n, bs). cursor_list val n bs)"
  "read_marked val 0xD8 bs = bind_res (cursor_uint 1 bs) (\<lambda>(n, bs). cursor_map val n bs)"
  "read_marked val 0xD9 bs = bind_res (cursor_uint 2 bs) (\<lambda>(n, bs). cursor_map val n bs)"
  "read_marked val 0xDA bs = bind_res (cursor_uint 4 bs) (\<lambda>(n, bs). cursor_map val n bs)"
  "read_marked val 0xDC bs = bind_res (cursor_uint 1 bs) (\<lambda>(n, bs). cursor_structure val n bs)"
  "read_marked val 0xDD bs = bind_res (cursor_uint 2 bs) (\<lambda>(n, bs). cursor_structure val n bs)"
  by (simp_all add: read_marked_def cursor_sized_def)

lemma size_read:
  assumes "n < 2 ^ 32"
  shows "cursor_value (Suc d) (pack_size n (0xD0, 0xD1, 0xD2) (Some 0x80) @ bs) = bind_res (cursor_string n bs) (\<lambda>(s, bs). Inr (PString s, bs))"
    "cursor_value (Suc d) (pack_size n (0xCC, 0xCD, 0xCE) None @ bs) = bind_res (cursor_take n bs) (\<lambda>(b, bs). Inr (PBytes b, bs))"
    "cursor_value (Suc d) (pack_size n (0xD4, 0xD5, 0xD6) (Some 0x90) @ bs) = cursor_list (cursor_value d) n bs"
    "cursor_value (Suc d) (pack_size n (0xD8, 0xD9, 0xDA) (Some 0xA0) @ bs) = cursor_map (cursor_value d) n bs"
  using assms by (simp_all add: pack_size_def tiny_read sized_read cursor_uint_one [simplified] cursor_uint_be)

lemma struct_read:
  "n < 2 ^ 16 \<Longrightarrow> cursor_value (Suc d) (struct_header n @ bs) = cursor_structure (cursor_value d) n bs"
  by (simp add: struct_header_def tiny_read sized_read cursor_uint_one [simplified] cursor_uint_be)

lemma string_read:
  "length s < 2 ^ 32 \<Longrightarrow> rust_string s \<Longrightarrow> cursor_value (Suc d) (pack_string s @ bs) = Inr (PString s, bs)"
  by (simp add: pack_string_def size_read cursor_string_def)

lemma int_read:
  assumes "in_i64 i"
  shows "cursor_value (Suc d) (pack_int i @ bs) = Inr (PInt i, bs)"
proof -
  consider "-16 \<le> i" "i < 0" | "0 \<le> i" "i \<le> 127" | "-128 \<le> i" "i < -16" | "\<not> (-128 \<le> i \<and> i \<le> 127)" by linarith
  then show ?thesis
  proof cases
    case 1
    have u: "uint (of_int i :: u8) = i + 256"
    proof -
      have "uint (of_int i :: u8) = i mod 256" by (simp add: uint_word_of_int)
      also have "\<dots> = (i + 256) mod 256" by simp
      also have "\<dots> = i + 256" using 1 by (intro mod_pos_pos_trivial) auto
      finally show ?thesis .
    qed
    have "0xF0 \<le> (of_int i :: u8)" "\<not> (of_int i :: u8) \<le> 0x7F" using 1 by (simp_all add: word_le_def u)
    then show ?thesis using 1 by (simp add: pack_int_def read_marked_def sint_of_int_byte)
  next
    case 2
    then have u: "uint (of_int i :: u8) = i" by (simp add: uint_word_of_int)
    then have "(of_int i :: u8) \<le> 0x7F" using 2 by (simp add: word_le_def u)
    then show ?thesis using 2 by (simp add: pack_int_def read_marked_def u)
  next
    case 3
    then show ?thesis by (simp add: pack_int_def read_marked_def sint_of_int_byte)
  next
    case 4
    consider "- (2 ^ 15) \<le> i \<and> i < 2 ^ 15" | "\<not> (- (2 ^ 15) \<le> i \<and> i < 2 ^ 15)" "in_i32 i" | "\<not> in_i32 i" "\<not> (- (2 ^ 15) \<le> i \<and> i < 2 ^ 15)"
      by blast
    then show ?thesis
    proof cases
      case 1
      then have "be_to_int (int_to_be 2 i) = i" by (intro be_to_int_to_be) auto
      moreover have "pack_int i = 0xC9 # int_to_be 2 i" using 4 1 by (auto simp: pack_int_def)
      ultimately show ?thesis by (simp add: read_marked_def)
    next
      case 2
      then have "be_to_int (int_to_be 4 i) = i" by (intro be_to_int_to_be) (auto simp: in_i32_def)
      moreover have "pack_int i = 0xCA # int_to_be 4 i" using 4 2 by (auto simp: pack_int_def)
      ultimately show ?thesis by (simp add: read_marked_def)
    next
      case 3
      have "be_to_int (int_to_be 8 i) = i" using assms by (intro be_to_int_to_be) (auto simp: in_i64_def)
      moreover have "pack_int i = 0xCB # int_to_be 8 i" using 4 3 by (auto simp: pack_int_def)
      ultimately show ?thesis by (simp add: read_marked_def)
    qed
  qed
qed

lemma scalar_read:
  "read_marked val 0xC0 bs = Inr (PNull, bs)" "read_marked val 0xC2 bs = Inr (PBool False, bs)"
  "read_marked val 0xC3 bs = Inr (PBool True, bs)"
  by (simp_all add: read_marked_def)

lemma float_read: "cursor_value (Suc d) (0xC1 # nat_to_be 8 (unat x) @ bs) = Inr (PFloat x, bs)"
proof -
  have "unat x < 256 ^ 8" using unat_bound [of x] by simp
  then show ?thesis by (simp add: read_marked_def be_to_nat_to_be)
qed

section \<open>Values read back\<close>

lemma pack_size_pos: "1 \<le> length (pack_size n m t)"
  by (simp add: pack_size_def split: prod.split)

lemma pack_pos: "1 \<le> length (pack v)"
  using pack_size_pos by (cases v) (auto simp: pack_int_def pack_string_def struct_header_def trans_le_add1)

lemma length_concat_ge: "(\<And>x. x \<in> set xs \<Longrightarrow> 1 \<le> length (f x)) \<Longrightarrow> length xs \<le> length (concat (map f xs))"
proof (induction xs)
  case (Cons x xs)
  then have "1 \<le> length (f x)" "length xs \<le> length (concat (map f xs))" by auto
  then show ?case by simp
qed simp

lemma fold_max_le: "fold max xs a \<le> (n :: nat) \<longleftrightarrow> a \<le> n \<and> (\<forall>x \<in> set xs. x \<le> n)"
  by (induction xs arbitrary: a) auto

lemma items_read:
  assumes "\<And>v bs. v \<in> set vs \<Longrightarrow> val (pack v @ bs) = Inr (v, bs)"
  shows "items_loop val (length vs) (concat (map pack vs) @ bs) = Inr (vs, bs)"
  using assms by (induction vs) auto

lemma entries_read:
  assumes "\<And>e bs. e \<in> set es \<Longrightarrow> val (pack_string (fst e) @ bs) = Inr (PString (fst e), bs)"
    "\<And>e bs. e \<in> set es \<Longrightarrow> val (pack (snd e) @ bs) = Inr (snd e, bs)"
  shows "entries_loop val (length es) (concat (map (\<lambda>e. pack_string (fst e) @ pack (snd e)) es) @ bs) = Inr (es, bs)"
  using assms by (induction es) auto

lemma value_read: "pack_ok v \<Longrightarrow> levels v \<le> d \<Longrightarrow> cursor_value d (pack v @ bs) = Inr (v, bs)"
proof (induction v arbitrary: d bs)
  case (PList items)
  then obtain d' where d: "d = Suc d'" "\<And>v. v \<in> set items \<Longrightarrow> levels v \<le> d'"
    by (cases d) (auto simp: fold_max_le)
  have "items_loop (cursor_value d') (length items) (concat (map pack items) @ bs) = Inr (items, bs)"
    by (rule items_read) (use PList d(2) in \<open>auto simp: list_all_iff\<close>)
  moreover have "length items \<le> length (concat (map pack items))" by (rule length_concat_ge) (rule pack_pos)
  ultimately show ?case using PList.prems(1) by (simp add: d(1) size_read cursor_list_def check_count_def)
next
  case (PMap entries)
  then obtain d' where d: "d = Suc d'" "\<And>e. e \<in> set entries \<Longrightarrow> levels (snd e) \<le> d' \<and> 1 \<le> d'"
    by (cases d) (auto simp: fold_max_le)
  have "entries_loop (cursor_value d') (length entries)
      (concat (map (\<lambda>e. pack_string (fst e) @ pack (snd e)) entries) @ bs) = Inr (entries, bs)"
  proof (rule entries_read)
    fix e bs
    assume e: "e \<in> set entries"
    then obtain d'' where "d' = Suc d''" using d(2) [OF e] by (cases d') auto
    then show "cursor_value d' (pack_string (fst e) @ bs) = Inr (PString (fst e), bs)"
      using e PMap.prems(1) by (auto simp: list_all_iff intro: string_read)
    show "cursor_value d' (pack (snd e) @ bs) = Inr (snd e, bs)"
      using PMap.IH [of e "snd e" d' bs] e PMap.prems(1) d(2) by (cases e) (auto simp: list_all_iff)
  qed
  moreover have "length entries \<le> length (concat (map (\<lambda>e. pack_string (fst e) @ pack (snd e)) entries))"
    by (rule length_concat_ge) (simp add: trans_le_add2 pack_pos [simplified])
  ultimately show ?case using PMap.prems(1) by (simp add: d(1) size_read cursor_map_def check_count_def)
next
  case (PStruct tag fields)
  then obtain d' where d: "d = Suc d'" "\<And>v. v \<in> set fields \<Longrightarrow> levels v \<le> d'"
    by (cases d) (auto simp: fold_max_le)
  have "items_loop (cursor_value d') (length fields) (concat (map pack fields) @ bs) = Inr (fields, bs)"
    by (rule items_read) (use PStruct d(2) in \<open>auto simp: list_all_iff\<close>)
  moreover have "length fields \<le> length (concat (map pack fields))" by (rule length_concat_ge) (rule pack_pos)
  ultimately show ?case using PStruct.prems(1) by (simp add: d(1) struct_read cursor_structure_def check_count_def)
next
  case (PInt i)
  then show ?case by (cases d) (simp_all add: int_read)
next
  case (PFloat x)
  then show ?case using float_read by (cases d) (simp_all del: value_step)
next
  case (PBytes b)
  then show ?case by (cases d) (simp_all add: size_read)
next
  case (PString x)
  then show ?case by (cases d) (simp_all add: string_read)
next
  case PNull
  then show ?case by (cases d) (simp_all add: scalar_read)
next
  case (PBool b)
  then show ?case by (cases d; cases b) (simp_all add: scalar_read)
qed

section \<open>Every decoded value has no shorter encoding\<close>

text \<open>A reader that never gives more than it consumed could be written in.\<close>

definition reads_minimal :: "(u8 list \<Rightarrow> pack_value cursor_res) \<Rightarrow> bool" where
  "reads_minimal val \<longleftrightarrow> (\<forall>bs v rest. val bs = Inr (v, rest) \<longrightarrow>
     pack_ok v \<and> length (pack v) + length rest \<le> length bs)"

lemma reads_minimalD:
  "reads_minimal val \<Longrightarrow> val bs = Inr (v, rest) \<Longrightarrow> pack_ok v \<and> length (pack v) + length rest \<le> length bs"
  by (auto simp: reads_minimal_def)

lemma items_minimal:
  "reads_minimal val \<Longrightarrow> items_loop val n bs = Inr (vs, rest) \<Longrightarrow>
   length vs = n \<and> list_all pack_ok vs \<and> length (concat (map pack vs)) + length rest \<le> length bs"
proof (induction n arbitrary: bs vs)
  case (Suc n)
  then obtain v bs' vs' where v: "val bs = Inr (v, bs')" "items_loop val n bs' = Inr (vs', rest)" "vs = v # vs'"
    by (auto simp: bind_res_Inr_iff)
  then show ?case using Suc.IH [OF Suc.prems(1) v(2)] reads_minimalD [OF Suc.prems(1) v(1)] by auto
qed auto

lemma entries_minimal:
  "reads_minimal val \<Longrightarrow> entries_loop val n bs = Inr (es, rest) \<Longrightarrow>
   length es = n \<and> list_all (\<lambda>e. length (fst e) < 2 ^ 32 \<and> rust_string (fst e) \<and> pack_ok (snd e)) es \<and>
   length (concat (map (\<lambda>e. pack_string (fst e) @ pack (snd e)) es)) + length rest \<le> length bs"
proof (induction n arbitrary: bs es)
  case (Suc n)
  obtain a bs' where a: "val bs = Inr (a, bs')" using Suc.prems(2) by (auto simp: bind_res_Inr_iff)
  moreover obtain k where k: "a = PString k" using Suc.prems(2) a by (cases a) auto
  ultimately obtain v bs'' es' where v: "val bs = Inr (PString k, bs')" "val bs' = Inr (v, bs'')"
    "entries_loop val n bs'' = Inr (es', rest)" "es = (k, v) # es'"
    using Suc.prems(2) by (auto simp: bind_res_Inr_iff)
  then show ?case
    using Suc.IH [OF Suc.prems(1) v(3)] reads_minimalD [OF Suc.prems(1) v(1)] reads_minimalD [OF Suc.prems(1) v(2)] by auto
qed auto

lemma pack_size_least:
  "length (pack_size n m t) \<le> 5" "n < 2 ^ 16 \<Longrightarrow> length (pack_size n m t) \<le> 3" "n < 256 \<Longrightarrow> length (pack_size n m t) \<le> 2"
  "n < 16 \<Longrightarrow> length (pack_size n m (Some b)) = 1"
  by (simp_all add: pack_size_def split: prod.split)

lemma struct_header_least:
  "length (struct_header n) \<le> 3" "n < 256 \<Longrightarrow> length (struct_header n) \<le> 2" "n < 16 \<Longrightarrow> length (struct_header n) = 1"
  by (simp_all add: struct_header_def)

lemma list_minimal:
  assumes "reads_minimal val" "cursor_list val n bs = Inr (v, rest)" "n < 2 ^ 32"
    "length (pack_size n (0xD4, 0xD5, 0xD6) (Some 0x90)) \<le> h"
  shows "pack_ok v \<and> length (pack v) + length rest \<le> h + length bs"
proof -
  obtain vs where "items_loop val n bs = Inr (vs, rest)" "v = PList vs"
    using assms(2) by (auto simp: cursor_list_def bind_res_Inr_iff)
  then show ?thesis using items_minimal [OF assms(1)] assms(3,4) by fastforce
qed

lemma map_minimal:
  assumes "reads_minimal val" "cursor_map val n bs = Inr (v, rest)" "n < 2 ^ 32"
    "length (pack_size n (0xD8, 0xD9, 0xDA) (Some 0xA0)) \<le> h"
  shows "pack_ok v \<and> length (pack v) + length rest \<le> h + length bs"
proof -
  obtain es where "entries_loop val n bs = Inr (es, rest)" "v = PMap es"
    using assms(2) by (auto simp: cursor_map_def bind_res_Inr_iff)
  then show ?thesis using entries_minimal [OF assms(1)] assms(3,4) by fastforce
qed

lemma structure_minimal:
  assumes "reads_minimal val" "cursor_structure val n bs = Inr (v, rest)" "n < 2 ^ 16" "length (struct_header n) \<le> h"
  shows "pack_ok v \<and> length (pack v) + length rest \<le> h + length bs"
proof -
  obtain tag bs' vs where "cursor_byte bs = Inr (tag, bs')" "items_loop val n bs' = Inr (vs, rest)" "v = PStruct tag vs"
    using assms(2) by (auto simp: cursor_structure_def bind_res_Inr_iff)
  moreover have "length bs = Suc (length bs')"
    using calculation(1) by (auto simp: cursor_byte_def cursor_take_def bind_res_Inr_iff split: if_splits)
  ultimately show ?thesis using items_minimal [OF assms(1), of n bs' vs rest] assms(3,4) by auto
qed

lemma string_minimal:
  assumes "cursor_string n bs = Inr (s, rest)" "n < 2 ^ 32" "length (pack_size n (0xD0, 0xD1, 0xD2) (Some 0x80)) \<le> h"
  shows "pack_ok (PString s) \<and> length (pack (PString s)) + length rest \<le> h + length bs"
proof -
  have "n \<le> length bs" "utf8_valid (take n bs)" "s = of_bytes (take n bs)" "rest = drop n bs"
    using assms(1) by (auto simp: cursor_string_def cursor_take_def from_utf8_def bind_res_Inr_iff split: if_splits)
  moreover have "length s = n" using calculation by (simp add: of_bytes_def)
  ultimately show ?thesis using assms(2,3) by (simp add: rust_string_def pack_string_def)
qed

lemma bytes_minimal:
  assumes "cursor_take n bs = Inr (b, rest)" "n < 2 ^ 32" "length (pack_size n (0xCC, 0xCD, 0xCE) None) \<le> h"
  shows "pack_ok (PBytes b) \<and> length (pack (PBytes b)) + length rest \<le> h + length bs"
  using assms by (auto simp: cursor_take_def split: if_splits)

lemma be_to_int_range: "length bs = k \<Longrightarrow> - (256 ^ k) \<le> 2 * be_to_int bs \<and> 2 * be_to_int bs < 256 ^ k"
proof -
  assume k: "length bs = k"
  define n m where "n = int (be_to_nat bs)" and "m = (256 :: int) ^ k"
  have "0 \<le> n" "n < m"
    using be_to_nat_bound [of bs] k unfolding n_def m_def by (simp, metis of_nat_less_iff of_nat_numeral of_nat_power)
  then show ?thesis by (auto simp: be_to_int_def Let_def k n_def [symmetric] m_def [symmetric])
qed

lemma pack_int_least:
  "length (pack_int i) \<le> 9" "in_i32 i \<Longrightarrow> length (pack_int i) \<le> 5" "- (2 ^ 15) \<le> i \<Longrightarrow> i < 2 ^ 15 \<Longrightarrow> length (pack_int i) \<le> 3"
  "-128 \<le> i \<Longrightarrow> i \<le> 127 \<Longrightarrow> length (pack_int i) \<le> 2" "-16 \<le> i \<Longrightarrow> i \<le> 127 \<Longrightarrow> length (pack_int i) = 1"
  by (auto simp: pack_int_def)

lemma take_int_minimal:
  assumes "cursor_take k bs = Inr (b, rest)"
  shows "k = 2 \<Longrightarrow> in_i64 (be_to_int b) \<and> length (pack_int (be_to_int b)) + length rest \<le> Suc (length bs)"
    "k = 4 \<Longrightarrow> in_i64 (be_to_int b) \<and> length (pack_int (be_to_int b)) + length rest \<le> Suc (length bs)"
    "k = 8 \<Longrightarrow> in_i64 (be_to_int b) \<and> length (pack_int (be_to_int b)) + length rest \<le> Suc (length bs)"
proof -
  have b: "length b = k" "length bs = k + length rest" using assms by (auto simp: cursor_take_def split: if_splits)
  note r = be_to_int_range [OF b(1)]
  show "in_i64 (be_to_int b) \<and> length (pack_int (be_to_int b)) + length rest \<le> Suc (length bs)" if "k = 2"
    using r b pack_int_least(3) [of "be_to_int b"] by (auto simp: that in_i64_def)
  show "in_i64 (be_to_int b) \<and> length (pack_int (be_to_int b)) + length rest \<le> Suc (length bs)" if "k = 4"
    using r b pack_int_least(2) [of "be_to_int b"] by (auto simp: that in_i64_def in_i32_def)
  show "in_i64 (be_to_int b) \<and> length (pack_int (be_to_int b)) + length rest \<le> Suc (length bs)" if "k = 8"
    using r b pack_int_least(1) [of "be_to_int b"] by (auto simp: that in_i64_def)
qed

lemma byte_int_minimal: "in_i64 (sint (b :: u8)) \<and> length (pack_int (sint b)) \<le> 2"
proof -
  have "-128 \<le> sint b" "sint b < 128" using sint_range_size [of b] by (simp_all add: word_size)
  then show ?thesis using pack_int_least(4) [of "sint b"] by (simp add: in_i64_def)
qed

lemma cursor_uint_bound: "cursor_uint k bs = Inr (n, rest) \<Longrightarrow> n < 256 ^ k \<and> length bs = k + length rest"
  using be_to_nat_bound [of "take k bs"] by (auto simp: cursor_uint_def cursor_take_def bind_res_Inr_iff split: if_splits)

lemma low_nibble: "unat (m AND 0x0F) < 16" for m :: u8
proof -
  have "(0x0F :: u8) = mask 4" by (simp add: mask_eq_exp_minus_1)
  then have "m AND 0x0F = take_bit 4 m" by (simp add: take_bit_eq_mask)
  then have "unat (m AND 0x0F) = take_bit 4 (unat m)" by (simp only: unsigned_take_bit_eq)
  then show ?thesis by (simp add: take_bit_eq_mod)
qed

lemma sized_minimal:
  assumes "cursor_sized marker (m8, m16, m32) bs = Inr (n, bs')"
  shows "n < 2 ^ 32 \<and> length (pack_size n ms t) + length bs' \<le> Suc (length bs)"
proof -
  obtain k where k: "cursor_uint k bs = Inr (n, bs')" "k = 1 \<or> k = 2 \<or> k = 4"
    using assms by (auto simp: cursor_sized_def split: if_splits)
  then show ?thesis
    using cursor_uint_bound [OF k(1)] pack_size_least(1-3) [of n ms t] by auto
qed

definition fits :: "u8 list \<Rightarrow> pack_value cursor_res \<Rightarrow> bool" where
  "fits bs r \<longleftrightarrow> (\<forall>v rest. r = Inr (v, rest) \<longrightarrow> pack_ok v \<and> length (pack v) + length rest \<le> Suc (length bs))"

lemma fits_if: "(c \<Longrightarrow> fits bs a) \<Longrightarrow> (\<not> c \<Longrightarrow> fits bs b) \<Longrightarrow> fits bs (if c then a else b)"
  by simp

lemma fits_scalars:
  "fits bs (Inr (PNull, bs))" "fits bs (Inr (PBool b, bs))" "fits bs (Inl e)"
  "fits bs (bind_res (cursor_take 8 bs) (\<lambda>(b, bs). Inr (PFloat (of_nat (be_to_nat b)), bs)))"
  by (auto simp: fits_def cursor_take_def bind_res_Inr_iff split: if_splits)

lemma fits_byte_int: "fits bs (bind_res (cursor_byte bs) (\<lambda>(b, bs). Inr (PInt (sint b), bs)))"
  using byte_int_minimal by (cases bs) (auto simp: fits_def cursor_byte_def cursor_take_def bind_res_Inr_iff)

lemma fits_int:
  "fits bs (bind_res (cursor_take 2 bs) (\<lambda>(b, bs). Inr (PInt (be_to_int b), bs)))"
  "fits bs (bind_res (cursor_take 4 bs) (\<lambda>(b, bs). Inr (PInt (be_to_int b), bs)))"
  "fits bs (bind_res (cursor_take 8 bs) (\<lambda>(b, bs). Inr (PInt (be_to_int b), bs)))"
  using take_int_minimal by (auto simp: fits_def bind_res_Inr_iff)

lemma small_in_i64: "in_i64 (uint (m :: u8))"
proof -
  have "(0 :: int) \<le> 2 ^ 63" by simp
  then have "- (2 ^ 63) \<le> uint m" using uint_ge_0 [of m] by linarith
  moreover have "uint m < 2 ^ 63" using uint_lt2p [of m] by simp
  ultimately show ?thesis by (simp add: in_i64_def)
qed

lemma fits_small:
  fixes marker :: u8
  shows "marker \<le> 0x7F \<Longrightarrow> fits bs (Inr (PInt (uint marker), bs))"
  "0xF0 \<le> marker \<Longrightarrow> fits bs (Inr (PInt (sint marker), bs))"
proof -
  assume "marker \<le> 0x7F"
  then have "uint marker \<le> 127" by (simp add: word_le_def)
  then show "fits bs (Inr (PInt (uint marker), bs))" using pack_int_least(5) [of "uint marker", OF order_trans [OF _ uint_ge_0]] small_in_i64 by (simp add: fits_def)
next
  assume m: "0xF0 \<le> marker"
  have "240 \<le> uint marker" "uint marker < 256" using m uint_lt2p [of marker] by (simp_all add: word_le_def)
  then have "sint (of_int (uint marker - 256) :: u8) = uint marker - 256" by (intro sint_of_int_byte) auto
  moreover have "(of_int (uint marker - 256) :: u8) = marker" by simp
  ultimately have "sint marker = uint marker - 256" by (simp only:)
  then show "fits bs (Inr (PInt (sint marker), bs))"
    using pack_int_least(5) [of "sint marker"] \<open>240 \<le> uint marker\<close> \<open>uint marker < 256\<close> by (simp add: fits_def in_i64_def)
qed

lemma fits_tiny:
  fixes m :: u8
  assumes "reads_minimal val"
  shows "fits bs (bind_res (cursor_string (unat (m AND 0x0F)) bs) (\<lambda>(s, bs). Inr (PString s, bs)))"
    "fits bs (cursor_list val (unat (m AND 0x0F)) bs)" "fits bs (cursor_map val (unat (m AND 0x0F)) bs)"
    "fits bs (cursor_structure val (unat (m AND 0x0F)) bs)"
proof -
  have nib: "unat (m AND 0x0F) < 16" by (rule low_nibble)
  then have wide: "unat (m AND 0x0F) < 2 ^ 32" "unat (m AND 0x0F) < 2 ^ 16" by auto
  have tiny: "length (pack_size (unat (m AND 0x0F)) ms (Some b)) \<le> 1" for ms b using pack_size_least(4) [OF nib] by simp
  have header: "length (struct_header (unat (m AND 0x0F))) \<le> 1" using struct_header_least(3) [OF nib] by simp
  show "fits bs (bind_res (cursor_string (unat (m AND 0x0F)) bs) (\<lambda>(s, bs). Inr (PString s, bs)))"
    using string_minimal [OF _ wide(1) tiny] by (fastforce simp: fits_def bind_res_Inr_iff)
  show "fits bs (cursor_list val (unat (m AND 0x0F)) bs)"
    using list_minimal [OF assms _ wide(1) tiny] by (fastforce simp: fits_def)
  show "fits bs (cursor_map val (unat (m AND 0x0F)) bs)"
    using map_minimal [OF assms _ wide(1) tiny] by (fastforce simp: fits_def)
  show "fits bs (cursor_structure val (unat (m AND 0x0F)) bs)"
    using structure_minimal [OF assms _ wide(2) header] by (fastforce simp: fits_def)
qed

lemma fits_sized:
  assumes "reads_minimal val"
  shows "fits bs (bind_res (cursor_sized m (m1, m2, m4) bs) (\<lambda>(len, bs). bind_res (cursor_take len bs) (\<lambda>(b, bs). Inr (PBytes b, bs))))"
    "fits bs (bind_res (cursor_sized m (m1, m2, m4) bs) (\<lambda>(len, bs). bind_res (cursor_string len bs) (\<lambda>(s, bs). Inr (PString s, bs))))"
    "fits bs (bind_res (cursor_sized m (m1, m2, m4) bs) (\<lambda>(n, bs). cursor_list val n bs))"
    "fits bs (bind_res (cursor_sized m (m1, m2, m4) bs) (\<lambda>(n, bs). cursor_map val n bs))"
proof -
  have sized: "fits bs (bind_res (cursor_sized m (m1, m2, m4) bs) (\<lambda>(n, bs). f n bs))"
    if f: "\<And>n bs' v rest. f n bs' = Inr (v, rest) \<Longrightarrow> n < 2 ^ 32 \<Longrightarrow>
      pack_ok v \<and> length (pack v) + length rest \<le> length (pack_size n ms t) + length bs'" for f ms t
    unfolding fits_def
  proof (intro allI impI)
    fix v rest
    assume "bind_res (cursor_sized m (m1, m2, m4) bs) (\<lambda>(n, bs). f n bs) = Inr (v, rest)"
    then obtain n bs' where n: "cursor_sized m (m1, m2, m4) bs = Inr (n, bs')" "f n bs' = Inr (v, rest)"
      by (auto simp: bind_res_Inr_iff)
    then show "pack_ok v \<and> length (pack v) + length rest \<le> Suc (length bs)"
      using sized_minimal [OF n(1), of ms t] f [OF n(2)] by linarith
  qed
  show "fits bs (bind_res (cursor_sized m (m1, m2, m4) bs) (\<lambda>(len, bs). bind_res (cursor_take len bs) (\<lambda>(b, bs). Inr (PBytes b, bs))))"
    using bytes_minimal [OF _ _ order_refl] by (intro sized) (auto simp: bind_res_Inr_iff simp del: pack.simps)
  show "fits bs (bind_res (cursor_sized m (m1, m2, m4) bs) (\<lambda>(len, bs). bind_res (cursor_string len bs) (\<lambda>(s, bs). Inr (PString s, bs))))"
    using string_minimal [OF _ _ order_refl] by (intro sized) (auto simp: bind_res_Inr_iff simp del: pack.simps)
  show "fits bs (bind_res (cursor_sized m (m1, m2, m4) bs) (\<lambda>(n, bs). cursor_list val n bs))"
    by (rule sized) (rule list_minimal [OF assms _ _ order_refl])
  show "fits bs (bind_res (cursor_sized m (m1, m2, m4) bs) (\<lambda>(n, bs). cursor_map val n bs))"
    by (rule sized) (rule map_minimal [OF assms _ _ order_refl])
qed

lemma fits_structs:
  assumes "reads_minimal val"
  shows "fits bs (bind_res (cursor_uint 1 bs) (\<lambda>(n, bs). cursor_structure val n bs))"
    "fits bs (bind_res (cursor_uint 2 bs) (\<lambda>(n, bs). cursor_structure val n bs))"
proof -
  have "fits bs (bind_res (cursor_uint k bs) (\<lambda>(n, bs). cursor_structure val n bs))" if k: "k = 1 \<or> k = 2" for k
    unfolding fits_def
  proof (intro allI impI)
    fix v rest
    assume "bind_res (cursor_uint k bs) (\<lambda>(n, bs). cursor_structure val n bs) = Inr (v, rest)"
    then obtain n bs' where n: "cursor_uint k bs = Inr (n, bs')" "cursor_structure val n bs' = Inr (v, rest)"
      by (auto simp: bind_res_Inr_iff)
    have "n < 2 ^ 16" "length (struct_header n) + length bs' \<le> Suc (length bs)"
      using cursor_uint_bound [OF n(1)] k struct_header_least(1,2) [of n] by auto
    then show "pack_ok v \<and> length (pack v) + length rest \<le> Suc (length bs)"
      using structure_minimal [OF assms n(2) _ order_refl] by linarith
  qed
  then show "fits bs (bind_res (cursor_uint 1 bs) (\<lambda>(n, bs). cursor_structure val n bs))"
    "fits bs (bind_res (cursor_uint 2 bs) (\<lambda>(n, bs). cursor_structure val n bs))" by blast+
qed

lemma read_marked_minimal:
  assumes "reads_minimal val" "read_marked val marker bs = Inr (v, rest)"
  shows "pack_ok v \<and> length (pack v) + length rest \<le> Suc (length bs)"
proof -
  have "fits bs (read_marked val marker bs)"
    unfolding read_marked_def
    by (intro fits_if fits_scalars fits_byte_int fits_int fits_tiny [OF assms(1)] fits_sized [OF assms(1)]
        fits_structs [OF assms(1)] fits_small)
  then show ?thesis using assms(2) by (simp add: fits_def)
qed

lemma value_minimal: "reads_minimal (cursor_value d)"
proof (induction d)
  case (Suc d)
  show ?case unfolding reads_minimal_def
  proof (intro allI impI)
    fix bs v rest
    assume "cursor_value (Suc d) bs = Inr (v, rest)"
    then show "pack_ok v \<and> length (pack v) + length rest \<le> length bs"
      using read_marked_minimal [OF Suc] by (cases bs) (auto simp: cursor_value.simps cursor_byte_def cursor_take_def)
  qed
qed (simp add: reads_minimal_def)

section \<open>Properties\<close>

text \<open>C23. Every wire value whose sizes fit their length fields and whose nesting stays within the
  bound decodes from its encoding, whatever bytes follow, and the decoder reports exactly
  the bytes the encoding takes.\<close>

theorem packstream_roundtrip:
  assumes "pack_ok v" "levels v \<le> PACK_MAX_DEPTH + 1"
  shows "unpack (pack v @ rest) = Inr (v, length (pack v))"
  unfolding unpack_def value_read [OF assms] by simp

theorem packstream_roundtrip_witness:
  "unpack (pack (struct_node 5 [''N''] [(''k'', PInt (- 300))]) @ [1, 2]) =
     Inr (struct_node 5 [''N''] [(''k'', PInt (- 300))], length (pack (struct_node 5 [''N''] [(''k'', PInt (- 300))])))"
  by (rule packstream_roundtrip) (simp_all add: struct_node_def in_i64_def rust_string_def as_bytes_def PACK_MAX_DEPTH_def)

text \<open>Whatever a client sends, a decoded value took at least the bytes of its own encoding and
  no more than were there: the encoder writes the smallest encoding, and what was decoded
  can be encoded and decoded again.\<close>

theorem pack_is_smallest:
  assumes "unpack buf = Inr (v, n)"
  shows "length (pack v) \<le> n \<and> n \<le> length buf \<and> pack_ok v"
proof -
  obtain rest where r: "cursor_value (PACK_MAX_DEPTH + 1) buf = Inr (v, rest)" "n = length buf - length rest"
    using assms by (auto simp: unpack_def bind_res_Inr_iff)
  then show ?thesis using reads_minimalD [OF value_minimal r(1)] by auto
qed

lemma char_of_97: "char_of (97 :: nat) = CHR ''a''"
  by code_simp

theorem pack_is_smallest_witness:
  "unpack [0xD0, 1, 0x61] = Inr (PString ''a'', 3) \<and> length (pack (PString ''a'')) \<le> 3"
proof -
  have "unpack [0xD0, 1, 0x61] = Inr (PString ''a'', 3)"
  proof -
    have "cursor_value (Suc d) [0xD0, 1, 0x61] = Inr (PString ''a'', [])" for d
      by (simp add: sized_read cursor_uint_def cursor_take_def be_to_nat_def cursor_string_def from_utf8_def of_bytes_def
          char_of_97)
    from this [of PACK_MAX_DEPTH] show ?thesis by (simp add: unpack_def)
  qed
  with pack_is_smallest [OF this] show ?thesis by simp
qed

end
