(* ===== verification/Bolt_Wire.thy ===== *)
theory Bolt_Wire
  imports Packstream
begin

text \<open>
  The Bolt transport below the messages: chunked framing, \<open>crates/bolt/src/framing.rs\<close>, and
  the version handshake, \<open>crates/bolt/src/handshake.rs\<close>. The framer is the bytes it appends.
\<close>

section \<open>Framing\<close>

definition MAX_CHUNK :: nat where "MAX_CHUNK = 65535"

definition bolt_frame :: "u8 list \<Rightarrow> u8 list" where
  "bolt_frame msg = concat (map (\<lambda>chunk. nat_to_be 2 (length chunk) @ chunk) (slice_chunks MAX_CHUNK msg)) @ [0, 0]"

text \<open>\<open>None\<close> is the one error, \<open>Incomplete\<close>.\<close>

function deframe_loop :: "u8 list \<Rightarrow> u8 list \<Rightarrow> nat \<Rightarrow> (u8 list \<times> nat) option" where
  "deframe_loop stream message pos =
     (if length stream < pos + 2 then None
      else
        let len = be_to_nat (take 2 (drop pos stream)) in
        if len = 0 then
          (if message = [] then deframe_loop stream message (pos + 2) else Some (message, pos + 2))
        else if length stream < pos + 2 + len then None
        else deframe_loop stream (message @ take len (drop (pos + 2) stream)) (pos + 2 + len))"
  by pat_completeness auto
termination
  by (relation "measure (\<lambda>(stream, _, pos). length stream - pos)") auto

declare deframe_loop.simps [simp del]

definition deframe :: "u8 list \<Rightarrow> (u8 list \<times> nat) option" where
  "deframe stream = deframe_loop stream [] 0"

section \<open>Handshake\<close>

unbundle bit_operations_syntax

definition MAGIC :: "u8 list" where "MAGIC = [0x60, 0x60, 0xB0, 0x17]"
definition HANDSHAKE_LEN :: nat where "HANDSHAKE_LEN = 20"
definition MANIFEST_SLOT :: u32 where "MANIFEST_SLOT = 0x000001FF"
definition SERVER_VERSIONS :: "(u8 \<times> u8) list" where "SERVER_VERSIONS = [(5, 0), (4, 4)]"
definition SERVER_OFFER :: "u32 list" where "SERVER_OFFER = [0x00000005, 0x00000404, 0, 0]"

datatype handshake_error = HandshakeIncomplete | BadMagic

definition parse_request :: "u8 list \<Rightarrow> handshake_error + u32 list" where
  "parse_request bytes =
     (if length bytes < HANDSHAKE_LEN then Inl HandshakeIncomplete
      else if take 4 bytes \<noteq> MAGIC then Inl BadMagic
      else Inr (map (\<lambda>index. of_nat (be_to_nat (take 4 (drop (4 + index * 4) bytes)))) [0..<4]))"

fun pick_version :: "int \<Rightarrow> int \<Rightarrow> u8 \<Rightarrow> (u8 \<times> u8) list \<Rightarrow> (u8 \<times> u8) option" where
  "pick_version rng minor major [] = None"
| "pick_version rng minor major ((server_major, server_minor) # versions) =
     (if server_major = major \<and> uint server_minor \<le> minor \<and> uint server_minor \<ge> minor - rng
      then Some (server_major, server_minor)
      else pick_version rng minor major versions)"

fun negotiate :: "u32 list \<Rightarrow> (u8 \<times> u8) option" where
  "negotiate [] = None"
| "negotiate (slot # slots) =
     (if slot = MANIFEST_SLOT \<or> slot = 0 then negotiate slots
      else
        let rng = uint (drop_bit 16 slot AND 0xFF); minor = uint (drop_bit 8 slot AND 0xFF);
            major = ucast (slot AND 0xFF)
        in case pick_version rng minor major SERVER_VERSIONS of
             Some v \<Rightarrow> Some v
           | None \<Rightarrow> negotiate slots)"

definition handshake_response :: "(u8 \<times> u8) option \<Rightarrow> u8 list" where
  "handshake_response agreed = (case agreed of Some (major, minor) \<Rightarrow> [0, 0, minor, major] | None \<Rightarrow> [0, 0, 0, 0])"

section \<open>Framed messages read back\<close>

lemma deframe_chunk:
  assumes "length pre = pos" "0 < length c" "length c < 65536"
  shows "deframe_loop (pre @ nat_to_be 2 (length c) @ c @ rest) message pos =
    deframe_loop (pre @ nat_to_be 2 (length c) @ c @ rest) (message @ c) (pos + 2 + length c)"
proof -
  have "be_to_nat (nat_to_be 2 (length c)) = length c" using assms(3) by (intro be_to_nat_to_be) simp
  then show ?thesis using assms by (subst deframe_loop.simps) (simp add: Let_def)
qed

lemma zero_header: "be_to_nat [0, 0] = 0"
  by (simp add: be_to_nat_def)

lemma deframe_noop:
  "length pre = pos \<Longrightarrow> deframe_loop (pre @ 0 # 0 # rest) [] pos = deframe_loop (pre @ 0 # 0 # rest) [] (pos + 2)"
  by (subst deframe_loop.simps) (simp add: Let_def zero_header)

lemma deframe_end:
  "length pre = pos \<Longrightarrow> message \<noteq> [] \<Longrightarrow> deframe_loop (pre @ 0 # 0 # rest) message pos = Some (message, pos + 2)"
  by (subst deframe_loop.simps) (simp add: Let_def zero_header)

definition chunk_bytes :: "u8 list list \<Rightarrow> u8 list" where
  "chunk_bytes cs = concat (map (\<lambda>c. nat_to_be 2 (length c) @ c) cs)"

lemma deframe_chunks:
  assumes "\<And>c. c \<in> set cs \<Longrightarrow> 0 < length c \<and> length c < 65536" "length pre = pos"
  shows "deframe_loop (pre @ chunk_bytes cs @ rest) message pos =
    deframe_loop (pre @ chunk_bytes cs @ rest) (message @ concat cs) (pos + length (chunk_bytes cs))"
  using assms
proof (induction cs arbitrary: pre pos message)
  case (Cons c cs)
  let ?h = "nat_to_be 2 (length c)"
  have "deframe_loop (pre @ ?h @ c @ (chunk_bytes cs @ rest)) message pos =
      deframe_loop (pre @ ?h @ c @ (chunk_bytes cs @ rest)) (message @ c) (pos + 2 + length c)"
    using Cons.prems by (intro deframe_chunk) auto
  also have "\<dots> = deframe_loop ((pre @ ?h @ c) @ chunk_bytes cs @ rest) ((message @ c) @ concat cs) (pos + 2 + length c + length (chunk_bytes cs))"
    using Cons.IH [of "pre @ ?h @ c" "pos + 2 + length c" "message @ c"] Cons.prems by simp
  finally show ?case by (simp add: chunk_bytes_def add.assoc)
qed (simp add: chunk_bytes_def)

lemma deframe_noops:
  "length pre = pos \<Longrightarrow> deframe_loop (pre @ replicate (2 * k) 0 @ rest) [] pos =
     deframe_loop (pre @ replicate (2 * k) 0 @ rest) [] (pos + 2 * k)"
proof (induction k arbitrary: pre pos)
  case (Suc k)
  have "replicate (2 * Suc k) (0 :: u8) = 0 # 0 # replicate (2 * k) 0" by simp
  then show ?case using deframe_noop [OF Suc.prems, of "replicate (2 * k) 0 @ rest"] Suc.IH [of "pre @ [0, 0]" "pos + 2"] Suc.prems
    by simp
qed simp

lemma msg_chunks:
  assumes "msg \<noteq> []"
  shows "concat (slice_chunks MAX_CHUNK msg) = msg" "c \<in> set (slice_chunks MAX_CHUNK msg) \<Longrightarrow> 0 < length c \<and> length c < 65536"
proof -
  have "concat (slice_chunks MAX_CHUNK msg) = msg \<and> (\<forall>c \<in> set (slice_chunks MAX_CHUNK msg). 0 < length c \<and> length c < 65536)"
    using assms
  proof (induction "length msg" arbitrary: msg rule: less_induct)
    case less
    show ?case
    proof (rule chunks_cases [of MAX_CHUNK msg])
      assume "length msg \<le> MAX_CHUNK" "slice_chunks MAX_CHUNK msg = [msg]"
      then show ?case using less.prems by (simp add: MAX_CHUNK_def)
    next
      fix x ys
      assume c: "length x = MAX_CHUNK" "ys \<noteq> []" "msg = x @ ys" "slice_chunks MAX_CHUNK msg = x # slice_chunks MAX_CHUNK ys"
      then have "length ys < length msg" by (simp add: MAX_CHUNK_def)
      then show ?case using less.hyps [OF _ c(2)] c(1) unfolding c(4) by (auto simp: c(3) MAX_CHUNK_def)
    qed (use less.prems in \<open>simp_all add: MAX_CHUNK_def\<close>)
  qed
  then show "concat (slice_chunks MAX_CHUNK msg) = msg" "c \<in> set (slice_chunks MAX_CHUNK msg) \<Longrightarrow> 0 < length c \<and> length c < 65536" by auto
qed

lemma bolt_frame_chunks: "bolt_frame msg = chunk_bytes (slice_chunks MAX_CHUNK msg) @ [0, 0]"
  by (simp add: bolt_frame_def chunk_bytes_def)

lemma deframe_frame:
  assumes "msg \<noteq> []"
  shows "deframe (replicate (2 * k) 0 @ bolt_frame msg @ rest) = Some (msg, 2 * k + length (bolt_frame msg))"
proof -
  let ?z = "replicate (2 * k) (0 :: u8)" and ?c = "chunk_bytes (slice_chunks MAX_CHUNK msg)"
  have "deframe (?z @ bolt_frame msg @ rest) = deframe_loop (?z @ ?c @ [0, 0] @ rest) [] (2 * k)"
    using deframe_noops [of "[]" 0 k "?c @ [0, 0] @ rest"] by (simp add: deframe_def bolt_frame_chunks)
  also have "\<dots> = deframe_loop (?z @ ?c @ [0, 0] @ rest) (concat (slice_chunks MAX_CHUNK msg)) (2 * k + length ?c)"
    using deframe_chunks [of "slice_chunks MAX_CHUNK msg" ?z "2 * k" "[0, 0] @ rest" "[]"] msg_chunks(2) [OF assms] by simp
  also have "\<dots> = deframe_loop ((?z @ ?c) @ 0 # 0 # rest) msg (2 * k + length ?c)" by (simp add: msg_chunks(1) [OF assms])
  also have "\<dots> = Some (msg, 2 * k + length ?c + 2)" using assms by (intro deframe_end) simp_all
  finally show ?thesis by (simp add: bolt_frame_chunks)
qed

text \<open>A cut stream is incomplete, wherever it is cut.\<close>

lemma deframe_prefix:
  assumes "deframe_loop stream message pos = Some (m, n)" "pos \<le> k" "k < n"
  shows "deframe_loop (take k stream) message pos = None"
  using assms
proof (induction stream message pos rule: deframe_loop.induct)
  case (1 stream message pos)
  define len where "len = be_to_nat (take 2 (drop pos stream))"
  have s: "pos + 2 \<le> length stream" using "1.prems"(1) by (subst (asm) deframe_loop.simps) (auto split: if_splits)
  show ?case
  proof (cases "k < pos + 2")
    case True
    then have "length (take k stream) < pos + 2" by simp
    then show ?thesis by (subst deframe_loop.simps) (simp only: if_True)
  next
    case False
    have l: "be_to_nat (take 2 (drop pos (take k stream))) = len" using False by (simp add: len_def drop_take min_def)
    have fits: "\<not> length (take k stream) < pos + 2" using False s by simp
    consider "len = 0" "message = []" | "len = 0" "message \<noteq> []" | "len \<noteq> 0" by blast
    then show ?thesis
    proof cases
      case 1
      have "deframe_loop stream message (pos + 2) = Some (m, n)"
        using "1.prems"(1) s 1 by (subst (asm) deframe_loop.simps) (simp add: Let_def len_def)
      then have "deframe_loop (take k stream) message (pos + 2) = None"
        using "1.IH"(1) [OF _ len_def] s 1 "1.prems"(3) False by simp
      then show ?thesis using fits 1 l by (subst deframe_loop.simps) (simp add: Let_def)
    next
      case 2
      have "n = pos + 2" using "1.prems"(1) s 2 by (subst (asm) deframe_loop.simps) (simp add: Let_def len_def)
      then show ?thesis using False "1.prems"(3) by simp
    next
      case 3
      have s2: "pos + 2 + len \<le> length stream"
        and next_: "deframe_loop stream (message @ take len (drop (pos + 2) stream)) (pos + 2 + len) = Some (m, n)"
        using "1.prems"(1) s 3 by (subst (asm) deframe_loop.simps, simp add: Let_def len_def split: if_splits)+
      show ?thesis
      proof (cases "k < pos + 2 + len")
        case True
        then have "length (take k stream) < pos + 2 + len" by simp
        then show ?thesis using fits 3 l by (subst deframe_loop.simps) (simp only: Let_def if_True if_False)
      next
        case k: False
        have t: "take len (drop (pos + 2) (take k stream)) = take len (drop (pos + 2) stream)"
          using k by (simp add: drop_take min_def)
        have "deframe_loop (take k stream) (message @ take len (drop (pos + 2) stream)) (pos + 2 + len) = None"
          using "1.IH"(2) [OF _ len_def 3] s s2 next_ "1.prems"(3) k by simp
        then show ?thesis using fits 3 l k s2 t by (subst deframe_loop.simps) (simp add: Let_def)
      qed
    qed
  qed
qed

section \<open>Negotiation\<close>

definition accepts :: "u32 \<Rightarrow> u8 \<times> u8 \<Rightarrow> bool" where
  "accepts slot v \<longleftrightarrow> slot \<noteq> MANIFEST_SLOT \<and> slot \<noteq> 0 \<and> fst v = ucast (slot AND 0xFF) \<and>
     uint (snd v) \<le> uint (drop_bit 8 slot AND 0xFF) \<and>
     uint (drop_bit 8 slot AND 0xFF) - uint (drop_bit 16 slot AND 0xFF) \<le> uint (snd v)"

lemma pick_version_find:
  "slot \<noteq> MANIFEST_SLOT \<Longrightarrow> slot \<noteq> 0 \<Longrightarrow>
   pick_version (uint (drop_bit 16 slot AND 0xFF)) (uint (drop_bit 8 slot AND 0xFF)) (ucast (slot AND 0xFF)) vs =
     find (accepts slot) vs"
  by (induction vs) (auto simp: accepts_def)

lemma negotiate_find:
  "negotiate slots = (case find (\<lambda>slot. find (accepts slot) SERVER_VERSIONS \<noteq> None) slots of
     None \<Rightarrow> None | Some slot \<Rightarrow> find (accepts slot) SERVER_VERSIONS)"
proof (induction slots)
  case (Cons slot slots)
  show ?case
  proof (cases "slot = MANIFEST_SLOT \<or> slot = 0")
    case True
    then have "accepts slot = (\<lambda>_. False)" by (auto simp: accepts_def)
    moreover have "find (\<lambda>_. False) vs = None" for vs :: "(u8 \<times> u8) list" by (induction vs) simp_all
    ultimately show ?thesis using True Cons.IH by auto
  next
    case False
    then show ?thesis using Cons.IH by (auto simp: Let_def pick_version_find split: option.split)
  qed
qed simp

lemma slots_of_request:
  assumes "length slots = 4"
  shows "parse_request (MAGIC @ concat (map (\<lambda>slot. nat_to_be 4 (unat slot)) slots) @ extra) = Inr slots"
proof -
  have rt: "of_nat (be_to_nat (nat_to_be 4 (unat slot))) = slot" for slot :: u32
    using be_to_nat_to_be [of "unat slot" 4] unsigned_less [of slot, where 'a = nat] by simp
  obtain a b c d where "slots = [a, b, c, d]"
    using assms by (auto simp: length_Suc_conv numeral_eq_Suc)
  then show ?thesis
    by (simp add: parse_request_def MAGIC_def HANDSHAKE_LEN_def upt_rec rt)
qed

section \<open>Properties\<close>

text \<open>Framing and deframing: after any number of keep-alive chunks, a non-empty message of any
  size, split at 65535 bytes, is read back whole whatever bytes follow, and the count consumed is
  exactly the keep-alives and the frame; and a stream cut anywhere before that end is incomplete,
  never a shorter message.\<close>
theorem framing_roundtrip:
  assumes "msg \<noteq> []"
  shows "deframe (replicate (2 * k) 0 @ bolt_frame msg @ rest) = Some (msg, 2 * k + length (bolt_frame msg)) \<and>
    (\<forall>j < 2 * k + length (bolt_frame msg). deframe (take j (replicate (2 * k) 0 @ bolt_frame msg @ rest)) = None)"
  using deframe_frame [OF assms, of k rest] deframe_prefix by (fastforce simp: deframe_def)

theorem framing_roundtrip_witness:
  "deframe [0, 0, 0, 2, 7, 8, 0, 0, 1] = Some ([7, 8], 8) \<and> deframe [0, 0, 0, 2, 7, 8, 0] = None"
proof -
  have c: "slice_chunks 65535 [7, 8 :: u8] = [[7, 8]]" by (subst chunks_single) simp_all
  then have f: "bolt_frame [7, 8] = [0, 2, 7, 8, 0, 0]"
    by (simp add: bolt_frame_def MAX_CHUNK_def nat_to_be_def numeral_2_eq_2)
  show ?thesis using framing_roundtrip [of "[7, 8]" 1 "[1]"] spec [OF conjunct2 [OF framing_roundtrip [of "[7, 8]" 1 "[1]"]], of 7]
    by (simp add: f numeral_2_eq_2)
qed

text \<open>The handshake: the four slots of a request are read as they were sent, and the agreed
  version is the server's first version accepted by the client's first slot that accepts any, where
  slot \<open>[pad, range, minor, major]\<close> accepts \<open>major.v\<close> for \<open>v\<close> in
  \<open>[minor - range, minor]\<close> and the manifest slot and the empty slot accept nothing; when no slot
  accepts one the answer is four zero bytes.\<close>
theorem handshake_negotiates:
  assumes "length slots = 4"
  shows "parse_request (MAGIC @ concat (map (\<lambda>slot. nat_to_be 4 (unat slot)) slots) @ extra) = Inr slots \<and>
    negotiate slots = (case find (\<lambda>slot. find (accepts slot) SERVER_VERSIONS \<noteq> None) slots of
      None \<Rightarrow> None | Some slot \<Rightarrow> find (accepts slot) SERVER_VERSIONS) \<and>
    (handshake_response (negotiate slots) = [0, 0, 0, 0] \<longleftrightarrow> (\<forall>slot \<in> set slots. \<forall>v \<in> set SERVER_VERSIONS. \<not> accepts slot v))"
proof -
  have "negotiate slots \<noteq> Some (0, 0)"
    unfolding negotiate_find by (auto simp: find_Some_iff SERVER_VERSIONS_def split: option.splits if_splits)
  then have "handshake_response (negotiate slots) = [0, 0, 0, 0] \<longleftrightarrow> negotiate slots = None"
    by (auto simp: handshake_response_def split: option.splits)
  moreover have "negotiate slots = None \<longleftrightarrow> (\<forall>slot \<in> set slots. \<forall>v \<in> set SERVER_VERSIONS. \<not> accepts slot v)"
    unfolding negotiate_find by (fastforce simp: find_None_iff find_Some_iff split: option.splits)
  ultimately show ?thesis using slots_of_request [OF assms] negotiate_find by simp
qed

theorem handshake_negotiates_witness:
  "negotiate [0x000001FF, 0x00080805, 0x00020404, 0x00000003] = Some (5, 0)"
  using handshake_negotiates [of "[0x000001FF, 0x00080805, 0x00020404, 0x00000003]" "[]"]
  by (simp add: accepts_def SERVER_VERSIONS_def MANIFEST_SLOT_def)

end
