(* ===== verification/Visible_Set.thy ===== *)
theory Visible_Set
  imports Prelude
begin

text \<open>
  The set of node ids a read may see, \<open>crates/core-query/src/visible.rs\<close>: a hash set or a bitset,
  whichever is no larger, chosen at construction. The ids of a \<open>HashSet\<close> are listed in its
  iteration order. \<open>usize\<close> is 64 bits wide, so neither \<open>max + 1\<close> nor \<open>len * 64\<close> saturates.
\<close>

section \<open>Operations\<close>

unbundle bit_operations_syntax

datatype visible_set = Sparse "u32 list" | Dense "u64 list" nat

definition word_probe :: "u64 \<Rightarrow> nat \<Rightarrow> bool" where
  "word_probe w b \<longleftrightarrow> drop_bit b w AND 1 = 1"

text \<open>\<open>bits\<close>: the set bits of the words, ascending, as ids.\<close>

definition vs_bits :: "u64 list \<Rightarrow> u32 list" where
  "vs_bits words =
     concat (map (\<lambda>(w, word). map (\<lambda>b. of_nat (w * 64) + of_nat b) (filter (word_probe word) [0..<64]))
       (List.enumerate 0 words))"

definition leading_zeros :: "u64 \<Rightarrow> nat" where
  "leading_zeros w = length (takeWhile (\<lambda>b. \<not> bit w b) (rev [0..<64]))"

definition count_ones :: "u64 \<Rightarrow> nat" where
  "count_ones w = length (filter (bit w) [0..<64])"

definition pop_zeros :: "u64 list \<Rightarrow> u64 list" where
  "pop_zeros words = rev (dropWhile (\<lambda>w. w = 0) (rev words))"

definition vs_from_words :: "u64 list \<Rightarrow> nat \<Rightarrow> visible_set" where
  "vs_from_words words len =
     (let words = pop_zeros words in
      if words = [] then Sparse []
      else
        let span = (length words - 1) * 64 + (64 - leading_zeros (last words)) in
        if len * 64 \<ge> span then Dense words len else Sparse (vs_bits words))"

text \<open>The loop that sets the bits; an id's word is always there, since the words cover the largest id
  (\<open>set_ids_in_range\<close>).\<close>

fun set_ids :: "u32 list \<Rightarrow> u64 list \<Rightarrow> nat \<Rightarrow> u64 list \<times> nat" where
  "set_ids [] words len = (words, len)"
| "set_ids (i # ids) words len =
     (let b = push_bit (unat i mod 64) 1; k = unat i div 64 in
      if words ! k AND b = 0 then set_ids ids (words[k := words ! k OR b]) (len + 1)
      else set_ids ids words len)"

definition vs_from_ids :: "u32 list \<Rightarrow> visible_set" where
  "vs_from_ids ids =
     (if ids = [] then Sparse []
      else
        let span = unat (Max (set ids)) + 1 in
        if length ids * 64 < span then Sparse (remdups ids)
        else case set_ids ids (replicate ((span + 63) div 64) 0) 0 of (words, len) \<Rightarrow> vs_from_words words len)"

fun vs_contains :: "visible_set \<Rightarrow> u32 \<Rightarrow> bool" where
  "vs_contains (Sparse ids) i \<longleftrightarrow> i \<in> set ids"
| "vs_contains (Dense words _) i \<longleftrightarrow>
     (if unat i div 64 < length words then word_probe (words ! (unat i div 64)) (unat i mod 64) else False)"

fun vs_len :: "visible_set \<Rightarrow> nat" where
  "vs_len (Sparse ids) = length ids"
| "vs_len (Dense _ len) = len"

definition vs_is_empty :: "visible_set \<Rightarrow> bool" where
  "vs_is_empty v \<longleftrightarrow> vs_len v = 0"

fun vs_iter :: "visible_set \<Rightarrow> u32 list" where
  "vs_iter (Sparse ids) = ids"
| "vs_iter (Dense words _) = vs_bits words"

definition vs_intersect_probe :: "visible_set \<Rightarrow> visible_set \<Rightarrow> visible_set" where
  "vs_intersect_probe a b =
     (let (small, large) = (if vs_len a \<le> vs_len b then (a, b) else (b, a))
      in vs_from_ids (filter (vs_contains large) (vs_iter small)))"

fun vs_intersect :: "visible_set \<Rightarrow> visible_set \<Rightarrow> visible_set" where
  "vs_intersect (Dense a m) (Dense b n) =
     (let words = map (\<lambda>i. a ! i AND b ! i) [0..<min (length a) (length b)]
      in vs_from_words words (sum_list (map count_ones words)))"
| "vs_intersect a b = vs_intersect_probe a b"

section \<open>The bits of a word list\<close>

lemma word_probe_bit [simp]: "word_probe w = bit w"
  by (rule ext) (simp add: word_probe_def and_one_eq bit_iff_odd_drop_bit odd_iff_mod_2_eq_one)

definition wbit :: "u64 list \<Rightarrow> nat \<Rightarrow> bool" where
  "wbit words n \<longleftrightarrow> n div 64 < length words \<and> bit (words ! (n div 64)) (n mod 64)"

definition wset :: "u64 list \<Rightarrow> u32 set" where
  "wset words = {i. wbit words (unat i)}"

definition words_ok :: "u64 list \<Rightarrow> bool" where
  "words_ok words \<longleftrightarrow> length words \<le> 2 ^ 26"

lemma contains_dense: "vs_contains (Dense words len) i \<longleftrightarrow> i \<in> wset words"
  by (simp add: wset_def wbit_def)

definition nbits :: "u64 list \<Rightarrow> nat list" where
  "nbits words = filter (wbit words) [0..<64 * length words]"

lemma wbit_append:
  "n < 64 * length words \<Longrightarrow> wbit (words @ more) n = wbit words n"
  "b < 64 \<Longrightarrow> wbit (words @ [w]) (b + 64 * length words) \<longleftrightarrow> bit w b"
  by (auto simp: wbit_def nth_append)

lemma nbits_snoc:
  "nbits (words @ [w]) = nbits words @ map (\<lambda>b. length words * 64 + b) (filter (bit w) [0..<64])"
proof -
  have "[0..<64 * length (words @ [w])] = [0..<64 * length words] @ map (\<lambda>b. b + 64 * length words) [0..<64]"
    using upt_add_eq_append [of 0 "64 * length words" 64] by (simp add: map_add_upt add.commute)
  moreover have "filter (wbit (words @ [w])) [0..<64 * length words] = nbits words"
    unfolding nbits_def by (rule filter_cong) (auto simp: wbit_append)
  moreover have "filter (wbit (words @ [w])) (map (\<lambda>b. b + 64 * length words) [0..<64]) =
      map (\<lambda>b. b + 64 * length words) (filter (bit w) [0..<64])"
    unfolding filter_map by (rule arg_cong [where f = "map _"], rule filter_cong) (auto simp: wbit_append)
  ultimately show ?thesis unfolding nbits_def [of "words @ [w]"] by (simp add: ac_simps)
qed

lemma vs_bits_nbits: "vs_bits words = map of_nat (nbits words)"
proof (induction words rule: rev_induct)
  case (snoc w words)
  have "vs_bits (words @ [w]) = vs_bits words @ map (\<lambda>b. of_nat (length words * 64) + of_nat b) (filter (bit w) [0..<64])"
    by (simp add: vs_bits_def enumerate_append_eq)
  then show ?case using snoc by (simp add: nbits_snoc)
qed (simp add: vs_bits_def nbits_def)

lemma set_nbits: "set (nbits words) = {n. wbit words n}"
  by (auto simp: nbits_def wbit_def)

lemma nbits_small: "words_ok words \<Longrightarrow> n \<in> set (nbits words) \<Longrightarrow> n < 2 ^ 32"
  by (auto simp: nbits_def words_ok_def)

lemma unat_of_nbit: "words_ok words \<Longrightarrow> n \<in> set (nbits words) \<Longrightarrow> unat (of_nat n :: u32) = n"
  using nbits_small [of words n] by (simp add: unat_of_nat)

lemma set_vs_bits: "words_ok words \<Longrightarrow> set (vs_bits words) = wset words"
proof -
  assume ok: "words_ok words"
  have "i = of_nat (unat i)" for i :: u32 by simp
  then show ?thesis using unat_of_nbit [OF ok] by (force simp: vs_bits_nbits set_nbits wset_def)
qed

lemma distinct_vs_bits:
  assumes "words_ok words" shows "distinct (vs_bits words)"
proof -
  have "inj_on (of_nat :: nat \<Rightarrow> u32) (set (nbits words))"
    by (rule inj_on_inverseI [where g = unat]) (rule unat_of_nbit [OF assms])
  then show ?thesis unfolding vs_bits_nbits distinct_map by (simp add: nbits_def)
qed

lemma length_vs_bits: "words_ok words \<Longrightarrow> length (vs_bits words) = card (wset words)"
  by (simp add: distinct_card [symmetric] distinct_vs_bits set_vs_bits [symmetric])

lemma sum_count_ones: "sum_list (map count_ones words) = length (nbits words)"
proof (induction words rule: rev_induct)
  case (snoc w words)
  then show ?case by (simp add: nbits_snoc count_ones_def)
qed (simp add: nbits_def)

section \<open>Building\<close>

lemma single_bit:
  assumes "b < 64"
  shows "(w :: u64) AND 2 ^ b = 0 \<longleftrightarrow> \<not> bit w b" "bit (w OR 2 ^ b) n \<longleftrightarrow> bit w n \<or> n = b"
proof -
  have p: "bit (2 ^ b :: u64) n \<longleftrightarrow> n = b" for n using assms by (auto simp: bit_exp_iff)
  show "w AND 2 ^ b = 0 \<longleftrightarrow> \<not> bit w b"
    by (rule and_exp_eq_0_iff_not_bit)
  show "bit (w OR 2 ^ b) n \<longleftrightarrow> bit w n \<or> n = b" by (simp add: bit_or_iff p)
qed

lemma wset_set_bit:
  assumes "unat i div 64 < length words"
  shows "wset (words[unat i div 64 := words ! (unat i div 64) OR push_bit (unat i mod 64) 1]) = insert i (wset words)"
proof -
  have eq: "unat j div 64 = unat i div 64 \<and> unat j mod 64 = unat i mod 64 \<longleftrightarrow> j = i" for j :: u32
    by (metis div_mult_mod_eq unsigned_word_eqI)
  show ?thesis using assms by (auto simp: wset_def wbit_def nth_list_update single_bit eq [symmetric])
qed

lemma set_ids_result:
  assumes "\<And>i. i \<in> set ids \<Longrightarrow> unat i div 64 < length words" "set_ids ids words len = (words', len')"
  shows "length words' = length words \<and> wset words' = wset words \<union> set ids \<and> len' + card (wset words) = len + card (wset words')"
  using assms
proof (induction ids words len rule: set_ids.induct)
  case (2 i ids words len)
  let ?k = "unat i div 64" and ?b = "unat i mod 64"
  let ?w = "words[?k := words ! ?k OR push_bit ?b 1]"
  have k: "?k < length words" using "2.prems"(1) by simp
  have i: "i \<in> wset words \<longleftrightarrow> words ! ?k AND push_bit ?b 1 \<noteq> 0" using k by (simp add: wset_def wbit_def single_bit)
  show ?case
  proof (cases "i \<in> wset words")
    case True
    then show ?thesis using "2.IH"(2) "2.prems" i by (auto simp: Let_def insert_absorb)
  next
    case False
    then show ?thesis using "2.IH"(1) "2.prems" i wset_set_bit [OF k] by (simp add: Let_def)
  qed
qed simp

text \<open>Every index into the words is in range.\<close>

lemma set_ids_in_range:
  assumes "i \<in> set ids"
  shows "unat i div 64 < (unat (Max (set ids)) + 1 + 63) div 64"
proof -
  have "unat i \<le> unat (Max (set ids))" using assms by (simp add: word_le_nat_alt [symmetric])
  then have "unat i div 64 \<le> unat (Max (set ids)) div 64" by (rule div_le_mono)
  also have "\<dots> < (unat (Max (set ids)) + 1 + 63) div 64" by simp
  finally show ?thesis .
qed


section \<open>Choosing the shape\<close>

lemma wbit_zeros: "wbit (words @ replicate k 0) = wbit words"
  by (rule ext) (auto simp: wbit_def nth_append)

lemma pop_zeros_split: "\<exists>k. words = pop_zeros words @ replicate k 0"
proof -
  have "rev words = takeWhile (\<lambda>w. w = 0) (rev words) @ dropWhile (\<lambda>w. w = 0) (rev words)" by simp
  moreover have "takeWhile (\<lambda>w. w = 0) (rev words) = replicate (length (takeWhile (\<lambda>w. w = 0) (rev words))) 0"
    by (rule replicate_eqI [symmetric, THEN sym]) (auto dest: set_takeWhileD)
  ultimately have "words = pop_zeros words @ rev (replicate (length (takeWhile (\<lambda>w. w = 0) (rev words))) 0)"
    unfolding pop_zeros_def by (metis rev_append rev_rev_ident)
  then show ?thesis by (metis rev_replicate)
qed

lemma pop_zeros_props:
  "wbit (pop_zeros words) = wbit words" "wset (pop_zeros words) = wset words" "words_ok words \<Longrightarrow> words_ok (pop_zeros words)"
  "pop_zeros words \<noteq> [] \<Longrightarrow> last (pop_zeros words) \<noteq> 0"
proof -
  obtain k where k: "words = pop_zeros words @ replicate k 0" using pop_zeros_split by blast
  then show w: "wbit (pop_zeros words) = wbit words" by (metis wbit_zeros)
  then show "wset (pop_zeros words) = wset words" by (simp add: wset_def)
  have "length (pop_zeros words) \<le> length words" by (subst (2) k) simp
  then show "words_ok words \<Longrightarrow> words_ok (pop_zeros words)" by (simp add: words_ok_def)
  show "pop_zeros words \<noteq> [] \<Longrightarrow> last (pop_zeros words) \<noteq> 0"
    using hd_dropWhile [of "\<lambda>w. w = 0" "rev words"] by (simp add: pop_zeros_def last_rev)
qed

lemma length_takeWhile_less: "x \<in> set xs \<Longrightarrow> \<not> P x \<Longrightarrow> length (takeWhile P xs) < length xs"
  by (induction xs) auto

lemma leading_zeros_top:
  assumes "(w :: u64) \<noteq> 0"
  shows "leading_zeros w < 64 \<and> bit w (63 - leading_zeros w) \<and> (\<forall>b. bit w b \<longrightarrow> b \<le> 63 - leading_zeros w)"
proof -
  let ?z = "leading_zeros w" and ?xs = "rev [0..<64 :: nat]"
  obtain b where b: "bit w b" using assms by (auto simp: bit_eq_iff)
  then have "b \<in> set ?xs" using bit_imp_le_length [OF b] by simp
  then have "length (takeWhile (\<lambda>b. \<not> bit w b) ?xs) < length ?xs" using b by (intro length_takeWhile_less) auto
  then have l: "?z < 64" by (simp add: leading_zeros_def)
  then have top: "bit w (?xs ! ?z)" unfolding leading_zeros_def using nth_length_takeWhile [of "\<lambda>b. \<not> bit w b" ?xs] by simp
  have above: "\<not> bit w (?xs ! j)" if "j < ?z" for j
    using that nth_mem [of j "takeWhile (\<lambda>b. \<not> bit w b) ?xs"] takeWhile_nth [of j "\<lambda>b. \<not> bit w b" ?xs]
    unfolding leading_zeros_def by (metis set_takeWhileD)
  have "c \<le> 63 - ?z" if "bit w c" for c
  proof (rule ccontr)
    assume "\<not> c \<le> 63 - ?z"
    then have "63 - c < ?z" "?xs ! (63 - c) = c" using l bit_imp_le_length [OF that] by (auto simp: rev_nth)
    then show False using above that by metis
  qed
  then show ?thesis using l top by (simp add: rev_nth)
qed

lemma span_max:
  assumes "words \<noteq> []" "last words \<noteq> 0"
  shows "(length words - 1) * 64 + (64 - leading_zeros (last words)) = Suc (Max {n. wbit words n})" "\<exists>n. wbit words n"
proof -
  note z = leading_zeros_top [OF assms(2)]
  let ?m = "(length words - 1) * 64 + (63 - leading_zeros (last words))"
  have m: "?m div 64 = length words - 1" "?m mod 64 = 63 - leading_zeros (last words)" by auto
  have b: "wbit words ?m" unfolding wbit_def m using z assms(1) by (simp add: last_conv_nth)
  have "n \<le> ?m" if "wbit words n" for n
  proof (cases "n div 64 = length words - 1")
    case True
    then have "n mod 64 \<le> 63 - leading_zeros (last words)" using that z assms(1) by (simp add: wbit_def last_conv_nth)
    then show ?thesis using True by (metis add_le_mono div_mult_mod_eq le_refl)
  next
    case False
    then have "n div 64 + 1 \<le> length words - 1" using that by (auto simp: wbit_def)
    then have "(n div 64 + 1) * 64 \<le> (length words - 1) * 64" by (rule mult_le_mono1)
    then show ?thesis using dividend_less_div_times [of 64 n] by simp
  qed
  moreover have "finite {n. wbit words n}" using set_nbits [of words] by (metis finite_set)
  ultimately have "Max {n. wbit words n} = ?m" using b by (intro Max_eqI) auto
  then show "(length words - 1) * 64 + (64 - leading_zeros (last words)) = Suc (Max {n. wbit words n})" using z by linarith
  show "\<exists>n. wbit words n" using b by blast
qed


text \<open>A set is well formed when it holds each id once, its count is exact and its shape is the one the
  rule picks: dense exactly when the bitset up to the largest id is no larger.\<close>

definition picks_dense :: "u32 set \<Rightarrow> bool" where
  "picks_dense S \<longleftrightarrow> S \<noteq> {} \<and> Suc (unat (Max S)) \<le> card S * 64"

fun vs_set :: "visible_set \<Rightarrow> u32 set" where
  "vs_set (Sparse ids) = set ids"
| "vs_set (Dense words _) = wset words"

fun vs_ok :: "visible_set \<Rightarrow> bool" where
  "vs_ok (Sparse ids) \<longleftrightarrow> distinct ids \<and> \<not> picks_dense (set ids)"
| "vs_ok (Dense words len) \<longleftrightarrow> words_ok words \<and> len = card (wset words) \<and> picks_dense (wset words)"

lemma vs_ok_facts:
  assumes "vs_ok v"
  shows "vs_contains v i \<longleftrightarrow> i \<in> vs_set v" "vs_len v = card (vs_set v)" "distinct (vs_iter v)" "set (vs_iter v) = vs_set v"
  using assms by (cases v; simp add: contains_dense distinct_card distinct_vs_bits set_vs_bits del: vs_contains.simps(2))+

lemma unat_Max:
  assumes "finite S" "S \<noteq> {}" shows "unat (Max S :: u32) = Max (unat ` S)"
  using assms by (intro mono_Max_commute monoI) (simp_all add: word_le_nat_alt)

lemma unat_wset: "words_ok words \<Longrightarrow> unat ` wset words = {n. wbit words n}"
proof -
  assume ok: "words_ok words"
  have "n \<in> unat ` wset words" if "wbit words n" for n
  proof -
    have "unat (of_nat n :: u32) = n" using that by (intro unat_of_nbit [OF ok]) (simp add: set_nbits)
    then show ?thesis using that by (metis (mono_tags, lifting) imageI mem_Collect_eq wset_def)
  qed
  then show ?thesis by (auto simp: wset_def)
qed

lemma vs_from_words_ok:
  assumes "words_ok words" "len = card (wset words)"
  shows "vs_ok (vs_from_words words len) \<and> vs_set (vs_from_words words len) = wset words"
proof -
  let ?w = "pop_zeros words"
  note p = pop_zeros_props
  have ok: "words_ok ?w" using assms(1) by (rule p(3))
  show ?thesis
  proof (cases "?w = []")
    case True
    then have "wset words = {}" using p(2) [of words] by (simp add: wset_def wbit_def)
    then show ?thesis using True by (simp add: vs_from_words_def picks_dense_def)
  next
    case False
    note sp = span_max [OF False p(4) [OF False]]
    obtain n where n: "wbit ?w n" using sp(2) by blast
    then have "n \<in> unat ` wset ?w" by (simp add: unat_wset [OF ok])
    then have ne: "wset words \<noteq> {}" using p(2) by auto
    have "unat (Max (wset words)) = Max {n. wbit ?w n}"
      using unat_Max [of "wset words"] ne unat_wset [OF ok] p(2) [of words] by simp
    then have d: "picks_dense (wset words) \<longleftrightarrow> (length ?w - 1) * 64 + (64 - leading_zeros (last ?w)) \<le> len * 64"
      unfolding picks_dense_def sp(1) using ne assms(2) by simp
    have v: "vs_from_words words len = (if picks_dense (wset words) then Dense ?w len else Sparse (vs_bits ?w))"
      using False by (simp add: vs_from_words_def Let_def d)
    show ?thesis using ok assms(2) unfolding v by (simp add: p(2) distinct_vs_bits set_vs_bits)
  qed
qed

lemma vs_from_ids_ok: "vs_ok (vs_from_ids ids) \<and> vs_set (vs_from_ids ids) = set ids"
proof (cases "ids = []")
  case False
  let ?span = "unat (Max (set ids)) + 1"
  show ?thesis
  proof (cases "length ids * 64 < ?span")
    case True
    have "card (set ids) * 64 \<le> length ids * 64" using card_length by (rule mult_le_mono1)
    then have "\<not> picks_dense (set ids)" using True by (simp add: picks_dense_def)
    then show ?thesis using True False by (simp add: vs_from_ids_def Let_def)
  next
    case dense: False
    let ?w = "replicate ((?span + 63) div 64) (0 :: u64)"
    obtain words len where w: "set_ids ids ?w 0 = (words, len)" by fastforce
    have r: "length words = length ?w \<and> wset words = wset ?w \<union> set ids \<and> len + card (wset ?w) = 0 + card (wset words)"
    proof (rule set_ids_result [OF _ w])
      show "unat i div 64 < length ?w" if "i \<in> set ids" for i using set_ids_in_range [OF that] by simp
    qed
    have z: "wset ?w = {}" by (auto simp: wset_def wbit_def)
    have "unat (Max (set ids)) < 2 ^ 32" using unsigned_less [of "Max (set ids)", where 'a = nat] by simp
    then have "words_ok words" using r by (simp add: words_ok_def)
    then show ?thesis using vs_from_words_ok [of words len] r z False dense w by (simp add: vs_from_ids_def Let_def)
  qed
qed (simp add: vs_from_ids_def picks_dense_def)

lemma vs_intersect_ok:
  assumes "vs_ok a" "vs_ok b"
  shows "vs_ok (vs_intersect a b) \<and> vs_set (vs_intersect a b) = vs_set a \<inter> vs_set b"
proof (cases "\<exists>x m y n. a = Dense x m \<and> b = Dense y n")
  case True
  then obtain x m y n where d: "a = Dense x m" "b = Dense y n" by blast
  let ?w = "map (\<lambda>i. x ! i AND y ! i) [0..<min (length x) (length y)]"
  have ok: "words_ok ?w" using assms(1) d by (auto simp: words_ok_def)
  have s: "wset ?w = wset x \<inter> wset y" by (auto simp: wset_def wbit_def bit_and_iff)
  have "sum_list (map count_ones ?w) = card (wset ?w)"
    using length_vs_bits [OF ok] unfolding sum_count_ones by (simp add: vs_bits_nbits)
  from vs_from_words_ok [OF ok this] show ?thesis unfolding d vs_intersect.simps(1) Let_def s by simp
next
  case False
  then have i: "vs_intersect a b = vs_intersect_probe a b" by (cases a; cases b) auto
  show ?thesis unfolding i vs_intersect_probe_def
    using vs_from_ids_ok assms by (auto simp: vs_ok_facts Let_def)
qed


section \<open>The contract\<close>

text \<open>
  What a mask relies on: building from a list of ids and intersecting give well-formed sets that
  hold exactly the ids they should.
\<close>

locale allow_list =
  fixes of_ids :: "u32 list \<Rightarrow> 's" and both :: "'s \<Rightarrow> 's \<Rightarrow> 's" and sees :: "'s \<Rightarrow> u32 \<Rightarrow> bool" and ok :: "'s \<Rightarrow> bool"
  assumes of_ids_law: "ok (of_ids ids)" "sees (of_ids ids) i \<longleftrightarrow> i \<in> set ids"
    and both_law: "ok a \<Longrightarrow> ok b \<Longrightarrow> ok (both a b)" "ok a \<Longrightarrow> ok b \<Longrightarrow> sees (both a b) i \<longleftrightarrow> sees a i \<and> sees b i"
begin

lemma fold_both:
  "ok a \<Longrightarrow> list_all ok bs \<Longrightarrow> ok (fold (\<lambda>b acc. both acc b) bs a) \<and>
     (\<forall>i. sees (fold (\<lambda>b acc. both acc b) bs a) i \<longleftrightarrow> sees a i \<and> (\<forall>b \<in> set bs. sees b i))"
  by (induction bs arbitrary: a) (auto simp: both_law)

lemma never_widens: "ok a \<Longrightarrow> ok b \<Longrightarrow> sees (both a b) i \<Longrightarrow> sees a i"
  by (simp add: both_law)

end

interpretation vs: allow_list vs_from_ids vs_intersect vs_contains vs_ok
  by unfold_locales (use vs_from_ids_ok vs_intersect_ok in \<open>auto simp: vs_ok_facts\<close>)

section \<open>Properties\<close>

text \<open>The sets a program can build, and the ids each denotes.\<close>

datatype vs_expr = Ids "u32 list" | Both vs_expr vs_expr

primrec vs_eval :: "vs_expr \<Rightarrow> visible_set" where
  "vs_eval (Ids ids) = vs_from_ids ids"
| "vs_eval (Both a b) = vs_intersect (vs_eval a) (vs_eval b)"

primrec vs_denotes :: "vs_expr \<Rightarrow> u32 set" where
  "vs_denotes (Ids ids) = set ids"
| "vs_denotes (Both a b) = vs_denotes a \<inter> vs_denotes b"

lemma vs_eval_ok: "vs_ok (vs_eval e) \<and> vs_set (vs_eval e) = vs_denotes e"
  by (induction e) (simp_all add: vs_from_ids_ok vs_intersect_ok)

lemma vs_shape: "vs_ok v \<Longrightarrow> (\<exists>words len. v = Dense words len) \<longleftrightarrow> picks_dense (vs_set v)"
  by (cases v) auto

text \<open>C27. The shape is never the answer: a set built from any ids, duplicates included, and narrowed
  by any intersections contains exactly the ids it denotes, counts them exactly, iterates over
  each once, and is a bitset exactly when it is not empty and the bitset up to its largest id
  takes no more than 64 bits per id it holds.\<close>

theorem visible_set_exact:
  "(\<forall>i. vs_contains (vs_eval e) i \<longleftrightarrow> i \<in> vs_denotes e) \<and>
   vs_len (vs_eval e) = card (vs_denotes e) \<and>
   distinct (vs_iter (vs_eval e)) \<and> set (vs_iter (vs_eval e)) = vs_denotes e \<and>
   ((\<exists>words len. vs_eval e = Dense words len) \<longleftrightarrow>
     vs_denotes e \<noteq> {} \<and> Suc (unat (Max (vs_denotes e))) \<le> card (vs_denotes e) * 64)"
  using vs_eval_ok [of e] vs_shape [of "vs_eval e"] by (simp add: vs_ok_facts picks_dense_def)

end
