(* ===== verification/Value_Ops.thy ===== *)
theory Value_Ops
  imports Value
begin

text \<open>
  Comparing values in queries: equality, three-valued equality, the sort order and subscripts of
  \<open>crates/core-query/src/value_ops.rs\<close>, and the comparison operators and filters of
  \<open>crates/core-query/src/filter.rs\<close>. A float is its 64 bits; what the code uses of IEEE 754
  (\<open>==\<close>, \<open>total_cmp\<close>, the conversion from \<open>i64\<close>, \<open>fract\<close>, the cast to \<open>i64\<close>) is written
  out on them.
\<close>

section \<open>Floats\<close>

unbundle bit_operations_syntax

definition f64_sign :: "u64 \<Rightarrow> bool" where "f64_sign w = bit w 63"
definition f64_exp :: "u64 \<Rightarrow> nat" where "f64_exp w = unat (drop_bit 52 w AND 0x7FF)"
definition f64_frac :: "u64 \<Rightarrow> nat" where "f64_frac w = unat (w AND 0xFFFFFFFFFFFFF)"

definition f64_is_nan :: "u64 \<Rightarrow> bool" where
  "f64_is_nan w \<longleftrightarrow> f64_exp w = 0x7FF \<and> f64_frac w \<noteq> 0"

definition f64_is_zero :: "u64 \<Rightarrow> bool" where
  "f64_is_zero w \<longleftrightarrow> f64_exp w = 0 \<and> f64_frac w = 0"

text \<open>\<open>==\<close>: a NaN equals nothing, the two zeros are equal.\<close>

definition f64_eq :: "u64 \<Rightarrow> u64 \<Rightarrow> bool" where
  "f64_eq a b \<longleftrightarrow> \<not> f64_is_nan a \<and> \<not> f64_is_nan b \<and> (a = b \<or> f64_is_zero a \<and> f64_is_zero b)"

text \<open>\<open>total_cmp\<close>: the bits as a signed integer, the bits below the sign flipped when it is set.\<close>

definition f64_total_key :: "u64 \<Rightarrow> int" where
  "f64_total_key w = sint (if f64_sign w then w XOR 0x7FFFFFFFFFFFFFFF else w)"

fun log2_floor :: "nat \<Rightarrow> nat" where
  "log2_floor n = (if n < 2 then 0 else Suc (log2_floor (n div 2)))"

declare log2_floor.simps [simp del]

text \<open>\<open>as f64\<close>: to the nearest float, ties to the even one; a carry of the rounding moves into
  the exponent.\<close>

definition nat_as_f64 :: "nat \<Rightarrow> nat" where
  "nat_as_f64 n =
     (if n = 0 then 0
      else
        let e = log2_floor n in
        if e \<le> 52 then (e + 1023) * 2 ^ 52 + (n * 2 ^ (52 - e) - 2 ^ 52)
        else
          let s = e - 52; q = n div 2 ^ s; r = n mod 2 ^ s; half = 2 ^ (s - 1);
              q = (if r > half \<or> r = half \<and> odd q then q + 1 else q)
          in (e + 1023) * 2 ^ 52 + (q - 2 ^ 52))"

definition i64_as_f64 :: "int \<Rightarrow> u64" where
  "i64_as_f64 i = (if i < 0 then of_nat (2 ^ 63 + nat_as_f64 (nat (- i))) else of_nat (nat_as_f64 (nat i)))"

text \<open>The integer a finite float without a fractional part is, cast to \<open>i64\<close> (which saturates).\<close>

definition f64_integer :: "u64 \<Rightarrow> int option" where
  "f64_integer w =
     (if f64_exp w = 0x7FF then None
      else if f64_is_zero w then Some 0
      else
        let m = (if f64_exp w = 0 then f64_frac w else 2 ^ 52 + f64_frac w); e = max (f64_exp w) 1;
            magnitude = (if e \<ge> 1075 then Some (m * 2 ^ (e - 1075))
                         else if m mod 2 ^ (1075 - e) = 0 then Some (m div 2 ^ (1075 - e)) else None)
        in map_option (\<lambda>n. max (- (2 ^ 63)) (min (2 ^ 63 - 1) (if f64_sign w then - int n else int n))) magnitude)"

section \<open>Equality\<close>

fun values_equal :: "val \<Rightarrow> val \<Rightarrow> bool" and lists_equal :: "val list \<Rightarrow> val list \<Rightarrow> bool"
  and maps_equal :: "(string \<times> val) list \<Rightarrow> (string \<times> val) list \<Rightarrow> bool" where
  "values_equal a b =
     (case a of
        VInt x \<Rightarrow> (case b of VInt y \<Rightarrow> x = y | VFloat y \<Rightarrow> f64_eq (i64_as_f64 x) y | _ \<Rightarrow> False)
      | VFloat x \<Rightarrow> (case b of VFloat y \<Rightarrow> f64_eq x y | VInt y \<Rightarrow> f64_eq x (i64_as_f64 y) | _ \<Rightarrow> False)
      | VStr x \<Rightarrow> (case b of VStr y \<Rightarrow> x = y | _ \<Rightarrow> False)
      | VBool x \<Rightarrow> (case b of VBool y \<Rightarrow> x = y | _ \<Rightarrow> False)
      | VList x \<Rightarrow> (case b of VList y \<Rightarrow> length x = length y \<and> lists_equal x y | _ \<Rightarrow> False)
      | VMap x \<Rightarrow> (case b of VMap y \<Rightarrow> length x = length y \<and> maps_equal x y | _ \<Rightarrow> False)
      | VDate x \<Rightarrow> (case b of VDate y \<Rightarrow> x = y | _ \<Rightarrow> False)
      | VLocalDateTime x \<Rightarrow> (case b of VLocalDateTime y \<Rightarrow> x = y | _ \<Rightarrow> False)
      | VDateTime x _ \<Rightarrow> (case b of VDateTime y _ \<Rightarrow> x = y | _ \<Rightarrow> False)
      | VDuration m1 d1 n1 \<Rightarrow> (case b of VDuration m2 d2 n2 \<Rightarrow> (m1, d1, n1) = (m2, d2, n2) | _ \<Rightarrow> False)
      | VBinary x \<Rightarrow> (case b of VBinary y \<Rightarrow> x = y | _ \<Rightarrow> False)
      | VNull \<Rightarrow> False)"
| "lists_equal (l # ls) (r # rs) = (values_equal l r \<and> lists_equal ls rs)"
| "lists_equal _ _ = True"
| "maps_equal ((k1, v1) # ls) ((k2, v2) # rs) = (k1 = k2 \<and> values_equal v1 v2 \<and> maps_equal ls rs)"
| "maps_equal _ _ = True"

text \<open>The derived \<open>PartialEq\<close> of \<open>Value\<close>: field by field, floats by \<open>==\<close>.\<close>

fun val_eq :: "val \<Rightarrow> val \<Rightarrow> bool" and val_eqs :: "val list \<Rightarrow> val list \<Rightarrow> bool"
  and entry_eqs :: "(string \<times> val) list \<Rightarrow> (string \<times> val) list \<Rightarrow> bool" where
  "val_eq a b =
     (case (a, b) of
        (VFloat x, VFloat y) \<Rightarrow> f64_eq x y
      | (VList x, VList y) \<Rightarrow> val_eqs x y
      | (VMap x, VMap y) \<Rightarrow> entry_eqs x y
      | (VFloat _, _) \<Rightarrow> False
      | (VList _, _) \<Rightarrow> False
      | (VMap _, _) \<Rightarrow> False
      | _ \<Rightarrow> a = b)"
| "val_eqs [] ys = (ys = [])"
| "val_eqs (x # xs) ys = (case ys of [] \<Rightarrow> False | y # ys \<Rightarrow> val_eq x y \<and> val_eqs xs ys)"
| "entry_eqs [] ys = (ys = [])"
| "entry_eqs (e # xs) ys = (case ys of [] \<Rightarrow> False | f # ys \<Rightarrow> fst e = fst f \<and> val_eq (snd e) (snd f) \<and> entry_eqs xs ys)"

declare val_eq.simps [simp del]

fun equality :: "val \<Rightarrow> val \<Rightarrow> bool option" and all_equal :: "val list \<Rightarrow> val list \<Rightarrow> bool \<Rightarrow> bool option"
  and all_equal_entries :: "(string \<times> val) list \<Rightarrow> (string \<times> val) list \<Rightarrow> bool \<Rightarrow> bool option" where
  "equality a b =
     (case (a, b) of
        (VNull, _) \<Rightarrow> None
      | (_, VNull) \<Rightarrow> None
      | (VList x, VList y) \<Rightarrow> if length x \<noteq> length y then Some False else all_equal x y False
      | (VMap x, VMap y) \<Rightarrow>
          if length x \<noteq> length y \<or> list_ex (\<lambda>(k1, k2). k1 \<noteq> k2) (zip (map fst x) (map fst y)) then Some False
          else all_equal_entries x y False
      | _ \<Rightarrow> Some (values_equal a b))"
| "all_equal (l # ls) (r # rs) unknown =
     (case equality l r of
        Some False \<Rightarrow> Some False
      | None \<Rightarrow> all_equal ls rs True
      | Some True \<Rightarrow> all_equal ls rs unknown)"
| "all_equal _ _ unknown = (if unknown then None else Some True)"
| "all_equal_entries ((_, l) # ls) ((_, r) # rs) unknown =
     (case equality l r of
        Some False \<Rightarrow> Some False
      | None \<Rightarrow> all_equal_entries ls rs True
      | Some True \<Rightarrow> all_equal_entries ls rs unknown)"
| "all_equal_entries _ _ unknown = (if unknown then None else Some True)"

declare values_equal.simps [simp del] equality.simps [simp del]

section \<open>Order\<close>

datatype ordering = Less | Equal | Greater

definition cmp_ord :: "'a::linorder \<Rightarrow> 'a \<Rightarrow> ordering" where
  "cmp_ord a b = (if a < b then Less else if a = b then Equal else Greater)"

fun ordering_reverse :: "ordering \<Rightarrow> ordering" where
  "ordering_reverse Less = Greater"
| "ordering_reverse Equal = Equal"
| "ordering_reverse Greater = Less"

text \<open>\<open>Ord\<close> of a tuple or a slice: the first difference decides.\<close>

definition cmp_then :: "ordering \<Rightarrow> ordering \<Rightarrow> ordering" where
  "cmp_then a b = (if a \<noteq> Equal then a else b)"

fun cmp_slice :: "'a::linorder list \<Rightarrow> 'a list \<Rightarrow> ordering" where
  "cmp_slice [] [] = Equal"
| "cmp_slice [] (_ # _) = Less"
| "cmp_slice (_ # _) [] = Greater"
| "cmp_slice (x # xs) (y # ys) = cmp_then (cmp_ord x y) (cmp_slice xs ys)"

definition cmp_str :: "string \<Rightarrow> string \<Rightarrow> ordering" where
  "cmp_str a b = cmp_slice (as_bytes a) (as_bytes b)"

fun class_rank :: "val \<Rightarrow> nat" where
  "class_rank (VInt _) = 0" | "class_rank (VFloat _) = 0" | "class_rank (VStr _) = 1"
| "class_rank (VBool _) = 2" | "class_rank (VList _) = 3" | "class_rank (VDate _) = 4"
| "class_rank (VLocalDateTime _) = 5" | "class_rank (VDateTime _ _) = 6" | "class_rank (VDuration _ _ _) = 7"
| "class_rank (VBinary _) = 8" | "class_rank (VMap _) = 9" | "class_rank VNull = 10"

text \<open>\<open>as_f64\<close>, \<open>None\<close> for its \<open>unreachable!\<close>.\<close>

fun as_f64 :: "val \<Rightarrow> u64 option" where
  "as_f64 (VInt i) = Some (i64_as_f64 i)"
| "as_f64 (VFloat f) = Some f"
| "as_f64 _ = None"

text \<open>The arms that compare two values of one class and need no recursion; \<open>None\<close> is
  \<open>unreachable!\<close>.\<close>

definition cmp_scalars :: "val \<Rightarrow> val \<Rightarrow> ordering option" where
  "cmp_scalars a b =
     (case (a, b) of
        (VStr x, VStr y) \<Rightarrow> Some (cmp_str x y)
      | (VBool x, VBool y) \<Rightarrow> Some (cmp_ord x y)
      | (VDate x, VDate y) \<Rightarrow> Some (cmp_ord x y)
      | (VLocalDateTime x, VLocalDateTime y) \<Rightarrow> Some (cmp_ord x y)
      | (VDateTime x ox, VDateTime y oy) \<Rightarrow> Some (cmp_then (cmp_ord x y) (cmp_ord ox oy))
      | (VDuration m1 d1 n1, VDuration m2 d2 n2) \<Rightarrow>
          Some (cmp_then (cmp_ord m1 m2) (cmp_then (cmp_ord d1 d2) (cmp_ord n1 n2)))
      | (VBinary x, VBinary y) \<Rightarrow> Some (cmp_slice x y)
      | (VNull, VNull) \<Rightarrow> Some Equal
      | _ \<Rightarrow> (case (as_f64 a, as_f64 b) of
               (Some x, Some y) \<Rightarrow> Some (cmp_ord (f64_total_key x) (f64_total_key y))
             | _ \<Rightarrow> None))"

fun cmp_values :: "val \<Rightarrow> val \<Rightarrow> ordering option" and cmp_lists :: "val list \<Rightarrow> val list \<Rightarrow> ordering option"
  and cmp_maps :: "(string \<times> val) list \<Rightarrow> (string \<times> val) list \<Rightarrow> ordering option" where
  "cmp_values a b =
     (if class_rank a \<noteq> class_rank b then Some (cmp_ord (class_rank a) (class_rank b))
      else case (a, b) of
        (VList x, VList y) \<Rightarrow> cmp_lists x y
      | (VMap x, VMap y) \<Rightarrow> cmp_maps x y
      | _ \<Rightarrow> cmp_scalars a b)"
| "cmp_lists (l # ls) (r # rs) =
     (case cmp_values l r of None \<Rightarrow> None | Some Equal \<Rightarrow> cmp_lists ls rs | Some c \<Rightarrow> Some c)"
| "cmp_lists ls rs = Some (cmp_ord (length ls) (length rs))"
| "cmp_maps ((k1, v1) # ls) ((k2, v2) # rs) =
     (if cmp_str k1 k2 \<noteq> Equal then Some (cmp_str k1 k2)
      else case cmp_values v1 v2 of None \<Rightarrow> None | Some Equal \<Rightarrow> cmp_maps ls rs | Some c \<Rightarrow> Some c)"
| "cmp_maps ls rs = Some (cmp_ord (length ls) (length rs))"

declare cmp_values.simps [simp del]

definition not_null :: "val option \<Rightarrow> val option" where
  "not_null v = (if v = Some VNull then None else v)"

definition cmp_optional :: "val option \<Rightarrow> val option \<Rightarrow> bool \<Rightarrow> ordering option" where
  "cmp_optional a b descending =
     map_option (if descending then ordering_reverse else (\<lambda>c. c))
       (case (not_null a, not_null b) of
          (None, None) \<Rightarrow> Some Equal
        | (None, Some _) \<Rightarrow> Some Greater
        | (Some _, None) \<Rightarrow> Some Less
        | (Some x, Some y) \<Rightarrow> cmp_values x y)"


section \<open>The order is total\<close>

lemma cmp_scalars_total:
  assumes "class_rank a = class_rank b" "class_rank a \<noteq> 3" "class_rank a \<noteq> 9"
  shows "\<exists>c. cmp_scalars a b = Some c"
  using assms by (cases a; cases b) (simp_all add: cmp_scalars_def)

lemma cmp_values_unfold:
  "cmp_values a b =
     (if class_rank a \<noteq> class_rank b then Some (cmp_ord (class_rank a) (class_rank b))
      else case a of
        VList x \<Rightarrow> cmp_lists x (case b of VList y \<Rightarrow> y)
      | VMap x \<Rightarrow> cmp_maps x (case b of VMap y \<Rightarrow> y)
      | _ \<Rightarrow> cmp_scalars a b)"
  by (cases a; cases b) (simp_all add: cmp_values.simps)

lemma val_induct [case_names list map scalar]:
  assumes "\<And>xs. (\<And>x. x \<in> set xs \<Longrightarrow> P x) \<Longrightarrow> P (VList xs)"
    "\<And>m. (\<And>k v. (k, v) \<in> set m \<Longrightarrow> P v) \<Longrightarrow> P (VMap m)"
    "\<And>v. class_rank v \<noteq> 3 \<Longrightarrow> class_rank v \<noteq> 9 \<Longrightarrow> P v"
  shows "P v"
  by (induction v) (auto intro: assms)

lemma cmp_lists_total: "(\<And>x y. x \<in> set xs \<Longrightarrow> \<exists>c. cmp_values x y = Some c) \<Longrightarrow> \<exists>c. cmp_lists xs ys = Some c"
proof (induction xs ys rule: list_induct2')
  case (4 x xs y ys)
  then obtain c d where "cmp_values x y = Some c" "cmp_lists xs ys = Some d" by (metis list.set_intros)
  then show ?case by (cases c) simp_all
qed simp_all

lemma cmp_maps_total: "(\<And>k x y. (k, x) \<in> set xs \<Longrightarrow> \<exists>c. cmp_values x y = Some c) \<Longrightarrow> \<exists>c. cmp_maps xs ys = Some c"
proof (induction xs ys rule: list_induct2')
  case (4 x xs y ys)
  obtain c where c: "cmp_values (snd x) (snd y) = Some c" using "4.prems" [of "fst x" "snd x" "snd y"] by auto
  obtain d where "cmp_maps xs ys = Some d" using 4 by (metis list.set_intros(2))
  then show ?case using c by (cases x; cases y; cases c) simp_all
qed simp_all

lemma cmp_values_total: "\<exists>c. cmp_values a b = Some c"
proof (induction a arbitrary: b rule: val_induct)
  case (list xs)
  then show ?case by (simp add: cmp_values_unfold cmp_lists_total)
next
  case (map m)
  then have "\<exists>c. cmp_maps m ys = Some c" for ys by (intro cmp_maps_total) blast
  then show ?case by (simp add: cmp_values_unfold)
next
  case (scalar v)
  then show ?case using cmp_scalars_total [of v b] by (cases v) (simp_all add: cmp_values_unfold)
qed

text \<open>The comparison without the arms that cannot be reached.\<close>

definition cmp_vals :: "val \<Rightarrow> val \<Rightarrow> ordering" where
  "cmp_vals a b = (case cmp_values a b of Some c \<Rightarrow> c | None \<Rightarrow> Equal)"

definition cmp_val_lists :: "val list \<Rightarrow> val list \<Rightarrow> ordering" where
  "cmp_val_lists xs ys = (case cmp_lists xs ys of Some c \<Rightarrow> c | None \<Rightarrow> Equal)"

definition cmp_val_maps :: "(string \<times> val) list \<Rightarrow> (string \<times> val) list \<Rightarrow> ordering" where
  "cmp_val_maps xs ys = (case cmp_maps xs ys of Some c \<Rightarrow> c | None \<Rightarrow> Equal)"

lemma cmp_vals_Some [simp]:
  "cmp_values a b = Some (cmp_vals a b)" "cmp_lists xs ys = Some (cmp_val_lists xs ys)" "cmp_maps ms ns = Some (cmp_val_maps ms ns)"
proof -
  show "cmp_values a b = Some (cmp_vals a b)" using cmp_values_total [of a b] by (auto simp: cmp_vals_def)
  show "cmp_lists xs ys = Some (cmp_val_lists xs ys)"
    using cmp_lists_total [of xs ys, OF cmp_values_total] by (auto simp: cmp_val_lists_def)
  show "cmp_maps ms ns = Some (cmp_val_maps ms ns)"
    using cmp_maps_total [of ms ns, OF cmp_values_total] by (auto simp: cmp_val_maps_def)
qed

lemma cmp_val_lists_simps [simp]:
  "cmp_val_lists [] ys = cmp_ord 0 (length ys)" "cmp_val_lists xs [] = cmp_ord (length xs) 0"
  "cmp_val_lists (x # xs) (y # ys) = cmp_then (cmp_vals x y) (cmp_val_lists xs ys)"
proof -
  show "cmp_val_lists [] ys = cmp_ord 0 (length ys)" "cmp_val_lists xs [] = cmp_ord (length xs) 0"
    using cmp_vals_Some(2) [of "[]" ys] cmp_vals_Some(2) [of xs "[]"] by (cases xs; simp del: cmp_vals_Some)+
  show "cmp_val_lists (x # xs) (y # ys) = cmp_then (cmp_vals x y) (cmp_val_lists xs ys)"
    using cmp_lists.simps(1) [of x xs y ys] by (cases "cmp_vals x y") (simp_all add: cmp_then_def)
qed

lemma cmp_val_maps_simps [simp]:
  "cmp_val_maps [] ys = cmp_ord 0 (length ys)" "cmp_val_maps xs [] = cmp_ord (length xs) 0"
  "cmp_val_maps ((k, x) # xs) ((l, y) # ys) = cmp_then (cmp_str k l) (cmp_then (cmp_vals x y) (cmp_val_maps xs ys))"
proof -
  show "cmp_val_maps [] ys = cmp_ord 0 (length ys)" "cmp_val_maps xs [] = cmp_ord (length xs) 0"
    using cmp_vals_Some(3) [of "[]" ys] cmp_vals_Some(3) [of xs "[]"] by (cases xs; simp del: cmp_vals_Some)+
  show "cmp_val_maps ((k, x) # xs) ((l, y) # ys) = cmp_then (cmp_str k l) (cmp_then (cmp_vals x y) (cmp_val_maps xs ys))"
    using cmp_maps.simps(1) [of k x xs l y ys] by (cases "cmp_vals x y"; cases "cmp_str k l") (simp_all add: cmp_then_def)
qed

lemma cmp_vals_rank: "class_rank a \<noteq> class_rank b \<Longrightarrow> cmp_vals a b = cmp_ord (class_rank a) (class_rank b)"
  using cmp_values_unfold [of a b] by simp

section \<open>The laws of an order\<close>

text \<open>What three comparisons of three values must satisfy.\<close>

definition agrees :: "ordering \<Rightarrow> ordering \<Rightarrow> ordering \<Rightarrow> bool" where
  "agrees ab bc ac \<longleftrightarrow> (ab = Equal \<longrightarrow> ac = bc) \<and> (bc = Equal \<longrightarrow> ac = ab) \<and> (ab = bc \<longrightarrow> ac = ab)"

lemma agrees_cmp_ord: "agrees (cmp_ord a b) (cmp_ord b c) (cmp_ord a c)"
  by (auto simp: agrees_def cmp_ord_def)

lemma agrees_then: "agrees a b c \<Longrightarrow> agrees d e f \<Longrightarrow> agrees (cmp_then a d) (cmp_then b e) (cmp_then c f)"
  by (cases a; cases b; cases c) (simp_all add: agrees_def cmp_then_def)

lemma reverse_cmp_ord: "cmp_ord b a = ordering_reverse (cmp_ord a b)"
  by (auto simp: cmp_ord_def)

lemma reverse_then: "ordering_reverse (cmp_then a b) = cmp_then (ordering_reverse a) (ordering_reverse b)"
  by (cases a) (simp_all add: cmp_then_def)

lemma slice_laws:
  "agrees (cmp_slice xs ys) (cmp_slice ys zs) (cmp_slice xs zs)" "cmp_slice ys xs = ordering_reverse (cmp_slice xs ys)"
proof -
  show "cmp_slice ys xs = ordering_reverse (cmp_slice xs ys)"
    by (induction xs ys rule: list_induct2') (simp_all add: reverse_then reverse_cmp_ord [symmetric])
  show "agrees (cmp_slice xs ys) (cmp_slice ys zs) (cmp_slice xs zs)"
  proof (induction xs arbitrary: ys zs)
    case Nil
    then show ?case by (cases ys; cases zs) (auto simp: agrees_def cmp_then_def cmp_ord_def)
  next
    case (Cons x xs)
    show ?case
    proof (cases "ys = [] \<or> zs = []")
      case True
      then show ?thesis by (cases ys; cases zs) (auto simp: agrees_def cmp_then_def cmp_ord_def)
    next
      case False
      then obtain y ys' z zs' where "ys = y # ys'" "zs = z # zs'" by (auto simp: neq_Nil_conv)
      then show ?thesis using Cons.IH by (simp add: agrees_then agrees_cmp_ord)
    qed
  qed
qed


lemma str_laws:
  "agrees (cmp_str a b) (cmp_str b c) (cmp_str a c)" "cmp_str b a = ordering_reverse (cmp_str a b)"
  unfolding cmp_str_def by (rule slice_laws)+

lemma lists_laws:
  assumes "\<And>x y z. x \<in> set xs \<Longrightarrow> agrees (cmp_vals x y) (cmp_vals y z) (cmp_vals x z)"
  shows "agrees (cmp_val_lists xs ys) (cmp_val_lists ys zs) (cmp_val_lists xs zs)"
  using assms
proof (induction xs arbitrary: ys zs)
  case Nil
  then show ?case by (cases ys; cases zs) (auto simp: agrees_def cmp_then_def cmp_ord_def split: if_splits)
next
  case (Cons x xs)
  show ?case
  proof (cases "ys = [] \<or> zs = []")
    case True
    then show ?thesis by (cases ys; cases zs) (auto simp: agrees_def cmp_then_def cmp_ord_def split: if_splits)
  next
    case False
    then obtain y ys' z zs' where "ys = y # ys'" "zs = z # zs'" by (auto simp: neq_Nil_conv)
    then show ?thesis using Cons by (simp add: agrees_then)
  qed
qed

lemma maps_laws:
  assumes "\<And>k x y z. (k, x) \<in> set xs \<Longrightarrow> agrees (cmp_vals x y) (cmp_vals y z) (cmp_vals x z)"
  shows "agrees (cmp_val_maps xs ys) (cmp_val_maps ys zs) (cmp_val_maps xs zs)"
  using assms
proof (induction xs arbitrary: ys zs)
  case Nil
  then show ?case by (cases ys; cases zs) (auto simp: agrees_def cmp_ord_def)
next
  case (Cons x xs)
  show ?case
  proof (cases "ys = [] \<or> zs = []")
    case True
    then show ?thesis by (cases ys; cases zs) (auto simp: agrees_def cmp_ord_def)
  next
    case False
    then obtain k y ys' l z zs' where "ys = (k, y) # ys'" "zs = (l, z) # zs'" by (auto simp: neq_Nil_conv)
    moreover have "agrees (cmp_vals (snd x) y) (cmp_vals y z) (cmp_vals (snd x) z)"
      using Cons.prems [of "fst x" "snd x" y z] by simp
    moreover have "agrees (cmp_val_maps xs ys') (cmp_val_maps ys' zs') (cmp_val_maps xs zs')"
      by (rule Cons.IH [OF Cons.prems [OF list.set_intros(2)]])
    ultimately show ?thesis by (cases x) (simp add: agrees_then str_laws(1))
  qed
qed

text \<open>One class at a time: the values of a class and how they compare.\<close>

lemma rank_iff:
  "class_rank v = 0 \<longleftrightarrow> (\<exists>f. as_f64 v = Some f)" "class_rank v = Suc 0 \<longleftrightarrow> (\<exists>x. v = VStr x)" "class_rank v = 2 \<longleftrightarrow> (\<exists>x. v = VBool x)"
  "class_rank v = 3 \<longleftrightarrow> (\<exists>x. v = VList x)" "class_rank v = 4 \<longleftrightarrow> (\<exists>x. v = VDate x)"
  "class_rank v = 5 \<longleftrightarrow> (\<exists>x. v = VLocalDateTime x)" "class_rank v = 6 \<longleftrightarrow> (\<exists>x y. v = VDateTime x y)"
  "class_rank v = 7 \<longleftrightarrow> (\<exists>x y z. v = VDuration x y z)" "class_rank v = 8 \<longleftrightarrow> (\<exists>x. v = VBinary x)"
  "class_rank v = 9 \<longleftrightarrow> (\<exists>x. v = VMap x)" "class_rank v = 10 \<longleftrightarrow> v = VNull"
  by (cases v; simp)+

lemma class_cases:
  obtains f where "class_rank v = 0" "as_f64 v = Some f" | x where "v = VStr x" | x where "v = VBool x"
  | x where "v = VList x" | x where "v = VDate x" | x where "v = VLocalDateTime x" | x y where "v = VDateTime x y"
  | x y z where "v = VDuration x y z" | x where "v = VBinary x" | x where "v = VMap x" | "v = VNull"
  by (cases v) auto

lemma cmp_vals_numbers:
  assumes "as_f64 a = Some x" "as_f64 b = Some y"
  shows "cmp_vals a b = cmp_ord (f64_total_key x) (f64_total_key y)"
  using assms cmp_values_unfold [of a b] by (cases a; cases b) (simp_all add: cmp_scalars_def)

lemma cmp_vals_simps [simp]:
  "cmp_vals (VStr x) (VStr y) = cmp_str x y" "cmp_vals (VBool p) (VBool q) = cmp_ord p q"
  "cmp_vals (VList xs) (VList ys) = cmp_val_lists xs ys" "cmp_vals (VDate i) (VDate j) = cmp_ord i j"
  "cmp_vals (VLocalDateTime i) (VLocalDateTime j) = cmp_ord i j"
  "cmp_vals (VDateTime i ox) (VDateTime j oy) = cmp_then (cmp_ord i j) (cmp_ord ox oy)"
  "cmp_vals (VDuration m1 d1 n1) (VDuration m2 d2 n2) = cmp_then (cmp_ord m1 m2) (cmp_then (cmp_ord d1 d2) (cmp_ord n1 n2))"
  "cmp_vals (VBinary bs) (VBinary cs) = cmp_slice bs cs" "cmp_vals (VMap ms) (VMap ns) = cmp_val_maps ms ns"
  "cmp_vals VNull VNull = Equal"
  by (simp_all add: cmp_vals_def cmp_values.simps cmp_scalars_def del: cmp_vals_Some(1))

lemma agrees_ranks:
  assumes "\<not> (class_rank a = class_rank b \<and> class_rank b = class_rank c)"
  shows "agrees (cmp_vals a b) (cmp_vals b c) (cmp_vals a c)"
proof -
  consider "class_rank a = class_rank b" "class_rank b \<noteq> class_rank c" | "class_rank a \<noteq> class_rank b" "class_rank b = class_rank c"
    | "class_rank a \<noteq> class_rank b" "class_rank b \<noteq> class_rank c" "class_rank a = class_rank c"
    | "class_rank a \<noteq> class_rank b" "class_rank b \<noteq> class_rank c" "class_rank a \<noteq> class_rank c" using assms by metis
  then show ?thesis
    by cases (auto simp: cmp_vals_rank agrees_def cmp_ord_def split: if_splits)
qed

lemma cmp_vals_agrees: "agrees (cmp_vals a b) (cmp_vals b c) (cmp_vals a c)"
proof (induction a arbitrary: b c rule: val_induct)
  case (list xs)
  then show ?case
  proof (cases "class_rank b = 3 \<and> class_rank c = 3")
    case True
    then show ?thesis using list lists_laws [of xs] by (auto simp: rank_iff)
  qed (rule agrees_ranks, auto)
next
  case (map m)
  then show ?case
  proof (cases "class_rank b = 9 \<and> class_rank c = 9")
    case True
    then show ?thesis using map maps_laws [of m] by (auto simp: rank_iff)
  qed (rule agrees_ranks, auto)
next
  case (scalar v)
  show ?case
  proof (cases "class_rank v = class_rank b \<and> class_rank b = class_rank c")
    case True
    then have r: "class_rank b = class_rank v" "class_rank c = class_rank v" by auto
    show ?thesis
    proof (cases v rule: class_cases)
      case (1 f)
      then have "class_rank b = 0" "class_rank c = 0" using r by simp_all
      then obtain g h where "as_f64 b = Some g" "as_f64 c = Some h" unfolding rank_iff(1) by blast
      then show ?thesis using 1 by (simp add: cmp_vals_numbers agrees_cmp_ord)
    qed (use r scalar in \<open>auto simp: rank_iff agrees_then agrees_cmp_ord str_laws(1) slice_laws(1) agrees_def [of Equal]\<close>)
  qed (rule agrees_ranks)
qed


lemma lists_reverse:
  "(\<And>x y. x \<in> set xs \<Longrightarrow> cmp_vals y x = ordering_reverse (cmp_vals x y)) \<Longrightarrow>
   cmp_val_lists ys xs = ordering_reverse (cmp_val_lists xs ys)"
  by (induction xs ys rule: list_induct2') (simp_all add: reverse_then reverse_cmp_ord [symmetric])

lemma maps_reverse:
  "(\<And>k x y. (k, x) \<in> set xs \<Longrightarrow> cmp_vals y x = ordering_reverse (cmp_vals x y)) \<Longrightarrow>
   cmp_val_maps ys xs = ordering_reverse (cmp_val_maps xs ys)"
proof (induction xs ys rule: list_induct2')
  case (4 x xs y ys)
  have "cmp_vals (snd y) (snd x) = ordering_reverse (cmp_vals (snd x) (snd y))" using "4.prems" [of "fst x" "snd x"] by simp
  moreover have "cmp_val_maps ys xs = ordering_reverse (cmp_val_maps xs ys)"
    by (rule "4.IH" [OF "4.prems" [OF list.set_intros(2)]])
  ultimately show ?case using str_laws(2) [of "fst y" "fst x"] by (cases x; cases y) (simp add: reverse_then)
qed (simp_all add: reverse_cmp_ord [symmetric])

lemma cmp_vals_reverse: "cmp_vals b a = ordering_reverse (cmp_vals a b)"
proof (induction a arbitrary: b rule: val_induct)
  case (list xs)
  show ?case
  proof (cases "class_rank b = 3")
    case True
    then show ?thesis using list lists_reverse [of xs] by (auto simp: rank_iff)
  qed (simp add: cmp_vals_rank reverse_cmp_ord [symmetric])
next
  case (map m)
  show ?case
  proof (cases "class_rank b = 9")
    case True
    then show ?thesis using map maps_reverse [of m] by (auto simp: rank_iff)
  qed (simp add: cmp_vals_rank reverse_cmp_ord [symmetric])
next
  case (scalar v)
  show ?case
  proof (cases "class_rank b = class_rank v")
    case r: True
    show ?thesis
    proof (cases v rule: class_cases)
      case (1 f)
      then have "class_rank b = 0" using r by simp
      then obtain g where "as_f64 b = Some g" unfolding rank_iff(1) by blast
      then show ?thesis using 1 by (simp add: cmp_vals_numbers reverse_cmp_ord [symmetric])
    qed (use r scalar in \<open>auto simp: rank_iff reverse_then reverse_cmp_ord [symmetric] str_laws(2) [symmetric] slice_laws(2) [symmetric]\<close>)
  qed (simp add: cmp_vals_rank reverse_cmp_ord [symmetric])
qed


section \<open>The contract of a comparison\<close>

text \<open>
  What a sort relies on: comparing the other way round gives the reverse, and three comparisons of
  three values fit together. Everything else about the order follows.
\<close>

locale comparison =
  fixes cmp :: "'a \<Rightarrow> 'a \<Rightarrow> ordering"
  assumes cmp_rev: "cmp b a = ordering_reverse (cmp a b)"
    and cmp_fits: "agrees (cmp a b) (cmp b c) (cmp a c)"
begin

lemma cmp_refl: "cmp a a = Equal"
  using cmp_rev [of a a] by (cases "cmp a a") simp_all

lemma le_trans: "cmp a b \<noteq> Greater \<Longrightarrow> cmp b c \<noteq> Greater \<Longrightarrow> cmp a c \<noteq> Greater"
  using cmp_fits [of a b c] by (cases "cmp a b"; cases "cmp b c") (simp_all add: agrees_def)

lemma le_linear: "cmp a b \<noteq> Greater \<or> cmp b a \<noteq> Greater"
  using cmp_rev [of b a] by (cases "cmp a b") simp_all

lemma equal_cong: "cmp a b = Equal \<Longrightarrow> cmp a c = cmp b c"
  using cmp_fits [of a b c] by (simp add: agrees_def)

lemma reversed: "comparison (\<lambda>a b. ordering_reverse (cmp a b))"
proof
  show "ordering_reverse (cmp b a) = ordering_reverse (ordering_reverse (cmp a b))" for a b by (rule arg_cong [OF cmp_rev])
  show "agrees (ordering_reverse (cmp a b)) (ordering_reverse (cmp b c)) (ordering_reverse (cmp a c))" for a b c
    using cmp_fits [of a b c] by (cases "cmp a b"; cases "cmp b c"; cases "cmp a c") (simp_all add: agrees_def)
qed

end

interpretation vals: comparison cmp_vals
  by unfold_locales (rule cmp_vals_reverse, rule cmp_vals_agrees)

definition order_by :: "bool \<Rightarrow> val option \<Rightarrow> val option \<Rightarrow> ordering" where
  "order_by descending a b = (case cmp_optional a b descending of Some c \<Rightarrow> c | None \<Rightarrow> Equal)"

lemma cmp_optional_Some: "cmp_optional a b descending = Some (order_by descending a b)"
  by (auto simp: order_by_def cmp_optional_def split: option.split)

lemma order_by_ascending:
  "order_by False a b =
     (case (not_null a, not_null b) of (None, None) \<Rightarrow> Equal | (None, Some _) \<Rightarrow> Greater | (Some _, None) \<Rightarrow> Less
      | (Some x, Some y) \<Rightarrow> cmp_vals x y)"
  by (auto simp: order_by_def cmp_optional_def split: option.split)

lemma order_by_descending: "order_by True a b = ordering_reverse (order_by False a b)"
  using cmp_optional_Some [of a b False] cmp_optional_Some [of a b True]
  by (auto simp: cmp_optional_def)

interpretation asc: comparison "order_by False"
proof
  show "order_by False b a = ordering_reverse (order_by False a b)" for a b
    by (auto simp: order_by_ascending vals.cmp_rev [symmetric] split: option.split)
  show "agrees (order_by False a b) (order_by False b c) (order_by False a c)" for a b c
    by (auto simp: order_by_ascending vals.cmp_fits split: option.split) (auto simp: agrees_def)
qed

interpretation desc: comparison "order_by True"
  unfolding order_by_descending by (rule asc.reversed)

section \<open>Filters\<close>

datatype cmp_op = Eq | Ne | Lt | Le | Gt | Ge

datatype filter_expr = FCmp string cmp_op val | FAnd "filter_expr list" | FOr "filter_expr list" | FNot filter_expr

definition is_orderable_pair :: "val \<Rightarrow> val \<Rightarrow> bool" where
  "is_orderable_pair lhs rhs =
     (case (lhs, rhs) of
        (VInt _, VInt _) \<Rightarrow> True | (VInt _, VFloat _) \<Rightarrow> True | (VFloat _, VInt _) \<Rightarrow> True | (VFloat _, VFloat _) \<Rightarrow> True
      | (VStr _, VStr _) \<Rightarrow> True | (VBool _, VBool _) \<Rightarrow> True | (VDate _, VDate _) \<Rightarrow> True
      | (VLocalDateTime _, VLocalDateTime _) \<Rightarrow> True | (VDateTime _ _, VDateTime _ _) \<Rightarrow> True
      | (VBinary _, VBinary _) \<Rightarrow> True | _ \<Rightarrow> False)"

fun order_op :: "cmp_op \<Rightarrow> ordering \<Rightarrow> bool" where
  "order_op Lt c \<longleftrightarrow> c = Less"
| "order_op Le c \<longleftrightarrow> c \<noteq> Greater"
| "order_op Gt c \<longleftrightarrow> c = Greater"
| "order_op Ge c \<longleftrightarrow> c \<noteq> Less"
| "order_op _ c = False"

definition eval_cmp :: "cmp_op \<Rightarrow> val \<Rightarrow> val \<Rightarrow> bool" where
  "eval_cmp op lhs rhs =
     (case op of
        Eq \<Rightarrow> equality lhs rhs = Some True
      | Ne \<Rightarrow> equality lhs rhs = Some False
      | _ \<Rightarrow> if \<not> is_orderable_pair lhs rhs then False else order_op op (cmp_vals lhs rhs))"

definition eval_cmp3 :: "cmp_op \<Rightarrow> val \<Rightarrow> val \<Rightarrow> bool option" where
  "eval_cmp3 op lhs rhs =
     (case op of
        Eq \<Rightarrow> equality lhs rhs
      | Ne \<Rightarrow> map_option Not (equality lhs rhs)
      | _ \<Rightarrow> if \<not> is_orderable_pair lhs rhs then None else Some (order_op op (cmp_vals lhs rhs)))"

fun eval_filter :: "(string \<Rightarrow> val option) \<Rightarrow> filter_expr \<Rightarrow> bool" where
  "eval_filter get (FCmp field op v) = (case get field of None \<Rightarrow> False | Some lhs \<Rightarrow> eval_cmp op lhs v)"
| "eval_filter get (FAnd parts) = list_all (eval_filter get) parts"
| "eval_filter get (FOr parts) = list_ex (eval_filter get) parts"
| "eval_filter get (FNot inner) = (\<not> eval_filter get inner)"

section \<open>Subscripts\<close>

text \<open>\<open>element\<close>, and back.\<close>

definition element :: "val \<Rightarrow> val option" where
  "element v = (case v of VNull \<Rightarrow> None | other \<Rightarrow> Some other)"

definition into_element :: "val option \<Rightarrow> val" where
  "into_element v = (case v of Some v \<Rightarrow> v | None \<Rightarrow> VNull)"

definition list_index :: "val list \<Rightarrow> int \<Rightarrow> val option" where
  "list_index items i =
     (let len = int (length items); pos = (if i < 0 then len + i else i) in
      if pos < 0 \<or> pos \<ge> len then None else element (items ! nat pos))"

definition index_list :: "val option \<Rightarrow> val option \<Rightarrow> val option" where
  "index_list base index =
     (case (base, index) of
        (Some (VMap entries), Some (VStr key)) \<Rightarrow> Option.bind (map_of entries key) element
      | (Some (VList items), Some (VInt n)) \<Rightarrow> list_index items n
      | (Some (VList items), Some (VFloat f)) \<Rightarrow> Option.bind (f64_integer f) (list_index items)
      | _ \<Rightarrow> None)"

definition type_name_of :: "val \<Rightarrow> string" where
  "type_name_of v =
     (case v of
        VInt _ \<Rightarrow> ''an integer'' | VFloat _ \<Rightarrow> ''a float'' | VStr _ \<Rightarrow> ''a string'' | VBool _ \<Rightarrow> ''a boolean''
      | VList _ \<Rightarrow> ''a list'' | VMap _ \<Rightarrow> ''a map'' | VNull \<Rightarrow> ''null'' | _ \<Rightarrow> ''a temporal or binary value'')"

definition index_value :: "val option \<Rightarrow> val option \<Rightarrow> string + val option" where
  "index_value base index =
     (case (base, index) of
        (Some b, Some i) \<Rightarrow>
          (case (b, i) of
             (_, VNull) \<Rightarrow> Inr None
           | (VNull, _) \<Rightarrow> Inr None
           | (VList _, VInt _) \<Rightarrow> Inr (index_list base index)
           | (VList _, VFloat f) \<Rightarrow>
               if f64_integer f \<noteq> None then Inr (index_list base index)
               else Inl (''list index must be an integer, got '' @ type_name_of i)
           | (VList _, _) \<Rightarrow> Inl (''list index must be an integer, got '' @ type_name_of i)
           | (VMap _, VStr _) \<Rightarrow> Inr (index_list base index)
           | (VMap _, _) \<Rightarrow> Inl (''map key must be a string, got '' @ type_name_of i)
           | (_, _) \<Rightarrow> Inl (type_name_of b @ '' cannot be indexed; only a list or a map can''))
      | _ \<Rightarrow> Inr None)"


section \<open>Three-valued equality\<close>

lemma all_equal_entries_snds: "all_equal_entries xs ys u = all_equal (map snd xs) (map snd ys) u"
  by (induction xs ys arbitrary: u rule: list_induct2') (auto split: option.split bool.split)

lemma all_equal_eq:
  "all_equal xs ys u =
     (if Some False \<in> set (map2 equality xs ys) then Some False
      else if u \<or> None \<in> set (map2 equality xs ys) then None else Some True)"
  by (induction xs ys arbitrary: u rule: list_induct2') (auto split: option.split bool.split)

lemma equality_lists:
  "equality (VList xs) (VList ys) = (if length xs = length ys then all_equal xs ys False else Some False)"
  by (simp add: equality.simps)

lemma keys_differ: "length x = length y \<Longrightarrow> list_ex (\<lambda>(k1, k2). k1 \<noteq> k2) (zip x y) \<longleftrightarrow> x \<noteq> y"
  by (induction x y rule: list_induct2) auto

lemma equality_maps:
  "equality (VMap xs) (VMap ys) = (if map fst xs = map fst ys then all_equal (map snd xs) (map snd ys) False else Some False)"
proof (cases "length xs = length ys")
  case True
  then show ?thesis using keys_differ [of "map fst xs" "map fst ys"] by (simp add: equality.simps all_equal_entries_snds)
next
  case False
  then have "map fst xs \<noteq> map fst ys" by (metis length_map)
  then show ?thesis using False by (simp add: equality.simps)
qed

lemma equality_null: "equality VNull b = None" "equality a VNull = None"
  by (simp add: equality.simps) (cases a; simp add: equality.simps)

lemma equality_scalar:
  "class_rank a \<noteq> 3 \<Longrightarrow> class_rank a \<noteq> 9 \<Longrightarrow> a \<noteq> VNull \<Longrightarrow> b \<noteq> VNull \<Longrightarrow> equality a b = Some (values_equal a b)"
  "class_rank b \<noteq> class_rank a \<Longrightarrow> a \<noteq> VNull \<Longrightarrow> b \<noteq> VNull \<Longrightarrow> equality a b = Some False"
  by (cases a; cases b; simp add: equality.simps values_equal.simps)+

text \<open>Filling in nulls: each null of the first value may be anything in the second.\<close>

inductive fills :: "val \<Rightarrow> val \<Rightarrow> bool" where
  null: "fills VNull v"
| list: "list_all2 fills xs ys \<Longrightarrow> fills (VList xs) (VList ys)"
| map: "map fst xs = map fst ys \<Longrightarrow> list_all2 fills (map snd xs) (map snd ys) \<Longrightarrow> fills (VMap xs) (VMap ys)"
| scalar: "class_rank v \<noteq> 3 \<Longrightarrow> class_rank v \<noteq> 9 \<Longrightarrow> fills v v"
monos list_all2_mono

inductive_cases fills_listE: "fills (VList xs) v"
inductive_cases fills_mapE: "fills (VMap xs) v"


lemma fills_rank: "fills a a' \<Longrightarrow> a \<noteq> VNull \<Longrightarrow> class_rank a' = class_rank a \<and> a' \<noteq> VNull"
  by (erule fills.cases) auto

lemma fills_scalar: "fills a a' \<Longrightarrow> a \<noteq> VNull \<Longrightarrow> class_rank a \<noteq> 3 \<Longrightarrow> class_rank a \<noteq> 9 \<Longrightarrow> a' = a"
  by (erule fills.cases) auto

lemma all_equal_fills:
  assumes "\<And>x x' y y' r. x \<in> set xs \<Longrightarrow> fills x x' \<Longrightarrow> fills y y' \<Longrightarrow> equality x y = Some r \<Longrightarrow> equality x' y' = Some r"
    "list_all2 fills xs xs'" "list_all2 fills ys ys'" "all_equal xs ys u = Some r"
  shows "all_equal xs' ys' u = Some r"
  using assms(2,1,3,4)
proof (induction xs xs' arbitrary: ys ys' u rule: list_all2_induct)
  case (Cons x xs x' xs')
  show ?case
  proof (cases ys)
    case ys: (Cons y yt)
    then obtain y' yt' where ys': "ys' = y' # yt'" "fills y y'" "list_all2 fills yt yt'"
      using Cons.prems(2) by (auto simp: list_all2_Cons1)
    have "equality x y = Some s \<Longrightarrow> equality x' y' = Some s" for s
      using Cons.prems(1) [of x x' y y' s] Cons.hyps(1) ys'(2) by simp
    moreover have "all_equal xs yt v = Some r \<Longrightarrow> all_equal xs' yt' v = Some r" for v
      by (rule Cons.IH [OF Cons.prems(1) ys'(3)]) simp_all
    moreover have "r = False" if "all_equal xs yt True = Some r" using that by (auto simp: all_equal_eq split: if_splits)
    moreover have "all_equal xs' yt' v = Some False" if "all_equal xs' yt' True = Some False" for v
      using that by (auto simp: all_equal_eq split: if_splits)
    ultimately show ?thesis using Cons.prems(3) ys ys'(1)
      by (cases "equality x y") (auto split: bool.splits option.splits)
  qed (use Cons.prems in \<open>auto split: if_splits\<close>)
qed (auto split: if_splits)

lemma equality_fills:
  "fills a a' \<Longrightarrow> fills b b' \<Longrightarrow> equality a b = Some r \<Longrightarrow> equality a' b' = Some r"
proof (induction a arbitrary: a' b b' r rule: val_induct)
  case (list xs)
  have b: "b \<noteq> VNull" using list.prems(3) by (auto simp: equality_null)
  obtain xs' where xs': "a' = VList xs'" "list_all2 fills xs xs'" using list.prems(1) by (auto elim: fills_listE)
  show ?case
  proof (cases "class_rank b = 3")
    case True
    then obtain ys ys' where ys: "b = VList ys" "b' = VList ys'" "list_all2 fills ys ys'"
      using list.prems(2) by (auto simp: rank_iff elim: fills_listE)
    have "length xs' = length xs" "length ys' = length ys" using xs'(2) ys(3) by (simp_all add: list_all2_lengthD)
    then show ?thesis using list.prems(3) all_equal_fills [OF list.IH xs'(2) ys(3)] ys xs'
      by (auto simp: equality_lists split: if_splits)
  next
    case False
    then have "r = False" "equality a' b' = Some False"
      using list.prems(3) equality_scalar(2) [of b "VList xs"] equality_scalar(2) [of b' a'] b fills_rank [OF list.prems(2) b] xs'
      by simp_all
    then show ?thesis by simp
  qed
next
  case (map m)
  have b: "b \<noteq> VNull" using map.prems(3) by (auto simp: equality_null)
  obtain m' where m': "a' = VMap m'" "map fst m = map fst m'" "list_all2 fills (map snd m) (map snd m')"
    using map.prems(1) by (auto elim: fills_mapE)
  show ?case
  proof (cases "class_rank b = 9")
    case True
    then obtain n n' where n: "b = VMap n" "b' = VMap n'" "map fst n = map fst n'" "list_all2 fills (map snd n) (map snd n')"
      using map.prems(2) by (auto simp: rank_iff elim: fills_mapE)
    have "\<And>x x' y y' r. x \<in> set (map snd m) \<Longrightarrow> fills x x' \<Longrightarrow> fills y y' \<Longrightarrow> equality x y = Some r \<Longrightarrow> equality x' y' = Some r"
      using map.IH by auto
    then show ?thesis using map.prems(3) all_equal_fills [OF _ m'(3) n(4)] n(1,2,3) m'(1,2)
      by (auto simp: equality_maps split: if_splits)
  next
    case False
    then have "r = False" "equality a' b' = Some False"
      using map.prems(3) equality_scalar(2) [of b "VMap m"] equality_scalar(2) [of b' a'] b fills_rank [OF map.prems(2) b] m'
      by simp_all
    then show ?thesis by simp
  qed
next
  case (scalar v)
  have n: "v \<noteq> VNull" "b \<noteq> VNull" using scalar.prems(3) by (auto simp: equality_null)
  have v: "a' = v" using scalar.prems(1) n(1) scalar.hyps by (rule fills_scalar)
  show ?case
  proof (cases "class_rank b = class_rank v")
    case True
    then have "b' = b" using fills_scalar [OF scalar.prems(2) n(2)] scalar.hyps by simp
    then show ?thesis using scalar.prems(3) v by simp
  next
    case False
    then have "r = False" "equality a' b' = Some False"
      using scalar.prems(3) equality_scalar(2) [of b v] equality_scalar(2) [of b' a'] n fills_rank [OF scalar.prems(2) n(2)] v
      by simp_all
    then show ?thesis by simp
  qed
qed


lemma all_equal_definite:
  assumes "\<And>x y. x \<in> set xs \<Longrightarrow> y \<in> set ys \<Longrightarrow> equality x y = Some (values_equal x y)"
  shows "all_equal xs ys False = Some (lists_equal xs ys)"
  using assms by (induction xs ys rule: list_induct2') (auto split: bool.split)

lemma maps_equal_lists:
  "length xs = length ys \<Longrightarrow> maps_equal xs ys \<longleftrightarrow> map fst xs = map fst ys \<and> lists_equal (map snd xs) (map snd ys)"
  by (induction xs ys rule: list_induct2) auto

lemma equality_definite:
  "\<not> contains_null a \<Longrightarrow> \<not> contains_null b \<Longrightarrow> equality a b = Some (values_equal a b)"
proof (induction a arbitrary: b rule: val_induct)
  case (list xs)
  show ?case
  proof (cases "class_rank b = 3")
    case True
    then obtain ys where b: "b = VList ys" by (auto simp: rank_iff)
    have "all_equal xs ys False = Some (lists_equal xs ys)"
      using list.prems b by (intro all_equal_definite list.IH) (auto simp: list_ex_iff)
    then show ?thesis using b by (simp add: equality_lists values_equal.simps)
  next
    case False
    then show ?thesis using list.prems(2) equality_scalar(2) [of b "VList xs"] by (cases b) (simp_all add: values_equal.simps)
  qed
next
  case (map m)
  show ?case
  proof (cases "class_rank b = 9")
    case True
    then obtain n where b: "b = VMap n" by (auto simp: rank_iff)
    have "equality x y = Some (values_equal x y)" if "x \<in> set (map snd m)" "y \<in> set (map snd n)" for x y
      using that map.prems b map.IH by (force simp: list_ex_iff)
    then have "all_equal (map snd m) (map snd n) False = Some (lists_equal (map snd m) (map snd n))"
      by (rule all_equal_definite)
    moreover have "length m = length n" if "map fst m = map fst n" using that by (metis length_map)
    ultimately show ?thesis using b maps_equal_lists [of m n] by (auto simp: equality_maps values_equal.simps)
  next
    case False
    then show ?thesis using map.prems(2) equality_scalar(2) [of b "VMap m"] by (cases b) (simp_all add: values_equal.simps)
  qed
next
  case (scalar v)
  have "v \<noteq> VNull" "b \<noteq> VNull" using scalar.prems by auto
  then show ?case using equality_scalar(1) scalar.hyps by simp
qed

section \<open>Where order and equality part ways\<close>

text \<open>Two integers beyond the 53 bits of a float: they are different, and yet neither is below the
  other, since numbers are ordered as floats.\<close>

lemma large_ints_unordered:
  "eval_cmp Ne (VInt 9007199254740992) (VInt 9007199254740993) \<and>
   \<not> eval_cmp Lt (VInt 9007199254740992) (VInt 9007199254740993) \<and>
   eval_cmp Ge (VInt 9007199254740992) (VInt 9007199254740993)"
proof -
  have "log2_floor 9007199254740992 = 53" "log2_floor 9007199254740993 = 53" by (simp_all add: log2_floor.simps)
  then have "i64_as_f64 9007199254740992 = i64_as_f64 9007199254740993" by (simp add: i64_as_f64_def nat_as_f64_def Let_def)
  then have "cmp_vals (VInt 9007199254740992) (VInt 9007199254740993) = Equal"
    unfolding cmp_vals_numbers [OF as_f64.simps(1) as_f64.simps(1)] by (simp add: cmp_ord_def)
  moreover have "equality (VInt 9007199254740992) (VInt 9007199254740993) = Some False"
    by (simp add: equality.simps values_equal.simps)
  ultimately show ?thesis by (simp add: eval_cmp_def is_orderable_pair_def)
qed

text \<open>One instant written with two offsets: the two are equal, and yet one is below the other.\<close>

lemma equal_instants_ordered:
  "eval_cmp Eq (VDateTime 0 0) (VDateTime 0 3600) \<and> eval_cmp Lt (VDateTime 0 0) (VDateTime 0 3600)"
  by (simp add: eval_cmp_def is_orderable_pair_def equality.simps values_equal.simps cmp_then_def cmp_ord_def)

section \<open>Properties\<close>

text \<open>C28. Sorting is sound: \<open>ORDER BY\<close>, ascending or descending, over any values and missing
  values compares every pair without reaching an unreachable arm, gives the reverse answer when
  the sides are swapped, is transitive, calls a value equal to itself, and puts missing and null
  values after every other value when ascending and before it when descending.\<close>

theorem order_by_total_preorder:
  "(\<exists>r. cmp_optional a b d = Some r) \<and>
   cmp_optional b a d = map_option ordering_reverse (cmp_optional a b d) \<and>
   (cmp_optional a b d \<noteq> Some Greater \<and> cmp_optional b c d \<noteq> Some Greater \<longrightarrow> cmp_optional a c d \<noteq> Some Greater) \<and>
   cmp_optional a a d = Some Equal \<and>
   (x \<noteq> VNull \<and> y \<in> {None, Some VNull} \<longrightarrow> cmp_optional (Some x) y d = Some (if d then Greater else Less))"
proof -
  have o: "comparison (order_by d)" by (cases d) (simp_all add: asc.comparison_axioms desc.comparison_axioms)
  have "cmp_optional b a d = map_option ordering_reverse (cmp_optional a b d)"
    unfolding cmp_optional_Some using comparison.cmp_rev [OF o, of b a] by simp
  moreover have "cmp_optional a b d \<noteq> Some Greater \<and> cmp_optional b c d \<noteq> Some Greater \<longrightarrow> cmp_optional a c d \<noteq> Some Greater"
    unfolding cmp_optional_Some using comparison.le_trans [OF o, of a b c] by simp
  moreover have "cmp_optional a a d = Some Equal" unfolding cmp_optional_Some comparison.cmp_refl [OF o] ..
  moreover have "x \<noteq> VNull \<and> y \<in> {None, Some VNull} \<longrightarrow> cmp_optional (Some x) y d = Some (if d then Greater else Less)"
    by (cases d) (auto simp: cmp_optional_Some order_by_ascending order_by_descending not_null_def)
  moreover have "\<exists>r. cmp_optional a b d = Some r" unfolding cmp_optional_Some by blast
  ultimately show ?thesis by (intro conjI)
qed

theorem order_by_total_preorder_witness:
  "cmp_optional (Some (VInt 3)) (Some VNull) True = Some Greater"
proof -
  have "VInt 3 \<noteq> VNull \<and> Some VNull \<in> {None, Some VNull} \<longrightarrow>
      cmp_optional (Some (VInt 3)) (Some VNull) True = Some (if True then Greater else Less)"
    by (rule order_by_total_preorder [THEN conjunct2, THEN conjunct2, THEN conjunct2, THEN conjunct2])
  then show ?thesis by simp
qed



end
