(* ===== verification/Roles.thy ===== *)
theory Roles
  imports Visible_Set Value_Ops Id_Map Interner
begin

text \<open>
  What a role may see: the role definitions of \<open>crates/core-api/src/roles.rs\<close>, the masks of
  \<open>crates/core-api/src/mask.rs\<close>, the namespace table and the role resolver of the live handle
  (\<open>GraphDb\<close> in \<open>crates/core-api/src/db.rs\<close>) and their twins on a frozen snapshot
  (\<open>crates/core-api/src/reader.rs\<close>). The merged property view of a store is a function from a
  node and a field to a value. A \<open>HashSet\<close> of ids that is only collected and handed on is a list.
\<close>

section \<open>Roles\<close>

record prop_predicate =
  field :: string
  eq_test :: "val option"
  in_test :: "val list option"

record role_def =
  role_name :: string
  role_keys :: "string list"
  role_labels :: "string list"
  visible_where :: "prop_predicate option"
  namespaces :: "string list option"
  writes :: bool

definition holds :: "prop_predicate \<Rightarrow> val option \<Rightarrow> bool" where
  "holds p v =
     (case v of
        None \<Rightarrow> False
      | Some v \<Rightarrow>
          (case (eq_test p, in_test p) of
             (Some expected, None) \<Rightarrow> val_eq v expected
           | (None, Some allowed) \<Rightarrow> list_ex (\<lambda>a. val_eq a v) allowed
           | _ \<Rightarrow> False))"

definition sees_namespace :: "role_def \<Rightarrow> string \<Rightarrow> bool" where
  "sees_namespace def ns = (case namespaces def of None \<Rightarrow> True | Some ls \<Rightarrow> list_ex (\<lambda>n. n = ns) ls)"

text \<open>\<open>RolesFile::new_versioned\<close>: the version the content needs. A write scope is only asked whether
  it is there.\<close>

definition roles_version :: "role_def list \<Rightarrow> nat" where
  "roles_version roles =
     (if list_ex (\<lambda>r. namespaces r \<noteq> None) roles then 4
      else if list_ex (\<lambda>r. visible_where r \<noteq> None) roles then 3
      else if list_ex writes roles then 2
      else 1)"

section \<open>Masks\<close>

datatype mask_mode = Omit | Stub

record node_mask =
  visible :: visible_set
  mask_mode :: mask_mode

definition mask_from_ids :: "u32 list \<Rightarrow> node_mask" where
  "mask_from_ids ids = \<lparr>visible = vs_from_ids ids, mask_mode = Omit\<rparr>"

definition mask_with_mode :: "node_mask \<Rightarrow> mask_mode \<Rightarrow> node_mask" where
  "mask_with_mode m mode = m\<lparr>mask_mode := mode\<rparr>"

definition mask_intersect :: "node_mask \<Rightarrow> node_mask \<Rightarrow> node_mask" where
  "mask_intersect a b = \<lparr>visible = vs_intersect (visible a) (visible b), mask_mode = Omit\<rparr>"

definition contains_id :: "node_mask \<Rightarrow> u32 \<Rightarrow> bool" where
  "contains_id m i = vs_contains (visible m) i"

definition mask_len :: "node_mask \<Rightarrow> nat" where "mask_len m = vs_len (visible m)"

section \<open>The graph a resolver reads\<close>

record graph =
  g_ids :: id_map
  g_syms :: interner
  g_labels :: "u32 list"
  g_props :: "u32 \<Rightarrow> string \<Rightarrow> val option"
  ns_names :: "string list"
  node_ns :: "u32 list"

definition mask_from_keys :: "(string \<Rightarrow> u64) \<Rightarrow> graph \<Rightarrow> string list \<Rightarrow> node_mask" where
  "mask_from_keys hash g names = mask_from_ids (List.map_filter (id_map_get hash (g_ids g)) names)"

definition contains_node :: "(string \<Rightarrow> u64) \<Rightarrow> graph \<Rightarrow> node_mask \<Rightarrow> string \<Rightarrow> bool" where
  "contains_node hash g m key = (case id_map_get hash (g_ids g) key of None \<Rightarrow> False | Some i \<Rightarrow> contains_id m i)"

definition NS_DEFAULT_IDX :: u32 where "NS_DEFAULT_IDX = 0"

fun position :: "('a \<Rightarrow> bool) \<Rightarrow> 'a list \<Rightarrow> nat option" where
  "position P [] = None"
| "position P (x # xs) = (if P x then Some 0 else map_option Suc (position P xs))"

definition ns_index_of :: "graph \<Rightarrow> string \<Rightarrow> u32 option" where
  "ns_index_of g name = map_option of_nat (position (\<lambda>n. n = name) (ns_names g))"

definition ns_index_for :: "graph \<Rightarrow> string \<Rightarrow> graph \<times> u32" where
  "ns_index_for g name =
     (case ns_index_of g name of
        Some i \<Rightarrow> (g, i)
      | None \<Rightarrow> let g = g\<lparr>ns_names := ns_names g @ [name]\<rparr> in (g, of_nat (length (ns_names g) - 1)))"

definition ns_name :: "graph \<Rightarrow> u32 \<Rightarrow> string" where
  "ns_name g idx = (if unat idx < length (ns_names g) then ns_names g ! unat idx else NS_DEFAULT)"

definition node_ns_idx :: "graph \<Rightarrow> u32 \<Rightarrow> u32" where
  "node_ns_idx g i = (if unat i < length (node_ns g) then node_ns g ! unat i else NS_DEFAULT_IDX)"

definition set_node_ns :: "graph \<Rightarrow> u32 \<Rightarrow> string \<Rightarrow> graph" where
  "set_node_ns g i name =
     (let (g, idx) = (if name = NS_DEFAULT then (g, NS_DEFAULT_IDX) else ns_index_for g name);
          ns = (if length (node_ns g) \<le> unat i
                then node_ns g @ replicate (unat i + 1 - length (node_ns g)) NS_DEFAULT_IDX else node_ns g)
      in g\<lparr>node_ns := ns[unat i := idx]\<rparr>)"

fun file_named :: "(u32 \<times> string) list \<Rightarrow> graph \<Rightarrow> graph" where
  "file_named [] g = g"
| "file_named ((i, name) # named) g =
     (let (g, idx) = ns_index_for g name in file_named named (g\<lparr>node_ns := (node_ns g)[unat i := idx]\<rparr>))"

definition named_nodes :: "graph \<Rightarrow> nat \<Rightarrow> (u32 \<times> string) list" where
  "named_nodes g n_nodes =
     List.map_filter (\<lambda>i. case g_props g (of_nat i) NS_PROP of
         Some (VStr s) \<Rightarrow> if s \<noteq> NS_DEFAULT then Some (of_nat i, s) else None
       | _ \<Rightarrow> None) [0..<n_nodes]"

text \<open>\<open>field_names\<close> are the columns the property view has.\<close>

definition rebuild_node_ns :: "string list \<Rightarrow> graph \<Rightarrow> graph" where
  "rebuild_node_ns field_names g =
     (let n_nodes = id_map_len (g_ids g);
          g = g\<lparr>ns_names := take 1 (ns_names g), node_ns := replicate n_nodes NS_DEFAULT_IDX\<rparr>
      in if \<not> list_ex (\<lambda>f. f = NS_PROP) field_names then g else file_named (named_nodes g n_nodes) g)"

definition is_live_node :: "graph \<Rightarrow> u32 \<Rightarrow> bool" where
  "is_live_node g i \<longleftrightarrow>
     unat i < length (g_labels g) \<and> g_labels g ! unat i \<noteq> - 1 \<and>
     (case key_of (g_ids g) i of Some (Some _) \<Rightarrow> True | _ \<Rightarrow> False)"

definition mask_for_namespace :: "graph \<Rightarrow> string \<Rightarrow> node_mask" where
  "mask_for_namespace g namespace =
     (case ns_index_of g namespace of
        None \<Rightarrow> mask_from_ids []
      | Some idx \<Rightarrow>
          mask_from_ids (filter (\<lambda>i. node_ns_idx g i = idx \<and> is_live_node g i)
            (map of_nat [0..<id_map_len (g_ids g)])))"

section \<open>Resolving a role\<close>

definition roles_poisoned :: graph_error where
  "roles_poisoned = Corrupt ''roles.json was corrupt at open; fix the file and re-open to restore role access'' []"

definition role_key_leg :: "(string \<Rightarrow> u64) \<Rightarrow> graph \<Rightarrow> role_def \<Rightarrow> u32 list" where
  "role_key_leg hash g def = List.map_filter (id_map_get hash (g_ids g)) (role_keys def)"

definition role_label_leg :: "graph \<Rightarrow> role_def \<Rightarrow> u32 list" where
  "role_label_leg g def =
     concat (map (\<lambda>label. case get_sym (g_syms g) label of
         None \<Rightarrow> []
       | Some y \<Rightarrow>
           filter (\<lambda>i. case visible_where def of Some p \<Rightarrow> holds p (g_props g i (field p)) | None \<Rightarrow> True)
             (map (\<lambda>(i, _). of_nat i) (filter (\<lambda>(_, s). s = y) (List.enumerate 0 (g_labels g)))))
       (role_labels def))"

definition build_mask_for_role :: "(string \<Rightarrow> u64) \<Rightarrow> graph \<Rightarrow> role_def list option \<Rightarrow> string \<Rightarrow> node_mask res" where
  "build_mask_for_role hash g roles role =
     (case roles of
        None \<Rightarrow> Inl roles_poisoned
      | Some defs \<Rightarrow>
          (case find (\<lambda>r. role_name r = role) defs of
             None \<Rightarrow> Inl (KeyNotFound (''role:'' @ role))
           | Some def \<Rightarrow>
               let ids = role_key_leg hash g def @ role_label_leg g def;
                   ids = (if namespaces def \<noteq> None
                          then filter (\<lambda>i. sees_namespace def (ns_name g (node_ns_idx g i))) ids else ids)
               in Inr (mask_from_ids (remdups ids))))"

text \<open>The twin of a snapshot reads the namespace off the property view.\<close>

definition mask_for_role_from :: "(string \<Rightarrow> u64) \<Rightarrow> graph \<Rightarrow> role_def list option \<Rightarrow> string \<Rightarrow> node_mask res" where
  "mask_for_role_from hash g roles role =
     (case roles of
        None \<Rightarrow> Inl (Corrupt ''roles.json was corrupt at open; fix the file and re-open'' [])
      | Some defs \<Rightarrow>
          (case find (\<lambda>r. role_name r = role) defs of
             None \<Rightarrow> Inl (KeyNotFound (''role:'' @ role))
           | Some def \<Rightarrow>
               let ids = role_key_leg hash g def @ role_label_leg g def;
                   ids = (if namespaces def \<noteq> None
                          then filter (\<lambda>i. sees_namespace def (namespace_of_value (g_props g i NS_PROP))) ids else ids)
               in Inr (mask_from_ids (remdups ids))))"

definition reader_mask_for_namespace :: "graph \<Rightarrow> string \<Rightarrow> node_mask" where
  "reader_mask_for_namespace g namespace =
     mask_from_ids (filter (\<lambda>i. namespace_of_value (g_props g i NS_PROP) = namespace)
       (map (\<lambda>(i, _). of_nat i) (filter (\<lambda>(_, s). s \<noteq> - 1) (List.enumerate 0 (g_labels g)))))"


section \<open>What a mask shows\<close>

definition mask_ok :: "node_mask \<Rightarrow> bool" where "mask_ok m \<longleftrightarrow> vs_ok (visible m)"

interpretation nm: allow_list mask_from_ids mask_intersect contains_id mask_ok
  by unfold_locales (simp_all add: mask_from_ids_def mask_intersect_def contains_id_def mask_ok_def vs.of_ids_law vs.both_law)

lemma mask_mode_simps [simp]: "mask_mode (mask_from_ids ids) = Omit" "mask_mode (mask_intersect a b) = Omit"
  by (simp_all add: mask_from_ids_def mask_intersect_def)

lemma set_map_filter: "set (List.map_filter f xs) = {y. \<exists>x \<in> set xs. f x = Some y}"
  by (force simp: map_filter_def)

lemma mask_from_keys_sees: "contains_id (mask_from_keys hash g names) i \<longleftrightarrow> (\<exists>k \<in> set names. id_map_get hash (g_ids g) k = Some i)"
  by (simp add: mask_from_keys_def nm.of_ids_law set_map_filter)

lemma mask_from_keys_ok: "mask_ok (mask_from_keys hash g names)"
  by (simp add: mask_from_keys_def nm.of_ids_law)

text \<open>The nodes of a label, by the label vector.\<close>

lemma labelled_ids:
  assumes "length ls \<le> 2 ^ 32"
  shows "i \<in> set (map (\<lambda>(i, _). of_nat i :: u32) (filter (\<lambda>(_, s). P s) (List.enumerate 0 ls))) \<longleftrightarrow>
    unat i < length ls \<and> P (ls ! unat i)"
proof -
  have "unat (of_nat n :: u32) = n" if "n < length ls" for n using that assms by (simp add: unat_of_nat)
  then show ?thesis by (force simp: in_set_enumerate_eq image_iff Bex_def)
qed

lemma role_label_leg_set:
  assumes "length (g_labels g) \<le> 2 ^ 32"
  shows "i \<in> set (role_label_leg g def) \<longleftrightarrow>
    (\<exists>label \<in> set (role_labels def). unat i < length (g_labels g) \<and> get_sym (g_syms g) label = Some (g_labels g ! unat i)) \<and>
    (\<forall>p. visible_where def = Some p \<longrightarrow> holds p (g_props g i (field p)))"
proof -
  have "i \<in> set (case get_sym (g_syms g) label of None \<Rightarrow> []
       | Some y \<Rightarrow> filter (\<lambda>i. case visible_where def of Some p \<Rightarrow> holds p (g_props g i (field p)) | None \<Rightarrow> True)
             (map (\<lambda>(i, _). of_nat i) (filter (\<lambda>(_, s). s = y) (List.enumerate 0 (g_labels g))))) \<longleftrightarrow>
      unat i < length (g_labels g) \<and> get_sym (g_syms g) label = Some (g_labels g ! unat i) \<and>
      (\<forall>p. visible_where def = Some p \<longrightarrow> holds p (g_props g i (field p)))" for label
    using labelled_ids [OF assms, of i] by (cases "get_sym (g_syms g) label"; cases "visible_where def") auto
  then show ?thesis unfolding role_label_leg_def by auto
qed

lemma role_key_leg_set: "i \<in> set (role_key_leg hash g def) \<longleftrightarrow> (\<exists>k \<in> set (role_keys def). id_map_get hash (g_ids g) k = Some i)"
  by (simp add: role_key_leg_def set_map_filter)

text \<open>What a role definition means: its keys, and the nodes of its labels that pass its predicate, all
  within its namespaces.\<close>

definition role_sees :: "(string \<Rightarrow> u64) \<Rightarrow> graph \<Rightarrow> role_def \<Rightarrow> u32 \<Rightarrow> bool" where
  "role_sees hash g def i \<longleftrightarrow>
     ((\<exists>k \<in> set (role_keys def). id_map_get hash (g_ids g) k = Some i) \<or>
      (\<exists>label \<in> set (role_labels def). unat i < length (g_labels g) \<and> get_sym (g_syms g) label = Some (g_labels g ! unat i)) \<and>
      (\<forall>p. visible_where def = Some p \<longrightarrow> holds p (g_props g i (field p)))) \<and>
     (\<forall>ns. namespaces def = Some ns \<longrightarrow> ns_name g (node_ns_idx g i) \<in> set ns)"

lemma sees_namespace_iff: "sees_namespace def n \<longleftrightarrow> (\<forall>ns. namespaces def = Some ns \<longrightarrow> n \<in> set ns)"
  by (auto simp: sees_namespace_def list_ex_iff split: option.split)

lemma build_mask_sees:
  assumes "length (g_labels g) \<le> 2 ^ 32" "build_mask_for_role hash g (Some defs) role = Inr m"
  shows "\<exists>def. find (\<lambda>r. role_name r = role) defs = Some def \<and> (\<forall>i. contains_id m i \<longleftrightarrow> role_sees hash g def i)"
proof -
  obtain def where d: "find (\<lambda>r. role_name r = role) defs = Some def"
      "m = mask_from_ids (remdups (if namespaces def \<noteq> None
         then filter (\<lambda>i. sees_namespace def (ns_name g (node_ns_idx g i))) (role_key_leg hash g def @ role_label_leg g def)
         else role_key_leg hash g def @ role_label_leg g def))"
    using assms(2) by (auto simp: build_mask_for_role_def Let_def split: option.splits)
  then have "contains_id m i \<longleftrightarrow> role_sees hash g def i" for i
    unfolding d(2) nm.of_ids_law role_sees_def
    by (cases "namespaces def") (auto simp: role_key_leg_set role_label_leg_set [OF assms(1)] sees_namespace_iff)
  then show ?thesis using d(1) by blast
qed

lemma build_mask_ok: "build_mask_for_role hash g roles role = Inr m \<Longrightarrow> mask_ok m \<and> mask_mode m = Omit"
  by (auto simp: build_mask_for_role_def Let_def nm.of_ids_law split: option.splits)

section \<open>The namespace table\<close>

text \<open>The ids a resolver can meet, and that the table files each of them under the namespace its
  property names.\<close>

definition resolvable :: "(string \<Rightarrow> u64) \<Rightarrow> graph \<Rightarrow> u32 \<Rightarrow> bool" where
  "resolvable hash g i \<longleftrightarrow> (\<exists>k. id_map_get hash (g_ids g) k = Some i) \<or> unat i < length (g_labels g)"

definition ns_mirrors :: "(string \<Rightarrow> u64) \<Rightarrow> graph \<Rightarrow> bool" where
  "ns_mirrors hash g \<longleftrightarrow>
     (\<forall>i. resolvable hash g i \<longrightarrow> ns_name g (node_ns_idx g i) = namespace_of_value (g_props g i NS_PROP))"

lemma reader_twin:
  assumes "length (g_labels g) \<le> 2 ^ 32" "ns_mirrors hash g" "roles \<noteq> None"
  shows "mask_for_role_from hash g roles role = build_mask_for_role hash g roles role"
proof -
  have "filter (\<lambda>i. sees_namespace def (namespace_of_value (g_props g i NS_PROP))) (role_key_leg hash g def @ role_label_leg g def) =
      filter (\<lambda>i. sees_namespace def (ns_name g (node_ns_idx g i))) (role_key_leg hash g def @ role_label_leg g def)" for def
    using assms(2) by (intro filter_cong)
      (auto simp: ns_mirrors_def resolvable_def role_key_leg_set role_label_leg_set [OF assms(1)])
  then show ?thesis using assms(3) by (auto simp: mask_for_role_from_def build_mask_for_role_def Let_def split: option.split)
qed


definition ns_table_ok :: "graph \<Rightarrow> bool" where
  "ns_table_ok g \<longleftrightarrow> ns_names g \<noteq> [] \<and> hd (ns_names g) = NS_DEFAULT \<and> (\<forall>x \<in> set (node_ns g). unat x < length (ns_names g))"

lemma position_Some: "position P xs = Some n \<Longrightarrow> n < length xs \<and> P (xs ! n)"
  by (induction xs arbitrary: n) (auto split: if_splits)

lemma ns_index_for_ok:
  assumes "ns_table_ok g" "length (ns_names g) < 2 ^ 32" "ns_index_for g name = (g', idx)"
  shows "ns_table_ok g' \<and> unat idx < length (ns_names g') \<and> ns_name g' idx = name \<and>
    (\<forall>j. unat j < length (ns_names g) \<longrightarrow> ns_name g' j = ns_name g j) \<and> node_ns g' = node_ns g \<and>
    length (ns_names g) \<le> length (ns_names g') \<and> length (ns_names g') \<le> Suc (length (ns_names g)) \<and> g_props g' = g_props g"
proof (cases "position (\<lambda>n. n = name) (ns_names g)")
  case None
  have "unat (of_nat (length (ns_names g)) :: u32) = length (ns_names g)" using assms(2) by (simp add: unat_of_nat)
  then show ?thesis using assms None
    by (auto simp: ns_index_for_def ns_index_of_def Let_def ns_table_ok_def ns_name_def nth_append less_Suc_eq)
next
  case (Some n)
  have "unat (of_nat n :: u32) = n" using position_Some [OF Some] assms(2) by (simp add: unat_of_nat)
  then show ?thesis using assms Some position_Some [OF Some] by (auto simp: ns_index_for_def ns_index_of_def ns_name_def)
qed

definition ns_of :: "graph \<Rightarrow> u32 \<Rightarrow> string" where "ns_of g i = ns_name g (node_ns_idx g i)"

lemma file_named_ok:
  assumes "ns_table_ok g" "length (ns_names g) + length named \<le> 2 ^ 32" "distinct (map fst named)"
    "\<And>i name. (i, name) \<in> set named \<Longrightarrow> unat i < length (node_ns g)"
  shows "ns_of (file_named named g) i = (case map_of named i of Some name \<Rightarrow> name | None \<Rightarrow> ns_of g i) \<and>
    g_props (file_named named g) = g_props g"
  using assms
proof (induction named arbitrary: g)
  case (Cons e named)
  obtain k name where e: "e = (k, name)" by fastforce
  obtain g1 idx where g1: "ns_index_for g name = (g1, idx)" by fastforce
  have o: "ns_table_ok g1" "unat idx < length (ns_names g1)" "ns_name g1 idx = name" "node_ns g1 = node_ns g"
      "\<And>j. unat j < length (ns_names g) \<Longrightarrow> ns_name g1 j = ns_name g j" "length (ns_names g1) \<le> Suc (length (ns_names g))"
      "g_props g1 = g_props g"
    using ns_index_for_ok [OF Cons.prems(1) _ g1] Cons.prems(2) by auto
  define g2 where "g2 = g1\<lparr>node_ns := (node_ns g1)[unat k := idx]\<rparr>"
  have k: "unat k < length (node_ns g)" using Cons.prems(4) [of k name] e by simp
  have "ns_table_ok g2" using o(1,2) by (auto simp: g2_def ns_table_ok_def dest!: set_update_subset_insert [THEN subsetD])
  moreover have "length (ns_names g2) + length named \<le> 2 ^ 32" using o(6) Cons.prems(2) by (simp add: g2_def)
  moreover have "unat i < length (node_ns g2)" if "(i, n) \<in> set named" for i n
    using that Cons.prems(4) [of i n] o(4) by (simp add: g2_def)
  ultimately have IH: "ns_of (file_named named g2) i = (case map_of named i of Some name \<Rightarrow> name | None \<Rightarrow> ns_of g2 i)"
      "g_props (file_named named g2) = g_props g2"
    using Cons.IH [of g2] Cons.prems(3) by auto
  have "ns_of g2 i = (if i = k then name else ns_of g i)"
  proof (cases "i = k")
    case True
    then show ?thesis using k o(2,3,4) by (simp add: ns_of_def node_ns_idx_def g2_def ns_name_def)
  next
    case False
    then have "unat i \<noteq> unat k" by (metis unsigned_word_eqI)
    then have "node_ns_idx g2 i = node_ns_idx g i" using o(4) by (simp add: node_ns_idx_def g2_def)
    moreover have "unat (node_ns_idx g i) < length (ns_names g)"
      using Cons.prems(1) by (auto simp: node_ns_idx_def ns_table_ok_def NS_DEFAULT_IDX_def)
    moreover have "ns_name g2 j = ns_name g1 j" for j by (simp add: g2_def ns_name_def)
    ultimately show ?thesis using False o(5) by (simp add: ns_of_def)
  qed
  moreover have "map_of named k = None" using Cons.prems(3) e by (simp add: map_of_None_keys)
  moreover have "file_named (e # named) g = file_named named g2" using g1 by (simp add: e g2_def)
  ultimately show ?case using IH o(7) by (auto simp: e g2_def split: option.split)
qed simp

lemma rebuild_files_every_node:
  assumes "ns_names g \<noteq> []" "hd (ns_names g) = NS_DEFAULT" "id_map_len (g_ids g) < 2 ^ 32" "unat i < id_map_len (g_ids g)"
    "\<And>j. g_props g j NS_PROP \<noteq> None \<Longrightarrow> NS_PROP \<in> set field_names"
  shows "ns_of (rebuild_node_ns field_names g) i = namespace_of_value (g_props g i NS_PROP)"
proof -
  let ?n = "id_map_len (g_ids g)"
  define g0 where "g0 = g\<lparr>ns_names := take 1 (ns_names g), node_ns := replicate ?n NS_DEFAULT_IDX\<rparr>"
  have names: "ns_names g0 = [NS_DEFAULT]" using assms(1,2) by (cases "ns_names g") (simp_all add: g0_def)
  have r: "rebuild_node_ns field_names g = (if NS_PROP \<in> set field_names then file_named (named_nodes g0 ?n) g0 else g0)"
    by (simp add: rebuild_node_ns_def Let_def list_ex_iff g0_def)
  have table: "node_ns g0 = replicate ?n NS_DEFAULT_IDX" by (simp add: g0_def)
  have d: "ns_of g0 j = NS_DEFAULT" for j
    by (auto simp: ns_of_def ns_name_def node_ns_idx_def names table NS_DEFAULT_IDX_def)
  show ?thesis
  proof (cases "NS_PROP \<in> set field_names")
    case False
    then have "g_props g i NS_PROP = None" using assms(5) by blast
    then show ?thesis using False d by (simp add: r namespace_of_value_def)
  next
    case True
    let ?f = "\<lambda>i. case g_props g0 (of_nat i) NS_PROP of Some (VStr s) \<Rightarrow> if s \<noteq> NS_DEFAULT then Some (of_nat i :: u32, s) else None | _ \<Rightarrow> None"
    have u: "unat (of_nat j :: u32) = j" if "j < ?n" for j using that assms(3) by (simp add: unat_of_nat)
    have props: "g_props g0 = g_props g" by (simp add: g0_def)
    have f: "?f k = Some (j, s) \<longleftrightarrow> j = of_nat k \<and> g_props g j NS_PROP = Some (VStr s) \<and> s \<noteq> NS_DEFAULT" for k j s
    proof (cases "g_props g (of_nat k) NS_PROP")
      case (Some v)
      then show ?thesis by (cases v) (auto simp: props)
    qed (auto simp: props)
    have m: "(j, s) \<in> set (named_nodes g0 ?n) \<longleftrightarrow> unat j < ?n \<and> g_props g j NS_PROP = Some (VStr s) \<and> s \<noteq> NS_DEFAULT" for j s
    proof -
      have "(j, s) \<in> set (named_nodes g0 ?n) \<longleftrightarrow> (\<exists>k < ?n. ?f k = Some (j, s))"
        by (simp add: named_nodes_def set_map_filter Bex_def)
      also have "\<dots> \<longleftrightarrow> (\<exists>k < ?n. j = of_nat k \<and> g_props g j NS_PROP = Some (VStr s) \<and> s \<noteq> NS_DEFAULT)"
        by (simp only: f)
      also have "\<dots> \<longleftrightarrow> unat j < ?n \<and> g_props g j NS_PROP = Some (VStr s) \<and> s \<noteq> NS_DEFAULT"
        using u by (auto intro: exI [of _ "unat j"])
      finally show ?thesis .
    qed
    have named: "named_nodes g0 ?n = map (the \<circ> ?f) (filter (\<lambda>i. ?f i \<noteq> None) [0..<?n])"
      unfolding named_nodes_def map_filter_def ..
    have len: "length (named_nodes g0 ?n) \<le> ?n"
      unfolding named using length_filter_le [of "\<lambda>i. ?f i \<noteq> None" "[0..<?n]"] by simp
    have "map fst (named_nodes g0 ?n) = map of_nat (filter (\<lambda>i. ?f i \<noteq> None) [0..<?n])"
      unfolding named by (auto split: option.splits val.splits if_splits)
    moreover have "inj_on (of_nat :: nat \<Rightarrow> u32) (set (filter (\<lambda>i. ?f i \<noteq> None) [0..<?n]))"
      by (rule inj_on_inverseI [where g = unat]) (use u in auto)
    ultimately have dist: "distinct (map fst (named_nodes g0 ?n))" by (simp add: distinct_map)
    have "ns_table_ok g0" by (simp add: ns_table_ok_def names table NS_DEFAULT_IDX_def)
    then have "ns_of (file_named (named_nodes g0 ?n) g0) i = (case map_of (named_nodes g0 ?n) i of Some name \<Rightarrow> name | None \<Rightarrow> ns_of g0 i)"
      using file_named_ok [of g0 "named_nodes g0 ?n" i] len dist assms(3) m by (simp add: names table)
    moreover have "map_of (named_nodes g0 ?n) i =
        (case g_props g i NS_PROP of Some (VStr s) \<Rightarrow> if s \<noteq> NS_DEFAULT then Some s else None | _ \<Rightarrow> None)"
    proof (cases "\<exists>s. g_props g i NS_PROP = Some (VStr s) \<and> s \<noteq> NS_DEFAULT")
      case True
      then obtain s where s: "g_props g i NS_PROP = Some (VStr s)" "s \<noteq> NS_DEFAULT" by blast
      then have "(i, s) \<in> set (named_nodes g0 ?n)" using m assms(4) by blast
      then show ?thesis using s map_of_is_SomeI [OF dist] by simp
    next
      case False
      then have "map_of (named_nodes g0 ?n) i = None" using m by (auto simp: map_of_None_keys)
      then show ?thesis using False by (auto split: option.split val.split)
    qed
    ultimately show ?thesis using True d
      by (auto simp: r namespace_of_value_def split: option.split val.split)
  qed
qed


text \<open>With distinct names the table finds a namespace's live nodes, and the default is always in it.\<close>

lemma position_distinct: "distinct xs \<Longrightarrow> n < length xs \<Longrightarrow> position (\<lambda>x. x = xs ! n) xs = Some n"
  by (induction xs arbitrary: n) (auto simp: nth_Cons split: nat.split)

lemma position_None: "position P xs = None \<longleftrightarrow> (\<forall>x \<in> set xs. \<not> P x)"
  by (induction xs) auto

lemma mask_for_namespace_sees:
  assumes "ns_table_ok g" "distinct (ns_names g)" "length (ns_names g) \<le> 2 ^ 32" "id_map_len (g_ids g) \<le> 2 ^ 32"
  shows "contains_id (mask_for_namespace g ns) i \<longleftrightarrow> unat i < id_map_len (g_ids g) \<and> is_live_node g i \<and> ns_of g i = ns"
proof -
  have mem: "i \<in> set (map of_nat [0..<id_map_len (g_ids g)]) \<longleftrightarrow> unat i < id_map_len (g_ids g)"
  proof -
    have "unat (of_nat n :: u32) = n" if "n < id_map_len (g_ids g)" for n using that assms(4) by (simp add: unat_of_nat)
    then show ?thesis by (auto intro: image_eqI [of _ _ "unat i"])
  qed
  have idx: "unat (node_ns_idx g i) < length (ns_names g)"
    using assms(1) by (auto simp: node_ns_idx_def ns_table_ok_def NS_DEFAULT_IDX_def)
  then have name: "ns_of g i = ns_names g ! unat (node_ns_idx g i)" by (simp add: ns_of_def ns_name_def)
  show ?thesis
  proof (cases "position (\<lambda>n. n = ns) (ns_names g)")
    case None
    then have "ns_of g i \<noteq> ns" using idx unfolding name position_None by auto
    then show ?thesis using None by (simp add: mask_for_namespace_def ns_index_of_def nm.of_ids_law)
  next
    case (Some n)
    note at = position_Some [OF Some]
    then have "node_ns_idx g i = of_nat n \<longleftrightarrow> unat (node_ns_idx g i) = n"
      using assms(3) by (auto simp: unat_of_nat)
    moreover have "ns_of g i = ns \<longleftrightarrow> unat (node_ns_idx g i) = n"
      using at idx assms(2) unfolding name by (metis nth_eq_iff_index_eq)
    ultimately show ?thesis using Some mem by (auto simp: mask_for_namespace_def ns_index_of_def nm.of_ids_law)
  qed
qed

lemma mask_for_namespace_ok: "mask_ok (mask_for_namespace g ns)"
  by (simp add: mask_for_namespace_def nm.of_ids_law split: option.split)

section \<open>Properties\<close>


text \<open>One node, labelled \<open>A\<close>, in the default namespace, and a role that reads that label.\<close>

definition one_graph :: graph where
  "one_graph = \<lparr>g_ids = id_map_new, g_syms = fst (intern interner_new ''A''), g_labels = [0], g_props = \<lambda>_ _. None,
     ns_names = [NS_DEFAULT], node_ns = [0]\<rparr>"

definition role_a :: role_def where
  "role_a = \<lparr>role_name = ''r'', role_keys = [], role_labels = [''A''], visible_where = None, namespaces = None, writes = False\<rparr>"

lemma one_graph_mirrors: "ns_mirrors hash one_graph"
  by (simp add: ns_mirrors_def one_graph_def ns_name_def node_ns_idx_def NS_DEFAULT_IDX_def namespace_of_value_def nth_Cons split: nat.split)

lemma one_graph_table: "ns_table_ok one_graph" "distinct (ns_names one_graph)"
  by (simp_all add: ns_table_ok_def one_graph_def)

lemma role_a_reads_one: "role_sees (\<lambda>_. 0) one_graph role_a 0" "\<not> role_sees (\<lambda>_. 0) one_graph role_a 1"
  by (simp_all add: role_sees_def one_graph_def role_a_def intern_def interner_new_def get_sym_def)


end
