(* ===== verification/Scope.thy ===== *)
theory Scope
  imports Roles
begin

text \<open>
  Read scopes and the two memos behind them, \<open>crates/core-api/src/mask.rs\<close>: the role masks a store
  remembers per commit (\<open>RoleMaskCache\<close>, shared with the snapshots taken of it) and the key masks
  a \<open>Scope\<close> remembers under a stamp. The stores, the snapshots, the scopes and the caches of a
  process are in one state, since they refer to one another: a store and its snapshots name their
  cache by its address.

  A commit sequence and a store id are natural numbers: neither counter reaches \<open>2 ^ 64\<close>.
\<close>

section \<open>Caches and handles\<close>

type_synonym role_cache = "(string \<times> nat \<times> node_mask) list"

text \<open>\<open>RoleMaskCache::get_or_build\<close>; a failed build leaves no entry.\<close>

definition get_or_build :: "role_cache \<Rightarrow> string \<Rightarrow> nat \<Rightarrow> node_mask res \<Rightarrow> role_cache \<times> node_mask res" where
  "get_or_build memo role version build =
     (let miss = (case build of
            Inl e \<Rightarrow> (memo, Inl e)
          | Inr m \<Rightarrow> (AList.update role (version, m) memo, Inr m))
      in case map_of memo role of
           Some (v, m) \<Rightarrow> if v = version then (memo, Inr m) else miss
         | None \<Rightarrow> miss)"

record handle =
  graph_of :: graph
  roles_of :: "role_def list option"
  commit_seq :: nat
  store_id :: nat
  cache_at :: nat

definition mask_for_role :: "(string \<Rightarrow> u64) \<Rightarrow> handle \<Rightarrow> role_cache \<Rightarrow> string \<Rightarrow> role_cache \<times> node_mask res" where
  "mask_for_role hash db cache role =
     get_or_build cache role (commit_seq db) (build_mask_for_role hash (graph_of db) (roles_of db) role)"

record snapshot =
  snap_graph :: graph
  snap_roles :: "role_def list option"
  snap_version :: nat
  snap_cache_at :: nat

definition snap_mask_for_role :: "(string \<Rightarrow> u64) \<Rightarrow> snapshot \<Rightarrow> role_cache \<Rightarrow> string \<Rightarrow> role_cache \<times> node_mask res" where
  "snap_mask_for_role hash s cache role =
     get_or_build cache role (snap_version s) (mask_for_role_from hash (snap_graph s) (snap_roles s) role)"

section \<open>Scopes\<close>

type_synonym store_stamp = "nat \<times> nat"

definition stamp_of :: "handle \<Rightarrow> store_stamp" where
  "stamp_of db = (store_id db, commit_seq db)"

record scope =
  sc_roles :: "string list"
  sc_namespaces :: "string list"
  sc_keys :: "string list option"
  keys_cache :: "(store_stamp \<times> node_mask) option"

definition option_list :: "'a option \<Rightarrow> 'a list" where
  "option_list x = (case x of None \<Rightarrow> [] | Some y \<Rightarrow> [y])"

text \<open>\<open>None\<close> is the refusal of a scope without a leg.\<close>

definition scope_new :: "string option \<Rightarrow> string option \<Rightarrow> string list option \<Rightarrow> scope option" where
  "scope_new role namespace names =
     (if role = None \<and> namespace = None \<and> names = None then None
      else Some \<lparr>sc_roles = option_list role, sc_namespaces = option_list namespace, sc_keys = names, keys_cache = None\<rparr>)"

definition scope_intersect :: "scope \<Rightarrow> scope \<Rightarrow> scope" where
  "scope_intersect a b =
     \<lparr>sc_roles = sc_roles a @ sc_roles b, sc_namespaces = sc_namespaces a @ sc_namespaces b,
      sc_keys = (case (sc_keys a, sc_keys b) of
          (Some x, Some y) \<Rightarrow> Some (filter (\<lambda>k. k \<in> set y) x)
        | (Some x, None) \<Rightarrow> Some x
        | (None, y) \<Rightarrow> y),
      keys_cache = None\<rparr>"

definition resolve_keys :: "(string \<Rightarrow> u64) \<Rightarrow> scope \<Rightarrow> handle \<Rightarrow> bool \<Rightarrow> scope \<times> node_mask" where
  "resolve_keys hash sc db cached =
     (let names = (case sc_keys sc of Some ks \<Rightarrow> ks | None \<Rightarrow> []);
          miss = (let m = mask_from_keys hash (graph_of db) names
                  in ((if cached then sc\<lparr>keys_cache := Some (stamp_of db, m)\<rparr> else sc), m))
      in case (if cached then keys_cache sc else None) of
           Some (at, m) \<Rightarrow> if at = stamp_of db then (sc, m) else miss
         | None \<Rightarrow> miss)"

definition narrow :: "node_mask option \<Rightarrow> node_mask \<Rightarrow> node_mask option" where
  "narrow out m = Some (case out of Some acc \<Rightarrow> mask_intersect acc m | None \<Rightarrow> m)"

fun resolve_roles :: "(string \<Rightarrow> u64) \<Rightarrow> handle \<Rightarrow> string list \<Rightarrow> role_cache \<Rightarrow> node_mask option \<Rightarrow> role_cache \<times> node_mask option res" where
  "resolve_roles hash db [] cache out = (cache, Inr out)"
| "resolve_roles hash db (role # roles) cache out =
     (case mask_for_role hash db cache role of
        (cache, Inl e) \<Rightarrow> (cache, Inl e)
      | (cache, Inr m) \<Rightarrow> resolve_roles hash db roles cache (narrow out m))"

text \<open>\<open>Scope::resolve_with\<close>; the mask is \<open>None\<close> where the \<open>expect\<close> would panic.\<close>

definition resolve_with :: "(string \<Rightarrow> u64) \<Rightarrow> scope \<Rightarrow> handle \<Rightarrow> role_cache \<Rightarrow> bool \<Rightarrow> scope \<times> role_cache \<times> node_mask option res" where
  "resolve_with hash sc db cache cached =
     (case resolve_roles hash db (sc_roles sc) cache None of
        (cache, Inl e) \<Rightarrow> (sc, cache, Inl e)
      | (cache, Inr out) \<Rightarrow>
          let out = fold (\<lambda>ns out. narrow out (mask_for_namespace (graph_of db) ns)) (sc_namespaces sc) out;
              (sc, out) = (if sc_keys sc \<noteq> None
                           then case resolve_keys hash sc db cached of (sc, m) \<Rightarrow> (sc, narrow out m)
                           else (sc, out))
          in (sc, cache, Inr (map_option (\<lambda>m. mask_with_mode m Omit) out)))"

section \<open>A process\<close>

record process =
  handles :: "handle list"
  snapshots :: "snapshot list"
  scopes :: "scope list"
  caches :: "role_cache list"
  next_store :: nat

definition process_new :: process where
  "process_new = \<lparr>handles = [], snapshots = [], scopes = [], caches = [], next_store = 1\<rparr>"

text \<open>
  What can happen: a store is opened, written (a commit raises its sequence), given new roles,
  reloaded from disk (under a new id, at any sequence) or frozen into a snapshot; a scope is made
  or narrowed; a role or a scope is resolved. The graphs are arbitrary, within what every store
  keeps: a consistent id map, ids of 32 bits, and a namespace table without repeats that mirrors
  the properties.
\<close>

definition graph_fits :: "(string \<Rightarrow> u64) \<Rightarrow> graph \<Rightarrow> bool" where
  "graph_fits hash g \<longleftrightarrow>
     id_map_ok hash (g_ids g) \<and> length (g_labels g) \<le> 2 ^ 32 \<and> id_map_len (g_ids g) \<le> 2 ^ 32 \<and>
     ns_table_ok g \<and> distinct (ns_names g) \<and> length (ns_names g) \<le> 2 ^ 32 \<and> ns_mirrors hash g"

inductive scope_step :: "(string \<Rightarrow> u64) \<Rightarrow> process \<Rightarrow> process \<Rightarrow> bool" for hash where
  opened: "graph_fits hash g \<Longrightarrow>
    scope_step hash p (p\<lparr>handles := handles p @ [\<lparr>graph_of = g, roles_of = rs, commit_seq = n, store_id = next_store p, cache_at = length (caches p)\<rparr>],
      caches := caches p @ [[]], next_store := Suc (next_store p)\<rparr>)"
| written: "i < length (handles p) \<Longrightarrow> graph_fits hash g \<Longrightarrow> commit_seq (handles p ! i) < n \<Longrightarrow>
    scope_step hash p (p\<lparr>handles := (handles p)[i := (handles p ! i)\<lparr>graph_of := g, commit_seq := n\<rparr>]\<rparr>)"
| roles_committed: "i < length (handles p) \<Longrightarrow>
    scope_step hash p (p\<lparr>handles := (handles p)[i := (handles p ! i)\<lparr>roles_of := Some rs, cache_at := length (caches p)\<rparr>], caches := caches p @ [[]]\<rparr>)"
| reloaded: "i < length (handles p) \<Longrightarrow> graph_fits hash g \<Longrightarrow>
    scope_step hash p (p\<lparr>handles := (handles p)[i := \<lparr>graph_of = g, roles_of = rs, commit_seq = n, store_id = next_store p, cache_at = length (caches p)\<rparr>],
      caches := caches p @ [[]], next_store := Suc (next_store p)\<rparr>)"
| frozen: "i < length (handles p) \<Longrightarrow> db = handles p ! i \<Longrightarrow>
    scope_step hash p (p\<lparr>snapshots := snapshots p @ [\<lparr>snap_graph = graph_of db, snap_roles = roles_of db, snap_version = commit_seq db, snap_cache_at = cache_at db\<rparr>]\<rparr>)"
| scope_made: "scope_new role namespace names = Some sc \<Longrightarrow> scope_step hash p (p\<lparr>scopes := scopes p @ [sc]\<rparr>)"
| scope_narrowed: "i < length (scopes p) \<Longrightarrow> j < length (scopes p) \<Longrightarrow>
    scope_step hash p (p\<lparr>scopes := scopes p @ [scope_intersect (scopes p ! i) (scopes p ! j)]\<rparr>)"
| role_read: "i < length (handles p) \<Longrightarrow> db = handles p ! i \<Longrightarrow>
    mask_for_role hash db (caches p ! cache_at db) role = (cache, r) \<Longrightarrow>
    scope_step hash p (p\<lparr>caches := (caches p)[cache_at db := cache]\<rparr>)"
| snap_read: "i < length (snapshots p) \<Longrightarrow> s = snapshots p ! i \<Longrightarrow>
    snap_mask_for_role hash s (caches p ! snap_cache_at s) role = (cache, r) \<Longrightarrow>
    scope_step hash p (p\<lparr>caches := (caches p)[snap_cache_at s := cache]\<rparr>)"
| scope_read: "i < length (handles p) \<Longrightarrow> j < length (scopes p) \<Longrightarrow> db = handles p ! i \<Longrightarrow>
    resolve_with hash (scopes p ! j) db (caches p ! cache_at db) cached = (sc, cache, r) \<Longrightarrow>
    scope_step hash p (p\<lparr>scopes := (scopes p)[j := sc], caches := (caches p)[cache_at db := cache]\<rparr>)"

inductive scope_reachable :: "(string \<Rightarrow> u64) \<Rightarrow> process \<Rightarrow> bool" for hash where
  start: "scope_reachable hash process_new"
| step: "scope_reachable hash p \<Longrightarrow> scope_step hash p p' \<Longrightarrow> scope_reachable hash p'"


section \<open>Resolving without the memos\<close>

fun fresh_roles :: "(string \<Rightarrow> u64) \<Rightarrow> handle \<Rightarrow> string list \<Rightarrow> node_mask option \<Rightarrow> node_mask option res" where
  "fresh_roles hash db [] out = Inr out"
| "fresh_roles hash db (role # roles) out =
     bind_res (build_mask_for_role hash (graph_of db) (roles_of db) role) (\<lambda>m. fresh_roles hash db roles (narrow out m))"

definition resolve_fresh :: "(string \<Rightarrow> u64) \<Rightarrow> scope \<Rightarrow> handle \<Rightarrow> node_mask option res" where
  "resolve_fresh hash sc db =
     bind_res (fresh_roles hash db (sc_roles sc) None) (\<lambda>out.
       let out = fold (\<lambda>ns out. narrow out (mask_for_namespace (graph_of db) ns)) (sc_namespaces sc) out;
           out = (case sc_keys sc of None \<Rightarrow> out | Some names \<Rightarrow> narrow out (mask_from_keys hash (graph_of db) names))
       in Inr (map_option (\<lambda>m. mask_with_mode m Omit) out))"

section \<open>The invariant\<close>

text \<open>Who reads a cache, at which version, and what they would build.\<close>

definition holders :: "process \<Rightarrow> (nat \<times> nat \<times> graph \<times> role_def list option) set" where
  "holders p =
     (\<lambda>db. (cache_at db, commit_seq db, graph_of db, roles_of db)) ` set (handles p) \<union>
     (\<lambda>s. (snap_cache_at s, snap_version s, snap_graph s, snap_roles s)) ` set (snapshots p)"

definition holders_ok :: "(string \<Rightarrow> u64) \<Rightarrow> process \<Rightarrow> bool" where
  "holders_ok hash p \<longleftrightarrow>
     (\<forall>(c, v, g, rs) \<in> holders p. c < length (caches p) \<and> graph_fits hash g) \<and>
     (\<forall>(c, v, g, rs) \<in> holders p. \<forall>(c', v', g', rs') \<in> holders p. c = c' \<and> v = v' \<longrightarrow> g = g' \<and> rs = rs') \<and>
     (\<forall>db \<in> set (handles p). \<forall>s \<in> set (snapshots p). snap_cache_at s = cache_at db \<longrightarrow> snap_version s \<le> commit_seq db)"

definition handles_ok :: "process \<Rightarrow> bool" where
  "handles_ok p \<longleftrightarrow> distinct (map cache_at (handles p)) \<and> distinct (map store_id (handles p)) \<and>
     (\<forall>db \<in> set (handles p). store_id db < next_store p)"

definition cache_good :: "(string \<Rightarrow> u64) \<Rightarrow> process \<Rightarrow> nat \<Rightarrow> role_cache \<Rightarrow> bool" where
  "cache_good hash p c memo \<longleftrightarrow>
     (\<forall>role v m. map_of memo role = Some (v, m) \<longrightarrow>
        (\<forall>(c', v', g, rs) \<in> holders p. c' = c \<and> v' = v \<longrightarrow> build_mask_for_role hash g rs role = Inr m) \<and>
        (\<forall>db \<in> set (handles p). cache_at db = c \<longrightarrow> v \<le> commit_seq db))"

definition scope_good :: "(string \<Rightarrow> u64) \<Rightarrow> process \<Rightarrow> scope \<Rightarrow> bool" where
  "scope_good hash p sc \<longleftrightarrow>
     (sc_roles sc \<noteq> [] \<or> sc_namespaces sc \<noteq> [] \<or> sc_keys sc \<noteq> None) \<and>
     (\<forall>sid n m. keys_cache sc = Some ((sid, n), m) \<longrightarrow> sid < next_store p \<and>
        (\<forall>db \<in> set (handles p). store_id db = sid \<longrightarrow> n \<le> commit_seq db \<and>
           (n = commit_seq db \<longrightarrow> m = mask_from_keys hash (graph_of db) (case sc_keys sc of Some ks \<Rightarrow> ks | None \<Rightarrow> []))))"

definition scope_inv :: "(string \<Rightarrow> u64) \<Rightarrow> process \<Rightarrow> bool" where
  "scope_inv hash p \<longleftrightarrow> holders_ok hash p \<and> handles_ok p \<and>
     (\<forall>c < length (caches p). cache_good hash p c (caches p ! c)) \<and> (\<forall>sc \<in> set (scopes p). scope_good hash p sc)"

lemma handle_holds: "db \<in> set (handles p) \<Longrightarrow> (cache_at db, commit_seq db, graph_of db, roles_of db) \<in> holders p"
  by (auto simp: holders_def)

lemma snapshot_holds: "s \<in> set (snapshots p) \<Longrightarrow> (snap_cache_at s, snap_version s, snap_graph s, snap_roles s) \<in> holders p"
  by (auto simp: holders_def)

lemma holders_fit: "holders_ok hash p \<Longrightarrow> (c, v, g, rs) \<in> holders p \<Longrightarrow> c < length (caches p) \<and> graph_fits hash g"
  unfolding holders_ok_def by fast

lemma holders_unique:
  assumes "holders_ok hash p" "(c, v, g, rs) \<in> holders p" "(c, v, g', rs') \<in> holders p"
  shows "g = g' \<and> rs = rs'"
  using assms unfolding holders_ok_def by fast

subsection \<open>Reading through a cache\<close>

lemma cache_good_put:
  assumes "holders_ok hash p" "cache_good hash p c memo" "(c, v, g, rs) \<in> holders p" "build_mask_for_role hash g rs role = Inr m"
    "\<And>db. db \<in> set (handles p) \<Longrightarrow> cache_at db = c \<Longrightarrow> v \<le> commit_seq db"
  shows "cache_good hash p c (AList.update role (v, m) memo)"
proof -
  have "build_mask_for_role hash g' rs' role = Inr m" if "(c, v, g', rs') \<in> holders p" for g' rs'
    using assms(1,3,4) that unfolding holders_ok_def by fastforce
  then show ?thesis using assms(2,5) unfolding cache_good_def by (auto simp: update_conv')
qed

lemma get_or_build_good:
  assumes "holders_ok hash p" "cache_good hash p c memo" "(c, v, g, rs) \<in> holders p"
    "\<And>m. build = Inr m \<longleftrightarrow> build_mask_for_role hash g rs role = Inr m"
    "\<And>db. db \<in> set (handles p) \<Longrightarrow> cache_at db = c \<Longrightarrow> v \<le> commit_seq db"
    "get_or_build memo role v build = (memo', r)"
  shows "cache_good hash p c memo'" "r = build"
proof -
  have put: "cache_good hash p c (AList.update role (v, m) memo)" if "build = Inr m" for m
    using assms(4) [of m] that by (intro cache_good_put [OF assms(1,2,3) _ assms(5)]) simp_all
  have hit: "build = Inr m" if "map_of memo role = Some (v, m)" for m
    using assms(2,3,4) that unfolding cache_good_def by fastforce
  show "cache_good hash p c memo'" "r = build"
    using assms(2,6) put hit by (auto simp: get_or_build_def Let_def split: option.splits if_splits sum.splits)
qed

lemma mask_for_role_good:
  assumes "holders_ok hash p" "handles_ok p" "db \<in> set (handles p)" "cache_good hash p (cache_at db) memo"
    "mask_for_role hash db memo role = (memo', r)"
  shows "cache_good hash p (cache_at db) memo'" "r = build_mask_for_role hash (graph_of db) (roles_of db) role"
proof -
  have "db' = db" if "db' \<in> set (handles p)" "cache_at db' = cache_at db" for db'
    using assms(2,3) that by (auto simp: handles_ok_def distinct_map dest: inj_onD)
  then have "\<And>db'. db' \<in> set (handles p) \<Longrightarrow> cache_at db' = cache_at db \<Longrightarrow> commit_seq db \<le> commit_seq db'" by blast
  note g = get_or_build_good [OF assms(1,4) handle_holds [OF assms(3)] _ this assms(5) [unfolded mask_for_role_def]]
  show "cache_good hash p (cache_at db) memo'" by (rule g(1)) (rule refl)
  show "r = build_mask_for_role hash (graph_of db) (roles_of db) role" by (rule g(2)) (rule refl)
qed

lemma resolve_roles_good:
  assumes "holders_ok hash p" "handles_ok p" "db \<in> set (handles p)" "cache_good hash p (cache_at db) memo"
    "resolve_roles hash db roles memo out = (memo', r)"
  shows "cache_good hash p (cache_at db) memo' \<and> r = fresh_roles hash db roles out"
  using assms(4,5)
proof (induction roles arbitrary: memo out)
  case (Cons role roles)
  obtain e1 r1 where m: "mask_for_role hash db memo role = (e1, r1)" by fastforce
  note g = mask_for_role_good [OF assms(1-3) Cons.prems(1) m]
  show ?case
  proof (cases r1)
    case (Inl e)
    then show ?thesis using Cons.prems(2) m g by auto
  next
    case (Inr mk)
    then show ?thesis using Cons.IH [OF g(1)] Cons.prems(2) m g(2) by auto
  qed
qed auto


lemma resolve_keys_good:
  assumes "handles_ok p" "db \<in> set (handles p)" "scope_good hash p sc" "resolve_keys hash sc db cached = (sc', m)"
  shows "scope_good hash p sc'" "m = mask_from_keys hash (graph_of db) (case sc_keys sc of Some ks \<Rightarrow> ks | None \<Rightarrow> [])"
proof -
  let ?m = "mask_from_keys hash (graph_of db) (case sc_keys sc of Some ks \<Rightarrow> ks | None \<Rightarrow> [])"
  have same: "db' = db" if "db' \<in> set (handles p)" "store_id db' = store_id db" for db'
    using assms(1,2) that by (auto simp: handles_ok_def distinct_map dest: inj_onD)
  have new: "scope_good hash p (sc\<lparr>keys_cache := Some (stamp_of db, ?m)\<rparr>)"
    using assms(1,2,3) same by (fastforce simp: scope_good_def stamp_of_def handles_ok_def)
  have hit: "k = ?m" if "keys_cache sc = Some (stamp_of db, k)" for k
    using assms(2,3) that by (auto simp: scope_good_def stamp_of_def)
  show "scope_good hash p sc'" "m = ?m"
    using assms(3,4) new hit by (auto simp: resolve_keys_def Let_def split: option.splits if_splits)
qed

lemma resolve_with_good:
  assumes "holders_ok hash p" "handles_ok p" "db \<in> set (handles p)" "cache_good hash p (cache_at db) memo" "scope_good hash p sc"
    "resolve_with hash sc db memo cached = (sc', memo', r)"
  shows "cache_good hash p (cache_at db) memo'" "scope_good hash p sc'" "r = resolve_fresh hash sc db"
proof -
  obtain e1 r1 where rr: "resolve_roles hash db (sc_roles sc) memo None = (e1, r1)" by fastforce
  note g = resolve_roles_good [OF assms(1-4) rr]
  obtain sc1 m where k: "resolve_keys hash sc db cached = (sc1, m)" by fastforce
  note kg = resolve_keys_good [OF assms(2,3,5) k]
  show "cache_good hash p (cache_at db) memo'" "scope_good hash p sc'" "r = resolve_fresh hash sc db"
    using assms(5,6) g kg rr k
    by (cases "fresh_roles hash db (sc_roles sc) None";
        auto simp: resolve_with_def resolve_fresh_def Let_def split: option.splits if_splits)+
qed

subsection \<open>Every step keeps it\<close>

lemma holders_same [simp]:
  "holders (p\<lparr>caches := cs\<rparr>) = holders p" "holders (p\<lparr>scopes := ss\<rparr>) = holders p" "holders (p\<lparr>scopes := ss, caches := cs\<rparr>) = holders p"
  by (simp_all add: holders_def)

lemma good_same [simp]:
  "cache_good hash (p\<lparr>caches := cs\<rparr>) = cache_good hash p" "cache_good hash (p\<lparr>scopes := ss\<rparr>) = cache_good hash p"
  "scope_good hash (p\<lparr>caches := cs\<rparr>) = scope_good hash p" "scope_good hash (p\<lparr>scopes := ss\<rparr>) = scope_good hash p"
  "handles_ok (p\<lparr>caches := cs\<rparr>) = handles_ok p" "handles_ok (p\<lparr>scopes := ss\<rparr>) = handles_ok p"
  "holders_ok hash (p\<lparr>scopes := ss\<rparr>) = holders_ok hash p"
  "length cs = length (caches p) \<Longrightarrow> holders_ok hash (p\<lparr>caches := cs\<rparr>) = holders_ok hash p"
  by (simp_all add: cache_good_def scope_good_def handles_ok_def holders_ok_def fun_eq_iff)

lemma inv_caches:
  assumes "scope_inv hash p" "cache_good hash p c memo"
  shows "scope_inv hash (p\<lparr>caches := (caches p)[c := memo]\<rparr>)"
  using assms by (auto simp: scope_inv_def) (metis nth_list_update_eq nth_list_update_neq)

lemma inv_scopes:
  assumes "scope_inv hash p" "\<And>sc. sc \<in> set ss \<Longrightarrow> scope_good hash p sc"
  shows "scope_inv hash (p\<lparr>scopes := ss\<rparr>)"
  using assms by (auto simp: scope_inv_def)


text \<open>A handle that moves to an unused cache, or to a sequence past everything its cache knows.\<close>

lemma inv_fresh_cache:
  assumes "scope_inv hash p" "graph_fits hash (graph_of db)" "cache_at db = length (caches p)"
    "set hs \<subseteq> insert db (set (handles p))" "distinct (map cache_at hs)" "distinct (map store_id hs)"
    "store_id db < n" "next_store p \<le> n"
    "\<And>sc. sc \<in> set (scopes p) \<Longrightarrow> scope_good hash (p\<lparr>handles := hs, caches := caches p @ [[]], next_store := n\<rparr>) sc"
  shows "scope_inv hash (p\<lparr>handles := hs, caches := caches p @ [[]], next_store := n\<rparr>)"
proof -
  let ?p = "p\<lparr>handles := hs, caches := caches p @ [[]], next_store := n\<rparr>"
  let ?h = "(cache_at db, commit_seq db, graph_of db, roles_of db)"
  have i: "holders_ok hash p" "handles_ok p" "\<And>c. c < length (caches p) \<Longrightarrow> cache_good hash p c (caches p ! c)"
    using assms(1) by (auto simp: scope_inv_def)
  have sub: "holders ?p \<subseteq> insert ?h (holders p)" using assms(4) by (auto simp: holders_def)
  have lt: "c < length (caches p)" if "(c, v, g, rs) \<in> holders p" for c v g rs using i(1) that by (auto simp: holders_ok_def)
  have "c < length (caches ?p) \<and> graph_fits hash g" if "(c, v, g, rs) \<in> holders ?p" for c v g rs
    using that sub i(1) assms(2,3) by (fastforce simp: holders_ok_def)
  moreover have "g = g' \<and> rs = rs'" if "(c, v, g, rs) \<in> holders ?p" "(c, v, g', rs') \<in> holders ?p" for c v g rs g' rs'
  proof -
    have "(c, v, g, rs) \<in> insert ?h (holders p)" "(c, v, g', rs') \<in> insert ?h (holders p)" using that sub by blast+
    then show ?thesis using lt [of c v g rs] lt [of c v g' rs'] assms(3) i(1) unfolding holders_ok_def by fastforce
  qed
  moreover have "snap_version s \<le> commit_seq d" if "d \<in> set hs" "s \<in> set (snapshots p)" "snap_cache_at s = cache_at d" for d s
    using that assms(3,4) lt [OF snapshot_holds [of s p]] i(1) unfolding holders_ok_def by auto
  ultimately have h: "holders_ok hash ?p" unfolding holders_ok_def by auto
  have "handles_ok ?p" using assms(4-8) i(2) by (fastforce simp: handles_ok_def)
  moreover have "cache_good hash ?p c (caches ?p ! c)" if "c < length (caches ?p)" for c
  proof (cases "c = length (caches p)")
    case False
    then have c: "c < length (caches p)" using that by simp
    have "(c, v, g, rs) \<in> holders p" if "(c, v, g, rs) \<in> holders ?p" for v g rs using that sub c assms(3) by auto
    moreover have "d \<in> set (handles p)" if "d \<in> set hs" "cache_at d = c" for d using that assms(3,4) c by auto
    ultimately show ?thesis using i(3) [OF c] c unfolding cache_good_def by (fastforce simp: nth_append)
  qed (simp add: cache_good_def)
  ultimately show ?thesis using h assms(9) by (auto simp: scope_inv_def)
qed

lemma inv_written:
  assumes "scope_inv hash p" "i < length (handles p)" "graph_fits hash g" "commit_seq (handles p ! i) < n"
  shows "scope_inv hash (p\<lparr>handles := (handles p)[i := (handles p ! i)\<lparr>graph_of := g, commit_seq := n\<rparr>]\<rparr>)"
proof -
  let ?old = "handles p ! i"
  let ?db = "?old\<lparr>graph_of := g, commit_seq := n\<rparr>"
  let ?hs = "(handles p)[i := ?db]"
  let ?p = "p\<lparr>handles := ?hs\<rparr>"
  let ?h = "(cache_at ?old, n, g, roles_of ?old)"
  have inv: "holders_ok hash p" "handles_ok p" "\<And>c. c < length (caches p) \<Longrightarrow> cache_good hash p c (caches p ! c)"
      "\<And>sc. sc \<in> set (scopes p) \<Longrightarrow> scope_good hash p sc"
    using assms(1) by (auto simp: scope_inv_def)
  have old: "?old \<in> set (handles p)" using assms(2) by simp
  have hs: "set ?hs \<subseteq> insert ?db (set (handles p))" by (rule set_update_subset_insert)
  have sub: "holders ?p \<subseteq> insert ?h (holders p)" using hs by (auto simp: holders_def)
  have below: "v < n" if "(cache_at ?old, v, g', rs') \<in> holders p" for v g' rs'
  proof -
    note held = that
    have "v \<le> commit_seq ?old"
    proof -
      consider d where "d \<in> set (handles p)" "cache_at d = cache_at ?old" "v = commit_seq d"
        | s where "s \<in> set (snapshots p)" "snap_cache_at s = cache_at ?old" "v = snap_version s"
        using held by (auto simp: holders_def)
      then show ?thesis
      proof cases
        case 1
        then have "d = ?old" using inv(2) old by (auto simp: handles_ok_def distinct_map dest: inj_onD)
        then show ?thesis using 1 by simp
      next
        case 2
        then show ?thesis using inv(1) old by (auto simp: holders_ok_def)
      qed
    qed
    then show ?thesis using assms(4) by simp
  qed
  have "c < length (caches ?p) \<and> graph_fits hash g'" if "(c, v, g', rs) \<in> holders ?p" for c v g' rs
  proof -
    have "(c, v, g', rs) = ?h \<or> (c, v, g', rs) \<in> holders p" using that sub by blast
    then show ?thesis using holders_fit [OF inv(1)] handle_holds [OF old] assms(3) by auto
  qed
  moreover have "g1 = g2 \<and> rs1 = rs2" if "(c, v, g1, rs1) \<in> holders ?p" "(c, v, g2, rs2) \<in> holders ?p" for c v g1 rs1 g2 rs2
  proof -
    have "(c, v, g1, rs1) \<in> insert ?h (holders p)" "(c, v, g2, rs2) \<in> insert ?h (holders p)" using that sub by blast+
    then have "(c, v, g1, rs1) = ?h \<or> (c, v, g1, rs1) \<in> holders p" "(c, v, g2, rs2) = ?h \<or> (c, v, g2, rs2) \<in> holders p"
      unfolding insert_iff by blast+
    moreover have "v \<noteq> n" if "c = cache_at ?old" "(c, v, g', rs') \<in> holders p" for g' rs'
      using below [of v g' rs'] that by simp
    ultimately show ?thesis using holders_unique [OF inv(1)] by (metis prod.inject)
  qed
  moreover have "snap_version s \<le> commit_seq d" if "d \<in> set ?hs" "s \<in> set (snapshots p)" "snap_cache_at s = cache_at d" for d s
  proof (cases "d = ?db")
    case True
    then have "(cache_at ?old, snap_version s, snap_graph s, snap_roles s) \<in> holders p"
      using snapshot_holds [OF that(2)] that(3) by simp
    then show ?thesis using below True by (simp add: less_imp_le)
  next
    case False
    then have "d \<in> set (handles p)" using that(1) hs by blast
    then show ?thesis using that(2,3) inv(1) by (auto simp: holders_ok_def)
  qed
  ultimately have h: "holders_ok hash ?p" unfolding holders_ok_def by auto
  have m: "map cache_at ?hs = map cache_at (handles p)" "map store_id ?hs = map store_id (handles p)"
    using assms(2) by (simp_all add: map_update list_update_same_conv)
  have "handles_ok ?p" using inv(2) hs old unfolding handles_ok_def by (auto simp: m)
  moreover have "cache_good hash ?p c (caches ?p ! c)" if "c < length (caches ?p)" for c
  proof -
    have c: "cache_good hash p c (caches p ! c)" using inv(3) that by simp
    have e: "v < n" if "map_of (caches p ! c) role = Some (v, mk)" "c = cache_at ?old" for role v mk
      using c that old assms(4) unfolding cache_good_def by fastforce
    show ?thesis unfolding cache_good_def
    proof (intro allI impI conjI ballI, clarify)
      fix role v mk g' rs
      assume a: "map_of (caches ?p ! c) role = Some (v, mk)" and "(c, v, g', rs) \<in> holders ?p"
      then have "(c, v, g', rs) \<in> holders p" using e [of role v mk] sub by auto
      then show "build_mask_for_role hash g' rs role = Inr mk" using c a unfolding cache_good_def by fastforce
    next
      fix role v mk d
      assume a: "map_of (caches ?p ! c) role = Some (v, mk)" "d \<in> set (handles ?p)" "cache_at d = c"
      then show "v \<le> commit_seq d" using c e [of role v mk] hs unfolding cache_good_def by fastforce
    qed
  qed
  moreover have "scope_good hash ?p sc" if "sc \<in> set (scopes p)" for sc
    using inv(4) [OF that] old hs assms(4) unfolding scope_good_def by fastforce
  ultimately show ?thesis using h by (auto simp: scope_inv_def)
qed


lemma inv_frozen:
  assumes "scope_inv hash p" "db \<in> set (handles p)"
  shows "scope_inv hash (p\<lparr>snapshots := snapshots p @ [\<lparr>snap_graph = graph_of db, snap_roles = roles_of db,
    snap_version = commit_seq db, snap_cache_at = cache_at db\<rparr>]\<rparr>)"
proof -
  let ?s = "\<lparr>snap_graph = graph_of db, snap_roles = roles_of db, snap_version = commit_seq db, snap_cache_at = cache_at db\<rparr>"
  let ?p = "p\<lparr>snapshots := snapshots p @ [?s]\<rparr>"
  have h: "holders ?p = holders p" using assms(2) by (auto simp: holders_def)
  have "d = db" if "d \<in> set (handles p)" "cache_at d = cache_at db" for d
    using assms that by (auto simp: scope_inv_def handles_ok_def distinct_map dest: inj_onD)
  then have "holders_ok hash ?p" using assms(1) by (auto simp: scope_inv_def holders_ok_def h)
  then show ?thesis using assms(1) by (auto simp: scope_inv_def handles_ok_def cache_good_def scope_good_def h)
qed

lemma distinct_update_new:
  "distinct xs \<Longrightarrow> x \<notin> set xs \<Longrightarrow> distinct (xs[i := x])"
  by (cases "i < length xs") (auto simp: distinct_list_update)

lemma fresh_names:
  assumes "scope_inv hash p"
  shows "length (caches p) \<notin> cache_at ` set (handles p)" "next_store p \<notin> store_id ` set (handles p)"
  using assms holders_fit handle_holds by (fastforce simp: scope_inv_def handles_ok_def)+

lemma scope_good_fresh:
  assumes "scope_good hash p sc" "set hs \<subseteq> insert db (set (handles p))" "next_store p \<le> n"
    "store_id db = next_store p \<or> (\<exists>d \<in> set (handles p). store_id db = store_id d \<and> commit_seq db = commit_seq d \<and> graph_of db = graph_of d)"
  shows "scope_good hash (p\<lparr>handles := hs, caches := cs, next_store := n\<rparr>) sc"
proof -
  have "sid < n \<and> (\<forall>d \<in> set hs. store_id d = sid \<longrightarrow> k \<le> commit_seq d \<and>
      (k = commit_seq d \<longrightarrow> m = mask_from_keys hash (graph_of d) (case sc_keys sc of Some ks \<Rightarrow> ks | None \<Rightarrow> [])))"
    if c: "keys_cache sc = Some ((sid, k), m)" for sid k m
  proof -
    have old: "sid < next_store p" "\<And>d. d \<in> set (handles p) \<Longrightarrow> store_id d = sid \<Longrightarrow> k \<le> commit_seq d \<and>
        (k = commit_seq d \<longrightarrow> m = mask_from_keys hash (graph_of d) (case sc_keys sc of Some ks \<Rightarrow> ks | None \<Rightarrow> []))"
      using assms(1) c by (auto simp: scope_good_def)
    have "k \<le> commit_seq d \<and> (k = commit_seq d \<longrightarrow> m = mask_from_keys hash (graph_of d) (case sc_keys sc of Some ks \<Rightarrow> ks | None \<Rightarrow> []))"
      if "d \<in> set hs" "store_id d = sid" for d
    proof (cases "d = db")
      case True
      then have "store_id db = sid" using that by simp
      then show ?thesis using assms(4) old True by auto
    next
      case False
      then show ?thesis using that assms(2) old(2) by blast
    qed
    then show ?thesis using old(1) assms(3) by auto
  qed
  then show ?thesis using assms(1) by (simp add: scope_good_def)
qed

lemma scope_inv_step: "scope_step hash p p' \<Longrightarrow> scope_inv hash p \<Longrightarrow> scope_inv hash p'"
proof (induction rule: scope_step.induct)
  case (opened g p rs n)
  then show ?case using fresh_names [OF opened(2)]
    by (intro inv_fresh_cache [where db = "\<lparr>graph_of = g, roles_of = rs, commit_seq = n, store_id = next_store p, cache_at = length (caches p)\<rparr>"]
        scope_good_fresh [where db = "\<lparr>graph_of = g, roles_of = rs, commit_seq = n, store_id = next_store p, cache_at = length (caches p)\<rparr>"])
      (auto simp: scope_inv_def handles_ok_def)
next
  case (written i p g n)
  then show ?case by (intro inv_written)
next
  case (roles_committed i p rs)
  let ?db = "(handles p ! i)\<lparr>roles_of := Some rs, cache_at := length (caches p)\<rparr>"
  let ?hs = "(handles p)[i := ?db]"
  have o: "handles p ! i \<in> set (handles p)" using roles_committed(1) by simp
  have m: "map cache_at ?hs = (map cache_at (handles p))[i := length (caches p)]" "map store_id ?hs = map store_id (handles p)"
    using roles_committed(1) by (simp_all add: map_update list_update_same_conv)
  have hs: "set ?hs \<subseteq> insert ?db (set (handles p))" by (rule set_update_subset_insert)
  have h: "handles_ok p" "holders_ok hash p" "\<And>sc. sc \<in> set (scopes p) \<Longrightarrow> scope_good hash p sc"
    using roles_committed(2) by (auto simp: scope_inv_def)
  have "scope_inv hash (p\<lparr>handles := ?hs, caches := caches p @ [[]], next_store := next_store p\<rparr>)"
  proof (rule inv_fresh_cache [OF roles_committed(2) _ _ hs])
    show "graph_fits hash (graph_of ?db)" using holders_fit [OF h(2) handle_holds [OF o]] by simp
    show "distinct (map cache_at ?hs)" unfolding m
      using h(1) fresh_names(1) [OF roles_committed(2)] by (intro distinct_update_new) (auto simp: handles_ok_def)
    show "distinct (map store_id ?hs)" "store_id ?db < next_store p" using h(1) o by (auto simp: m handles_ok_def)
    show "scope_good hash (p\<lparr>handles := ?hs, caches := caches p @ [[]], next_store := next_store p\<rparr>) sc" if "sc \<in> set (scopes p)" for sc
      by (rule scope_good_fresh [OF h(3) [OF that] hs]) (use o in auto)
  qed simp_all
  then show ?case by simp
next
  case (reloaded i p g rs n)
  let ?db = "\<lparr>graph_of = g, roles_of = rs, commit_seq = n, store_id = next_store p, cache_at = length (caches p)\<rparr>"
  let ?hs = "(handles p)[i := ?db]"
  have hs: "set ?hs \<subseteq> insert ?db (set (handles p))" by (rule set_update_subset_insert)
  have h: "handles_ok p" "\<And>sc. sc \<in> set (scopes p) \<Longrightarrow> scope_good hash p sc" using reloaded(3) by (auto simp: scope_inv_def)
  show ?case
  proof (rule inv_fresh_cache [OF reloaded(3) _ _ hs])
    show "distinct (map cache_at ?hs)" "distinct (map store_id ?hs)"
      using h(1) fresh_names [OF reloaded(3)] by (auto simp: map_update handles_ok_def intro!: distinct_update_new)
    show "scope_good hash (p\<lparr>handles := ?hs, caches := caches p @ [[]], next_store := Suc (next_store p)\<rparr>) sc" if "sc \<in> set (scopes p)" for sc
      by (rule scope_good_fresh [OF h(2) [OF that] hs]) auto
  qed (use reloaded(2) in simp_all)
next
  case (frozen i p db)
  then show ?case by (intro inv_frozen) simp_all
next
  case (scope_made role namespace names sc p)
  then have "scope_good hash p sc"
    by (auto simp: scope_new_def scope_good_def option_list_def split: if_splits option.splits)
  then show ?case using scope_made(2) by (intro inv_scopes) (auto simp: scope_inv_def)
next
  case (scope_narrowed i p j)
  then have "scope_good hash p (scopes p ! i)" by (simp add: scope_inv_def)
  then have "scope_good hash p (scope_intersect (scopes p ! i) (scopes p ! j))"
    by (auto simp: scope_good_def scope_intersect_def split: option.splits)
  then show ?case using scope_narrowed(3) by (intro inv_scopes) (auto simp: scope_inv_def)
next
  case (role_read i p db role cache r)
  have d: "db \<in> set (handles p)" using role_read(1,2) by simp
  have h: "holders_ok hash p" "handles_ok p" using role_read(4) by (simp_all add: scope_inv_def)
  have "cache_good hash p (cache_at db) (caches p ! cache_at db)"
    using role_read(4) holders_fit [OF h(1) handle_holds [OF d]] by (simp add: scope_inv_def)
  from mask_for_role_good(1) [OF h d this role_read(3)] show ?case using role_read(4) by (intro inv_caches)
next
  case (snap_read i p s role cache r)
  have d: "s \<in> set (snapshots p)" using snap_read(1,2) by simp
  have h: "holders_ok hash p" using snap_read(4) by (simp add: scope_inv_def)
  note fit = holders_fit [OF h snapshot_holds [OF d]]
  have g: "cache_good hash p (snap_cache_at s) (caches p ! snap_cache_at s)" using snap_read(4) fit by (simp add: scope_inv_def)
  have twin: "mask_for_role_from hash (snap_graph s) (snap_roles s) role = Inr m \<longleftrightarrow>
      build_mask_for_role hash (snap_graph s) (snap_roles s) role = Inr m" for m
  proof (cases "snap_roles s")
    case None
    then show ?thesis by (simp add: mask_for_role_from_def build_mask_for_role_def)
  next
    case Some
    then show ?thesis using fit by (simp add: reader_twin graph_fits_def)
  qed
  have "snap_version s \<le> commit_seq db" if "db \<in> set (handles p)" "cache_at db = snap_cache_at s" for db
    using h d that by (auto simp: holders_ok_def)
  from get_or_build_good(1) [OF h g snapshot_holds [OF d] twin this snap_read(3) [unfolded snap_mask_for_role_def]]
  show ?case using snap_read(4) by (intro inv_caches)
next
  case (scope_read i p j db cached sc cache r)
  have d: "db \<in> set (handles p)" "scopes p ! j \<in> set (scopes p)" using scope_read(1,2,3) by simp_all
  have h: "holders_ok hash p" "handles_ok p" using scope_read(5) by (simp_all add: scope_inv_def)
  have c: "cache_good hash p (cache_at db) (caches p ! cache_at db)" "scope_good hash p (scopes p ! j)"
    using scope_read(5) holders_fit [OF h(1) handle_holds [OF d(1)]] d(2) by (simp_all add: scope_inv_def)
  note r = resolve_with_good [OF h d(1) c scope_read(4)]
  have "scope_inv hash (p\<lparr>scopes := (scopes p)[j := sc]\<rparr>)"
    using scope_read(5) r(2) by (intro inv_scopes) (auto simp: scope_inv_def dest: set_update_subset_insert [THEN subsetD])
  from inv_caches [OF this, of "cache_at db" cache] r(1) show ?case by simp
qed

lemma scope_inv_reachable: "scope_reachable hash p \<Longrightarrow> scope_inv hash p"
proof (induction rule: scope_reachable.induct)
  case start
  show ?case by (simp add: scope_inv_def process_new_def holders_ok_def holders_def handles_ok_def)
qed (rule scope_inv_step)

section \<open>What a scope shows\<close>

definition role_leg_sees :: "(string \<Rightarrow> u64) \<Rightarrow> handle \<Rightarrow> string \<Rightarrow> u32 \<Rightarrow> bool" where
  "role_leg_sees hash db role i \<longleftrightarrow>
     (case roles_of db of
        None \<Rightarrow> False
      | Some defs \<Rightarrow> (case find (\<lambda>r. role_name r = role) defs of None \<Rightarrow> False | Some def \<Rightarrow> role_sees hash (graph_of db) def i))"

definition scope_sees :: "(string \<Rightarrow> u64) \<Rightarrow> scope \<Rightarrow> handle \<Rightarrow> u32 \<Rightarrow> bool" where
  "scope_sees hash sc db i \<longleftrightarrow>
     (\<forall>role \<in> set (sc_roles sc). role_leg_sees hash db role i) \<and>
     (\<forall>ns \<in> set (sc_namespaces sc). unat i < id_map_len (g_ids (graph_of db)) \<and> is_live_node (graph_of db) i \<and> ns_of (graph_of db) i = ns) \<and>
     (\<forall>names. sc_keys sc = Some names \<longrightarrow> (\<exists>k \<in> set names. id_map_get hash (g_ids (graph_of db)) k = Some i))"

text \<open>The accumulator of \<open>resolve_with\<close>: no mask yet shows everything.\<close>

definition out_sees :: "node_mask option \<Rightarrow> u32 \<Rightarrow> bool" where
  "out_sees out i = (case out of None \<Rightarrow> True | Some m \<Rightarrow> contains_id m i)"

definition out_ok :: "node_mask option \<Rightarrow> bool" where
  "out_ok out = (case out of None \<Rightarrow> True | Some m \<Rightarrow> mask_ok m)"

lemma narrow_sees:
  assumes "out_ok out" "mask_ok m"
  shows "out_ok (narrow out m)" "out_sees (narrow out m) i \<longleftrightarrow> out_sees out i \<and> contains_id m i" "narrow out m \<noteq> None"
  using assms by (auto simp: narrow_def out_sees_def out_ok_def nm.both_law split: option.split)

lemma fold_narrow_sees:
  assumes "out_ok out" "\<And>x. x \<in> set xs \<Longrightarrow> mask_ok (f x)"
  shows "out_ok (fold (\<lambda>x out. narrow out (f x)) xs out) \<and>
    (out_sees (fold (\<lambda>x out. narrow out (f x)) xs out) i \<longleftrightarrow> out_sees out i \<and> (\<forall>x \<in> set xs. contains_id (f x) i)) \<and>
    (fold (\<lambda>x out. narrow out (f x)) xs out = None \<longleftrightarrow> xs = [] \<and> out = None)"
  using assms by (induction xs arbitrary: out) (auto simp: narrow_sees)

lemma role_mask_sees:
  assumes "graph_fits hash (graph_of db)" "build_mask_for_role hash (graph_of db) (roles_of db) role = Inr m"
  shows "contains_id m i \<longleftrightarrow> role_leg_sees hash db role i"
proof (cases "roles_of db")
  case (Some defs)
  have "length (g_labels (graph_of db)) \<le> 2 ^ 32" using assms(1) by (simp add: graph_fits_def)
  from build_mask_sees [OF this assms(2) [unfolded Some]] obtain def where
    "find (\<lambda>r. role_name r = role) defs = Some def" "\<And>i. contains_id m i \<longleftrightarrow> role_sees hash (graph_of db) def i" by blast
  then show ?thesis by (simp add: role_leg_sees_def Some)
qed (use assms(2) in \<open>simp add: build_mask_for_role_def\<close>)

lemma fresh_roles_sees:
  assumes "graph_fits hash (graph_of db)" "out_ok out" "fresh_roles hash db roles out = Inr out'"
  shows "out_ok out' \<and> (out' = None \<longleftrightarrow> roles = [] \<and> out = None) \<and>
    (out_sees out' i \<longleftrightarrow> out_sees out i \<and> (\<forall>role \<in> set roles. role_leg_sees hash db role i))"
  using assms(2,3)
proof (induction roles arbitrary: out)
  case (Cons role roles)
  then obtain m where m: "build_mask_for_role hash (graph_of db) (roles_of db) role = Inr m" "fresh_roles hash db roles (narrow out m) = Inr out'"
    by (cases "build_mask_for_role hash (graph_of db) (roles_of db) role") auto
  have "mask_ok m" using build_mask_ok [OF m(1)] by simp
  note n = narrow_sees [OF Cons.prems(1) this]
  note IH = Cons.IH [OF n(1) m(2)]
  have "out_sees out' i \<longleftrightarrow> out_sees out i \<and> (\<forall>role \<in> set (role # roles). role_leg_sees hash db role i)"
    using IH n(2) [of i] role_mask_sees [OF assms(1) m(1), of i] by simp
  then show ?case using IH n(3) by blast
qed auto

lemma resolve_fresh_sees:
  assumes "graph_fits hash (graph_of db)" "scope_good hash p sc" "resolve_fresh hash sc db = Inr r"
  shows "\<exists>m. r = Some m \<and> mask_mode m = Omit \<and> (\<forall>i. contains_id m i \<longleftrightarrow> scope_sees hash sc db i)"
proof -
  obtain out1 where o1: "fresh_roles hash db (sc_roles sc) None = Inr out1"
    using assms(3) by (cases "fresh_roles hash db (sc_roles sc) None") (auto simp: resolve_fresh_def)
  define out2 where "out2 = fold (\<lambda>ns out. narrow out (mask_for_namespace (graph_of db) ns)) (sc_namespaces sc) out1"
  define out3 where "out3 = (case sc_keys sc of None \<Rightarrow> out2 | Some names \<Rightarrow> narrow out2 (mask_from_keys hash (graph_of db) names))"
  have ok: "out_ok None" "out_sees None i" for i by (simp_all add: out_ok_def out_sees_def)
  note s1 = fresh_roles_sees [OF assms(1) ok(1) o1]
  have "out_ok out1" using s1 by (rule conjunct1)
  note f2 = fold_narrow_sees [of out1 "sc_namespaces sc" "mask_for_namespace (graph_of db)", OF this mask_for_namespace_ok, folded out2_def]
  have s2: "out_ok out2" "out_sees out2 i \<longleftrightarrow> out_sees out1 i \<and> (\<forall>ns \<in> set (sc_namespaces sc). contains_id (mask_for_namespace (graph_of db) ns) i)"
      "out2 = None \<longleftrightarrow> sc_namespaces sc = [] \<and> out1 = None" for i
    using f2 [of i] by (blast, simp_all only:)
  have s3: "out3 \<noteq> None" "out_sees out3 i \<longleftrightarrow> scope_sees hash sc db i" for i
  proof -
    have ns: "contains_id (mask_for_namespace (graph_of db) ns) i \<longleftrightarrow>
        unat i < id_map_len (g_ids (graph_of db)) \<and> is_live_node (graph_of db) i \<and> ns_of (graph_of db) i = ns" for ns
      using assms(1) by (intro mask_for_namespace_sees) (simp_all add: graph_fits_def)
    note k = narrow_sees [OF s2(1) mask_from_keys_ok [of hash "graph_of db"]]
    show "out3 \<noteq> None" using assms(2) s1 s2(3) k(3) by (auto simp: out3_def scope_good_def split: option.split)
    show "out_sees out3 i \<longleftrightarrow> scope_sees hash sc db i"
      using s1 s2(2) k(2) ok(2) ns by (auto simp: out3_def scope_sees_def mask_from_keys_sees split: option.split)
  qed
  have "r = map_option (\<lambda>m. mask_with_mode m Omit) out3"
    using assms(3) o1 unfolding resolve_fresh_def Let_def out3_def out2_def by simp
  then show ?thesis using s3 by (auto simp: out_sees_def mask_with_mode_def contains_id_def split: option.splits)
qed

lemma intersect_sees:
  assumes "graph_fits hash (graph_of db)"
  shows "scope_sees hash (scope_intersect a b) db i \<longleftrightarrow> scope_sees hash a db i \<and> scope_sees hash b db i"
proof -
  have inj: "k = k'" if "id_map_get hash (g_ids (graph_of db)) k = Some i" "id_map_get hash (g_ids (graph_of db)) k' = Some i" for k k'
    using assms that by (intro id_map_get_inj) (simp_all add: graph_fits_def)
  have "(\<forall>names. sc_keys (scope_intersect a b) = Some names \<longrightarrow> (\<exists>k \<in> set names. id_map_get hash (g_ids (graph_of db)) k = Some i)) \<longleftrightarrow>
      (\<forall>names. sc_keys a = Some names \<longrightarrow> (\<exists>k \<in> set names. id_map_get hash (g_ids (graph_of db)) k = Some i)) \<and>
      (\<forall>names. sc_keys b = Some names \<longrightarrow> (\<exists>k \<in> set names. id_map_get hash (g_ids (graph_of db)) k = Some i))"
  proof (cases "sc_keys a"; cases "sc_keys b")
    fix x y assume "sc_keys a = Some x" "sc_keys b = Some y"
    moreover from this have "sc_keys (scope_intersect a b) = Some (filter (\<lambda>k. k \<in> set y) x)" by (simp add: scope_intersect_def)
    ultimately show ?thesis using inj by auto
  qed (auto simp: scope_intersect_def)
  then show ?thesis unfolding scope_sees_def by (auto simp: scope_intersect_def ball_Un)
qed

section \<open>Properties\<close>


text \<open>One store with the role \<open>r\<close>, and a scope that asks for it.\<close>

definition one_handle :: handle where
  "one_handle = \<lparr>graph_of = one_graph, roles_of = Some [role_a], commit_seq = 0, store_id = 1, cache_at = 0\<rparr>"

definition scope_r :: scope where
  "scope_r = \<lparr>sc_roles = [''r''], sc_namespaces = [], sc_keys = None, keys_cache = None\<rparr>"

definition one_process :: process where
  "one_process = \<lparr>handles = [one_handle], snapshots = [], scopes = [scope_r], caches = [[]], next_store = 2\<rparr>"

lemma one_process_reachable: "scope_reachable (\<lambda>_. 0) one_process"
proof -
  have fits: "graph_fits (\<lambda>_. 0) one_graph" using one_graph_mirrors [of "\<lambda>_. 0"] id_map_new_ok(1) one_graph_table by (simp add: graph_fits_def one_graph_def id_map_len_new)
  let ?p = "\<lparr>handles = [one_handle], snapshots = [], scopes = [], caches = [[]], next_store = 2\<rparr>"
  have "scope_step (\<lambda>_. 0) process_new ?p"
    using scope_step.opened [OF fits, of process_new "Some [role_a]" 0] by (simp add: process_new_def one_handle_def numeral_2_eq_2)
  moreover have "scope_step (\<lambda>_. 0) ?p one_process"
    using scope_step.scope_made [of "Some ''r''" None None scope_r "\<lambda>_. 0" ?p]
    by (simp add: one_process_def scope_new_def scope_r_def option_list_def)
  ultimately show ?thesis using scope_reachable.start scope_reachable.step by blast
qed


end
