(* ===== verification/Access.thy ===== *)
theory Access
  imports Prelude "HOL-Library.AList"
begin

unbundle bit_operations_syntax

text \<open>
  Who a client is: the access keys of \<open>crates/core-api/src/access_keys.rs\<close> (the strict
  \<open>keys.json\<close>, its reloadable table and the addition of a key) and the authenticator of the Bolt
  listener, \<open>crates/bolt/src/messages/hello.rs\<close>, that tries the full token, the role tokens and the
  keys in turn.

  The digest function and its hexadecimal form (the \<open>blake3\<close> crate) and the JSON form of the key
  file (\<open>serde_json\<close>) are parameters. A digest is its bytes. The text of an error is not
  kept: an error is the case it reports, with the number of the key. A file is absent, refused by
  the operating system, or open with a mode, an owner and a text, whose type is a parameter too.
\<close>

section \<open>Comparing secrets\<close>

definition constant_time_eq :: "u8 list \<Rightarrow> u8 list \<Rightarrow> bool" where
  "constant_time_eq a b =
     (if length a \<noteq> length b then False
      else fold (\<lambda>(x, y) diff. diff OR (x XOR y)) (zip a b) 0 = 0)"

lemma xor_self_iff: "(a :: u8) XOR b = 0 \<longleftrightarrow> a = b"
  by (metis xor.assoc xor.left_neutral xor.right_neutral xor_self_eq)

lemma fold_or_zero:
  "fold (\<lambda>(x, y) diff. diff OR (x XOR y)) ps (d :: u8) = 0 \<longleftrightarrow> d = 0 \<and> (\<forall>(x, y) \<in> set ps. x = y)"
  by (induction ps arbitrary: d) (auto simp: or_eq_0_iff xor_self_iff)

lemma constant_time_eq_iff [simp]: "constant_time_eq a b \<longleftrightarrow> a = b"
proof (cases "length a = length b")
  case True
  then show ?thesis
    by (auto simp: constant_time_eq_def fold_or_zero set_zip list_eq_iff_nth_eq)
qed (auto simp: constant_time_eq_def)

section \<open>Key files\<close>

definition MIN_TOKEN_BYTES :: nat where "MIN_TOKEN_BYTES = 32"

datatype key_tier = KeyAdmin | KeyWrite | KeyRead string

datatype key_error =
    ShortToken
  | NotJson
  | PlaintextToken nat
  | BadHash nat
  | RepeatedHash nat
  | EmptyName nat
  | RepeatedName nat
  | ReadNeedsRole nat
  | RoleNotTaken nat
  | BadTier nat
  | NoFile
  | OpenToOthers
  | ForeignOwner
  | IoFailed
  | NeedsName

record key_entry =
  ke_name :: "string option"
  ke_hash :: string
  ke_tier :: string
  ke_role :: "string option"
  ke_token :: "string option"

type_synonym key_table = "(u8 list \<times> key_tier) list"

definition hash_token :: "(u8 list \<Rightarrow> u8 list) \<Rightarrow> (u8 list \<Rightarrow> string) \<Rightarrow> string \<Rightarrow> key_error + string" where
  "hash_token digest to_hex token =
     (if length token < MIN_TOKEN_BYTES then Inl ShortToken else Inr (to_hex (digest (as_bytes token))))"

definition entry_tier :: "nat \<Rightarrow> key_entry \<Rightarrow> key_error + key_tier" where
  "entry_tier number entry =
     (if ke_tier entry = ''admin'' \<and> ke_role entry = None then Inr KeyAdmin
      else if ke_tier entry = ''write'' \<and> ke_role entry = None then Inr KeyWrite
      else if ke_tier entry = ''read'' then
        (case ke_role entry of Some role \<Rightarrow> if role \<noteq> [] then Inr (KeyRead role) else Inl (ReadNeedsRole number)
         | None \<Rightarrow> Inl (ReadNeedsRole number))
      else if ke_tier entry = ''admin'' \<or> ke_tier entry = ''write'' then Inl (RoleNotTaken number)
      else Inl (BadTier number))"

text \<open>The check of an entry's name against the names before it, and the names after it.\<close>

definition entry_names :: "nat \<Rightarrow> key_entry \<Rightarrow> string list \<Rightarrow> key_error + string list" where
  "entry_names number entry names =
     (case ke_name entry of
        None \<Rightarrow> Inr names
      | Some name \<Rightarrow>
          if name = [] then Inl (EmptyName number)
          else if name \<in> set names then Inl (RepeatedName number)
          else Inr (names @ [name]))"

fun build_loop ::
  "(string \<Rightarrow> u8 list option) \<Rightarrow> key_entry list \<Rightarrow> nat \<Rightarrow> key_table \<Rightarrow> string list \<Rightarrow> key_error + key_table" where
  "build_loop from_hex [] number table names = Inr table"
| "build_loop from_hex (entry # kfile) number table names =
     (if ke_token entry \<noteq> None then Inl (PlaintextToken number)
      else case from_hex (ke_hash entry) of
        None \<Rightarrow> Inl (BadHash number)
      | Some h \<Rightarrow>
          if list_ex (\<lambda>(k, _). k = h) table then Inl (RepeatedHash number)
          else bind_res (entry_names number entry names) (\<lambda>names.
               bind_res (entry_tier number entry) (\<lambda>tier.
                 build_loop from_hex kfile (number + 1) (table @ [(h, tier)]) names)))"

definition build_table :: "(string \<Rightarrow> u8 list option) \<Rightarrow> key_entry list \<Rightarrow> key_error + key_table" where
  "build_table from_hex kfile = build_loop from_hex kfile 1 [] []"

definition parse_table :: "(string \<Rightarrow> u8 list option) \<Rightarrow> ('t \<Rightarrow> key_entry list option) \<Rightarrow> 't \<Rightarrow> key_error + key_table" where
  "parse_table from_hex parse_json body =
     (case parse_json body of None \<Rightarrow> Inl NotJson | Some kfile \<Rightarrow> build_table from_hex kfile)"

datatype 't key_file = Absent | Refused | Readable u32 u32 't

definition private_enough :: "u32 \<Rightarrow> u32 \<Rightarrow> u32 \<Rightarrow> key_error + unit" where
  "private_enough mode owner euid =
     (let mode = mode AND 0x1FF in
      if mode AND 0x3F \<noteq> 0 then Inl OpenToOthers
      else if owner \<noteq> euid then Inl ForeignOwner
      else Inr ())"

definition read_text :: "u32 \<Rightarrow> 't key_file \<Rightarrow> key_error + 't option" where
  "read_text euid kfile =
     (case kfile of
        Absent \<Rightarrow> Inr None
      | Refused \<Rightarrow> Inl IoFailed
      | Readable mode owner body \<Rightarrow> bind_res (private_enough mode owner euid) (\<lambda>_. Inr (Some body)))"

definition read_table ::
  "(string \<Rightarrow> u8 list option) \<Rightarrow> ('t \<Rightarrow> key_entry list option) \<Rightarrow> u32 \<Rightarrow> 't key_file \<Rightarrow> key_error + key_table" where
  "read_table from_hex parse_json euid kfile =
     bind_res (read_text euid kfile) (\<lambda>body. case body of
         Some body \<Rightarrow> parse_table from_hex parse_json body
       | None \<Rightarrow> Inr [])"

section \<open>The key set in force\<close>

record key_set =
  key_entries :: key_table
  ever_populated :: bool
  has_path :: bool

definition keys_with :: "key_table \<Rightarrow> bool \<Rightarrow> key_set" where
  "keys_with table path = \<lparr>key_entries = table, ever_populated = (table \<noteq> []), has_path = path\<rparr>"

definition keys_empty :: key_set where "keys_empty = keys_with [] False"

definition keys_reload ::
  "(string \<Rightarrow> u8 list option) \<Rightarrow> ('t \<Rightarrow> key_entry list option) \<Rightarrow> u32 \<Rightarrow> 't key_file \<Rightarrow> key_set \<Rightarrow> key_set \<times> (key_error + nat)" where
  "keys_reload from_hex parse_json euid kfile ks =
     (if \<not> has_path ks then (ks, Inl NoFile)
      else case read_table from_hex parse_json euid kfile of
        Inl e \<Rightarrow> (ks, Inl e)
      | Inr table \<Rightarrow>
          (ks\<lparr>key_entries := table, ever_populated := (if length table > 0 then True else ever_populated ks)\<rparr>, Inr (length table)))"

definition resolve_in :: "(u8 list \<Rightarrow> u8 list) \<Rightarrow> key_table \<Rightarrow> string \<Rightarrow> key_tier option" where
  "resolve_in digest table presented =
     (if length presented < MIN_TOKEN_BYTES then None
      else let d = digest (as_bytes presented)
           in foldl (\<lambda>found (h, tier). if d = h then Some tier else found) None table)"

definition keys_resolve :: "(u8 list \<Rightarrow> u8 list) \<Rightarrow> key_set \<Rightarrow> string \<Rightarrow> key_tier option" where
  "keys_resolve digest ks presented = resolve_in digest (key_entries ks) presented"

definition has_admin :: "key_set \<Rightarrow> bool" where
  "has_admin ks = list_ex (\<lambda>(_, tier). tier = KeyAdmin) (key_entries ks)"

definition keys_enforcing :: "key_set \<Rightarrow> bool" where
  "keys_enforcing ks \<longleftrightarrow> ever_populated ks \<or> key_entries ks \<noteq> []"

text \<open>\<open>add_key\<close>: the file after it and its answer. The write goes to a new private file that is then
  renamed, so that a write that fails leaves the old file; the file here is one whose write succeeds.\<close>

definition add_key ::
  "(string \<Rightarrow> u8 list option) \<Rightarrow> ('t \<Rightarrow> key_entry list option) \<Rightarrow> (key_entry list \<Rightarrow> 't) \<Rightarrow> u32 \<Rightarrow>
   string \<Rightarrow> string \<Rightarrow> string \<Rightarrow> string option \<Rightarrow> 't key_file \<Rightarrow> 't key_file \<times> (key_error + unit)" where
  "add_key from_hex parse_json print_json euid name hash tier role old =
     (case bind_res (read_text euid old) (\<lambda>body.
        bind_res (case body of
             Some body \<Rightarrow> (case parse_json body of None \<Rightarrow> Inl NotJson | Some kfile \<Rightarrow> Inr kfile)
           | None \<Rightarrow> Inr []) (\<lambda>kfile.
        bind_res (build_table from_hex kfile) (\<lambda>_.
          if name = [] then Inl NeedsName
          else let kfile = kfile @ [\<lparr>ke_name = Some name, ke_hash = hash, ke_tier = tier, ke_role = role, ke_token = None\<rparr>]
               in bind_res (build_table from_hex kfile) (\<lambda>_. Inr kfile)))) of
        Inl e \<Rightarrow> (old, Inl e)
      | Inr kfile \<Rightarrow> (Readable 0x180 euid (print_json kfile), Inr ()))"

section \<open>The authenticator\<close>

datatype auth_token = Basic "string option" string | Bearer string | AuthNone | AuthUnknown

datatype identity = FullAccess | WriteAccess | RoleBound string | ReadOnlyRole string

record authenticator =
  full_token :: "string option"
  role_tokens :: "(string \<times> string) list"
  access_keys :: "key_set option"
  role_check :: "(string \<Rightarrow> bool) option"

definition authenticator_new :: "string option \<Rightarrow> (string \<times> string) list \<Rightarrow> authenticator" where
  "authenticator_new token roles =
     \<lparr>full_token = (case token of Some t \<Rightarrow> if t \<noteq> [] then Some t else None | None \<Rightarrow> None),
      role_tokens = roles, access_keys = None, role_check = None\<rparr>"

definition auth_is_open :: "authenticator \<Rightarrow> bool" where
  "auth_is_open a \<longleftrightarrow> full_token a = None \<and> role_tokens a = [] \<and>
     \<not> (case access_keys a of None \<Rightarrow> False | Some ks \<Rightarrow> keys_enforcing ks)"

definition role_exists :: "authenticator \<Rightarrow> string \<Rightarrow> bool" where
  "role_exists a name = (case role_check a of None \<Rightarrow> True | Some exists \<Rightarrow> exists name)"

text \<open>\<open>None\<close> is \<open>BoltError::Unauthorized\<close>, the one error there is.\<close>

definition resolve_token :: "(u8 list \<Rightarrow> u8 list) \<Rightarrow> authenticator \<Rightarrow> string \<Rightarrow> identity option" where
  "resolve_token digest a presented =
     (if presented = [] then None
      else
        let full = (case full_token a of None \<Rightarrow> False | Some t \<Rightarrow> constant_time_eq (as_bytes presented) (as_bytes t));
            role = foldl (\<lambda>role (token, name).
              if constant_time_eq (as_bytes presented) (as_bytes token) then Some name else role) None (role_tokens a)
        in if full then Some FullAccess
           else case role of
             Some name \<Rightarrow> if role_exists a name then Some (RoleBound name) else None
           | None \<Rightarrow>
               (case (case access_keys a of None \<Rightarrow> None | Some ks \<Rightarrow> keys_resolve digest ks presented) of
                  Some KeyAdmin \<Rightarrow> Some FullAccess
                | Some KeyWrite \<Rightarrow> Some WriteAccess
                | Some (KeyRead name) \<Rightarrow> if role_exists a name then Some (ReadOnlyRole name) else None
                | None \<Rightarrow> None))"

definition authenticate :: "(u8 list \<Rightarrow> u8 list) \<Rightarrow> authenticator \<Rightarrow> auth_token \<Rightarrow> identity option" where
  "authenticate digest a auth =
     (if auth_is_open a then Some FullAccess
      else case auth of
        Basic _ credentials \<Rightarrow> resolve_token digest a credentials
      | Bearer credentials \<Rightarrow> resolve_token digest a credentials
      | _ \<Rightarrow> None)"

section \<open>Tables\<close>

lemma foldl_last_match:
  "foldl (\<lambda>found (k, v). if d = k then Some v else found) acc xs = (case map_of (rev xs) d of Some v \<Rightarrow> Some v | None \<Rightarrow> acc)"
  by (induction xs arbitrary: acc) (auto simp: map_add_def split: option.splits)

lemma map_of_rev: "distinct (keys xs) \<Longrightarrow> map_of (rev xs) = map_of xs"
  by (rule map_of_eqI) (auto simp: map_of_eq_None_iff rev_map [symmetric] map_of_eq_Some_iff dest!: map_of_SomeD)

lemma resolve_in_map_of:
  assumes "distinct (keys table)"
  shows "resolve_in digest table presented =
    (if length presented < MIN_TOKEN_BYTES then None else map_of table (digest (as_bytes presented)))"
  by (simp add: resolve_in_def Let_def foldl_last_match map_of_rev [OF assms] split: option.split)

lemma build_loop_append:
  "build_loop from_hex (xs @ ys) n table names = Inr t \<Longrightarrow>
   \<exists>t1 names1. build_loop from_hex xs n table names = Inr t1 \<and> build_loop from_hex ys (n + length xs) t1 names1 = Inr t"
proof (induction xs arbitrary: n table names)
  case (Cons x xs)
  then show ?case by (fastforce simp: bind_res_Inr_iff split: if_splits option.splits)
qed auto

lemma build_loop_distinct:
  "build_loop from_hex xs n table names = Inr t \<Longrightarrow> distinct (keys table) \<Longrightarrow> distinct (keys t)"
proof (induction xs arbitrary: n table names)
  case (Cons x xs)
  from Cons.prems obtain h names' tier where h: "\<not> list_ex (\<lambda>(k, _). k = h) table"
      "build_loop from_hex xs (n + 1) (table @ [(h, tier)]) names' = Inr t"
    by (auto simp: bind_res_Inr_iff split: if_splits option.splits)
  then have "h \<notin> set (keys table)" by (force simp: list_ex_iff)
  then show ?case using Cons.IH [OF h(2)] Cons.prems(2) by simp
qed simp

lemma build_table_distinct: "build_table from_hex kfile = Inr t \<Longrightarrow> distinct (keys t)"
  using build_loop_distinct by (fastforce simp: build_table_def)

lemma read_table_distinct: "read_table from_hex parse_json euid kfile = Inr t \<Longrightarrow> distinct (keys t)"
  using build_table_distinct [of from_hex _ t]
  by (auto simp: read_table_def parse_table_def bind_res_Inr_iff split: option.split_asm)

lemma build_table_snoc:
  assumes "build_table from_hex (kfile @ [e]) = Inr t"
  shows "\<exists>t0 h tier n. build_table from_hex kfile = Inr t0 \<and> from_hex (ke_hash e) = Some h \<and> entry_tier n e = Inr tier \<and>
    t = t0 @ [(h, tier)] \<and> h \<notin> set (keys t0)"
proof -
  obtain t0 names where t0: "build_loop from_hex kfile 1 [] [] = Inr t0" "build_loop from_hex [e] (1 + length kfile) t0 names = Inr t"
    using build_loop_append [OF assms [unfolded build_table_def]] by blast
  from t0(2) obtain h tier where h: "from_hex (ke_hash e) = Some h" "\<not> list_ex (\<lambda>(k, _). k = h) t0"
      "entry_tier (Suc (length kfile)) e = Inr tier" "t = t0 @ [(h, tier)]"
    by (auto simp: bind_res_Inr_iff split: if_splits option.splits)
  from h(2) have "h \<notin> set (keys t0)" by (force simp: list_ex_iff)
  then show ?thesis using t0(1) h by (auto simp: build_table_def)
qed

section \<open>A key set over its life\<close>

definition keys_run ::
  "(string \<Rightarrow> u8 list option) \<Rightarrow> ('t \<Rightarrow> key_entry list option) \<Rightarrow> u32 \<Rightarrow> 't key_file list \<Rightarrow> key_set \<Rightarrow> key_set" where
  "keys_run from_hex parse_json euid files ks = fold (\<lambda>kfile ks. fst (keys_reload from_hex parse_json euid kfile ks)) files ks"

definition keys_ok :: "key_set \<Rightarrow> bool" where
  "keys_ok ks \<longleftrightarrow> distinct (keys (key_entries ks)) \<and> (key_entries ks \<noteq> [] \<longrightarrow> ever_populated ks)"

lemma keys_reload_ok:
  assumes "keys_ok ks"
  shows "keys_ok (fst (keys_reload from_hex parse_json euid kfile ks))"
    "ever_populated ks \<Longrightarrow> ever_populated (fst (keys_reload from_hex parse_json euid kfile ks))"
  using assms read_table_distinct [of from_hex parse_json euid kfile]
  by (auto simp: keys_reload_def keys_ok_def split: sum.split)

lemma keys_run_ok:
  assumes "keys_ok ks"
  shows "keys_ok (keys_run from_hex parse_json euid files ks)"
    "ever_populated ks \<Longrightarrow> ever_populated (keys_run from_hex parse_json euid files ks)"
  using assms unfolding keys_run_def by (induction files arbitrary: ks) (simp_all add: keys_reload_ok)

lemma keys_run_append: "keys_run from_hex parse_json euid (xs @ ys) ks = keys_run from_hex parse_json euid ys (keys_run from_hex parse_json euid xs ks)"
  by (simp add: keys_run_def)

lemma keys_with_ok: "distinct (keys table) \<Longrightarrow> keys_ok (keys_with table path)"
  by (simp add: keys_ok_def keys_with_def)

section \<open>Properties\<close>

text \<open>A secret the server has been given: the full token, a role token, or a token of the minimal
  length whose digest is in the key table.\<close>

definition knows :: "(u8 list \<Rightarrow> u8 list) \<Rightarrow> authenticator \<Rightarrow> string \<Rightarrow> bool" where
  "knows digest a token \<longleftrightarrow>
     full_token a = Some token \<or> token \<in> set (keys (role_tokens a)) \<or>
     MIN_TOKEN_BYTES \<le> length token \<and> (\<exists>ks. access_keys a = Some ks \<and> digest (as_bytes token) \<in> set (keys (key_entries ks)))"

lemma as_bytes_inj [simp]: "as_bytes s = as_bytes t \<longleftrightarrow> s = t"
  by (metis of_bytes_as_bytes)

lemma resolve_token_knows:
  assumes "resolve_token digest a token = Some i" "\<And>ks. access_keys a = Some ks \<Longrightarrow> keys_ok ks"
  shows "knows digest a token"
proof -
  have "token \<in> set (keys (role_tokens a))" if "map_of (rev (role_tokens a)) token = Some r" for r
    using map_of_SomeD [OF that] by (force simp: image_iff)
  moreover have "MIN_TOKEN_BYTES \<le> length token \<and> digest (as_bytes token) \<in> set (keys (key_entries ks))"
    if "access_keys a = Some ks" "keys_resolve digest ks token = Some t" for ks t
  proof -
    have "distinct (keys (key_entries ks))" using assms(2) [OF that(1)] by (simp add: keys_ok_def)
    then have "MIN_TOKEN_BYTES \<le> length token" "map_of (key_entries ks) (digest (as_bytes token)) = Some t"
      using that(2) by (auto simp: keys_resolve_def resolve_in_map_of split: if_splits)
    then show ?thesis using map_of_SomeD by (force simp: image_iff)
  qed
  ultimately show ?thesis using assms(1)
    by (auto simp: resolve_token_def knows_def Let_def foldl_last_match split: if_splits option.splits)
qed

text \<open>C36. The door never opens again: once any key has been in force, whatever files are reloaded
  afterwards (emptied, deleted, unreadable, malformed or open to others), a client without one of
  the server's secrets is refused, and a client is let in only with a secret in force at that
  moment. A reload that fails changes nothing.\<close>

theorem keys_never_reopen:
  assumes "keys_ok ks" "key_entries (keys_run from_hex parse_json euid before ks) \<noteq> []"
  shows "let now = keys_run from_hex parse_json euid (before @ after) ks; a = a\<lparr>access_keys := Some now\<rparr> in
    \<not> auth_is_open a \<and>
    (\<forall>auth i. authenticate digest a auth = Some i \<longrightarrow>
       (\<exists>token. (auth = Bearer token \<or> (\<exists>p. auth = Basic p token)) \<and> token \<noteq> [] \<and> knows digest a token)) \<and>
    (\<forall>kfile e. snd (keys_reload from_hex parse_json euid kfile now) = Inl e \<longrightarrow>
       fst (keys_reload from_hex parse_json euid kfile now) = now)"
proof -
  let ?now = "keys_run from_hex parse_json euid (before @ after) ks"
  let ?a = "a\<lparr>access_keys := Some ?now\<rparr>"
  have b: "keys_ok (keys_run from_hex parse_json euid before ks)" using assms(1) by (rule keys_run_ok)
  then have p: "ever_populated ?now" using assms(2) keys_run_ok(2) by (auto simp: keys_run_append keys_ok_def)
  then have shut: "\<not> auth_is_open ?a" by (simp add: auth_is_open_def keys_enforcing_def)
  have ok: "\<And>ks. access_keys ?a = Some ks \<Longrightarrow> keys_ok ks" using assms(1) keys_run_ok(1) by auto
  have "\<exists>token. (auth = Bearer token \<or> (\<exists>p. auth = Basic p token)) \<and> token \<noteq> [] \<and> knows digest ?a token"
    if "authenticate digest ?a auth = Some i" for auth i
  proof -
    note granted = that
    obtain token where t: "auth = Bearer token \<or> (\<exists>p. auth = Basic p token)" "resolve_token digest ?a token = Some i"
      using granted shut by (cases auth) (auto simp: authenticate_def)
    moreover have "token \<noteq> []" using t(2) by (auto simp: resolve_token_def)
    ultimately show ?thesis using resolve_token_knows [OF t(2) ok] by blast
  qed
  moreover have "fst (keys_reload from_hex parse_json euid kfile ?now) = ?now"
    if "snd (keys_reload from_hex parse_json euid kfile ?now) = Inl e" for kfile e
    using that by (auto simp: keys_reload_def split: sum.splits if_splits)
  ultimately show ?thesis using shut unfolding Let_def by blast
qed


text \<open>A digest that is the token itself, a hexadecimal form that is the bytes, and a file whose text
  is its list of keys.\<close>

definition long_token :: string where "long_token = replicate 32 (CHR ''a'')"

definition locked_out :: authenticator where
  "locked_out = (authenticator_new None [])\<lparr>access_keys :=
     Some (keys_run (\<lambda>h. Some (as_bytes h)) Some 7 [Absent] (keys_with [(as_bytes long_token, KeyAdmin)] True))\<rparr>"

theorem keys_never_reopen_witness:
  "(case access_keys locked_out of None \<Rightarrow> False | Some ks \<Rightarrow> key_entries ks = []) \<and> authenticate (\<lambda>d. d) locked_out AuthNone = None"
proof -
  let ?ks = "keys_with [(as_bytes long_token, KeyAdmin)] True"
  have "keys_ok ?ks" "key_entries (keys_run (\<lambda>h. Some (as_bytes h)) Some 7 [] ?ks) \<noteq> []"
    by (simp_all add: keys_ok_def keys_run_def keys_with_def)
  note r = keys_never_reopen [OF this, of "[Absent]" "authenticator_new None []" "\<lambda>d. d", unfolded Let_def append_Nil, folded locked_out_def]
  have "authenticate (\<lambda>d. d) locked_out AuthNone \<noteq> Some i" for i using r by blast
  moreover have "key_entries (keys_run (\<lambda>h. Some (as_bytes h)) Some 7 [Absent] ?ks) = []"
    by (simp add: keys_run_def keys_reload_def keys_with_def read_table_def read_text_def)
  ultimately show ?thesis by (auto simp: locked_out_def)
qed


end
