(* ===== verification/Tx_Store.thy ===== *)
theory Tx_Store
  imports Access "HOL-Library.Multiset"
begin

text \<open>
  The open transactions of the HTTP server, \<open>crates/server/src/tx.rs\<close>: the registry of
  \<open>TxStore\<close> with every operation on it, and the interleaving of the requests that check a
  transaction out, work on it and hand it back.

  Every operation runs under the registry's lock, so it is a function from one registry to the
  next. \<open>Instant::now()\<close>, \<open>SystemTime::now()\<close> and the random id are arguments. A
  \<open>HashMap\<close> is an association list with distinct keys in its iteration order, and a step of
  the machine may reorder it. Instants and durations are natural numbers of nanoseconds;
  \<open>Duration * u32\<close>, which panics past \<open>u64::MAX\<close> seconds, is kept, and a panic is
  \<open>None\<close>; the range of \<open>Instant\<close>, which the standard library does not fix, is not bounded here. What a transaction runs on is a type parameter.
\<close>

section \<open>Registry\<close>

definition MAX_TOMBSTONES :: nat where "MAX_TOMBSTONES = 10000"

definition NANOS_PER_SEC :: nat where "NANOS_PER_SEC = 1000000000"

record tx_limits =
  max_open :: nat
  idle_timeout :: nat
  max_lifetime :: nat

definition default_limits :: tx_limits where
  "default_limits = \<lparr>max_open = 100, idle_timeout = 30 * NANOS_PER_SEC, max_lifetime = 300 * NANOS_PER_SEC\<rparr>"

record 'b slot =
  slot_owner :: string
  born :: nat
  deadline :: nat
  deadline_wall :: nat
  op_count :: nat
  slot_body :: "'b option"

datatype expiry = ExpiredIdle | ExpiredLifetime

record tombstone =
  tomb_owner :: string
  expired_at :: nat
  tomb_why :: expiry

record 'b registry =
  open_txs :: "(string \<times> 'b slot) list"
  expired :: "(string \<times> tombstone) list"
  closed :: bool

definition registry_new :: "'b registry" where
  "registry_new = \<lparr>open_txs = [], expired = [], closed = False\<rparr>"

datatype tx_error = TxNotFound | TxExpired expiry | TxBusy | TxClosed | TxTooMany nat

section \<open>Operations\<close>

unbundle bit_operations_syntax

definition same_owner :: "string \<Rightarrow> string \<Rightarrow> bool" where
  "same_owner a b = constant_time_eq (as_bytes a) (as_bytes b)"

definition next_deadline :: "tx_limits \<Rightarrow> nat \<Rightarrow> nat \<Rightarrow> nat \<Rightarrow> nat \<times> nat" where
  "next_deadline lim now wall born_at =
     (let dl = min (now + idle_timeout lim) (born_at + max_lifetime lim) in (dl, wall + (dl - now)))"

definition missing :: "'b registry \<Rightarrow> string \<Rightarrow> string \<Rightarrow> tx_error" where
  "missing st tid owner =
     (case map_of (expired st) tid of
        Some t \<Rightarrow> if same_owner (tomb_owner t) owner then TxExpired (tomb_why t) else TxNotFound
      | None \<Rightarrow> TxNotFound)"

definition slot_expiry :: "tx_limits \<Rightarrow> 'b slot \<Rightarrow> expiry" where
  "slot_expiry lim slot =
     (if slot_body slot = None \<or> deadline slot \<ge> born slot + max_lifetime lim then ExpiredLifetime else ExpiredIdle)"

definition remember :: "'b registry \<Rightarrow> string \<Rightarrow> string \<Rightarrow> nat \<Rightarrow> expiry \<Rightarrow> 'b registry" where
  "remember st tid owner now why =
     (let es = (if length (expired st) \<ge> MAX_TOMBSTONES then
                  (case expired st of
                     [] \<Rightarrow> []
                   | es \<Rightarrow> alist_del (fst (arg_min_list (\<lambda>(_, t). expired_at t) es)) es)
                else expired st)
      in st\<lparr>expired := AList.update tid \<lparr>tomb_owner = owner, expired_at = now, tomb_why = why\<rparr> es\<rparr>)"

definition expire :: "tx_limits \<Rightarrow> 'b registry \<Rightarrow> string \<Rightarrow> nat \<Rightarrow> 'b registry \<times> 'b slot option" where
  "expire lim st tid now =
     (case map_of (open_txs st) tid of
        None \<Rightarrow> (st, None)
      | Some slot \<Rightarrow>
          (remember (st\<lparr>open_txs := alist_del tid (open_txs st)\<rparr>) tid (slot_owner slot) now (slot_expiry lim slot),
           Some slot))"

fun expire_all :: "tx_limits \<Rightarrow> nat \<Rightarrow> string list \<Rightarrow> 'b registry \<Rightarrow> 'b registry \<times> 'b slot list" where
  "expire_all lim now [] st = (st, [])"
| "expire_all lim now (tid # ids) st =
     (let (st, s) = expire lim st tid now; (st, ss) = expire_all lim now ids st
      in (st, (case s of Some x \<Rightarrow> x # ss | None \<Rightarrow> ss)))"

text \<open>\<open>idle_timeout * 10\<close>, \<open>None\<close> past the largest duration.\<close>

definition retention :: "tx_limits \<Rightarrow> nat option" where
  "retention lim =
     (if idle_timeout lim * 10 < 2 ^ 64 * NANOS_PER_SEC
      then Some (max (idle_timeout lim * 10) (60 * NANOS_PER_SEC)) else None)"

definition due :: "tx_limits \<Rightarrow> nat \<Rightarrow> 'b slot \<Rightarrow> bool" where
  "due lim now slot \<longleftrightarrow>
     slot_body slot \<noteq> None \<and> deadline slot \<le> now \<or> born slot + max_lifetime lim \<le> now"

definition reap_locked :: "tx_limits \<Rightarrow> 'b registry \<Rightarrow> nat \<Rightarrow> ('b registry \<times> 'b slot list) option" where
  "reap_locked lim st now =
     (case retention lim of
        None \<Rightarrow> None
      | Some keep \<Rightarrow>
          let st = st\<lparr>expired := filter (\<lambda>(_, t). now - expired_at t < keep) (expired st)\<rparr>;
              ids = map fst (filter (\<lambda>(_, slot). due lim now slot) (open_txs st))
          in Some (expire_all lim now ids st))"

definition has_room :: "tx_limits \<Rightarrow> 'b registry \<Rightarrow> nat \<Rightarrow> ('b registry \<times> (tx_error + unit)) option" where
  "has_room lim st now =
     (if closed st then Some (st, Inl TxClosed)
      else map_option (\<lambda>(st, _).
             (st, if length (open_txs st) \<ge> max_open lim then Inl (TxTooMany (max_open lim)) else Inr ()))
           (reap_locked lim st now))"

definition tx_begin ::
  "tx_limits \<Rightarrow> 'b registry \<Rightarrow> string \<Rightarrow> string \<Rightarrow> 'b \<Rightarrow> nat \<Rightarrow> nat \<Rightarrow> ('b registry \<times> (tx_error + string \<times> nat)) option" where
  "tx_begin lim st tid owner body now wall =
     (let (dl, dl_wall) = next_deadline lim now wall now in
      if closed st then Some (st, Inl TxClosed)
      else map_option (\<lambda>(st, _).
             if length (open_txs st) \<ge> max_open lim then (st, Inl (TxTooMany (max_open lim)))
             else (st\<lparr>open_txs := AList.update tid
                       \<lparr>slot_owner = owner, born = now, deadline = dl, deadline_wall = dl_wall,
                        op_count = 0, slot_body = Some body\<rparr> (open_txs st)\<rparr>,
                   Inr (tid, dl_wall)))
           (reap_locked lim st now))"

definition checkout :: "tx_limits \<Rightarrow> 'b registry \<Rightarrow> string \<Rightarrow> string \<Rightarrow> nat \<Rightarrow> 'b registry \<times> (tx_error + 'b)" where
  "checkout lim st tid owner now =
     (case map_of (open_txs st) tid of
        None \<Rightarrow> (st, Inl (missing st tid owner))
      | Some slot \<Rightarrow>
          if \<not> same_owner (slot_owner slot) owner then (st, Inl TxNotFound)
          else (case slot_body slot of
              None \<Rightarrow> (st, Inl TxBusy)
            | Some body \<Rightarrow>
                if deadline slot \<le> now
                then (fst (expire lim st tid now), Inl (TxExpired (slot_expiry lim slot)))
                else (st\<lparr>open_txs := AList.update tid (slot\<lparr>slot_body := None\<rparr>) (open_txs st)\<rparr>, Inr body)))"

definition checkin ::
  "tx_limits \<Rightarrow> 'b registry \<Rightarrow> string \<Rightarrow> 'b \<Rightarrow> bool \<Rightarrow> nat \<Rightarrow> nat \<Rightarrow> 'b registry \<times> (tx_error + unit)" where
  "checkin lim st tid body ran_ok now wall =
     (if closed st then (st\<lparr>open_txs := alist_del tid (open_txs st)\<rparr>, Inl TxClosed)
      else
        let was_expired = map_option tomb_why (map_of (expired st) tid) in
        case map_of (open_txs st) tid of
          Some slot \<Rightarrow>
            let (dl, dl_wall) = next_deadline lim now wall (born slot) in
            (st\<lparr>open_txs := AList.update tid
                  (slot\<lparr>slot_body := Some body, deadline := dl, deadline_wall := dl_wall,
                        op_count := op_count slot + (if ran_ok then 1 else 0)\<rparr>) (open_txs st)\<rparr>, Inr ())
        | None \<Rightarrow> (st, Inl (case was_expired of None \<Rightarrow> TxNotFound | Some why \<Rightarrow> TxExpired why)))"

definition tx_finish :: "'b registry \<Rightarrow> string \<Rightarrow> 'b registry" where
  "tx_finish st tid = st\<lparr>open_txs := alist_del tid (open_txs st)\<rparr>"

definition tx_info :: "tx_limits \<Rightarrow> 'b registry \<Rightarrow> string \<Rightarrow> string \<Rightarrow> nat \<Rightarrow> 'b registry \<times> (tx_error + nat \<times> nat)" where
  "tx_info lim st tid owner now =
     (case map_of (open_txs st) tid of
        None \<Rightarrow> (st, Inl (missing st tid owner))
      | Some slot \<Rightarrow>
          if \<not> same_owner (slot_owner slot) owner then (st, Inl TxNotFound)
          else if slot_body slot = None then (st, Inl TxBusy)
          else if deadline slot \<le> now
          then (fst (expire lim st tid now), Inl (TxExpired (slot_expiry lim slot)))
          else (st, Inr (deadline_wall slot, op_count slot)))"

definition tx_close :: "'b registry \<Rightarrow> 'b registry \<times> nat" where
  "tx_close st =
     (let idle = map fst (filter (\<lambda>(_, slot). slot_body slot \<noteq> None) (open_txs st))
      in (st\<lparr>closed := True, open_txs := fold alist_del idle (open_txs st)\<rparr>, length idle))"

definition reap :: "tx_limits \<Rightarrow> 'b registry \<Rightarrow> nat \<Rightarrow> ('b registry \<times> nat) option" where
  "reap lim st now = map_option (\<lambda>(st, reaped). (st, length reaped)) (reap_locked lim st now)"

section \<open>Requests\<close>

text \<open>
  A request that changes a transaction checks it out, works on it without the lock, and hands
  it back: \<open>run\<close> checks it in (or ends it, when the statement panics), \<open>commit\<close> and
  \<open>rollback\<close> end it. \<open>held\<close> lists the requests that are between the two. \<open>used\<close> holds the
  ids given out: 128 random bits do not repeat.
\<close>

datatype tx_request = Run | Commit | Rollback

record 'b tx_sys =
  reg :: "'b registry"
  held :: "(string \<times> tx_request) list"
  used :: "string set"

definition tx_init :: "'b tx_sys" where
  "tx_init = \<lparr>reg = registry_new, held = [], used = {}\<rparr>"

inductive tx_step :: "tx_limits \<Rightarrow> 'b tx_sys \<Rightarrow> 'b tx_sys \<Rightarrow> bool" for lim where
  ask: "has_room lim (reg s) now = Some (r, res) \<Longrightarrow> tx_step lim s (s\<lparr>reg := r\<rparr>)"
| begin_tx: "tid \<notin> used s \<Longrightarrow> tx_begin lim (reg s) tid owner body now wall = Some (r, res) \<Longrightarrow>
    tx_step lim s (s\<lparr>reg := r, used := insert tid (used s)\<rparr>)"
| take_out: "checkout lim (reg s) tid owner now = (r, Inr body) \<Longrightarrow>
    tx_step lim s (s\<lparr>reg := r, held := (tid, request) # held s\<rparr>)"
| refuse: "checkout lim (reg s) tid owner now = (r, Inl e) \<Longrightarrow> tx_step lim s (s\<lparr>reg := r\<rparr>)"
| hand_back: "(tid, Run) \<in> set (held s) \<Longrightarrow> checkin lim (reg s) tid body ran_ok now wall = (r, res) \<Longrightarrow>
    tx_step lim s (s\<lparr>reg := r, held := remove1 (tid, Run) (held s)\<rparr>)"
| end_tx: "(tid, request) \<in> set (held s) \<Longrightarrow>
    tx_step lim s (s\<lparr>reg := tx_finish (reg s) tid, held := remove1 (tid, request) (held s)\<rparr>)"
| look: "tx_info lim (reg s) tid owner now = (r, res) \<Longrightarrow> tx_step lim s (s\<lparr>reg := r\<rparr>)"
| shut: "tx_close (reg s) = (r, n) \<Longrightarrow> tx_step lim s (s\<lparr>reg := r\<rparr>)"
| sweep: "reap lim (reg s) now = Some (r, n) \<Longrightarrow> tx_step lim s (s\<lparr>reg := r\<rparr>)"
| rehash: "mset (open_txs r) = mset (open_txs (reg s)) \<Longrightarrow> mset (expired r) = mset (expired (reg s)) \<Longrightarrow>
    closed r = closed (reg s) \<Longrightarrow> tx_step lim s (s\<lparr>reg := r\<rparr>)"

inductive tx_reachable :: "tx_limits \<Rightarrow> 'b tx_sys \<Rightarrow> bool" for lim where
  init: "tx_reachable lim tx_init"
| step: "tx_reachable lim s \<Longrightarrow> tx_step lim s s' \<Longrightarrow> tx_reachable lim s'"


section \<open>Owners\<close>

lemma same_owner_iff [simp]: "same_owner a b \<longleftrightarrow> a = b"
  by (simp add: same_owner_def)

section \<open>What the operations do to the registry\<close>

lemma expire_simps [simp]:
  "open_txs (fst (expire lim st tid now)) = alist_del tid (open_txs st)"
  "closed (fst (expire lim st tid now)) = closed st"
  by (auto simp: expire_def remember_def Let_def alist_del_absent map_of_None_keys split: option.split)

lemma expire_all_simps [simp]:
  "open_txs (fst (expire_all lim now ids st)) = filter (\<lambda>(k, _). k \<notin> set ids) (open_txs st)"
  "closed (fst (expire_all lim now ids st)) = closed st"
proof (induction ids arbitrary: st)
  case (Cons tid ids)
  { case 1 show ?case using Cons(1) [of "fst (expire lim st tid now)"]
      by (auto simp: case_prod_beta Let_def alist_del_def intro: filter_cong) }
  { case 2 show ?case using Cons(2) [of "fst (expire lim st tid now)"] by (simp add: case_prod_beta Let_def) }
qed simp_all

lemma reap_locked_open:
  assumes "distinct (keys (open_txs st))" "reap_locked lim st now = Some (st', reaped)"
  shows "open_txs st' = filter (\<lambda>(_, slot). \<not> due lim now slot) (open_txs st)" "closed st' = closed st"
proof -
  let ?ids = "map fst (filter (\<lambda>(_, slot). due lim now slot) (open_txs st))"
  obtain keep where k: "retention lim = Some keep" using assms(2) by (cases "retention lim") (simp_all add: reap_locked_def)
  define st0 where "st0 = st\<lparr>expired := filter (\<lambda>(_, t). now - expired_at t < keep) (expired st)\<rparr>"
  have "expire_all lim now ?ids st0 = (st', reaped)" using assms(2) k by (simp add: reap_locked_def Let_def st0_def)
  then have s: "st' = fst (expire_all lim now ?ids st0)" "open_txs st0 = open_txs st" "closed st0 = closed st"
    by (simp_all add: st0_def)
  then show "closed st' = closed st" by simp
  show "open_txs st' = filter (\<lambda>(_, slot). \<not> due lim now slot) (open_txs st)"
    unfolding s(1) expire_all_simps s(2)
    by (rule filter_cong) (force dest: eq_key_imp_eq_value [OF assms(1)])+
qed


subsection \<open>The tombstones\<close>

definition tombs_ok :: "'b registry \<Rightarrow> bool" where
  "tombs_ok st \<longleftrightarrow> distinct (keys (expired st)) \<and> length (expired st) \<le> MAX_TOMBSTONES"

lemma length_update_le: "length (AList.update k v xs) \<le> Suc (length xs)"
  by (induction xs) auto

lemma distinct_keys_del: "distinct (keys xs) \<Longrightarrow> distinct (keys (alist_del k xs))"
  by (simp add: alist_del_def distinct_map inj_on_def)

lemma remember_tombs: "tombs_ok st \<Longrightarrow> tombs_ok (remember st tid owner now why)"
proof -
  assume ok: "tombs_ok st"
  define es where "es = (if length (expired st) \<ge> MAX_TOMBSTONES then
                  (case expired st of
                     [] \<Rightarrow> []
                   | es \<Rightarrow> alist_del (fst (arg_min_list (\<lambda>(_, t). expired_at t) es)) es)
                else expired st)"
  have "distinct (keys es) \<and> length es < MAX_TOMBSTONES"
  proof (cases "length (expired st) \<ge> MAX_TOMBSTONES")
    case True
    then obtain e rest where e: "expired st = e # rest" by (cases "expired st") (auto simp: MAX_TOMBSTONES_def)
    have m: "arg_min_list (\<lambda>(_, t). expired_at t) (expired st) \<in> set (expired st)" using e by (intro arg_min_list_in) simp
    then have "map_of (expired st) (fst (arg_min_list (\<lambda>(_, t). expired_at t) (expired st))) \<noteq> None"
      by (metis map_of_None_keys image_eqI set_map)
    then have "length (alist_del (fst (arg_min_list (\<lambda>(_, t). expired_at t) (expired st))) (expired st)) < MAX_TOMBSTONES"
      using length_alist_del [of "expired st"] ok by (fastforce simp: tombs_ok_def)
    then show ?thesis using ok True e by (simp add: es_def tombs_ok_def distinct_keys_del)
  qed (use ok in \<open>simp_all add: es_def tombs_ok_def\<close>)
  then show "tombs_ok (remember st tid owner now why)"
    using le_trans [OF length_update_le [of tid _ es], of MAX_TOMBSTONES] unfolding remember_def es_def [symmetric] Let_def
    by (simp add: tombs_ok_def distinct_update Suc_le_eq)
qed

lemma expire_tombs: "tombs_ok st \<Longrightarrow> tombs_ok (fst (expire lim st tid now))"
  by (auto simp: expire_def tombs_ok_def split: option.split intro!: remember_tombs [unfolded tombs_ok_def])

lemma expire_all_tombs: "tombs_ok st \<Longrightarrow> tombs_ok (fst (expire_all lim now ids st))"
  by (induction ids arbitrary: st) (auto simp: case_prod_beta Let_def intro: expire_tombs)

lemma reap_locked_tombs:
  assumes "tombs_ok st" "reap_locked lim st now = Some (st', reaped)"
  shows "tombs_ok st'"
proof -
  obtain keep where k: "retention lim = Some keep" using assms(2) by (cases "retention lim") (simp_all add: reap_locked_def)
  define st0 where "st0 = st\<lparr>expired := filter (\<lambda>(_, t). now - expired_at t < keep) (expired st)\<rparr>"
  have "length (expired st0) \<le> length (expired st)" by (simp add: st0_def)
  then have "tombs_ok st0" using assms(1) by (simp add: tombs_ok_def) (simp add: st0_def distinct_map inj_on_def)
  then have "tombs_ok (fst (expire_all lim now (map fst (filter (\<lambda>(_, slot). due lim now slot) (open_txs st))) st0))"
    by (rule expire_all_tombs)
  then show ?thesis using assms(2) k by (simp add: reap_locked_def Let_def st0_def)
qed

section \<open>The invariant\<close>

definition tx_slots_ok :: "tx_limits \<Rightarrow> 'b tx_sys \<Rightarrow> bool" where
  "tx_slots_ok lim s \<longleftrightarrow>
     (\<forall>(tid, slot) \<in> set (open_txs (reg s)).
        tid \<in> used s \<and> deadline slot \<le> born slot + max_lifetime lim \<and>
        (slot_body slot = None \<longleftrightarrow> tid \<in> fst ` set (held s)) \<and>
        (closed (reg s) \<longrightarrow> slot_body slot = None))"

definition tx_inv :: "tx_limits \<Rightarrow> 'b tx_sys \<Rightarrow> bool" where
  "tx_inv lim s \<longleftrightarrow>
     distinct (keys (open_txs (reg s))) \<and> length (open_txs (reg s)) \<le> max_open lim \<and>
     tombs_ok (reg s) \<and> distinct (keys (held s)) \<and> fst ` set (held s) \<subseteq> used s \<and> tx_slots_ok lim s"

lemma tx_inv_init: "tx_inv lim tx_init"
  by (simp add: tx_inv_def tx_init_def registry_new_def tombs_ok_def tx_slots_ok_def)

text \<open>Removing slots keeps the invariant, whatever the requests in progress hold.\<close>

lemma tx_inv_shrink:
  assumes "tx_inv lim s" "open_txs r = filter P (open_txs (reg s))" "closed r = closed (reg s)" "tombs_ok r"
  shows "tx_inv lim (s\<lparr>reg := r\<rparr>)"
proof -
  have "length (open_txs r) \<le> max_open lim"
    using le_trans [OF length_filter_le, of "open_txs (reg s)"] assms(1) unfolding assms(2) tx_inv_def by blast
  moreover have "distinct (keys (open_txs r))"
    using assms(1) by (simp add: assms(2) tx_inv_def distinct_map inj_on_def)
  moreover have "tx_slots_ok lim (s\<lparr>reg := r\<rparr>)" using assms(1) by (auto simp: assms(2,3) tx_inv_def tx_slots_ok_def)
  ultimately show ?thesis using assms(1,4) by (simp add: tx_inv_def)
qed

lemma alist_del_filter: "alist_del k es = filter (\<lambda>e. fst e \<noteq> k) es"
  by (rule alist_del_def)

text \<open>Replacing the slot of an open transaction.\<close>

lemma set_update_distinct:
  assumes "distinct (keys es)" "map_of es k = Some v"
  shows "set (AList.update k w es) = {e \<in> set es. fst e \<noteq> k} \<union> {(k, w)}" "length (AList.update k w es) = length es"
    "distinct (keys (AList.update k w es))"
proof -
  show "distinct (keys (AList.update k w es))" using assms(1) by (rule distinct_update)
  show "set (AList.update k w es) = {e \<in> set es. fst e \<noteq> k} \<union> {(k, w)}"
    using assms by (induction es) (force split: if_splits)+
  show "length (AList.update k w es) = length es" using assms(2) by (induction es) (auto split: if_splits)
qed

lemma tx_inv_reap:
  assumes "tx_inv lim s" "reap_locked lim (reg s) now = Some (r, reaped)"
  shows "tx_inv lim (s\<lparr>reg := r\<rparr>)" "closed r = closed (reg s)"
proof -
  have d: "distinct (keys (open_txs (reg s)))" "tombs_ok (reg s)" using assms(1) by (simp_all add: tx_inv_def)
  note o = reap_locked_open [OF d(1) assms(2)]
  show "tx_inv lim (s\<lparr>reg := r\<rparr>)" using assms(1) o reap_locked_tombs [OF d(2) assms(2)] by (rule tx_inv_shrink)
  show "closed r = closed (reg s)" by (rule o(2))
qed

lemma tx_inv_expire: "tx_inv lim s \<Longrightarrow> tx_inv lim (s\<lparr>reg := fst (expire lim (reg s) tid now)\<rparr>)"
  by (rule tx_inv_shrink) (simp_all add: alist_del_filter expire_tombs tx_inv_def)

lemma tx_inv_insert:
  assumes "tx_inv lim s" "tid \<notin> used s" "length (open_txs (reg s)) < max_open lim" "\<not> closed (reg s)"
    "deadline slot \<le> born slot + max_lifetime lim" "slot_body slot \<noteq> None"
  shows "tx_inv lim (s\<lparr>reg := (reg s)\<lparr>open_txs := AList.update tid slot (open_txs (reg s))\<rparr>, used := insert tid (used s)\<rparr>)"
proof -
  have "tid \<notin> set (keys (open_txs (reg s)))" "tid \<notin> fst ` set (held s)"
    using assms(1,2) by (auto simp: tx_inv_def tx_slots_ok_def)
  then show ?thesis using assms by (auto simp: tx_inv_def tx_slots_ok_def alist_update_new tombs_ok_def)
qed

lemma tx_inv_replace:
  assumes "tx_inv lim s" "map_of (open_txs (reg s)) tid = Some old"
    "deadline slot \<le> born slot + max_lifetime lim" "distinct (keys hs)"
    "slot_body slot = None \<longleftrightarrow> tid \<in> fst ` set hs" "closed (reg s) \<longrightarrow> slot_body slot = None"
    "\<And>k. k \<noteq> tid \<Longrightarrow> k \<in> fst ` set hs \<longleftrightarrow> k \<in> fst ` set (held s)"
  shows "tx_inv lim (s\<lparr>reg := (reg s)\<lparr>open_txs := AList.update tid slot (open_txs (reg s))\<rparr>, held := hs\<rparr>)"
proof -
  have d: "distinct (keys (open_txs (reg s)))" using assms(1) by (simp add: tx_inv_def)
  have t: "tid \<in> used s" using assms(1) map_of_SomeD [OF assms(2)] by (auto simp: tx_inv_def tx_slots_ok_def)
  have u: "fst ` set (held s) \<subseteq> used s" using assms(1) by (simp add: tx_inv_def)
  have h: "fst ` set hs \<subseteq> used s"
  proof
    fix k assume "k \<in> fst ` set hs"
    then show "k \<in> used s" using t u assms(7) [of k] by (cases "k = tid") blast+
  qed
  have "tx_slots_ok lim (s\<lparr>reg := (reg s)\<lparr>open_txs := AList.update tid slot (open_txs (reg s))\<rparr>, held := hs\<rparr>)"
    unfolding tx_slots_ok_def
  proof (rule ballI, clarify)
    fix k v
    assume "(k, v) \<in> set (open_txs (reg (s\<lparr>reg := (reg s)\<lparr>open_txs := AList.update tid slot (open_txs (reg s))\<rparr>, held := hs\<rparr>)))"
    then consider "k = tid" "v = slot" | "k \<noteq> tid" "(k, v) \<in> set (open_txs (reg s))"
      by (auto simp: set_update_distinct(1) [OF d assms(2)])
    then show "k \<in> used (s\<lparr>reg := (reg s)\<lparr>open_txs := AList.update tid slot (open_txs (reg s))\<rparr>, held := hs\<rparr>) \<and>
        deadline v \<le> born v + max_lifetime lim \<and>
        (slot_body v = None \<longleftrightarrow> k \<in> fst ` set (held (s\<lparr>reg := (reg s)\<lparr>open_txs := AList.update tid slot (open_txs (reg s))\<rparr>, held := hs\<rparr>))) \<and>
        (closed (reg (s\<lparr>reg := (reg s)\<lparr>open_txs := AList.update tid slot (open_txs (reg s))\<rparr>, held := hs\<rparr>)) \<longrightarrow> slot_body v = None)"
    proof cases
      case 1
      then show ?thesis using t assms(3,5,6) by simp
    next
      case 2
      then show ?thesis using assms(1,7) by (force simp: tx_inv_def tx_slots_ok_def)
    qed
  qed
  then show ?thesis using assms(1,4) h by (simp add: tx_inv_def set_update_distinct [OF d assms(2)] tombs_ok_def)
qed

lemma tx_inv_held_gone:
  assumes "tx_inv lim s" "distinct (keys hs)" "tid \<notin> set (keys (open_txs (reg s)))"
    "fst ` set hs = fst ` set (held s) - {tid}"
  shows "tx_inv lim (s\<lparr>held := hs\<rparr>)"
  using assms unfolding tx_inv_def tx_slots_ok_def by (auto simp: image_iff)

lemma held_removed:
  assumes "distinct (keys hs)" "(tid, request) \<in> set hs"
  shows "distinct (keys (remove1 (tid, request) hs))" "fst ` set (remove1 (tid, request) hs) = fst ` set hs - {tid}"
proof -
  have "distinct hs" using assms(1) by (simp add: distinct_map)
  then have s: "set (remove1 (tid, request) hs) = set hs - {(tid, request)}" by (rule set_remove1_eq)
  show "distinct (keys (remove1 (tid, request) hs))"
    using assms(1) \<open>distinct hs\<close> by (auto simp: distinct_map s inj_on_def)
  have only: "fst x \<noteq> tid" if "x \<in> set hs" "x \<noteq> (tid, request)" for x
    using that eq_key_imp_eq_value [OF assms(1) assms(2), of "snd x"] by (metis prod.collapse)
  have "set hs - {(tid, request)} = {x \<in> set hs. fst x \<noteq> tid}" using only by auto
  then show "fst ` set (remove1 (tid, request) hs) = fst ` set hs - {tid}" unfolding s by auto
qed

lemma fold_alist_del: "fold alist_del ks es = filter (\<lambda>(k, _). k \<notin> set ks) es"
  by (induction ks arbitrary: es) (simp_all add: alist_del_def case_prod_unfold conj_comms)

lemma keys_alist_del: "fst ` set (alist_del k es) = fst ` set es - {k}"
  by (auto simp: alist_del_def)

lemma mset_keys: "mset xs = mset ys \<Longrightarrow> distinct (keys xs) = distinct (keys ys)"
  by (metis mset_eq_imp_distinct_iff mset_map)

lemma tx_inv_step: "tx_step lim s s' \<Longrightarrow> tx_inv lim s \<Longrightarrow> tx_inv lim s'"
proof (induction rule: tx_step.induct)
  case (ask s now r res)
  then show ?case by (auto simp: has_room_def split: if_splits intro: tx_inv_reap)
next
  case (begin_tx tid s owner body now wall r res)
  show ?case
  proof (cases "closed (reg s)")
    case True
    then have "r = reg s" using begin_tx(2) by (simp add: tx_begin_def next_deadline_def Let_def)
    then show ?thesis using begin_tx(3) by (auto simp: tx_inv_def tx_slots_ok_def)
  next
    case False
    then obtain r1 reaped where r1: "reap_locked lim (reg s) now = Some (r1, reaped)"
      using begin_tx(2) by (auto simp: tx_begin_def next_deadline_def Let_def)
    note i = tx_inv_reap [OF begin_tx(3) r1]
    show ?thesis
    proof (cases "length (open_txs r1) \<ge> max_open lim")
      case True
      then have "r = r1" using begin_tx(2) False r1 by (simp add: tx_begin_def next_deadline_def Let_def)
      then show ?thesis using i(1) by (auto simp: tx_inv_def tx_slots_ok_def)
    next
      case room: False
      define slot where "slot = \<lparr>slot_owner = owner, born = now, deadline = fst (next_deadline lim now wall now),
        deadline_wall = snd (next_deadline lim now wall now), op_count = 0, slot_body = Some body\<rparr>"
      have "r = r1\<lparr>open_txs := AList.update tid slot (open_txs r1)\<rparr>"
        using begin_tx(2) False r1 room by (simp add: tx_begin_def next_deadline_def Let_def slot_def)
      then show ?thesis
        using tx_inv_insert [of lim "s\<lparr>reg := r1\<rparr>" tid slot] i False begin_tx(1) room
        by (simp add: slot_def next_deadline_def Let_def)
    qed
  qed
next
  case (take_out s tid owner now r body request)
  then obtain slot where sl: "map_of (open_txs (reg s)) tid = Some slot" "slot_body slot = Some body"
      "r = (reg s)\<lparr>open_txs := AList.update tid (slot\<lparr>slot_body := None\<rparr>) (open_txs (reg s))\<rparr>"
    by (auto simp: checkout_def split: option.splits if_splits)
  have "deadline slot \<le> born slot + max_lifetime lim" "tid \<notin> fst ` set (held s)"
    using take_out(2) map_of_SomeD [OF sl(1)] sl(2) by (auto simp: tx_inv_def tx_slots_ok_def)
  then show ?case unfolding sl(3) using take_out(2) sl(1)
    by (intro tx_inv_replace) (auto simp: tx_inv_def)
next
  case (refuse s tid owner now r e)
  then have "r = reg s \<or> r = fst (expire lim (reg s) tid now)"
    by (auto simp: checkout_def split: option.splits if_splits)
  then show ?case using refuse(2) tx_inv_expire by auto
next
  case (hand_back tid s body ran_ok now wall r res)
  have dh: "distinct (keys (held s))" using hand_back(3) by (simp add: tx_inv_def)
  note h = held_removed [OF dh hand_back(1)]
  show ?case
  proof (cases "closed (reg s)")
    case True
    then have r: "r = (reg s)\<lparr>open_txs := alist_del tid (open_txs (reg s))\<rparr>" using hand_back(2) by (simp add: checkin_def)
    then have "tx_inv lim (s\<lparr>reg := r\<rparr>)"
      by (intro tx_inv_shrink [OF hand_back(3)]) (use hand_back(3) in \<open>simp_all add: alist_del_filter tx_inv_def tombs_ok_def\<close>)
    from tx_inv_held_gone [OF this h(1), of tid] h(2) show ?thesis by (simp add: r keys_alist_del)
  next
    case False
    show ?thesis
    proof (cases "map_of (open_txs (reg s)) tid")
      case None
      then have "r = reg s" using hand_back(2) False by (simp add: checkin_def Let_def)
      then show ?thesis using tx_inv_held_gone [OF hand_back(3) h(1), of tid] h(2) None by (simp add: map_of_None_keys)
    next
      case (Some slot)
      define new where "new = slot\<lparr>slot_body := Some body, deadline := fst (next_deadline lim now wall (born slot)),
        deadline_wall := snd (next_deadline lim now wall (born slot)), op_count := op_count slot + (if ran_ok then 1 else 0)\<rparr>"
      have "r = (reg s)\<lparr>open_txs := AList.update tid new (open_txs (reg s))\<rparr>"
        using hand_back(2) False Some by (simp add: checkin_def Let_def case_prod_beta new_def)
      then show ?thesis using tx_inv_replace [OF hand_back(3) Some, of new, OF _ h(1)] h(2) False
        by (simp add: new_def next_deadline_def Let_def)
    qed
  qed
next
  case (end_tx tid request s)
  have dh: "distinct (keys (held s))" using end_tx(2) by (simp add: tx_inv_def)
  note h = held_removed [OF dh end_tx(1)]
  have "tx_inv lim (s\<lparr>reg := tx_finish (reg s) tid\<rparr>)"
    by (intro tx_inv_shrink [OF end_tx(2)]) (use end_tx(2) in \<open>simp_all add: tx_finish_def alist_del_filter tx_inv_def tombs_ok_def\<close>)
  from tx_inv_held_gone [OF this h(1), of tid] h(2) show ?case by (simp add: tx_finish_def keys_alist_del)
next
  case (look s tid owner now r res)
  then have "r = reg s \<or> r = fst (expire lim (reg s) tid now)"
    by (auto simp: tx_info_def split: option.splits if_splits)
  then show ?case using look(2) tx_inv_expire by auto
next
  case (shut s r n)
  define P where "P = (\<lambda>(tid, _ :: 'a slot). tid \<notin> fst ` {x \<in> set (open_txs (reg s)). case x of (_, slot) \<Rightarrow> slot_body slot \<noteq> None})"
  have "tx_inv lim (s\<lparr>reg := (reg s)\<lparr>open_txs := filter P (open_txs (reg s))\<rparr>\<rparr>)"
    by (rule tx_inv_shrink [OF shut(2)]) (use shut(2) in \<open>simp_all add: tx_inv_def tombs_ok_def\<close>)
  moreover have "\<forall>(tid, slot) \<in> set (filter P (open_txs (reg s))). slot_body slot = None" by (force simp: P_def)
  moreover have "r = (reg s)\<lparr>open_txs := filter P (open_txs (reg s)), closed := True\<rparr>"
    using shut(1) by (auto simp: tx_close_def Let_def fold_alist_del P_def)
  ultimately show ?case by (fastforce simp: tx_inv_def tx_slots_ok_def tombs_ok_def)
next
  case (sweep s now r n)
  then show ?case by (auto simp: reap_def intro: tx_inv_reap)
next
  case (rehash r s)
  have "set (open_txs r) = set (open_txs (reg s))" "length (open_txs r) = length (open_txs (reg s))"
      "length (expired r) = length (expired (reg s))"
    using rehash(1,2) by (auto dest: mset_eq_setD mset_eq_length)
  then show ?case using rehash(3,4) mset_keys [OF rehash(1)] mset_keys [OF rehash(2)]
    by (simp add: tx_inv_def tx_slots_ok_def tombs_ok_def)
qed


lemma tx_inv_reachable: "tx_reachable lim s \<Longrightarrow> tx_inv lim s"
  by (induction rule: tx_reachable.induct) (auto intro: tx_inv_init tx_inv_step)

section \<open>Expiry\<close>

definition tomb_of :: "tx_limits \<Rightarrow> nat \<Rightarrow> 'b slot \<Rightarrow> tombstone" where
  "tomb_of lim now slot = \<lparr>tomb_owner = slot_owner slot, expired_at = now, tomb_why = slot_expiry lim slot\<rparr>"

lemma expire_open:
  assumes "map_of (open_txs st) tid = Some slot" "length (expired st) < MAX_TOMBSTONES"
  shows "snd (expire lim st tid now) = Some slot"
    "map_of (expired (fst (expire lim st tid now))) = (map_of (expired st))(tid \<mapsto> tomb_of lim now slot)"
    "length (expired (fst (expire lim st tid now))) \<le> Suc (length (expired st))"
  using assms by (simp_all add: expire_def remember_def tomb_of_def update_conv' length_update_le)

lemma expire_all_due:
  assumes "distinct ids" "\<And>k. k \<in> set ids \<Longrightarrow> map_of (open_txs st) k = Some (f k)"
    "length (expired st) + length ids \<le> MAX_TOMBSTONES"
  shows "map_of (expired (fst (expire_all lim now ids st))) =
      (\<lambda>k. if k \<in> set ids then Some (tomb_of lim now (f k)) else map_of (expired st) k)"
  using assms
proof (induction ids arbitrary: st)
  case (Cons tid ids)
  let ?st = "fst (expire lim st tid now)"
  have f: "map_of (open_txs st) tid = Some (f tid)" "length (expired st) < MAX_TOMBSTONES" using Cons.prems(2,3) by auto
  have "map_of (expired (fst (expire_all lim now ids ?st))) =
      (\<lambda>k. if k \<in> set ids then Some (tomb_of lim now (f k)) else map_of (expired ?st) k)"
    using Cons.prems expire_open(3) [OF f, of lim now]
    by (intro Cons.IH) (auto simp: map_of_alist_del)
  then show ?case using Cons.prems(1) by (auto simp: case_prod_beta Let_def expire_open(2) [OF f] fun_eq_iff)
qed simp

lemma expire_all_length:
  assumes "distinct ids" "set ids \<subseteq> set (keys (open_txs st))"
  shows "length (snd (expire_all lim now ids st)) = length ids"
  using assms
proof (induction ids arbitrary: st)
  case (Cons tid ids)
  have "map_of (open_txs st) tid \<noteq> None" using Cons.prems(2) by (auto simp: map_of_None_keys)
  then have "snd (expire lim st tid now) \<noteq> None" by (auto simp: expire_def)
  moreover have "length (snd (expire_all lim now ids (fst (expire lim st tid now)))) = length ids"
    using Cons.prems by (intro Cons.IH) (auto simp: keys_alist_del)
  ultimately show ?case by (auto simp: case_prod_beta Let_def)
qed simp

text \<open>A timeout that is accepted as a setting can be too long for the registry: every request to
  begin a transaction then panics.\<close>

lemma long_idle_timeout_panics:
  assumes "2 ^ 64 * NANOS_PER_SEC \<le> idle_timeout lim * 10" "\<not> closed st"
  shows "has_room lim st now = None \<and> tx_begin lim st tid owner body now wall = None"
  using assms by (simp add: has_room_def tx_begin_def reap_locked_def retention_def next_deadline_def Let_def)

text \<open>A reachable state with one transaction, checked out by a running statement.\<close>

definition busy_sys :: "unit tx_sys" where
  "busy_sys =
     \<lparr>reg = \<lparr>open_txs = [(''a'', \<lparr>slot_owner = ''me'', born = 5, deadline = 30000000005,
                deadline_wall = 30000000009, op_count = 0, slot_body = None\<rparr>)],
             expired = [], closed = False\<rparr>,
      held = [(''a'', Run)], used = {''a''}\<rparr>"

lemma busy_reachable: "tx_reachable default_limits busy_sys"
proof -
  let ?slot = "\<lparr>slot_owner = ''me'', born = 5, deadline = 30000000005, deadline_wall = 30000000009, op_count = 0, slot_body = Some ()\<rparr>"
  let ?r = "\<lparr>open_txs = [(''a'', ?slot)], expired = [], closed = False\<rparr>"
  have "tx_begin default_limits (reg tx_init) ''a'' ''me'' () 5 9 = Some (?r, Inr (''a'', 30000000009))"
    by (simp add: tx_begin_def tx_init_def registry_new_def reap_locked_def retention_def next_deadline_def
        default_limits_def NANOS_PER_SEC_def)
  from tx_step.begin_tx [OF _ this] have "tx_reachable default_limits (tx_init\<lparr>reg := ?r, used := {''a''}\<rparr>)"
    using tx_reachable.step [OF tx_reachable.init] by (simp add: tx_init_def)
  moreover have "checkout default_limits ?r ''a'' ''me'' 6 = (?r\<lparr>open_txs := [(''a'', ?slot\<lparr>slot_body := None\<rparr>)]\<rparr>, Inr ())"
    by (simp add: checkout_def)
  ultimately show ?thesis
    using tx_reachable.step [OF _ tx_step.take_out [where s = "tx_init\<lparr>reg := ?r, used := {''a''}\<rparr>" and request = Run]]
    by (fastforce simp: busy_sys_def tx_init_def)
qed

section \<open>Properties\<close>

text \<open>C24. Whatever requests interleave, at most one request works on a transaction at a time: no
  two requests in progress hold the same id, an open transaction is checked out exactly when a
  request in progress holds it, and checking out an id that is held is refused whoever asks and
  whenever. Once the store is closed and the requests in progress have ended, no transaction is
  left open.\<close>

theorem tx_requests_exclusive:
  assumes "tx_reachable lim s"
  shows "distinct (keys (held s)) \<and>
    (\<forall>(tid, slot) \<in> set (open_txs (reg s)). slot_body slot = None \<longleftrightarrow> tid \<in> fst ` set (held s)) \<and>
    (\<forall>tid \<in> fst ` set (held s). \<forall>owner now body. snd (checkout lim (reg s) tid owner now) \<noteq> Inr body) \<and>
    (closed (reg s) \<and> held s = [] \<longrightarrow> open_txs (reg s) = [])"
proof -
  note i = tx_inv_reachable [OF assms]
  have b: "\<forall>(tid, slot) \<in> set (open_txs (reg s)). slot_body slot = None \<longleftrightarrow> tid \<in> fst ` set (held s)"
    using i by (auto simp: tx_inv_def tx_slots_ok_def)
  moreover have "snd (checkout lim (reg s) tid owner now) \<noteq> Inr body" if "tid \<in> fst ` set (held s)" for tid owner now body
  proof (cases "map_of (open_txs (reg s)) tid")
    case (Some slot)
    then have "slot_body slot = None" using b that map_of_SomeD by fastforce
    then show ?thesis using Some by (simp add: checkout_def)
  qed (simp add: checkout_def)
  moreover have "open_txs (reg s) = []" if "closed (reg s)" "held s = []"
    using i that by (cases "open_txs (reg s)") (auto simp: tx_inv_def tx_slots_ok_def)
  ultimately show ?thesis using i by (auto simp: tx_inv_def)
qed

theorem tx_requests_exclusive_witness:
  "\<forall>body. snd (checkout default_limits (reg busy_sys) ''a'' ''me'' 7) \<noteq> Inr body"
  using tx_requests_exclusive [OF busy_reachable] by (simp add: busy_sys_def)

text \<open>C25. The registry stays bounded: over any interleaving there are never more open transactions
  than the limit, never more remembered ids than \<open>MAX_TOMBSTONES\<close>, one slot per id, and no
  idle deadline, however often it was renewed, lies past the birth of its transaction plus the
  maximum lifetime.\<close>

theorem tx_registry_bounded:
  assumes "tx_reachable lim s"
  shows "length (open_txs (reg s)) \<le> max_open lim \<and> length (expired (reg s)) \<le> MAX_TOMBSTONES \<and>
    distinct (keys (open_txs (reg s))) \<and>
    (\<forall>(tid, slot) \<in> set (open_txs (reg s)). deadline slot \<le> born slot + max_lifetime lim)"
  using tx_inv_reachable [OF assms] by (auto simp: tx_inv_def tx_slots_ok_def tombs_ok_def)

theorem tx_registry_bounded_witness:
  "length (open_txs (reg busy_sys)) \<le> 100 \<and> length (expired (reg busy_sys)) \<le> 10000"
  using tx_registry_bounded [OF busy_reachable] by (simp add: default_limits_def MAX_TOMBSTONES_def)

text \<open>C26. Expiry is exact: a sweep at an instant rolls back precisely the transactions that are
  idle past their deadline or, used or not, past their lifetime, and counts them; from then on,
  unless more ids expired than are remembered, the owner of each hears that it expired and by
  which limit, and never that it does not exist.\<close>

theorem tx_sweep_exact:
  assumes "tx_reachable lim s" "reap lim (reg s) now = Some (r, n)"
  shows "open_txs r = filter (\<lambda>(_, slot). \<not> due lim now slot) (open_txs (reg s)) \<and>
    n = length (filter (\<lambda>(_, slot). due lim now slot) (open_txs (reg s))) \<and>
    (length (expired (reg s)) + n \<le> MAX_TOMBSTONES \<longrightarrow>
      (\<forall>(tid, slot) \<in> set (open_txs (reg s)). due lim now slot \<longrightarrow>
        (\<forall>later. snd (checkout lim r tid (slot_owner slot) later) = Inl (TxExpired (slot_expiry lim slot)))))"
proof -
  let ?open = "open_txs (reg s)"
  define ids where "ids = map fst (filter (\<lambda>(_, slot). due lim now slot) ?open)"
  have d: "distinct (keys ?open)" using tx_inv_reachable [OF assms(1)] by (simp add: tx_inv_def)
  obtain reaped where reaped: "reap_locked lim (reg s) now = Some (r, reaped)" "n = length reaped"
    using assms(2) by (auto simp: reap_def)
  obtain keep where k: "retention lim = Some keep" using reaped(1) by (cases "retention lim") (simp_all add: reap_locked_def)
  define st0 where "st0 = (reg s)\<lparr>expired := filter (\<lambda>(_, t). now - expired_at t < keep) (expired (reg s))\<rparr>"
  have e: "expire_all lim now ids st0 = (r, reaped)" using reaped(1) k by (simp add: reap_locked_def Let_def st0_def ids_def)
  have ids: "distinct ids" "set ids \<subseteq> set (keys ?open)" using d by (auto simp: ids_def distinct_map inj_on_def)
  have o: "open_txs r = filter (\<lambda>(_, slot). \<not> due lim now slot) ?open" using d reaped(1) by (rule reap_locked_open)
  have n: "n = length ids" using expire_all_length [of ids st0 lim now] ids e reaped(2) by (simp add: st0_def)
  have "snd (checkout lim r tid (slot_owner slot) later) = Inl (TxExpired (slot_expiry lim slot))"
    if room: "length (expired (reg s)) + n \<le> MAX_TOMBSTONES" and t: "(tid, slot) \<in> set ?open" "due lim now slot" for tid slot later
  proof -
    have "length (expired st0) + length ids \<le> MAX_TOMBSTONES"
      using room n le_trans [OF add_le_mono1 [OF length_filter_le]] by (simp add: st0_def)
    moreover have "map_of (open_txs st0) k = Some (the (map_of ?open k))" if "k \<in> set ids" for k
    proof -
      have "map_of ?open k \<noteq> None" using that ids(2) by (auto simp: map_of_None_keys)
      then show ?thesis by (auto simp: st0_def)
    qed
    ultimately have "map_of (expired r) = (\<lambda>k. if k \<in> set ids then Some (tomb_of lim now (the (map_of ?open k))) else map_of (expired st0) k)"
      using expire_all_due [OF ids(1), of st0 "\<lambda>k. the (map_of ?open k)" lim now] e by simp
    moreover have "tid \<in> set ids" using t by (force simp: ids_def)
    moreover have "map_of ?open tid = Some slot" using d t(1) by simp
    moreover have "map_of (open_txs r) tid = None"
    proof (rule ccontr)
      assume "map_of (open_txs r) tid \<noteq> None"
      then obtain v where "(tid, v) \<in> set (open_txs r)" by (auto dest: map_of_SomeD)
      then have v: "(tid, v) \<in> set ?open" "\<not> due lim now v" by (simp_all add: o)
      have "slot = v" using d t(1) v(1) by (rule eq_key_imp_eq_value)
      then show False using t(2) v(2) by simp
    qed
    ultimately show ?thesis by (simp add: checkout_def missing_def tomb_of_def)
  qed
  then show ?thesis using o n by (auto simp: ids_def)
qed

theorem tx_sweep_exact_witness:
  "\<exists>r. reap default_limits (reg busy_sys) 400000000000 = Some (r, 1) \<and> open_txs r = [] \<and>
     snd (checkout default_limits r ''a'' ''me'' 400000000001) = Inl (TxExpired ExpiredLifetime)"
proof -
  have "retention default_limits \<noteq> None" by (simp add: retention_def default_limits_def NANOS_PER_SEC_def)
  then obtain r n where r: "reap default_limits (reg busy_sys) 400000000000 = Some (r, n)"
    by (cases "retention default_limits") (simp_all add: reap_def reap_locked_def Let_def case_prod_unfold)
  obtain slot where b: "open_txs (reg busy_sys) = [(''a'', slot)]" "expired (reg busy_sys) = []" "slot_owner slot = ''me''"
      "born slot = 5" "slot_body slot = None"
    by (simp add: busy_sys_def)
  have d: "due default_limits 400000000000 slot" "slot_expiry default_limits slot = ExpiredLifetime"
    by (simp_all add: b(4,5) due_def slot_expiry_def default_limits_def NANOS_PER_SEC_def)
  note e = tx_sweep_exact [OF busy_reachable r]
  have n: "n = 1" "open_txs r = []" using e b d by simp_all
  have "snd (checkout default_limits r ''a'' (slot_owner slot) 400000000001) = Inl (TxExpired (slot_expiry default_limits slot))"
    using e b(1,2) d(1) n(1) by (simp add: MAX_TOMBSTONES_def)
  then show ?thesis using r n b(3) d(2) by auto
qed

text \<open>An id reveals nothing to anyone but its owner: for a caller who owns neither the open
  transaction nor the remembered one, checking out and asking for information answer that it
  does not exist and change nothing, exactly as for an id that was never given out.\<close>

theorem tx_owner_only:
  assumes "\<forall>slot. map_of (open_txs st) tid = Some slot \<longrightarrow> slot_owner slot \<noteq> caller"
    "\<forall>t. map_of (expired st) tid = Some t \<longrightarrow> tomb_owner t \<noteq> caller"
  shows "checkout lim st tid caller now = (st, Inl TxNotFound) \<and> tx_info lim st tid caller now = (st, Inl TxNotFound)"
  using assms by (auto simp: checkout_def tx_info_def missing_def split: option.split)

theorem tx_owner_only_witness:
  "checkout default_limits (reg busy_sys) ''a'' ''you'' 7 = (reg busy_sys, Inl TxNotFound)"
  using tx_owner_only [of "reg busy_sys" "''a''" "''you''" default_limits 7] by (simp add: busy_sys_def)

end
