(* ===== verification/Bolt_Message.thy ===== *)
theory Bolt_Message
  imports Bolt_Wire Access Iso_Text
begin

text \<open>
  The Bolt messages: \<open>crates/bolt/src/messages/mod.rs\<close> (requests, responses and the size check
  before an encoding), \<open>hello.rs\<close>, \<open>run.rs\<close>, \<open>tx.rs\<close> and \<open>route.rs\<close> (the fields of each
  request), \<open>error.rs\<close> (the codes a failure carries), and the part of the read loop of
  \<open>connection.rs\<close> that cuts the buffer into messages.

  The \<open>Debug\<close> form of a string, which a few error texts quote, is the parameter \<open>dbg\<close>: the
  standard library escapes by a Unicode table. The version of the package, \<open>CARGO_PKG_VERSION\<close>, is
  set by the build and is a parameter too.
\<close>

section \<open>Errors\<close>

datatype bolt_error =
    Unauthorized
  | Forbidden string
  | ConstraintValidation string
  | SyntaxError string
  | TransactionTimedOut
  | DatabaseNotFound string
  | Conflict string
  | Unavailable string
  | Invalid string
  | TooLarge string
  | NotSupported string
  | Internal string

datatype classification = ClientClass | TransientClass | DatabaseClass

fun error_code :: "bolt_error \<Rightarrow> string" where
  "error_code Unauthorized = ''Neo.ClientError.Security.Unauthorized''"
| "error_code (Forbidden _) = ''Neo.ClientError.Security.Forbidden''"
| "error_code (ConstraintValidation _) = ''Neo.ClientError.Schema.ConstraintValidationFailed''"
| "error_code (SyntaxError _) = ''Neo.ClientError.Statement.SyntaxError''"
| "error_code TransactionTimedOut = ''Neo.ClientError.Transaction.TransactionTimedOut''"
| "error_code (DatabaseNotFound _) = ''Neo.ClientError.Database.DatabaseNotFound''"
| "error_code (Conflict _) = ''Neo.TransientError.Transaction.DeadlockDetected''"
| "error_code (Unavailable _) = ''Neo.TransientError.General.DatabaseUnavailable''"
| "error_code (Invalid _) = ''Neo.ClientError.Request.Invalid''"
| "error_code (TooLarge _) = ''Neo.ClientError.Request.Invalid''"
| "error_code (NotSupported _) = ''Neo.DatabaseError.General.UnknownError''"
| "error_code (Internal _) = ''Neo.DatabaseError.General.UnknownError''"

fun error_class :: "bolt_error \<Rightarrow> classification" where
  "error_class (Conflict _) = TransientClass"
| "error_class (Unavailable _) = TransientClass"
| "error_class (NotSupported _) = DatabaseClass"
| "error_class (Internal _) = DatabaseClass"
| "error_class _ = ClientClass"

fun error_message :: "bolt_error \<Rightarrow> string" where
  "error_message Unauthorized = ''The client is unauthorized due to authentication failure.''"
| "error_message TransactionTimedOut = ''The transaction was idle past its timeout and has been rolled back.''"
| "error_message (Forbidden m) = m"
| "error_message (ConstraintValidation m) = m"
| "error_message (SyntaxError m) = m"
| "error_message (DatabaseNotFound m) = m"
| "error_message (Conflict m) = m"
| "error_message (Unavailable m) = m"
| "error_message (Invalid m) = m"
| "error_message (TooLarge m) = m"
| "error_message (NotSupported m) = m"
| "error_message (Internal m) = m"

definition hex_digit :: "nat \<Rightarrow> char" where
  "hex_digit d = (if d < 10 then char_of (48 + d) else char_of (55 + d))"

definition hex_byte :: "u8 \<Rightarrow> string" where
  "hex_byte b = [hex_digit (unat b div 16), hex_digit (unat b mod 16)]"

fun pack_error_text :: "pack_error \<Rightarrow> string" where
  "pack_error_text Truncated = ''packstream: buffer ended inside a value''"
| "pack_error_text (ReservedMarker m) = ''packstream: reserved marker 0x'' @ hex_byte m"
| "pack_error_text InvalidUtf8 = ''packstream: string is not valid UTF-8''"
| "pack_error_text NonStringKey = ''packstream: map key is not a string''"
| "pack_error_text TooDeep = ''packstream: nesting deeper than '' @ decimal PACK_MAX_DEPTH"

section \<open>Requests\<close>

definition TAG_HELLO :: u8 where "TAG_HELLO = 0x01"
definition TAG_GOODBYE :: u8 where "TAG_GOODBYE = 0x02"
definition TAG_RESET :: u8 where "TAG_RESET = 0x0F"
definition TAG_RUN :: u8 where "TAG_RUN = 0x10"
definition TAG_BEGIN :: u8 where "TAG_BEGIN = 0x11"
definition TAG_COMMIT :: u8 where "TAG_COMMIT = 0x12"
definition TAG_ROLLBACK :: u8 where "TAG_ROLLBACK = 0x13"
definition TAG_DISCARD :: u8 where "TAG_DISCARD = 0x2F"
definition TAG_PULL :: u8 where "TAG_PULL = 0x3F"
definition TAG_ROUTE :: u8 where "TAG_ROUTE = 0x66"
definition TAG_SUCCESS :: u8 where "TAG_SUCCESS = 0x70"
definition TAG_RECORD :: u8 where "TAG_RECORD = 0x71"
definition TAG_IGNORED :: u8 where "TAG_IGNORED = 0x7E"
definition TAG_FAILURE :: u8 where "TAG_FAILURE = 0x7F"
definition MAX_PACK_LEN :: nat where "MAX_PACK_LEN = 2 ^ 32 - 1"
definition MAX_STRUCT_FIELDS :: nat where "MAX_STRUCT_FIELDS = 2 ^ 16 - 1"

datatype message_kind = KRun | KBegin | KCommit | KRollback | KDiscard | KPull | KRoute

record hello =
  user_agent :: "string option"
  hello_auth :: auth_token

datatype client_message = Hello hello | Goodbye | Reset | Other message_kind "pack_value list"

definition map_get :: "(string \<times> pack_value) list \<Rightarrow> string \<Rightarrow> pack_value option" where
  "map_get m key = map_option snd (find (\<lambda>(k, _). k = key) m)"

definition string_field :: "(string \<times> pack_value) list \<Rightarrow> string \<Rightarrow> string option" where
  "string_field m key = (case map_get m key of Some (PString s) \<Rightarrow> Some s | _ \<Rightarrow> None)"

definition hello_auth_token :: "(string \<times> pack_value) list \<Rightarrow> auth_token" where
  "hello_auth_token extra =
     (case string_field extra ''scheme'' of
        Some scheme \<Rightarrow>
          if scheme = ''basic'' then
            (case string_field extra ''credentials'' of
               Some c \<Rightarrow> Basic (string_field extra ''principal'') c | None \<Rightarrow> AuthUnknown)
          else if scheme = ''bearer'' then
            (case string_field extra ''credentials'' of Some c \<Rightarrow> Bearer c | None \<Rightarrow> AuthUnknown)
          else if scheme = ''none'' then AuthNone
          else AuthUnknown
      | None \<Rightarrow> AuthUnknown)"

definition hello_from_fields :: "pack_value list \<Rightarrow> bolt_error + hello" where
  "hello_from_fields vals =
     (case vals of
        [PMap extra] \<Rightarrow> Inr \<lparr>user_agent = string_field extra ''user_agent'', hello_auth = hello_auth_token extra\<rparr>
      | _ \<Rightarrow> Inl (Invalid ''HELLO takes exactly one map field''))"

definition other_kind :: "u8 \<Rightarrow> message_kind option" where
  "other_kind tag =
     (if tag = TAG_RUN then Some KRun
      else if tag = TAG_BEGIN then Some KBegin
      else if tag = TAG_COMMIT then Some KCommit
      else if tag = TAG_ROLLBACK then Some KRollback
      else if tag = TAG_DISCARD then Some KDiscard
      else if tag = TAG_PULL then Some KPull
      else if tag = TAG_ROUTE then Some KRoute
      else None)"

definition decode_message :: "u8 list \<Rightarrow> bolt_error + client_message" where
  "decode_message bytes =
     (case unpack bytes of
        Inl e \<Rightarrow> Inl (Invalid (''malformed message: '' @ pack_error_text e))
      | Inr (v, used) \<Rightarrow>
          if used \<noteq> length bytes then Inl (Invalid ''malformed message: bytes after the structure'')
          else (case v of
            PStruct tag vals \<Rightarrow>
              if tag = TAG_HELLO then bind_res (hello_from_fields vals) (\<lambda>h. Inr (Hello h))
              else if tag = TAG_GOODBYE then
                (if vals = [] then Inr Goodbye else Inl (Invalid ''GOODBYE takes no fields''))
              else if tag = TAG_RESET then
                (if vals = [] then Inr Reset else Inl (Invalid ''RESET takes no fields''))
              else (case other_kind tag of
                  Some kind \<Rightarrow> Inr (Other kind vals)
                | None \<Rightarrow> Inl (Invalid (''unknown message tag 0x'' @ hex_byte tag)))
          | _ \<Rightarrow> Inl (Invalid ''a message must be a structure'')))"

section \<open>The fields of a request\<close>

definition BOOKMARK_PREFIX :: string where "BOOKMARK_PREFIX = ''mushroomdb:commit:''"

definition format_bookmark :: "u64 \<Rightarrow> string" where
  "format_bookmark seq = BOOKMARK_PREFIX @ decimal (unat seq)"

text \<open>\<open>str::parse::<u64>\<close>, which takes a leading plus.\<close>

definition parse_u64 :: "string \<Rightarrow> u64 option" where
  "parse_u64 s = map_option of_nat (parse_uint (2 ^ 64) (case strip_prefix (CHR ''+'') s of Some t \<Rightarrow> t | None \<Rightarrow> s))"

definition strip_prefix_str :: "string \<Rightarrow> string \<Rightarrow> string option" where
  "strip_prefix_str p s = (if take (length p) s = p then Some (drop (length p) s) else None)"

definition parse_bookmark :: "(string \<Rightarrow> string) \<Rightarrow> string \<Rightarrow> bolt_error + u64" where
  "parse_bookmark dbg s =
     (case Option.bind (strip_prefix_str BOOKMARK_PREFIX s) parse_u64 of
        Some n \<Rightarrow> Inr n
      | None \<Rightarrow> Inl (Invalid (''unrecognised bookmark '' @ dbg s)))"

fun parse_bookmarks :: "(string \<Rightarrow> string) \<Rightarrow> pack_value list \<Rightarrow> bolt_error + u64 list" where
  "parse_bookmarks dbg [] = Inr []"
| "parse_bookmarks dbg (item # items) =
     bind_res (case item of PString s \<Rightarrow> parse_bookmark dbg s | _ \<Rightarrow> Inl (Invalid ''a bookmark must be a string''))
       (\<lambda>n. bind_res (parse_bookmarks dbg items) (\<lambda>ns. Inr (n # ns)))"

text \<open>The \<open>db\<close> and the \<open>bookmarks\<close> of \<open>RUN\<close> and \<open>BEGIN\<close>, which differ in the name their errors give.\<close>

definition database_field :: "string \<Rightarrow> (string \<times> pack_value) list \<Rightarrow> bolt_error + string option" where
  "database_field what extra =
     (case map_get extra ''db'' of
        None \<Rightarrow> Inr None
      | Some PNull \<Rightarrow> Inr None
      | Some (PString name) \<Rightarrow> Inr (Some name)
      | Some _ \<Rightarrow> Inl (Invalid (what @ '' db must be a string'')))"

definition bookmarks_field :: "(string \<Rightarrow> string) \<Rightarrow> string \<Rightarrow> (string \<times> pack_value) list \<Rightarrow> bolt_error + u64 list" where
  "bookmarks_field dbg what extra =
     (case map_get extra ''bookmarks'' of
        None \<Rightarrow> Inr []
      | Some PNull \<Rightarrow> Inr []
      | Some (PList items) \<Rightarrow> parse_bookmarks dbg items
      | Some _ \<Rightarrow> Inl (Invalid (what @ '' bookmarks must be a list of strings'')))"

record run_request =
  run_query :: string
  run_parameters :: "(string \<times> pack_value) list"
  run_database :: "string option"
  run_bookmarks :: "u64 list"

definition run_from_fields :: "(string \<Rightarrow> string) \<Rightarrow> pack_value list \<Rightarrow> bolt_error + run_request" where
  "run_from_fields dbg vals =
     (case vals of
        [PString query, PMap parameters, PMap extra] \<Rightarrow>
          bind_res (database_field ''RUN'' extra) (\<lambda>database.
          bind_res (bookmarks_field dbg ''RUN'' extra) (\<lambda>bookmarks.
            Inr \<lparr>run_query = query, run_parameters = parameters, run_database = database, run_bookmarks = bookmarks\<rparr>))
      | _ \<Rightarrow> Inl (Invalid ''RUN takes a query string, a parameter map and an extra map''))"

record begin_request =
  begin_database :: "string option"
  begin_bookmarks :: "u64 list"
  begin_read_only :: bool

definition mode_field :: "(string \<times> pack_value) list \<Rightarrow> bolt_error + bool" where
  "mode_field extra =
     (case map_get extra ''mode'' of
        None \<Rightarrow> Inr False
      | Some PNull \<Rightarrow> Inr False
      | Some v \<Rightarrow>
          if v = PString ''w'' then Inr False
          else if v = PString ''r'' then Inr True
          else Inl (Invalid (''BEGIN mode must be '' @ [CHR 0x22] @ ''r'' @ [CHR 0x22] @ '' or '' @ [CHR 0x22] @ ''w'' @ [CHR 0x22])))"

definition tx_timeout_field :: "(string \<times> pack_value) list \<Rightarrow> bolt_error + unit" where
  "tx_timeout_field extra =
     (case map_get extra ''tx_timeout'' of
        None \<Rightarrow> Inr ()
      | Some PNull \<Rightarrow> Inr ()
      | Some (PInt ms) \<Rightarrow> if ms \<ge> 0 then Inr () else Inl (Invalid ''BEGIN tx_timeout must be a non-negative integer'')
      | Some _ \<Rightarrow> Inl (Invalid ''BEGIN tx_timeout must be a non-negative integer''))"

definition tx_metadata_field :: "(string \<times> pack_value) list \<Rightarrow> bolt_error + unit" where
  "tx_metadata_field extra =
     (case map_get extra ''tx_metadata'' of
        None \<Rightarrow> Inr ()
      | Some PNull \<Rightarrow> Inr ()
      | Some (PMap _) \<Rightarrow> Inr ()
      | Some _ \<Rightarrow> Inl (Invalid ''BEGIN tx_metadata must be a map''))"

text \<open>The outer error is a protocol violation, the inner one a request that fails.\<close>

definition begin_from_fields :: "(string \<Rightarrow> string) \<Rightarrow> pack_value list \<Rightarrow> bolt_error + (bolt_error + begin_request)" where
  "begin_from_fields dbg vals =
     (case vals of
        [PMap extra] \<Rightarrow>
          bind_res (database_field ''BEGIN'' extra) (\<lambda>database.
          bind_res (bookmarks_field dbg ''BEGIN'' extra) (\<lambda>bookmarks.
          bind_res (mode_field extra) (\<lambda>read_only.
          bind_res (tx_timeout_field extra) (\<lambda>_.
          bind_res (tx_metadata_field extra) (\<lambda>_.
            let ok = Inr (Inr \<lparr>begin_database = database, begin_bookmarks = bookmarks, begin_read_only = read_only\<rparr>)
            in case map_get extra ''imp_user'' of
                 None \<Rightarrow> ok
               | Some PNull \<Rightarrow> ok
               | Some (PString _) \<Rightarrow> Inr (Inl (Forbidden ''this server does not support impersonation''))
               | Some _ \<Rightarrow> Inl (Invalid ''BEGIN imp_user must be a string''))))))
      | _ \<Rightarrow> Inl (Invalid ''BEGIN takes exactly one map field''))"

record stream_request =
  stream_limit :: "nat option"
  stream_qid :: int

definition int_text :: "int \<Rightarrow> string" where
  "int_text i = (if i < 0 then ''-'' @ decimal (nat (- i)) else decimal (nat i))"

definition stream_from_fields :: "pack_value list \<Rightarrow> bolt_error + (bolt_error + stream_request)" where
  "stream_from_fields vals =
     (case vals of
        [PMap extra] \<Rightarrow>
          (case map_get extra ''n'' of
             Some (PInt n) \<Rightarrow>
               bind_res (case map_get extra ''qid'' of
                   None \<Rightarrow> Inr (- 1)
                 | Some PNull \<Rightarrow> Inr (- 1)
                 | Some (PInt qid) \<Rightarrow> Inr qid
                 | Some _ \<Rightarrow> Inl (Invalid ''qid must be an integer'')) (\<lambda>qid.
                 Inr (if n = - 1 then Inr \<lparr>stream_limit = None, stream_qid = qid\<rparr>
                      else if n > 0 then Inr \<lparr>stream_limit = Some (nat n), stream_qid = qid\<rparr>
                      else Inl (Invalid (''n must be -1 or positive, got '' @ int_text n))))
           | _ \<Rightarrow> Inl (Invalid ''PULL and DISCARD need an integer n''))
      | _ \<Rightarrow> Inl (Invalid ''PULL and DISCARD take exactly one map field''))"

section \<open>Responses\<close>

datatype server_message =
    Success "(string \<times> pack_value) list"
  | Record "pack_value list"
  | Failure bolt_error
  | Ignored

fun to_pack :: "server_message \<Rightarrow> pack_value" where
  "to_pack (Success meta) = PStruct TAG_SUCCESS [PMap meta]"
| "to_pack (Record values) = PStruct TAG_RECORD [PList values]"
| "to_pack Ignored = PStruct TAG_IGNORED []"
| "to_pack (Failure err) =
     PStruct TAG_FAILURE [PMap [(''code'', PString (error_code err)), (''message'', PString (error_message err))]]"

definition too_large :: "string \<Rightarrow> bolt_error" where
  "too_large what = TooLarge (''result value cannot be sent over Bolt: '' @ what @ '' exceeds the PackStream size limit'')"

text \<open>\<open>None\<close> is success.\<close>

fun check_depth :: "pack_value \<Rightarrow> nat \<Rightarrow> nat \<Rightarrow> bolt_error option"
  and check_depths :: "pack_value list \<Rightarrow> nat \<Rightarrow> nat \<Rightarrow> bolt_error option"
  and check_entries :: "(string \<times> pack_value) list \<Rightarrow> nat \<Rightarrow> nat \<Rightarrow> bolt_error option" where
  "check_depth v max_len depth =
     (if depth > PACK_MAX_DEPTH then Some (too_large ''nesting'')
      else case v of
        PBytes b \<Rightarrow> if length b > max_len then Some (too_large ''a byte array'') else None
      | PString s \<Rightarrow> if length s > max_len then Some (too_large ''a string'') else None
      | PList items \<Rightarrow> if length items > max_len then Some (too_large ''a list'') else check_depths items max_len (depth + 1)
      | PMap es \<Rightarrow> if length es > max_len then Some (too_large ''a map'') else check_entries es max_len (depth + 1)
      | PStruct _ vals \<Rightarrow>
          if length vals > MAX_STRUCT_FIELDS then Some (too_large ''a structure'') else check_depths vals max_len (depth + 1)
      | _ \<Rightarrow> None)"
| "check_depths [] max_len depth = None"
| "check_depths (v # vs) max_len depth =
     (case check_depth v max_len depth of Some e \<Rightarrow> Some e | None \<Rightarrow> check_depths vs max_len depth)"
| "check_entries [] max_len depth = None"
| "check_entries ((key, v) # es) max_len depth =
     (if length key > max_len then Some (too_large ''a map key'')
      else case check_depth v max_len depth of Some e \<Rightarrow> Some e | None \<Rightarrow> check_entries es max_len depth)"

declare check_depth.simps [simp del]

definition check_encodable :: "pack_value \<Rightarrow> nat \<Rightarrow> bolt_error option" where
  "check_encodable v max_len = check_depth v max_len 0"

definition encode_with_limit :: "server_message \<Rightarrow> nat \<Rightarrow> bolt_error + u8 list" where
  "encode_with_limit m max_len =
     (case check_encodable (to_pack m) max_len of Some e \<Rightarrow> Inl e | None \<Rightarrow> Inr (pack (to_pack m)))"

definition encode_message :: "server_message \<Rightarrow> bolt_error + u8 list" where
  "encode_message m = encode_with_limit m MAX_PACK_LEN"

definition encode_or_failure :: "server_message \<Rightarrow> u8 list" where
  "encode_or_failure m =
     (case encode_message m of
        Inr bytes \<Rightarrow> bytes
      | Inl err \<Rightarrow> (case encode_message (Failure (TooLarge (error_message err))) of Inr bytes \<Rightarrow> bytes | Inl _ \<Rightarrow> []))"

definition hello_success :: "string \<Rightarrow> string \<Rightarrow> server_message" where
  "hello_success version connection_id =
     Success [(''server'', PString (''MushroomDB/'' @ version)), (''connection_id'', PString connection_id), (''hints'', PMap [])]"

definition reset_success :: server_message where "reset_success = Success []"

section \<open>Routing\<close>

definition ROUTING_TTL_SECONDS :: int where "ROUTING_TTL_SECONDS = 300"
definition DRIVER_DEFAULT_DATABASE :: string where "DRIVER_DEFAULT_DATABASE = of_bytes [0x6E, 0x65, 0x6F, 0x34, 0x6A]"

record routing_config =
  advertised :: string
  route_host :: string
  store_name :: string

definition with_advertised_port :: "routing_config \<Rightarrow> u16 \<Rightarrow> routing_config" where
  "with_advertised_port r port = r\<lparr>advertised := route_host r @ '':'' @ decimal (unat port)\<rparr>"

definition ascii_lower :: "char \<Rightarrow> char" where
  "ascii_lower c = (let n = of_char c :: nat in if 65 \<le> n \<and> n \<le> 90 then char_of (n + 32) else c)"

definition eq_ignore_ascii_case :: "string \<Rightarrow> string \<Rightarrow> bool" where
  "eq_ignore_ascii_case a b \<longleftrightarrow> map ascii_lower a = map ascii_lower b"

definition check_database :: "(string \<Rightarrow> string) \<Rightarrow> routing_config \<Rightarrow> string option \<Rightarrow> bolt_error + unit" where
  "check_database dbg r requested =
     (case requested of
        None \<Rightarrow> Inr ()
      | Some name \<Rightarrow>
          if name = [] then Inr ()
          else if eq_ignore_ascii_case name DRIVER_DEFAULT_DATABASE \<or> eq_ignore_ascii_case name (store_name r) then Inr ()
          else Inl (DatabaseNotFound (''database '' @ dbg name @ '' does not exist'')))"

definition route_server :: "routing_config \<Rightarrow> string \<Rightarrow> pack_value" where
  "route_server r role = PMap [(''addresses'', PList [PString (advertised r)]), (''role'', PString role)]"

definition route_reply :: "(string \<Rightarrow> string) \<Rightarrow> routing_config \<Rightarrow> string option \<Rightarrow> bolt_error + server_message" where
  "route_reply dbg r requested =
     bind_res (check_database dbg r requested) (\<lambda>_.
       Inr (Success [(''rt'', PMap
         [(''ttl'', PInt ROUTING_TTL_SECONDS), (''db'', PString (store_name r)),
          (''servers'', PList [route_server r ''WRITE'', route_server r ''READ'', route_server r ''ROUTE''])])]))"

definition requested_database :: "pack_value list \<Rightarrow> bolt_error + string option" where
  "requested_database vals =
     (let malformed = Inl (Invalid ''malformed ROUTE request'') in
      case vals of
        [PMap _, PList _, third] \<Rightarrow>
          (case third of
             PNull \<Rightarrow> Inr None
           | PString name \<Rightarrow> Inr (Some name)
           | PMap extra \<Rightarrow>
               (case map_get extra ''db'' of
                  None \<Rightarrow> Inr None
                | Some PNull \<Rightarrow> Inr None
                | Some (PString name) \<Rightarrow> Inr (Some name)
                | Some _ \<Rightarrow> malformed)
           | _ \<Rightarrow> malformed)
      | _ \<Rightarrow> malformed)"

section \<open>The read buffer\<close>

fun keepalive_len :: "u8 list \<Rightarrow> nat" where
  "keepalive_len (a # b # buf) = (if a = 0 \<and> b = 0 then keepalive_len buf + 2 else 0)"
| "keepalive_len _ = 0"

text \<open>The loop that takes every complete message from the buffer: the messages, the bytes used and
  whether one was over the cap.\<close>

lemma deframe_progress:
  assumes "deframe buf = Some (m, used)"
  shows "0 < used \<and> used \<le> length buf"
proof -
  have "deframe_loop buf acc pos = Some (m, used) \<Longrightarrow> pos < used \<and> used \<le> length buf" for acc pos
  proof (induction buf acc pos rule: deframe_loop.induct)
    case (1 stream message pos)
    then show ?case by (subst (asm) (3) deframe_loop.simps) (fastforce simp: Let_def split: if_splits)
  qed
  then show ?thesis using assms by (fastforce simp: deframe_def)
qed

lemma keepalive_le: "keepalive_len buf \<le> length buf"
  by (induction buf rule: keepalive_len.induct) auto

function frames_loop :: "nat \<Rightarrow> u8 list \<Rightarrow> nat \<Rightarrow> u8 list list \<times> nat \<times> bool" where
  "frames_loop cap buf pos =
     (let pos = pos + keepalive_len (drop pos buf) in
      case deframe (drop pos buf) of
        None \<Rightarrow> ([], pos, False)
      | Some (message, used) \<Rightarrow>
          if length message > cap then ([], pos + used, True)
          else (case frames_loop cap buf (pos + used) of (ms, pos, big) \<Rightarrow> (message # ms, pos, big)))"
  by pat_completeness auto
termination
proof (relation "measure (\<lambda>(cap, buf, pos). length buf - pos)")
  fix cap buf pos x y z message used
  assume "x = pos + keepalive_len (drop pos buf)" "deframe (drop x buf) = Some y" "(message, used) = y"
  then have "0 < used" "used \<le> length buf - x" using deframe_progress [of "drop x buf" message used] by simp_all
  then show "((cap, buf, x + used), cap, buf, pos) \<in> measure (\<lambda>(cap, buf, pos). length buf - pos)"
    using \<open>x = _\<close> by (simp; linarith)
qed simp

declare frames_loop.simps [simp del]

definition RESET_MESSAGE :: "u8 list" where "RESET_MESSAGE = [0xB0, 0x0F]"

text \<open>\<open>holds_reset\<close> from the position it has scanned to: whether a \<open>RESET\<close> is there, and where it stops.\<close>

function holds_reset :: "u8 list \<Rightarrow> nat \<Rightarrow> bool \<times> nat" where
  "holds_reset buf scanned =
     (let from = scanned + keepalive_len (drop scanned buf) in
      case deframe (drop from buf) of
        None \<Rightarrow> (False, from)
      | Some (message, used) \<Rightarrow>
          (case holds_reset buf (from + used) of (found, at) \<Rightarrow> (message = RESET_MESSAGE \<or> found, at)))"
  by pat_completeness auto
termination
proof (relation "measure (\<lambda>(buf, pos). length buf - pos)")
  fix buf :: "u8 list" and pos x y message used
  assume "x = pos + keepalive_len (drop pos buf)" "deframe (drop x buf) = Some y" "(message, used) = y"
  then have "0 < used" "used \<le> length buf - x" using deframe_progress [of "drop x buf" message used] by simp_all
  then show "((buf, x + used), buf, pos) \<in> measure (\<lambda>(buf, pos). length buf - pos)"
    using \<open>x = _\<close> by (simp; linarith)
qed simp

declare holds_reset.simps [simp del]

section \<open>What the size check lets through\<close>

text \<open>Values as the code's types have them: integers of 64 bits, strings of valid UTF-8.\<close>

fun pack_typed :: "pack_value \<Rightarrow> bool" where
  "pack_typed (PInt i) = in_i64 i"
| "pack_typed (PString s) = rust_string s"
| "pack_typed (PList items) = list_all pack_typed items"
| "pack_typed (PMap es) = list_all (\<lambda>e. rust_string (fst e) \<and> pack_typed (snd e)) es"
| "pack_typed (PStruct tag vs) = list_all pack_typed vs"
| "pack_typed _ = True"

lemma levels_pos: "1 \<le> levels v"
  by (cases v) auto

lemma fold_max_add:
  assumes "d \<le> n"
  shows "fold max xs 0 + d \<le> (n :: nat) \<longleftrightarrow> (\<forall>x \<in> set xs. x + d \<le> n)"
proof -
  have "y + d \<le> n \<longleftrightarrow> y \<le> n - d" for y using assms by linarith
  then show ?thesis by (simp add: fold_max_le)
qed

lemma check_depth_sound:
  "check_depth v max_len d = None \<Longrightarrow> max_len \<le> MAX_PACK_LEN \<Longrightarrow> pack_typed v \<Longrightarrow> pack_ok v \<and> levels v + d \<le> PACK_MAX_DEPTH + 1"
  "check_depths vs max_len d = None \<Longrightarrow> max_len \<le> MAX_PACK_LEN \<Longrightarrow> list_all pack_typed vs \<Longrightarrow>
     list_all pack_ok vs \<and> (\<forall>v \<in> set vs. levels v + d \<le> PACK_MAX_DEPTH + 1)"
  "check_entries es max_len d = None \<Longrightarrow> max_len \<le> MAX_PACK_LEN \<Longrightarrow> list_all (\<lambda>e. rust_string (fst e) \<and> pack_typed (snd e)) es \<Longrightarrow>
     list_all (\<lambda>e. length (fst e) < 2 ^ 32 \<and> rust_string (fst e) \<and> pack_ok (snd e)) es \<and>
     (\<forall>e \<in> set es. levels (snd e) + d \<le> PACK_MAX_DEPTH + 1)"
proof (induction v max_len d and vs max_len d and es max_len d rule: check_depth_check_depths_check_entries.induct)
  case (1 v max_len depth)
  have d: "depth \<le> PACK_MAX_DEPTH" using "1.prems"(1) by (simp add: check_depth.simps split: if_splits)
  show ?case
  proof (cases v)
    case (PList items)
    then have "check_depths items max_len (depth + 1) = None" "length items \<le> max_len"
      using "1.prems"(1) d by (simp_all add: check_depth.simps split: if_splits)
    then show ?thesis using "1.IH"(1) d PList "1.prems"(2,3) by (auto simp: fold_max_add MAX_PACK_LEN_def)
  next
    case (PMap es)
    then have c: "check_entries es max_len (depth + 1) = None" "length es \<le> max_len"
      using "1.prems"(1) d by (simp_all add: check_depth.simps split: if_splits)
    have "list_all (\<lambda>e. length (fst e) < 2 ^ 32 \<and> rust_string (fst e) \<and> pack_ok (snd e)) es"
        "\<forall>e \<in> set es. levels (snd e) + (depth + 1) \<le> PACK_MAX_DEPTH + 1"
      using "1.IH"(2) c d PMap "1.prems"(2,3) by auto
    then show ?thesis using c(2) d PMap "1.prems"(2) by (simp add: fold_max_add max_absorb2 [OF levels_pos, unfolded One_nat_def] MAX_PACK_LEN_def)
  next
    case (PStruct tag vs)
    then have "check_depths vs max_len (depth + 1) = None" "length vs \<le> MAX_STRUCT_FIELDS"
      using "1.prems"(1) d by (simp_all add: check_depth.simps split: if_splits)
    then show ?thesis using "1.IH"(3) d PStruct "1.prems"(2,3) by (auto simp: fold_max_add MAX_STRUCT_FIELDS_def)
  qed (use "1.prems" d in \<open>auto simp: check_depth.simps MAX_PACK_LEN_def split: if_splits\<close>)
next
  case (5 key v es max_len depth)
  then show ?case by (auto simp: MAX_PACK_LEN_def split: if_splits option.splits)
qed (auto split: option.splits)

lemma encoded_reads_back:
  assumes "encode_message m = Inr bytes" "pack_typed (to_pack m)"
  shows "unpack bytes = Inr (to_pack m, length bytes)"
proof -
  have "check_depth (to_pack m) MAX_PACK_LEN 0 = None" "bytes = pack (to_pack m)"
    using assms(1) by (auto simp: encode_message_def encode_with_limit_def check_encodable_def split: option.splits)
  then show ?thesis
    using check_depth_sound(1) [of "to_pack m" MAX_PACK_LEN 0] assms(2) value_read [of "to_pack m" "PACK_MAX_DEPTH + 1" "[]"]
    by (auto simp: unpack_def)
qed

section \<open>Cutting the buffer\<close>

lemma frame_starts:
  assumes "m \<noteq> []"
  shows "\<exists>a b r. bolt_frame m = a # b # r \<and> \<not> (a = 0 \<and> b = 0)"
proof -
  obtain c cs where c: "slice_chunks MAX_CHUNK m = c # cs" using msg_chunks(1) [OF assms] assms by (cases "slice_chunks MAX_CHUNK m") auto
  have l: "0 < length c" "length c < 65536" using msg_chunks(2) [OF assms, of c] c by simp_all
  obtain a b where ab: "nat_to_be 2 (length c) = [a, b]"
    using length_nat_to_be [of 2 "length c"] by (cases "nat_to_be 2 (length c)" rule: remdups_adj.cases) auto
  have "be_to_nat [a, b] = length c" using be_to_nat_to_be [of "length c" 2] l ab by simp
  then have "\<not> (a = 0 \<and> b = 0)" using l(1) zero_header by auto
  then show ?thesis using c ab by (simp add: bolt_frame_def)
qed

lemma keepalive_frame:
  assumes "m \<noteq> []"
  shows "keepalive_len (replicate (2 * k) 0 @ bolt_frame m @ rest) = 2 * k"
proof (induction k)
  case 0
  then show ?case using frame_starts [OF assms] by auto
next
  case (Suc k)
  have "replicate (2 * Suc k) (0 :: u8) = 0 # 0 # replicate (2 * k) 0" by simp
  then show ?case using Suc by simp
qed

lemma keepalive_cut:
  assumes "m \<noteq> []"
  shows "keepalive_len (take j (bolt_frame m)) = 0"
proof -
  obtain a b r where "bolt_frame m = a # b # r" "\<not> (a = 0 \<and> b = 0)" using frame_starts [OF assms] by blast
  then show ?thesis by (cases j; cases "j - 1") auto
qed

lemma cut_incomplete:
  assumes "m \<noteq> []" "j < length (bolt_frame m)"
  shows "deframe (take j (bolt_frame m)) = None"
  using deframe_frame [OF assms(1), of 0 "[]"] deframe_prefix [of "bolt_frame m" "[]" 0 m "length (bolt_frame m)" j] assms(2)
  by (simp add: deframe_def)

text \<open>A stream of messages, each after some keep-alives.\<close>

definition stream_bytes :: "(nat \<times> u8 list) list \<Rightarrow> u8 list" where
  "stream_bytes xs = concat (map (\<lambda>(k, m). replicate (2 * k) 0 @ bolt_frame m) xs)"

lemma stream_bytes_simps [simp]:
  "stream_bytes [] = []" "stream_bytes ((k, m) # xs) = replicate (2 * k) 0 @ bolt_frame m @ stream_bytes xs"
  by (simp_all add: stream_bytes_def)

lemma frames_stop:
  assumes "deframe (drop (keepalive_len tail) tail) = None"
  shows "frames_loop cap (pre @ tail) (length pre) = ([], length pre + keepalive_len tail, False)"
  using assms by (subst frames_loop.simps) (simp add: Let_def drop_drop [symmetric] add.commute del: drop_drop)

lemma frames_loop_stream:
  assumes "\<And>k m. (k, m) \<in> set xs \<Longrightarrow> m \<noteq> [] \<and> length m \<le> cap" "deframe (drop (keepalive_len tail) tail) = None"
  shows "frames_loop cap (pre @ stream_bytes xs @ tail) (length pre) =
    (map snd xs, length pre + length (stream_bytes xs) + keepalive_len tail, False)"
  using assms(1)
proof (induction xs arbitrary: pre)
  case Nil
  then show ?case using frames_stop [OF assms(2)] by simp
next
  case (Cons x xs)
  obtain k m where x: "x = (k, m)" by fastforce
  have m: "m \<noteq> []" "length m \<le> cap" using Cons.prems x by auto
  let ?rest = "stream_bytes xs @ tail"
  let ?pre = "pre @ replicate (2 * k) 0 @ bolt_frame m"
  define buf where "buf = ?pre @ ?rest"
  have all: "pre @ stream_bytes (x # xs) @ tail = buf" by (simp add: x buf_def)
  have k: "keepalive_len (drop (length pre) buf) = 2 * k" using keepalive_frame [OF m(1), of k ?rest] by (simp add: buf_def)
  have d: "deframe (drop (length pre + 2 * k) buf) = Some (m, length (bolt_frame m))"
    using deframe_frame [OF m(1), of 0 ?rest] by (simp add: buf_def)
  have "frames_loop cap (?pre @ ?rest) (length ?pre) = (map snd xs, length ?pre + length (stream_bytes xs) + keepalive_len tail, False)"
    by (rule Cons.IH) (use Cons.prems in auto)
  then have r: "frames_loop cap buf (length pre + 2 * k + length (bolt_frame m)) =
      (map snd xs, length pre + 2 * k + length (bolt_frame m) + length (stream_bytes xs) + keepalive_len tail, False)"
    by (simp add: buf_def add.assoc)
  show ?case unfolding all by (subst frames_loop.simps) (use m(2) in \<open>simp add: k d r Let_def x\<close>)
qed

section \<open>Properties\<close>

text \<open>C34. No request is lost, invented or reordered by the transport: from a buffer that holds any
  sequence of messages under the size cap, each preceded by any number of keep-alives, and then any
  beginning of a further message, the read loop takes exactly those messages in that order and
  leaves exactly the unfinished one in the buffer.\<close>

theorem request_stream_exact:
  assumes "\<And>k m. (k, m) \<in> set xs \<Longrightarrow> m \<noteq> [] \<and> length m \<le> cap" "m' \<noteq> []" "j < length (bolt_frame m')"
  shows "frames_loop cap (stream_bytes xs @ take j (bolt_frame m')) 0 = (map snd xs, length (stream_bytes xs), False)"
  using frames_loop_stream [of xs cap "take j (bolt_frame m')" "[]"] assms keepalive_cut [OF assms(2)] cut_incomplete [OF assms(2,3)]
  by simp

theorem request_stream_exact_witness:
  "frames_loop 100 (stream_bytes [(1, [0xB0, 0x0F]), (0, [0xB0, 0x02])] @ take 3 (bolt_frame [0xB0, 0x02])) 0 =
     ([[0xB0, 0x0F], [0xB0, 0x02]], length (stream_bytes [(1, [0xB0, 0x0F]), (0, [0xB0, 0x02])]), False)"
proof -
  have "slice_chunks 65535 [0xB0, 0x02 :: u8] = [[0xB0, 0x02]]" by (subst chunks_single) simp_all
  then have "3 < length (bolt_frame [0xB0, 0x02])" by (simp add: bolt_frame_def MAX_CHUNK_def)
  moreover have "m \<noteq> [] \<and> length m \<le> 100" if "(k, m) \<in> set [(1, [0xB0, 0x0F]), (0, [0xB0, 0x02])]" for k :: nat and m :: "u8 list"
    using that by auto
  ultimately show ?thesis
    using request_stream_exact [of "[(1, [0xB0, 0x0F]), (0, [0xB0, 0x02])]" 100 "[0xB0, 0x02]" 3] by simp
qed

lemma error_code_plain: "rust_string (error_code e)"
  by (cases e) (simp_all add: rust_string_def as_bytes_def)

lemma short_failure:
  assumes "check_depth v max_len d = Some e \<or> check_depths vs max_len d = Some e \<or> check_entries es max_len d = Some e"
  shows "\<exists>what \<in> {''nesting'', ''a byte array'', ''a string'', ''a list'', ''a map'', ''a structure'', ''a map key''}. e = too_large what"
proof -
  have "check_depth v max_len d = Some e \<longrightarrow>
      (\<exists>what \<in> {''nesting'', ''a byte array'', ''a string'', ''a list'', ''a map'', ''a structure'', ''a map key''}. e = too_large what)"
    and "check_depths vs max_len d = Some e \<longrightarrow>
      (\<exists>what \<in> {''nesting'', ''a byte array'', ''a string'', ''a list'', ''a map'', ''a structure'', ''a map key''}. e = too_large what)"
    and "check_entries es max_len d = Some e \<longrightarrow>
      (\<exists>what \<in> {''nesting'', ''a byte array'', ''a string'', ''a list'', ''a map'', ''a structure'', ''a map key''}. e = too_large what)"
    for v vs es d
  proof (induction v max_len d and vs max_len d and es max_len d rule: check_depth_check_depths_check_entries.induct)
    case (1 v max_len depth)
    then show ?case by (cases v) (auto simp: check_depth.simps)
  qed (auto split: option.splits)
  then show ?thesis using assms by blast
qed

lemma failure_encodes:
  assumes "check_encodable v max_len = Some e"
  shows "\<exists>bytes. encode_message (Failure (TooLarge (error_message e))) = Inr bytes \<and> pack_typed (to_pack (Failure (TooLarge (error_message e))))"
  using short_failure [of v max_len 0 e] assms
  by (auto simp: check_encodable_def too_large_def encode_message_def encode_with_limit_def check_depth.simps MAX_PACK_LEN_def
      MAX_STRUCT_FIELDS_def PACK_MAX_DEPTH_def rust_string_def as_bytes_def)

text \<open>C35. What the server answers is what the client reads: any sequence of responses, framed one
  after the other, is cut into the same number of messages in the same order, each of which decodes
  with no byte left over to the structure of its response, or, exactly when a value in it is beyond
  the wire format's size or depth limits, to a failure that says so; nothing is truncated.\<close>

theorem responses_read_back:
  assumes "\<And>m. m \<in> set ms \<Longrightarrow> pack_typed (to_pack m) \<and> length (encode_or_failure m) \<le> cap"
  shows "let bytes = concat (map (\<lambda>m. bolt_frame (encode_or_failure m)) ms) in
    frames_loop cap bytes 0 = (map encode_or_failure ms, length bytes, False) \<and>
    (\<forall>m \<in> set ms. unpack (encode_or_failure m) =
       Inr (case check_encodable (to_pack m) MAX_PACK_LEN of
              None \<Rightarrow> to_pack m | Some e \<Rightarrow> to_pack (Failure (TooLarge (error_message e))), length (encode_or_failure m)))"
proof -
  have u: "unpack (encode_or_failure m) =
       Inr (case check_encodable (to_pack m) MAX_PACK_LEN of
              None \<Rightarrow> to_pack m | Some e \<Rightarrow> to_pack (Failure (TooLarge (error_message e))), length (encode_or_failure m))"
      "encode_or_failure m \<noteq> []" if "m \<in> set ms" for m
  proof -
    have t: "pack_typed (to_pack m)" using assms that by blast
    have e: "\<exists>b. encode_or_failure m = b \<and> unpack b = Inr (case check_encodable (to_pack m) MAX_PACK_LEN of
              None \<Rightarrow> to_pack m | Some e \<Rightarrow> to_pack (Failure (TooLarge (error_message e))), length b) \<and>
         (\<exists>v. b = pack v)"
    proof (cases "check_encodable (to_pack m) MAX_PACK_LEN")
      case None
      then have "encode_message m = Inr (pack (to_pack m))" by (simp add: encode_message_def encode_with_limit_def)
      then show ?thesis using encoded_reads_back [OF _ t] None by (auto simp: encode_or_failure_def)
    next
      case (Some e)
      obtain b where b: "encode_message (Failure (TooLarge (error_message e))) = Inr b"
          "pack_typed (to_pack (Failure (TooLarge (error_message e))))"
        using failure_encodes [OF Some] by blast
      moreover have "encode_message m = Inl e" using Some by (simp add: encode_message_def encode_with_limit_def)
      ultimately show ?thesis using encoded_reads_back [OF b] Some
        by (auto simp: encode_or_failure_def encode_message_def encode_with_limit_def split: option.splits simp del: to_pack.simps)
    qed
    then show "unpack (encode_or_failure m) =
       Inr (case check_encodable (to_pack m) MAX_PACK_LEN of
              None \<Rightarrow> to_pack m | Some e \<Rightarrow> to_pack (Failure (TooLarge (error_message e))), length (encode_or_failure m))" by blast
    show "encode_or_failure m \<noteq> []" using e pack_pos by (metis list.size(3) not_one_le_zero)
  qed
  let ?xs = "map (\<lambda>m. (0, encode_or_failure m)) ms"
  have s: "stream_bytes ?xs = concat (map (\<lambda>m. bolt_frame (encode_or_failure m)) ms)"
    by (simp add: stream_bytes_def comp_def)
  have "deframe [] = None" by (simp add: deframe_def deframe_loop.simps)
  then have "frames_loop cap (stream_bytes ?xs) 0 = (map encode_or_failure ms, length (stream_bytes ?xs), False)"
  proof -
    have "b \<noteq> [] \<and> length b \<le> cap" if "(k, b) \<in> set ?xs" for k b using that assms u(2) by auto
    from frames_loop_stream [of ?xs cap "[]" "[]", OF this] show ?thesis using \<open>deframe [] = None\<close> by (simp add: comp_def)
  qed
  then show ?thesis using u(1) s by (simp add: Let_def)
qed

theorem responses_read_back_witness:
  "frames_loop 100 (bolt_frame (encode_or_failure Ignored) @ bolt_frame (encode_or_failure reset_success)) 0 =
     ([encode_or_failure Ignored, encode_or_failure reset_success],
      length (bolt_frame (encode_or_failure Ignored) @ bolt_frame (encode_or_failure reset_success)), False) \<and>
   unpack (encode_or_failure Ignored) = Inr (PStruct TAG_IGNORED [], length (encode_or_failure Ignored))"
proof -
  have c: "check_encodable (to_pack Ignored) MAX_PACK_LEN = None" "check_encodable (to_pack reset_success) MAX_PACK_LEN = None"
    by (simp_all add: check_encodable_def check_depth.simps reset_success_def MAX_STRUCT_FIELDS_def PACK_MAX_DEPTH_def MAX_PACK_LEN_def)
  then have "encode_or_failure Ignored = pack (to_pack Ignored)" "encode_or_failure reset_success = pack (to_pack reset_success)"
    by (simp_all add: encode_or_failure_def encode_message_def encode_with_limit_def del: to_pack.simps)
  then have "pack_typed (to_pack m) \<and> length (encode_or_failure m) \<le> 100" if "m \<in> set [Ignored, reset_success]" for m
    using that by (auto simp: reset_success_def struct_header_def pack_size_def)
  from responses_read_back [of "[Ignored, reset_success]" 100, OF this] show ?thesis using c by (simp add: Let_def)
qed

end
