(* ===== verification/Bolt_Connection.thy ===== *)
theory Bolt_Connection
  imports Bolt_Message
begin

text \<open>
  The actor of one Bolt connection, \<open>crates/bolt/src/connection.rs\<close>: its states, the handler of
  every request in every state, the idle limit, the interruption by a \<open>RESET\<close> that arrives while
  earlier requests are queued or running, and the batches the read loop hands it.

  The actor works on trait objects, so what it is given is a record of functions: the query
  service, an open transaction (\<open>OpenTransaction\<close>) and a result cursor (\<open>ResultCursor\<close>), over a
  world they change. A call that can take long also answers whether a \<open>RESET\<close> was read while it
  ran, which is when the flag of the connection is set from outside. Clock readings are arguments.
  A \<open>BTreeMap\<close> is an association list in the order of its keys. The counter of result ids is an
  integer: it would take \<open>2 ^ 63\<close> statements in one transaction to overflow it.
\<close>

section \<open>State\<close>

record ('w, 'tx, 'c) bolt_env =
  env_dbg :: "string \<Rightarrow> string"
  env_digest :: "u8 list \<Rightarrow> u8 list"
  pkg_version :: string
  svc_begin :: "identity \<Rightarrow> begin_request \<Rightarrow> 'w \<Rightarrow> 'w \<times> bool \<times> (bolt_error + 'tx)"
  svc_run_auto_commit :: "identity \<Rightarrow> run_request \<Rightarrow> 'w \<Rightarrow> 'w \<times> bool \<times> (bolt_error + 'c)"
  svc_run_in_tx :: "identity \<Rightarrow> 'tx \<Rightarrow> run_request \<Rightarrow> 'w \<Rightarrow> 'w \<times> bool \<times> 'tx \<times> (bolt_error + 'c)"
  env_rollback :: "'tx \<Rightarrow> 'w \<Rightarrow> 'w"
  env_commit :: "'tx \<Rightarrow> 'w \<Rightarrow> 'w \<times> (bolt_error + u64)"
  cursor_fields :: "'c \<Rightarrow> string list"
  cursor_rows :: "'c \<Rightarrow> nat option \<Rightarrow> u8 \<times> u8 \<Rightarrow> 'c \<times> (bolt_error + pack_value list list)"
  cursor_discard :: "'c \<Rightarrow> nat option \<Rightarrow> 'c"
  cursor_has_more :: "'c \<Rightarrow> bool"
  cursor_summary :: "'c \<Rightarrow> (string \<times> pack_value) list"

datatype ('tx, 'c) conn_state =
    NotAuthenticated
  | Ready
  | Streaming 'c nat
  | InTx 'tx nat nat "(int \<times> 'c) list"
  | Failed
  | Interrupted
  | Defunct

fun state_name :: "('tx, 'c) conn_state \<Rightarrow> string" where
  "state_name NotAuthenticated = ''NotAuthenticated''"
| "state_name Ready = ''Ready''"
| "state_name (Streaming _ _) = ''Streaming''"
| "state_name (InTx _ _ _ cursors) = (if cursors = [] then ''InTx'' else ''InTxStreaming'')"
| "state_name Failed = ''Failed''"
| "state_name Interrupted = ''Interrupted''"
| "state_name Defunct = ''Defunct''"

record ('tx, 'c) connection =
  conn_state :: "('tx, 'c) conn_state"
  conn_identity :: "identity option"
  conn_auth :: authenticator
  tx_timeout :: nat
  connection_id :: string
  conn_version :: "u8 \<times> u8"
  pending_failure :: "bolt_error option"
  conn_routing :: "routing_config option"
  has_service :: bool
  last_qid :: int
  interrupted :: bool

definition connection_new ::
  "authenticator \<Rightarrow> nat \<Rightarrow> string \<Rightarrow> u8 \<times> u8 \<Rightarrow> routing_config option \<Rightarrow> bool \<Rightarrow> ('tx, 'c) connection" where
  "connection_new auth timeout cid version routing service =
     \<lparr>conn_state = NotAuthenticated, conn_identity = None, conn_auth = auth, tx_timeout = timeout, connection_id = cid,
      conn_version = version, pending_failure = None, conn_routing = routing, has_service = service,
      last_qid = - 1, interrupted = False\<rparr>"

type_synonym ('w, 'tx, 'c) reply = "('tx, 'c) connection \<times> 'w \<times> server_message list"

section \<open>Steps shared by the handlers\<close>

definition discard_work :: "('w, 'tx, 'c) bolt_env \<Rightarrow> ('tx, 'c) connection \<Rightarrow> 'w \<Rightarrow> ('tx, 'c) connection \<times> 'w" where
  "discard_work env c w =
     (c\<lparr>conn_state := Failed\<rparr>, case conn_state c of InTx tx _ _ _ \<Rightarrow> env_rollback env tx w | _ \<Rightarrow> w)"

definition violate :: "('w, 'tx, 'c) bolt_env \<Rightarrow> ('tx, 'c) connection \<Rightarrow> 'w \<Rightarrow> bolt_error \<Rightarrow> ('w, 'tx, 'c) reply" where
  "violate env c w err = (let (c, w) = discard_work env c w in (c\<lparr>conn_state := Defunct\<rparr>, w, [Failure err]))"

definition fail :: "('w, 'tx, 'c) bolt_env \<Rightarrow> ('tx, 'c) connection \<Rightarrow> 'w \<Rightarrow> bolt_error \<Rightarrow> ('w, 'tx, 'c) reply" where
  "fail env c w err = (let (c, w) = discard_work env c w in (c\<lparr>conn_state := Failed\<rparr>, w, [Failure err]))"

definition interrupt :: "('w, 'tx, 'c) bolt_env \<Rightarrow> ('tx, 'c) connection \<Rightarrow> 'w \<Rightarrow> ('tx, 'c) connection \<times> 'w" where
  "interrupt env c w =
     (case conn_state c of
        NotAuthenticated \<Rightarrow> (c, w)
      | Defunct \<Rightarrow> (c, w)
      | Interrupted \<Rightarrow> (c, w)
      | _ \<Rightarrow> let (c, w) = discard_work env c w in (c\<lparr>conn_state := Interrupted\<rparr>, w))"

text \<open>A request that failed: ignored when a \<open>RESET\<close> is waiting, else reported.\<close>

definition ignored_or_fail :: "('w, 'tx, 'c) bolt_env \<Rightarrow> ('tx, 'c) connection \<Rightarrow> 'w \<Rightarrow> bolt_error \<Rightarrow> ('w, 'tx, 'c) reply" where
  "ignored_or_fail env c w err =
     (if interrupted c then let (c, w) = interrupt env c w in (c, w, [Ignored]) else fail env c w err)"

definition check_timeout :: "('w, 'tx, 'c) bolt_env \<Rightarrow> nat \<Rightarrow> ('tx, 'c) connection \<Rightarrow> 'w \<Rightarrow> ('tx, 'c) connection \<times> 'w" where
  "check_timeout env now c w =
     (case (case conn_state c of
         InTx _ _ last_activity _ \<Rightarrow> if now - last_activity \<ge> tx_timeout c then Some TransactionTimedOut else None
       | Streaming _ last_activity \<Rightarrow>
           if now - last_activity \<ge> tx_timeout c
           then Some (Invalid ''the result was idle past its timeout and has been closed'') else None
       | _ \<Rightarrow> None) of
        None \<Rightarrow> (c, w)
      | Some failure \<Rightarrow>
          let (c, w) = discard_work env c w in (c\<lparr>conn_state := Failed, pending_failure := Some failure\<rparr>, w))"

definition select_database :: "(string \<Rightarrow> string) \<Rightarrow> routing_config option \<Rightarrow> string option \<Rightarrow> bolt_error + unit" where
  "select_database dbg routing requested =
     (case (routing, requested) of
        (Some r, _) \<Rightarrow> check_database dbg r requested
      | (None, None) \<Rightarrow> Inr ()
      | (None, Some name) \<Rightarrow>
          if name = [] then Inr () else Inl (DatabaseNotFound (''database '' @ dbg name @ '' does not exist'')))"

fun allows :: "('tx, 'c) conn_state \<Rightarrow> message_kind \<Rightarrow> bool" where
  "allows Ready kind \<longleftrightarrow> kind \<in> {KRun, KBegin, KRoute}"
| "allows (Streaming _ _) kind \<longleftrightarrow> kind \<in> {KPull, KDiscard}"
| "allows (InTx _ _ _ cursors) kind \<longleftrightarrow>
     (if cursors = [] then kind \<in> {KRun, KCommit, KRollback} else kind \<in> {KRun, KPull, KDiscard})"
| "allows _ _ \<longleftrightarrow> False"

section \<open>Handlers\<close>

definition handle_connected :: "('w, 'tx, 'c) bolt_env \<Rightarrow> ('tx, 'c) connection \<Rightarrow> 'w \<Rightarrow> client_message \<Rightarrow> ('w, 'tx, 'c) reply" where
  "handle_connected env c w msg =
     (case msg of
        Hello h \<Rightarrow>
          (case authenticate (env_digest env) (conn_auth c) (hello_auth h) of
             Some i \<Rightarrow> (c\<lparr>conn_identity := Some i, conn_state := Ready\<rparr>, w, [hello_success (pkg_version env) (connection_id c)])
           | None \<Rightarrow> (c\<lparr>conn_state := Defunct\<rparr>, w, [Failure Unauthorized]))
      | Goodbye \<Rightarrow> (c\<lparr>conn_state := Defunct\<rparr>, w, [])
      | _ \<Rightarrow> (c\<lparr>conn_state := Defunct\<rparr>, w, [Failure (Invalid ''the first message must be HELLO'')]))"

definition handle_failed :: "('tx, 'c) connection \<Rightarrow> 'w \<Rightarrow> client_message \<Rightarrow> ('w, 'tx, 'c) reply" where
  "handle_failed c w msg =
     (case msg of
        Reset \<Rightarrow> (c\<lparr>pending_failure := None, interrupted := False, conn_state := Ready\<rparr>, w, [reset_success])
      | Goodbye \<Rightarrow> (c\<lparr>conn_state := Defunct\<rparr>, w, [])
      | _ \<Rightarrow>
          (case pending_failure c of
             Some err \<Rightarrow> (c\<lparr>pending_failure := None\<rparr>, w, [Failure err])
           | None \<Rightarrow> (c, w, [Ignored])))"

definition handle_route :: "('w, 'tx, 'c) bolt_env \<Rightarrow> ('tx, 'c) connection \<Rightarrow> 'w \<Rightarrow> pack_value list \<Rightarrow> ('w, 'tx, 'c) reply" where
  "handle_route env c w vals =
     (case conn_routing c of
        None \<Rightarrow> fail env c w (NotSupported ''ROUTE is not supported on this listener'')
      | Some routing \<Rightarrow>
          (case requested_database vals of
             Inl err \<Rightarrow> violate env c w err
           | Inr requested \<Rightarrow>
               (case route_reply (env_dbg env) routing requested of
                  Inr reply \<Rightarrow> (c, w, [reply])
                | Inl err \<Rightarrow> fail env c w err)))"

text \<open>\<open>later\<close> is the clock when the transaction is open.\<close>

definition handle_begin ::
  "('w, 'tx, 'c) bolt_env \<Rightarrow> nat \<Rightarrow> ('tx, 'c) connection \<Rightarrow> 'w \<Rightarrow> pack_value list \<Rightarrow> ('w, 'tx, 'c) reply" where
  "handle_begin env later c w vals =
     (case (has_service c, conn_identity c) of
        (True, Some i) \<Rightarrow>
          (case begin_from_fields (env_dbg env) vals of
             Inl err \<Rightarrow> violate env c w err
           | Inr (Inl err) \<Rightarrow> fail env c w err
           | Inr (Inr request) \<Rightarrow>
               (case select_database (env_dbg env) (conn_routing c) (begin_database request) of
                  Inl err \<Rightarrow> fail env c w err
                | Inr _ \<Rightarrow>
                    (case svc_begin env i request w of
                       (w, raised, r) \<Rightarrow>
                         let c = c\<lparr>interrupted := interrupted c \<or> raised\<rparr> in
                         (case r of
                            Inl err \<Rightarrow> ignored_or_fail env c w err
                          | Inr tx \<Rightarrow>
                              let c = c\<lparr>last_qid := - 1\<rparr> in
                              (case conn_state c of
                                 Ready \<Rightarrow> (c\<lparr>conn_state := InTx tx later later []\<rparr>, w, [Success []])
                               | _ \<Rightarrow> violate env c (env_rollback env tx w) (Invalid ''BEGIN needs the Ready state''))))))
      | _ \<Rightarrow> fail env c w (NotSupported ''BEGIN is not supported on a connection with no database''))"

definition take_tx :: "('tx, 'c) connection \<Rightarrow> ('tx, 'c) connection \<times> 'tx option" where
  "take_tx c = (case conn_state c of InTx tx _ _ _ \<Rightarrow> (c\<lparr>conn_state := Failed\<rparr>, Some tx) | _ \<Rightarrow> (c, None))"

definition handle_commit :: "('w, 'tx, 'c) bolt_env \<Rightarrow> ('tx, 'c) connection \<Rightarrow> 'w \<Rightarrow> pack_value list \<Rightarrow> ('w, 'tx, 'c) reply" where
  "handle_commit env c w vals =
     (if vals \<noteq> [] then violate env c w (Invalid ''COMMIT takes no fields'')
      else case take_tx c of
        (c, None) \<Rightarrow> violate env c w (Invalid ''COMMIT needs a transaction'')
      | (c, Some tx) \<Rightarrow>
          (case env_commit env tx w of
             (w, Inr seq) \<Rightarrow> (c\<lparr>conn_state := Ready\<rparr>, w, [Success [(''bookmark'', PString (format_bookmark seq))]])
           | (w, Inl err) \<Rightarrow> (c, w, [Failure err])))"

definition handle_rollback :: "('w, 'tx, 'c) bolt_env \<Rightarrow> ('tx, 'c) connection \<Rightarrow> 'w \<Rightarrow> pack_value list \<Rightarrow> ('w, 'tx, 'c) reply" where
  "handle_rollback env c w vals =
     (if vals \<noteq> [] then violate env c w (Invalid ''ROLLBACK takes no fields'')
      else case take_tx c of
        (c, None) \<Rightarrow> violate env c w (Invalid ''ROLLBACK needs a transaction'')
      | (c, Some tx) \<Rightarrow> (c\<lparr>conn_state := Ready\<rparr>, env_rollback env tx w, [Success []]))"

text \<open>The answer to \<open>RUN\<close> once the result is open: \<open>later\<close> is the clock then, \<open>elapsed\<close> the milliseconds
  the statement took.\<close>

definition run_opened ::
  "('w, 'tx, 'c) bolt_env \<Rightarrow> nat \<Rightarrow> int \<Rightarrow> ('tx, 'c) connection \<Rightarrow> 'w \<Rightarrow> 'c \<Rightarrow> ('w, 'tx, 'c) reply" where
  "run_opened env later elapsed c w cursor =
     (let meta = [(''fields'', PList (map PString (cursor_fields env cursor))), (''t_first'', PInt elapsed)] in
      case conn_state c of
        InTx tx opened_at last_activity cursors \<Rightarrow>
          let qid = last_qid c + 1 in
          (c\<lparr>last_qid := qid, conn_state := InTx tx opened_at last_activity (alist_ins qid cursor cursors)\<rparr>, w,
           [Success (meta @ [(''qid'', PInt qid)])])
      | _ \<Rightarrow> (c\<lparr>conn_state := Streaming cursor later\<rparr>, w, [Success meta]))"

definition handle_run ::
  "('w, 'tx, 'c) bolt_env \<Rightarrow> nat \<Rightarrow> int \<Rightarrow> ('tx, 'c) connection \<Rightarrow> 'w \<Rightarrow> pack_value list \<Rightarrow> ('w, 'tx, 'c) reply" where
  "handle_run env later elapsed c w vals =
     (case (has_service c, conn_identity c) of
        (True, Some i) \<Rightarrow>
          (case run_from_fields (env_dbg env) vals of
             Inl err \<Rightarrow> violate env c w err
           | Inr request \<Rightarrow>
               (case select_database (env_dbg env) (conn_routing c) (run_database request) of
                  Inl err \<Rightarrow> fail env c w err
                | Inr _ \<Rightarrow>
                    let (c, w, opened) = (case conn_state c of
                        InTx tx opened_at last_activity cursors \<Rightarrow>
                          (case svc_run_in_tx env i tx request w of
                             (w, raised, tx, r) \<Rightarrow>
                               (c\<lparr>conn_state := InTx tx opened_at last_activity cursors, interrupted := interrupted c \<or> raised\<rparr>, w, r))
                      | _ \<Rightarrow>
                          (case svc_run_auto_commit env i request w of
                             (w, raised, r) \<Rightarrow> (c\<lparr>interrupted := interrupted c \<or> raised\<rparr>, w, r)))
                    in case opened of
                         Inl err \<Rightarrow> ignored_or_fail env c w err
                       | Inr cursor \<Rightarrow> run_opened env later elapsed c w cursor))
      | _ \<Rightarrow> fail env c w (NotSupported ''RUN is not supported on a connection with no database''))"

text \<open>The open result a request addresses, with its id in a transaction.\<close>

definition addressed :: "('tx, 'c) conn_state \<Rightarrow> int \<Rightarrow> (int option \<times> 'c) option" where
  "addressed st qid =
     (case st of
        Streaming cursor _ \<Rightarrow> if qid = - 1 then Some (None, cursor) else None
      | InTx _ _ _ cursors \<Rightarrow>
          (case (if qid = - 1 then (if cursors = [] then None else Some (fst (last cursors))) else Some qid) of
             None \<Rightarrow> None
           | Some q \<Rightarrow> map_option (\<lambda>cursor. (Some q, cursor)) (map_of cursors q))
      | _ \<Rightarrow> None)"

text \<open>Writing a cursor back where it was taken from, and closing it.\<close>

definition put_cursor :: "('tx, 'c) conn_state \<Rightarrow> int option \<Rightarrow> 'c \<Rightarrow> ('tx, 'c) conn_state" where
  "put_cursor st q cursor =
     (case st of
        Streaming _ last_activity \<Rightarrow> Streaming cursor last_activity
      | InTx tx opened_at last_activity cursors \<Rightarrow>
          (case q of Some k \<Rightarrow> InTx tx opened_at last_activity (AList.update k cursor cursors) | None \<Rightarrow> st)
      | _ \<Rightarrow> st)"

definition close_cursor :: "('tx, 'c) conn_state \<Rightarrow> int option \<Rightarrow> ('tx, 'c) conn_state" where
  "close_cursor st q =
     (case (st, q) of
        (InTx tx opened_at last_activity cursors, Some k) \<Rightarrow> InTx tx opened_at last_activity (alist_del k cursors)
      | _ \<Rightarrow> Ready)"

definition handle_stream ::
  "('w, 'tx, 'c) bolt_env \<Rightarrow> ('tx, 'c) connection \<Rightarrow> 'w \<Rightarrow> pack_value list \<Rightarrow> bool \<Rightarrow> ('w, 'tx, 'c) reply" where
  "handle_stream env c w vals discard =
     (case stream_from_fields vals of
        Inl err \<Rightarrow> violate env c w err
      | Inr (Inl err) \<Rightarrow> fail env c w err
      | Inr (Inr request) \<Rightarrow>
          (case addressed (conn_state c) (stream_qid request) of
             None \<Rightarrow> fail env c w (Invalid (''no open result has qid '' @ int_text (stream_qid request)))
           | Some (q, cursor) \<Rightarrow>
               (case (if discard then (cursor_discard env cursor (stream_limit request), Inr [])
                      else cursor_rows env cursor (stream_limit request) (conn_version c)) of
                  (cursor, Inl err) \<Rightarrow> fail env (c\<lparr>conn_state := put_cursor (conn_state c) q cursor\<rparr>) w err
                | (cursor, Inr rows) \<Rightarrow>
                    let c = c\<lparr>conn_state := put_cursor (conn_state c) q cursor\<rparr> in
                    if cursor_has_more env cursor then (c, w, map Record rows @ [Success [(''has_more'', PBool True)]])
                    else (c\<lparr>conn_state := close_cursor (conn_state c) q\<rparr>, w, map Record rows @ [Success (cursor_summary env cursor)]))))"

fun kind_text :: "message_kind \<Rightarrow> string" where
  "kind_text KRun = ''Run''"
| "kind_text KBegin = ''Begin''"
| "kind_text KCommit = ''Commit''"
| "kind_text KRollback = ''Rollback''"
| "kind_text KDiscard = ''Discard''"
| "kind_text KPull = ''Pull''"
| "kind_text KRoute = ''Route''"

definition touch :: "nat \<Rightarrow> ('tx, 'c) conn_state \<Rightarrow> ('tx, 'c) conn_state" where
  "touch now st =
     (case st of
        InTx tx opened_at _ cursors \<Rightarrow> InTx tx opened_at now cursors
      | Streaming cursor _ \<Rightarrow> Streaming cursor now
      | _ \<Rightarrow> st)"

definition handle_active ::
  "('w, 'tx, 'c) bolt_env \<Rightarrow> nat \<Rightarrow> nat \<Rightarrow> int \<Rightarrow> ('tx, 'c) connection \<Rightarrow> 'w \<Rightarrow> client_message \<Rightarrow> ('w, 'tx, 'c) reply" where
  "handle_active env now later elapsed c w msg =
     (let c = c\<lparr>conn_state := touch now (conn_state c)\<rparr> in
      case msg of
        Goodbye \<Rightarrow> let (c, w) = discard_work env c w in (c\<lparr>conn_state := Defunct\<rparr>, w, [])
      | Reset \<Rightarrow>
          let (c, w) = discard_work env c w in (c\<lparr>interrupted := False, conn_state := Ready\<rparr>, w, [reset_success])
      | Hello _ \<Rightarrow> violate env c w (Invalid (''HELLO is not allowed in state '' @ state_name (conn_state c)))
      | Other kind vals \<Rightarrow>
          if \<not> allows (conn_state c) kind
          then violate env c w (Invalid (kind_text kind @ '' is not allowed in state '' @ state_name (conn_state c)))
          else (case kind of
              KRoute \<Rightarrow> handle_route env c w vals
            | KBegin \<Rightarrow> handle_begin env later c w vals
            | KCommit \<Rightarrow> handle_commit env c w vals
            | KRollback \<Rightarrow> handle_rollback env c w vals
            | KRun \<Rightarrow> handle_run env later elapsed c w vals
            | KPull \<Rightarrow> handle_stream env c w vals False
            | KDiscard \<Rightarrow> handle_stream env c w vals True))"

definition handle_at ::
  "('w, 'tx, 'c) bolt_env \<Rightarrow> nat \<Rightarrow> nat \<Rightarrow> int \<Rightarrow> ('tx, 'c) connection \<Rightarrow> 'w \<Rightarrow> client_message \<Rightarrow> ('w, 'tx, 'c) reply" where
  "handle_at env now later elapsed c w msg =
     (let (c, w) = check_timeout env now c w in
      case conn_state c of
        Defunct \<Rightarrow> (c, w, [])
      | NotAuthenticated \<Rightarrow> handle_connected env c w msg
      | Failed \<Rightarrow> handle_failed c w msg
      | Interrupted \<Rightarrow> handle_failed c w msg
      | _ \<Rightarrow> handle_active env now later elapsed c w msg)"

definition handle_malformed :: "('w, 'tx, 'c) bolt_env \<Rightarrow> ('tx, 'c) connection \<Rightarrow> 'w \<Rightarrow> bolt_error \<Rightarrow> ('w, 'tx, 'c) reply" where
  "handle_malformed env c w err = (if conn_state c = Defunct then (c, w, []) else violate env c w err)"

section \<open>Batches\<close>

text \<open>One item of a batch: whether a \<open>RESET\<close> was read before it is looked at, the clock, and the decoded
  request.\<close>

record item =
  item_raised :: bool
  item_now :: nat
  item_later :: nat
  item_elapsed :: int
  item_request :: "bolt_error + client_message"

definition handle_item :: "('w, 'tx, 'c) bolt_env \<Rightarrow> ('tx, 'c) connection \<Rightarrow> 'w \<Rightarrow> item \<Rightarrow> ('w, 'tx, 'c) reply" where
  "handle_item env c w x =
     (let c = c\<lparr>interrupted := interrupted c \<or> item_raised x\<rparr>;
          (c, w) = (if interrupted c then interrupt env c w else (c, w))
      in case item_request x of
           Inr msg \<Rightarrow> handle_at env (item_now x) (item_later x) (item_elapsed x) c w msg
         | Inl err \<Rightarrow> handle_malformed env c w err)"

fun handle_batch :: "('w, 'tx, 'c) bolt_env \<Rightarrow> ('tx, 'c) connection \<Rightarrow> 'w \<Rightarrow> item list \<Rightarrow> ('w, 'tx, 'c) reply" where
  "handle_batch env c w [] = (c, w, [])"
| "handle_batch env c w (x # xs) =
     (case handle_item env c w x of (c, w, out) \<Rightarrow>
       case handle_batch env c w xs of (c, w, outs) \<Rightarrow> (c, w, out @ outs))"

text \<open>What the read loop does with the connection: the ticker, and a batch of decoded messages, which a
  \<open>RESET\<close> among them interrupts first. The loop ends when the connection is defunct.\<close>

datatype event = Tick nat | Batch "item list"

definition conn_event :: "('w, 'tx, 'c) bolt_env \<Rightarrow> ('tx, 'c) connection \<Rightarrow> 'w \<Rightarrow> event \<Rightarrow> ('w, 'tx, 'c) reply" where
  "conn_event env c w e =
     (case e of
        Tick now \<Rightarrow> let (c, w) = check_timeout env now c w in (c, w, [])
      | Batch xs \<Rightarrow>
          let (c, w) = (if list_ex (\<lambda>x. item_request x = Inr Reset) xs then interrupt env c w else (c, w))
          in handle_batch env c w xs)"

fun conn_run :: "('w, 'tx, 'c) bolt_env \<Rightarrow> ('tx, 'c) connection \<Rightarrow> 'w \<Rightarrow> event list \<Rightarrow> ('w, 'tx, 'c) reply" where
  "conn_run env c w [] = (c, w, [])"
| "conn_run env c w (e # es) =
     (if conn_state c = Defunct then (c, w, [])
      else case conn_event env c w e of (c, w, out) \<Rightarrow>
        case conn_run env c w es of (c, w, outs) \<Rightarrow> (c, w, out @ outs))"

section \<open>Answers\<close>

text \<open>The shape of an answer: the rows of a result, if any, and then one message that ends it and agrees
  with the state the connection is left in.\<close>

fun ends_in :: "server_message \<Rightarrow> ('tx, 'c) conn_state \<Rightarrow> bool" where
  "ends_in (Success _) st \<longleftrightarrow> (case st of Ready \<Rightarrow> True | Streaming _ _ \<Rightarrow> True | InTx _ _ _ _ \<Rightarrow> True | _ \<Rightarrow> False)"
| "ends_in (Failure _) st \<longleftrightarrow> (case st of Failed \<Rightarrow> True | Interrupted \<Rightarrow> True | Defunct \<Rightarrow> True | _ \<Rightarrow> False)"
| "ends_in Ignored st \<longleftrightarrow> (case st of Failed \<Rightarrow> True | Interrupted \<Rightarrow> True | _ \<Rightarrow> False)"
| "ends_in (Record _) st \<longleftrightarrow> False"

definition answered :: "('w, 'tx, 'c) reply \<Rightarrow> bool" where
  "answered r = (case r of (c, w, out) \<Rightarrow> \<exists>rows final. out = map Record rows @ [final] \<and> ends_in final (conn_state c))"

lemma answered_single [simp]: "answered (c, w, [m]) \<longleftrightarrow> ends_in m (conn_state c)"
  by (auto simp: answered_def map_eq_Cons_conv append_eq_Cons_conv)

lemma answered_rows: "ends_in m (conn_state c) \<Longrightarrow> answered (c, w, map Record rows @ [m])"
  by (auto simp: answered_def)

lemma answered_violate [simp]: "answered (violate env c w err)"
  by (simp add: violate_def discard_work_def)

lemma answered_fail [simp]: "answered (fail env c w err)"
  by (simp add: fail_def discard_work_def)

lemma interrupt_state:
  "interrupt env c w = (c', w') \<Longrightarrow> conn_state c' =
     (case conn_state c of NotAuthenticated \<Rightarrow> NotAuthenticated | Defunct \<Rightarrow> Defunct | _ \<Rightarrow> Interrupted)"
  by (auto simp: interrupt_def discard_work_def split: conn_state.splits)

definition serving :: "('tx, 'c) conn_state \<Rightarrow> bool" where
  "serving st \<longleftrightarrow> (case st of Ready \<Rightarrow> True | Streaming _ _ \<Rightarrow> True | InTx _ _ _ _ \<Rightarrow> True | _ \<Rightarrow> False)"

lemma answered_ignored_or_fail: "serving (conn_state c) \<Longrightarrow> answered (ignored_or_fail env c w err)"
  by (auto simp: ignored_or_fail_def serving_def interrupt_def discard_work_def Let_def split: conn_state.splits)

lemma answered_route: "serving (conn_state c) \<Longrightarrow> answered (handle_route env c w vals)"
  by (auto simp: handle_route_def route_reply_def bind_res_Inr_iff serving_def split: option.split sum.split conn_state.splits)

lemma answered_begin: "serving (conn_state c) \<Longrightarrow> answered (handle_begin env later c w vals)"
  by (auto simp: handle_begin_def Let_def answered_ignored_or_fail split: option.split sum.split prod.split conn_state.split bool.split)

lemma answered_commit: "answered (handle_commit env c w vals)"
  by (auto simp: handle_commit_def take_tx_def split: option.split sum.split prod.split conn_state.split)

lemma answered_rollback: "answered (handle_rollback env c w vals)"
  by (auto simp: handle_rollback_def take_tx_def split: option.split sum.split prod.split conn_state.split)

lemma answered_run_opened: "answered (run_opened env later elapsed c w cursor)"
  by (auto simp: run_opened_def Let_def split: conn_state.split)

lemma answered_run: "serving (conn_state c) \<Longrightarrow> answered (handle_run env later elapsed c w vals)"
  unfolding handle_run_def Let_def
  by (auto simp: answered_run_opened intro!: answered_ignored_or_fail split: option.split sum.split prod.split conn_state.split bool.split)
    (auto simp: serving_def)

lemma addressed_serving: "addressed st qid = Some (q, cursor) \<Longrightarrow> serving st"
  by (auto simp: addressed_def serving_def split: conn_state.splits)

lemma serving_put [simp]: "serving (put_cursor st q cursor) = serving st"
  by (auto simp: put_cursor_def serving_def split: conn_state.split option.split)

lemma serving_close [simp]: "serving (close_cursor st q)"
  by (auto simp: close_cursor_def serving_def split: conn_state.split option.split)

lemma ends_success: "ends_in (Success m) st \<longleftrightarrow> serving st"
  by (simp add: serving_def)

lemma answered_stream: "answered (handle_stream env c w vals discard)"
  unfolding handle_stream_def Let_def
  by (auto intro!: answered_rows simp: ends_success dest: addressed_serving split: option.split sum.split prod.split simp del: ends_in.simps)

lemma serving_touch [simp]: "serving (touch now st) = serving st"
  by (auto simp: touch_def serving_def split: conn_state.split)

lemma answered_active: "serving (conn_state c) \<Longrightarrow> msg \<noteq> Goodbye \<Longrightarrow> answered (handle_active env now later elapsed c w msg)"
  unfolding handle_active_def Let_def
  by (auto simp: answered_route answered_begin answered_commit answered_rollback answered_run answered_stream discard_work_def
      reset_success_def split: client_message.split message_kind.split prod.split)

lemma answered_connected: "msg \<noteq> Goodbye \<Longrightarrow> answered (handle_connected env c w msg)"
  by (auto simp: handle_connected_def hello_success_def split: client_message.split option.split)

lemma answered_failed:
  "conn_state c = Failed \<or> conn_state c = Interrupted \<Longrightarrow> msg \<noteq> Goodbye \<Longrightarrow> answered (handle_failed c w msg)"
  by (auto simp: handle_failed_def reset_success_def split: client_message.split option.split)

lemma check_timeout_defunct:
  "check_timeout env now c w = (c', w') \<Longrightarrow> conn_state c' = Defunct \<longleftrightarrow> conn_state c = Defunct"
  by (auto simp: check_timeout_def discard_work_def Let_def split: conn_state.splits if_splits)

lemma answered_handle_at:
  assumes "conn_state c \<noteq> Defunct" "msg \<noteq> Goodbye"
  shows "answered (handle_at env now later elapsed c w msg)"
proof -
  obtain c1 w1 where t: "check_timeout env now c w = (c1, w1)" by fastforce
  then have "conn_state c1 \<noteq> Defunct" using check_timeout_defunct [OF t] assms(1) by simp
  then show ?thesis using assms(2) unfolding handle_at_def t Let_def
    by (auto simp: answered_connected answered_failed intro!: answered_active split: conn_state.split)
      (auto simp: serving_def)
qed

lemma goodbye_at:
  "handle_at env now later elapsed c w Goodbye = (c', w', out) \<Longrightarrow> out = [] \<and> conn_state c' = Defunct"
  by (auto simp: handle_at_def handle_connected_def handle_failed_def handle_active_def discard_work_def Let_def
      split: conn_state.splits prod.splits)

text \<open>An item is handled by the connection as the flag leaves it.\<close>

definition item_start :: "('w, 'tx, 'c) bolt_env \<Rightarrow> ('tx, 'c) connection \<Rightarrow> 'w \<Rightarrow> item \<Rightarrow> ('tx, 'c) connection \<times> 'w" where
  "item_start env c w x =
     (let c = c\<lparr>interrupted := interrupted c \<or> item_raised x\<rparr> in if interrupted c then interrupt env c w else (c, w))"

lemma handle_item_start:
  "handle_item env c w x = (case item_start env c w x of (c, w) \<Rightarrow>
     case item_request x of
       Inr msg \<Rightarrow> handle_at env (item_now x) (item_later x) (item_elapsed x) c w msg
     | Inl err \<Rightarrow> handle_malformed env c w err)"
  by (simp add: handle_item_def item_start_def Let_def)

lemma item_start_state:
  "item_start env c w x = (c', w') \<Longrightarrow> conn_state c' = conn_state c \<or>
     conn_state c' = Interrupted \<and> conn_state c \<noteq> NotAuthenticated \<and> conn_state c \<noteq> Defunct"
  by (auto simp: item_start_def Let_def dest!: interrupt_state split: if_splits conn_state.splits)

lemma answered_item:
  assumes "conn_state c \<noteq> Defunct" "item_request x \<noteq> Inr Goodbye"
  shows "answered (handle_item env c w x)"
proof -
  obtain c1 w1 where i: "item_start env c w x = (c1, w1)" by fastforce
  have "conn_state c1 \<noteq> Defunct" using item_start_state [OF i] assms(1) by auto
  then show ?thesis using assms(2) unfolding handle_item_start i
    by (cases "item_request x") (simp_all add: handle_malformed_def answered_handle_at)
qed

lemma defunct_item:
  "conn_state c = Defunct \<Longrightarrow> handle_item env c w x = (c', w', out) \<Longrightarrow> out = [] \<and> conn_state c' = Defunct \<and> w' = w"
  by (auto simp: handle_item_def handle_at_def handle_malformed_def interrupt_def check_timeout_def Let_def split: if_splits sum.splits)

lemma goodbye_item:
  assumes "item_request x = Inr Goodbye" "handle_item env c w x = (c', w', out)"
  shows "out = [] \<and> conn_state c' = Defunct"
proof -
  obtain c1 w1 where i: "item_start env c w x = (c1, w1)" by fastforce
  show ?thesis using assms(2) by (intro goodbye_at) (simp add: handle_item_start i assms(1))
qed

section \<open>Transactions and results\<close>

text \<open>What is asked of the service: it opens a transaction exactly when \<open>begin\<close> succeeds, a transaction
  ends when it is committed or rolled back, and statements open and end none. \<open>live\<close> is the number
  of transactions open in the world.\<close>

definition counts_txs :: "('w, 'tx, 'c) bolt_env \<Rightarrow> ('w \<Rightarrow> nat) \<Rightarrow> bool" where
  "counts_txs env live \<longleftrightarrow>
     (\<forall>i r w. case svc_begin env i r w of (w', _, Inl _) \<Rightarrow> live w' = live w | (w', _, Inr _) \<Rightarrow> live w' = Suc (live w)) \<and>
     (\<forall>i r w. live (fst (svc_run_auto_commit env i r w)) = live w) \<and>
     (\<forall>i tx r w. live (fst (svc_run_in_tx env i tx r w)) = live w) \<and>
     (\<forall>tx w. live (env_rollback env tx w) = live w - 1) \<and>
     (\<forall>tx w. live (fst (env_commit env tx w)) = live w - 1)"

lemma counts_txsD:
  assumes "counts_txs env live"
  shows "svc_begin env i r w = (w', b, Inl e) \<Longrightarrow> live w' = live w"
    "svc_begin env i r w = (w', b, Inr t) \<Longrightarrow> live w' = Suc (live w)"
    "svc_run_auto_commit env i q w = (w', b, x) \<Longrightarrow> live w' = live w"
    "svc_run_in_tx env i tx q w = (w', b, tx', x) \<Longrightarrow> live w' = live w"
    "live (env_rollback env tx w) = live w - 1"
    "env_commit env tx w = (w', y) \<Longrightarrow> live w' = live w - 1"
proof -
  have b: "case svc_begin env i r w of (w', _, Inl _) \<Rightarrow> live w' = live w | (w', _, Inr _) \<Rightarrow> live w' = Suc (live w)"
    using assms unfolding counts_txs_def by (elim conjE) (erule allE)+
  then show "svc_begin env i r w = (w', b, Inl e) \<Longrightarrow> live w' = live w" "svc_begin env i r w = (w', b, Inr t) \<Longrightarrow> live w' = Suc (live w)"
    by simp_all
  have "live (fst (svc_run_auto_commit env i q w)) = live w" "live (fst (svc_run_in_tx env i tx q w)) = live w"
      "live (env_rollback env tx w) = live w - 1" "live (fst (env_commit env tx w)) = live w - 1"
    using assms unfolding counts_txs_def by blast+
  then show "svc_run_auto_commit env i q w = (w', b, x) \<Longrightarrow> live w' = live w"
      "svc_run_in_tx env i tx q w = (w', b, tx', x) \<Longrightarrow> live w' = live w"
      "live (env_rollback env tx w) = live w - 1" "env_commit env tx w = (w', y) \<Longrightarrow> live w' = live w - 1"
    by simp_all
qed

definition open_txs_of :: "('tx, 'c) conn_state \<Rightarrow> nat" where
  "open_txs_of st = (case st of InTx _ _ _ _ \<Rightarrow> 1 | _ \<Rightarrow> 0)"

definition qids_ok :: "('tx, 'c) conn_state \<Rightarrow> int \<Rightarrow> bool" where
  "qids_ok st qid \<longleftrightarrow>
     (case st of
        InTx _ _ _ cursors \<Rightarrow> - 1 \<le> qid \<and> ssorted (keys cursors) \<and> list_all (\<lambda>q. 0 \<le> q \<and> q \<le> qid) (keys cursors)
      | _ \<Rightarrow> True)"

definition conn_ok :: "('w \<Rightarrow> nat) \<Rightarrow> ('tx, 'c) connection \<Rightarrow> 'w \<Rightarrow> bool" where
  "conn_ok live c w \<longleftrightarrow> live w = open_txs_of (conn_state c) \<and> qids_ok (conn_state c) (last_qid c)"

definition reply_ok :: "('w \<Rightarrow> nat) \<Rightarrow> ('w, 'tx, 'c) reply \<Rightarrow> bool" where
  "reply_ok live r = (case r of (c, w, out) \<Rightarrow> conn_ok live c w)"

lemma reply_ok_simp [simp]: "reply_ok live (c, w, out) = conn_ok live c w"
  by (simp add: reply_ok_def)

lemmas conn_ok_defs = conn_ok_def open_txs_of_def qids_ok_def

lemma discard_ok:
  assumes "counts_txs env live" "conn_ok live c w" "discard_work env c w = (c', w')"
  shows "live w' = 0"
  using assms counts_txsD(5) [OF assms(1)] by (auto simp: discard_work_def conn_ok_defs split: conn_state.splits)

lemma violate_ok:
  assumes "counts_txs env live" "conn_ok live c w"
  shows "reply_ok live (violate env c w err)" "reply_ok live (fail env c w err)"
proof -
  obtain c' w' where d: "discard_work env c w = (c', w')" by fastforce
  from discard_ok [OF assms d] show "reply_ok live (violate env c w err)" "reply_ok live (fail env c w err)"
    by (simp_all add: violate_def fail_def d conn_ok_defs)
qed

lemma interrupt_ok:
  assumes "counts_txs env live" "conn_ok live c w" "interrupt env c w = (c', w')"
  shows "conn_ok live c' w'"
proof -
  obtain c1 w1 where d: "discard_work env c w = (c1, w1)" by fastforce
  show ?thesis using assms discard_ok [OF assms(1,2) d] by (auto simp: interrupt_def d conn_ok_defs split: conn_state.splits)
qed

lemma ignored_or_fail_ok:
  assumes "counts_txs env live" "conn_ok live c w"
  shows "reply_ok live (ignored_or_fail env c w err)"
  using violate_ok [OF assms] interrupt_ok [OF assms] by (auto simp: ignored_or_fail_def split: prod.split)

lemma check_timeout_ok:
  assumes "counts_txs env live" "conn_ok live c w" "check_timeout env now c w = (c', w')"
  shows "conn_ok live c' w'"
proof -
  obtain c1 w1 where d: "discard_work env c w = (c1, w1)" by fastforce
  show ?thesis using assms discard_ok [OF assms(1,2) d]
    by (auto simp: check_timeout_def d conn_ok_defs split: conn_state.splits if_splits)
qed

lemma conn_ok_flag [simp]: "conn_ok live (c\<lparr>interrupted := b\<rparr>) w = conn_ok live c w"
  "conn_ok live (c\<lparr>pending_failure := p\<rparr>) w = conn_ok live c w"
  by (simp_all add: conn_ok_def)

lemma conn_ok_touch [simp]: "conn_ok live (c\<lparr>conn_state := touch now (conn_state c)\<rparr>) w = conn_ok live c w"
  by (auto simp: conn_ok_defs touch_def split: conn_state.split)

lemma route_ok:
  assumes "counts_txs env live" "conn_ok live c w"
  shows "reply_ok live (handle_route env c w vals)"
  using violate_ok [OF assms] assms(2) by (auto simp: handle_route_def split: option.split sum.split)

lemma commit_ok:
  assumes "counts_txs env live" "conn_ok live c w"
  shows "reply_ok live (handle_commit env c w vals)" "reply_ok live (handle_rollback env c w vals)"
  using violate_ok [OF assms] assms(2) counts_txsD(5,6) [OF assms(1)]
  by (auto simp: handle_commit_def handle_rollback_def take_tx_def conn_ok_defs split: option.split sum.split prod.split conn_state.splits)

lemma begin_ok:
  assumes "counts_txs env live" "conn_ok live c w" "conn_state c = Ready"
  shows "reply_ok live (handle_begin env later c w vals)"
proof -
  have o: "conn_ok live (c\<lparr>interrupted := b\<rparr>) w'" if "svc_begin env i r w = (w', b', Inl e)" for b b' i r w' e
    using assms(2) counts_txsD(1) [OF assms(1) that] by (simp add: conn_ok_defs)
  have "reply_ok live (ignored_or_fail env (c\<lparr>interrupted := b\<rparr>) w' e)" if "svc_begin env i r w = (w', b', Inl e)" for b b' i r w' e
    by (rule ignored_or_fail_ok [OF assms(1) o [OF that]])
  moreover have "live w' = 1" if "svc_begin env i r w = (w', b', Inr tx)" for b' i r w' tx
    using assms(2,3) counts_txsD(2) [OF assms(1) that] by (simp add: conn_ok_defs)
  ultimately show ?thesis using violate_ok [OF assms(1,2)] assms(3)
    by (auto simp: handle_begin_def Let_def conn_ok_defs split: option.split sum.split prod.split bool.split)
qed

lemma keys_all_ins: "list_all P (keys es) \<Longrightarrow> P k \<Longrightarrow> list_all P (keys (alist_ins k v es))"
  by (induction k v es rule: alist_ins.induct) auto

lemma keys_all_del: "list_all P (keys es) \<Longrightarrow> list_all P (keys (alist_del k es))"
  by (induction es) (auto simp: alist_del_def)

lemma run_opened_ok:
  assumes "conn_ok live c w"
  shows "reply_ok live (run_opened env later elapsed c w cursor)"
proof (cases "conn_state c")
  case (InTx tx a b cursors)
  then have l: "list_all (\<lambda>q. 0 \<le> q \<and> q \<le> last_qid c) (keys cursors)" using assms by (simp add: conn_ok_defs)
  have "list_all (\<lambda>q. 0 \<le> q \<and> q \<le> last_qid c + 1) (keys cursors)" by (rule list.pred_mono_strong [OF l]) auto
  then show ?thesis using assms InTx
    by (auto simp: run_opened_def Let_def conn_ok_defs intro!: ssorted_alist_ins keys_all_ins)
qed (use assms in \<open>simp_all add: run_opened_def conn_ok_defs\<close>)

lemma run_ok:
  assumes "counts_txs env live" "conn_ok live c w" "serving (conn_state c)"
  shows "reply_ok live (handle_run env later elapsed c w vals)"
proof -
  have "conn_ok live (c\<lparr>interrupted := b\<rparr>) w'" if "svc_run_auto_commit env i r w = (w', b', x)" for b b' i r w' x
    using assms(2) counts_txsD(3) [OF assms(1) that] by (simp add: conn_ok_defs)
  moreover have "conn_ok live (c\<lparr>conn_state := InTx tx' t1 t2 cs, interrupted := b\<rparr>) w'"
    if "conn_state c = InTx tx t1 t2 cs" "svc_run_in_tx env i tx r w = (w', b', tx', x)" for tx tx' t1 t2 cs b b' i r w' x
    using assms(2) counts_txsD(4) [OF assms(1) that(2)] that(1) by (simp add: conn_ok_defs)
  ultimately show ?thesis using violate_ok [OF assms(1,2)]
    by (auto simp: handle_run_def Let_def intro!: ignored_or_fail_ok [OF assms(1)] run_opened_ok
        split: option.split sum.split prod.split bool.split conn_state.split)
qed

lemma update_member: "k \<in> set (keys es) \<Longrightarrow> keys (AList.update k v es) = keys es"
  by (induction es) auto

lemma addressed_key: "addressed (InTx tx a b cursors) qid = Some (q, cursor) \<Longrightarrow> \<exists>k. q = Some k \<and> k \<in> set (keys cursors)"
  by (force simp: addressed_def dest: map_of_SomeD split: if_splits option.splits)

lemma put_cursor_ok:
  assumes "addressed (conn_state c) qid = Some (q, cursor0)" "conn_ok live c w"
  shows "conn_ok live (c\<lparr>conn_state := put_cursor (conn_state c) q cursor\<rparr>) w"
    "conn_ok live (c\<lparr>conn_state := close_cursor (put_cursor (conn_state c) q cursor) q\<rparr>) w"
proof -
  show "conn_ok live (c\<lparr>conn_state := put_cursor (conn_state c) q cursor\<rparr>) w"
  proof (cases "conn_state c")
    case (InTx tx a b cursors)
    then obtain k where k: "q = Some k" "k \<in> set (keys cursors)" using addressed_key assms(1) by metis
    then show ?thesis using assms(2) InTx by (simp add: put_cursor_def conn_ok_defs update_member)
  qed (use assms in \<open>simp_all add: addressed_def put_cursor_def conn_ok_defs\<close>)
  show "conn_ok live (c\<lparr>conn_state := close_cursor (put_cursor (conn_state c) q cursor) q\<rparr>) w"
  proof (cases "conn_state c")
    case (InTx tx a b cursors)
    then obtain k where k: "q = Some k" "k \<in> set (keys cursors)" using addressed_key assms(1) by metis
    have "ssorted (keys (alist_del k (AList.update k cursor cursors)))"
      using assms(2) InTx k(2) by (intro ssorted_alist_del) (simp add: conn_ok_defs update_member)
    moreover have "list_all (\<lambda>q. 0 \<le> q \<and> q \<le> last_qid c) (keys (alist_del k (AList.update k cursor cursors)))"
      using assms(2) InTx k(2) by (intro keys_all_del) (simp add: conn_ok_defs update_member)
    ultimately show ?thesis using assms(2) InTx k by (auto simp: put_cursor_def close_cursor_def conn_ok_defs)
  qed (use assms in \<open>auto simp: addressed_def put_cursor_def close_cursor_def conn_ok_defs split: if_splits option.splits\<close>)
qed

lemma stream_ok:
  assumes "counts_txs env live" "conn_ok live c w"
  shows "reply_ok live (handle_stream env c w vals discard)"
  using violate_ok [OF assms] put_cursor_ok [OF _ assms(2)] violate_ok [OF assms(1)]
  by (auto simp: handle_stream_def Let_def split: option.split sum.split prod.split)

lemma active_ok:
  assumes "counts_txs env live" "conn_ok live c w" "serving (conn_state c)"
  shows "reply_ok live (handle_active env now later elapsed c w msg)"
proof -
  let ?c = "c\<lparr>conn_state := touch now (conn_state c)\<rparr>"
  have o: "conn_ok live ?c w" "serving (conn_state ?c)" using assms by simp_all
  obtain c' w' where d: "discard_work env ?c w = (c', w')" by fastforce
  note z = discard_ok [OF assms(1) o(1) d]
  have "reply_ok live (handle_begin env later ?c w vals)" if "allows (conn_state ?c) KBegin" for vals
    using that by (intro begin_ok [OF assms(1) o(1)]) (cases "conn_state ?c"; simp split: if_splits)
  then show ?thesis
    using violate_ok [OF assms(1) o(1)] route_ok [OF assms(1) o(1)] commit_ok [OF assms(1) o(1)]
      run_ok [OF assms(1) o] stream_ok [OF assms(1) o(1)] z
    unfolding handle_active_def Let_def
    by (auto simp: d conn_ok_defs simp del: conn_ok_touch split: client_message.split message_kind.split)
qed

lemma item_ok:
  assumes "counts_txs env live" "conn_ok live c w"
  shows "reply_ok live (handle_item env c w x)"
proof -
  obtain c1 w1 where i: "item_start env c w x = (c1, w1)" by fastforce
  have o1: "conn_ok live c1 w1" using i assms interrupt_ok [OF assms(1), of "c\<lparr>interrupted := interrupted c \<or> item_raised x\<rparr>" w c1 w1]
    by (auto simp: item_start_def Let_def split: if_splits)
  have "reply_ok live (handle_at env now later elapsed c1 w1 msg)" for now later elapsed msg
  proof -
    obtain c2 w2 where t: "check_timeout env now c1 w1 = (c2, w2)" by fastforce
    note o2 = check_timeout_ok [OF assms(1) o1 t]
    have "reply_ok live (handle_connected env c2 w2 msg)" if "conn_state c2 = NotAuthenticated"
      using o2 that by (auto simp: handle_connected_def conn_ok_defs split: client_message.split option.split)
    moreover have "reply_ok live (handle_failed c2 w2 msg)" if "conn_state c2 = Failed \<or> conn_state c2 = Interrupted"
      using o2 that by (auto simp: handle_failed_def conn_ok_defs split: client_message.split option.split)
    moreover have "reply_ok live (handle_active env now later elapsed c2 w2 msg)" if "serving (conn_state c2)"
      by (rule active_ok [OF assms(1) o2 that])
    ultimately show ?thesis using o2 by (auto simp: handle_at_def t serving_def split: conn_state.split)
  qed
  then show ?thesis using o1 violate_ok [OF assms(1) o1]
    by (auto simp: handle_item_start i handle_malformed_def split: sum.split)
qed

lemma batch_ok:
  "counts_txs env live \<Longrightarrow> conn_ok live c w \<Longrightarrow> reply_ok live (handle_batch env c w xs)"
proof (induction xs arbitrary: c w)
  case (Cons x xs)
  obtain c1 w1 o1 where x: "handle_item env c w x = (c1, w1, o1)" using prod_cases3 by blast
  have "conn_ok live c1 w1" using item_ok [OF Cons.prems, of x] x by simp
  from Cons.IH [OF Cons.prems(1) this] show ?case by (auto simp: x split: prod.splits)
qed simp

lemma event_ok:
  assumes "counts_txs env live" "conn_ok live c w"
  shows "reply_ok live (conn_event env c w e)"
proof (cases e)
  case (Tick now)
  then show ?thesis using check_timeout_ok [OF assms] by (auto simp: conn_event_def split: prod.split)
next
  case (Batch xs)
  then show ?thesis using interrupt_ok [OF assms] batch_ok [OF assms(1)] assms(2)
    by (auto simp: conn_event_def split: prod.split)
qed

lemma run_reply_ok:
  "counts_txs env live \<Longrightarrow> conn_ok live c w \<Longrightarrow> reply_ok live (conn_run env c w es)"
proof (induction es arbitrary: c w)
  case (Cons e es)
  obtain c1 w1 o1 where x: "conn_event env c w e = (c1, w1, o1)" using prod_cases3 by blast
  have "conn_ok live c1 w1" using event_ok [OF Cons.prems, of e] x by simp
  from Cons.IH [OF Cons.prems(1) this] Cons.prems(2) show ?case by (auto simp: x split: prod.splits)
qed simp

section \<open>Batches\<close>

lemma defunct_batch: "conn_state c = Defunct \<Longrightarrow> handle_batch env c w xs = (c', w', out) \<Longrightarrow> out = [] \<and> conn_state c' = Defunct"
proof (induction xs arbitrary: c w out)
  case (Cons x xs)
  obtain c1 w1 o1 where x: "handle_item env c w x = (c1, w1, o1)" using prod_cases3 by blast
  obtain o2 where r: "handle_batch env c1 w1 xs = (c', w', o2)" "out = o1 @ o2" using Cons.prems(2) x by (auto split: prod.splits)
  show ?case using defunct_item [OF Cons.prems(1) x] Cons.IH [OF _ r(1)] r(2) by simp
qed simp

definition answer_shape :: "server_message list \<Rightarrow> bool" where
  "answer_shape out \<longleftrightarrow> (\<exists>rows final. out = map Record rows @ [final] \<and> (\<forall>row. final \<noteq> Record row))"

lemma answered_shape: "answered (c, w, out) \<Longrightarrow> answer_shape out \<and> ends_in (last out) (conn_state c)"
  by (auto simp: answered_def answer_shape_def)

lemma batch_answers:
  assumes "handle_batch env c w xs = (c', w', out)"
  shows "\<exists>outs. out = concat outs \<and> length outs \<le> length xs \<and> (\<forall>a \<in> set outs. answer_shape a) \<and>
    (conn_state c' \<noteq> Defunct \<longrightarrow> length outs = length xs \<and> (xs \<noteq> [] \<longrightarrow> ends_in (last out) (conn_state c')))"
  using assms
proof (induction xs arbitrary: c w out)
  case (Cons x xs)
  obtain c1 w1 o1 where x: "handle_item env c w x = (c1, w1, o1)" using prod_cases3 by blast
  obtain o2 where r: "handle_batch env c1 w1 xs = (c', w', o2)" "out = o1 @ o2" using Cons.prems x by (auto split: prod.splits)
  obtain outs where outs: "o2 = concat outs" "length outs \<le> length xs" "\<forall>a \<in> set outs. answer_shape a"
      "conn_state c' \<noteq> Defunct \<Longrightarrow> length outs = length xs" "conn_state c' \<noteq> Defunct \<Longrightarrow> xs \<noteq> [] \<Longrightarrow> ends_in (last o2) (conn_state c')"
    using Cons.IH [OF r(1)] by blast
  show ?case
  proof (cases "conn_state c = Defunct \<or> item_request x = Inr Goodbye")
    case True
    then have "o1 = []" "conn_state c1 = Defunct" using defunct_item [OF _ x] goodbye_item [OF _ x] by auto
    then have "out = []" "conn_state c' = Defunct" using defunct_batch [OF _ r(1)] r(2) by auto
    then show ?thesis by (intro exI [of _ "[]"]) simp
  next
    case False
    then have a: "answer_shape o1" "ends_in (last o1) (conn_state c1)"
      using answered_item [of c x env w] by (auto simp: x dest: answered_shape)
    then have "o1 \<noteq> []" by (auto simp: answer_shape_def)
    have "ends_in (last out) (conn_state c')" if "conn_state c' \<noteq> Defunct"
    proof (cases "xs = []")
      case True
      then show ?thesis using r a(2) by simp
    next
      case False
      then have "outs \<noteq> []" "\<forall>a \<in> set outs. a \<noteq> []" using outs(3) outs(4) [OF that] by (auto simp: answer_shape_def)
      then have "o2 \<noteq> []" using outs(1) by (cases outs) auto
      then show ?thesis using outs(5) [OF that False] r(2) by simp
    qed
    then show ?thesis using a(1) outs r(2) by (intro exI [of _ "o1 # outs"]) auto
  qed
qed simp

lemma interrupted_item:
  assumes "conn_state c = Interrupted" "item_request x = Inr msg"
  shows "handle_item env c w x = handle_failed (c\<lparr>interrupted := interrupted c \<or> item_raised x\<rparr>) w msg"
  using assms by (simp add: handle_item_def handle_at_def check_timeout_def interrupt_def Let_def)

text \<open>What the requests queued before a \<open>RESET\<close> are answered: the failure that was still to be reported
  to the first of them, and nothing else.\<close>

fun queue_answers :: "bolt_error option \<Rightarrow> item list \<Rightarrow> server_message list" where
  "queue_answers p [] = []"
| "queue_answers p (x # xs) = (case p of None \<Rightarrow> Ignored | Some e \<Rightarrow> Failure e) # queue_answers None xs"

definition plain_request :: "item \<Rightarrow> bool" where
  "plain_request x \<longleftrightarrow> (\<exists>msg. item_request x = Inr msg \<and> msg \<noteq> Reset \<and> msg \<noteq> Goodbye)"

lemma interrupted_batch:
  assumes "conn_state c = Interrupted" "\<And>x. x \<in> set qs \<Longrightarrow> plain_request x" "item_request r = Inr Reset"
  shows "handle_batch env c w (qs @ r # rest) =
    (case handle_batch env (c\<lparr>pending_failure := None, interrupted := False, conn_state := Ready\<rparr>) w rest of
       (c', w', out) \<Rightarrow> (c', w', queue_answers (pending_failure c) qs @ reset_success # out))"
  using assms(1,2)
proof (induction qs arbitrary: c)
  case Nil
  then show ?case by (simp add: interrupted_item [OF _ assms(3)] handle_failed_def split: prod.split)
next
  case (Cons x qs)
  obtain msg where m: "item_request x = Inr msg" "msg \<noteq> Reset" "msg \<noteq> Goodbye"
    using Cons.prems(2) [of x] by (auto simp: plain_request_def)
  let ?c = "c\<lparr>interrupted := interrupted c \<or> item_raised x, pending_failure := None\<rparr>"
  have "handle_item env c w x = (?c, w, [case pending_failure c of None \<Rightarrow> Ignored | Some e \<Rightarrow> Failure e])"
    using m by (auto simp: interrupted_item [OF Cons.prems(1) m(1)] handle_failed_def split: client_message.split option.split)
  moreover have "handle_batch env ?c w (qs @ r # rest) =
    (case handle_batch env (?c\<lparr>pending_failure := None, interrupted := False, conn_state := Ready\<rparr>) w rest of
       (c', w', out) \<Rightarrow> (c', w', queue_answers (pending_failure ?c) qs @ reset_success # out))"
    using Cons.IH [of ?c] Cons.prems by simp
  ultimately show ?case by (auto split: prod.split)
qed

section \<open>Who a connection is\<close>

definition same_client :: "('tx, 'c) connection \<Rightarrow> ('tx, 'c) connection \<Rightarrow> bool" where
  "same_client c c' \<longleftrightarrow> conn_identity c' = conn_identity c \<and> conn_auth c' = conn_auth c"

lemma same_client_helpers [simp]:
  "same_client c (fst (discard_work env c w))" "same_client c (fst (violate env c w err))" "same_client c (fst (fail env c w err))"
  "same_client c (fst (interrupt env c w))" "same_client c (fst (ignored_or_fail env c w err))" "same_client c (fst (check_timeout env now c w))"
  "same_client c (fst (run_opened env later elapsed c w cursor))"
  by (auto simp: same_client_def discard_work_def violate_def fail_def interrupt_def ignored_or_fail_def check_timeout_def run_opened_def Let_def
      split: conn_state.split option.split)

lemma same_client_trans: "same_client c c1 \<Longrightarrow> same_client c1 c2 \<Longrightarrow> same_client c c2"
  by (simp add: same_client_def)

lemma same_client_upd [simp]:
  "same_client c (c'\<lparr>conn_state := st\<rparr>) = same_client c c'" "same_client c (c'\<lparr>interrupted := b\<rparr>) = same_client c c'"
  "same_client c (c'\<lparr>last_qid := q\<rparr>) = same_client c c'" "same_client c (c'\<lparr>pending_failure := p\<rparr>) = same_client c c'"
  "same_client (c\<lparr>conn_state := st\<rparr>) c' = same_client c c'" "same_client (c\<lparr>interrupted := b\<rparr>) c' = same_client c c'"
  "same_client (c\<lparr>last_qid := q\<rparr>) c' = same_client c c'" "same_client c c"
  by (simp_all add: same_client_def)

lemma same_client_from:
  assumes "same_client c0 c"
  shows "same_client c0 (fst (violate env c w err))" "same_client c0 (fst (fail env c w err))"
    "same_client c0 (fst (ignored_or_fail env c w err))" "same_client c0 (fst (run_opened env later elapsed c w cursor))"
  using same_client_trans [OF assms] by simp_all

lemma same_client_handlers:
  "same_client c (fst (handle_route env c w vals))" "same_client c (fst (handle_begin env later c w vals))"
  "same_client c (fst (handle_commit env c w vals))" "same_client c (fst (handle_rollback env c w vals))"
  "same_client c (fst (handle_stream env c w vals discard))" "same_client c (fst (handle_failed c w msg))"
  by (auto simp: handle_route_def handle_begin_def handle_commit_def handle_rollback_def handle_stream_def handle_failed_def take_tx_def Let_def
      intro!: same_client_from split: option.split sum.split prod.split conn_state.split bool.split client_message.split)

lemma same_client_run: "same_client c (fst (handle_run env later elapsed c w vals))"
  unfolding handle_run_def Let_def
  by (auto intro!: same_client_from split: option.split sum.split prod.split conn_state.split bool.split)

lemma same_client_active: "same_client c (fst (handle_active env now later elapsed c w msg))"
proof -
  let ?c = "c\<lparr>conn_state := touch now (conn_state c)\<rparr>"
  have "same_client c (fst (handle_route env ?c w vals))" "same_client c (fst (handle_begin env later ?c w vals))"
    "same_client c (fst (handle_commit env ?c w vals))" "same_client c (fst (handle_rollback env ?c w vals))"
    "same_client c (fst (handle_stream env ?c w vals discard))" "same_client c (fst (handle_run env later elapsed ?c w vals))" for vals discard
    using same_client_handlers [of ?c] same_client_run [of ?c] by simp_all
  then show ?thesis unfolding handle_active_def Let_def
    by (auto intro!: same_client_from simp: discard_work_def split: client_message.split message_kind.split)
qed

text \<open>Before \<open>HELLO\<close> is accepted nothing is asked of the service; afterwards the client stays who it is.\<close>

definition unknown_client :: "('tx, 'c) connection \<Rightarrow> bool" where
  "unknown_client c \<longleftrightarrow> conn_identity c = None \<and> (conn_state c = NotAuthenticated \<or> conn_state c = Defunct)"

lemma item_client:
  assumes "handle_item env c w x = (c', w', out)"
  shows "(conn_state c \<noteq> NotAuthenticated \<longrightarrow> same_client c c') \<and>
    (unknown_client c \<longrightarrow> w' = w \<and> conn_auth c' = conn_auth c \<and>
       (unknown_client c' \<or> (\<exists>h i. item_request x = Inr (Hello h) \<and> conn_identity c' = Some i \<and> conn_state c' = Ready \<and>
          authenticate (env_digest env) (conn_auth c) (hello_auth h) = Some i)))"
proof -
  obtain c1 w1 where i: "item_start env c w x = (c1, w1)" by fastforce
  have "same_client (c\<lparr>interrupted := True\<rparr>) c1" if "interrupt env (c\<lparr>interrupted := True\<rparr>) w = (c1, w1)"
    using that by (metis fst_conv same_client_helpers(4))
  then have s1: "same_client c c1" using i by (auto simp: item_start_def Let_def split: if_splits)
  show ?thesis
  proof (cases "conn_state c = NotAuthenticated \<or> conn_state c = Defunct")
    case True
    then have k: "conn_state c1 = conn_state c" "w1 = w" using i by (auto simp: item_start_def interrupt_def Let_def split: if_splits)
    then show ?thesis using assms True s1
      by (auto simp: handle_item_start i handle_at_def check_timeout_def handle_connected_def handle_malformed_def violate_def discard_work_def
          unknown_client_def same_client_def split: sum.splits client_message.splits option.splits)
  next
    case False
    have at: "same_client c (fst (handle_at env now later elapsed c1 w1 msg))" for now later elapsed msg
    proof -
      obtain c2 w2 where t: "check_timeout env now c1 w1 = (c2, w2)" by fastforce
      have s2: "same_client c c2" using same_client_trans [OF s1] same_client_helpers(6) [of c1 env now w1] t by simp
      have "conn_state c2 \<noteq> NotAuthenticated"
        using item_start_state [OF i] False t by (auto simp: check_timeout_def discard_work_def Let_def split: conn_state.splits if_splits)
      then show ?thesis using same_client_trans [OF s2 same_client_active] same_client_trans [OF s2 same_client_handlers(6)] s2
        by (auto simp: handle_at_def t split: conn_state.split)
    qed
    have "same_client c c'"
    proof (cases "item_request x")
      case (Inl err)
      then show ?thesis using assms s1 same_client_from(1) [OF s1, of env w1 err]
        by (auto simp: handle_item_start i handle_malformed_def split: if_splits)
    next
      case (Inr msg)
      then show ?thesis using assms at [of "item_now x" "item_later x" "item_elapsed x" msg] by (simp add: handle_item_start i)
    qed
    then show ?thesis using False by (simp add: unknown_client_def)
  qed
qed

lemma item_leaves_start:
  assumes "handle_item env c w x = (c', w', out)" "conn_state c \<noteq> NotAuthenticated"
  shows "conn_state c' \<noteq> NotAuthenticated"
proof (cases "conn_state c = Defunct \<or> item_request x = Inr Goodbye")
  case True
  then show ?thesis using defunct_item [OF _ assms(1)] goodbye_item [OF _ assms(1)] by auto
next
  case False
  then have "answered (c', w', out)" using answered_item [of c x env w] assms(1) by simp
  then have "ends_in (last out) (conn_state c')" by (simp add: answered_shape)
  then show ?thesis by (cases "last out") auto
qed

text \<open>The invariant of a run, with the \<open>HELLO\<close> messages sent so far.\<close>

definition auth_inv :: "('w, 'tx, 'c) bolt_env \<Rightarrow> authenticator \<Rightarrow> 'w \<Rightarrow> hello set \<Rightarrow> ('tx, 'c) connection \<Rightarrow> 'w \<Rightarrow> bool" where
  "auth_inv env a w0 hs c w \<longleftrightarrow> conn_auth c = a \<and>
     (unknown_client c \<and> w = w0 \<or>
      conn_state c \<noteq> NotAuthenticated \<and> (\<exists>h \<in> hs. \<exists>i. conn_identity c = Some i \<and> authenticate (env_digest env) a (hello_auth h) = Some i))"

definition item_hellos :: "item list \<Rightarrow> hello set" where
  "item_hellos xs = {h. \<exists>x \<in> set xs. item_request x = Inr (Hello h)}"

definition event_hellos :: "event list \<Rightarrow> hello set" where
  "event_hellos es = (\<Union>e \<in> set es. case e of Tick _ \<Rightarrow> {} | Batch xs \<Rightarrow> item_hellos xs)"

lemma auth_inv_mono: "auth_inv env a w0 hs c w \<Longrightarrow> hs \<subseteq> hs' \<Longrightarrow> auth_inv env a w0 hs' c w"
  unfolding auth_inv_def by blast

lemma auth_inv_same:
  assumes "auth_inv env a w0 hs c w" "same_client c c'" "unknown_client c \<Longrightarrow> c' = c \<and> w' = w"
    "conn_state c \<noteq> NotAuthenticated \<Longrightarrow> conn_state c' \<noteq> NotAuthenticated"
  shows "auth_inv env a w0 hs c' w'"
proof (cases "unknown_client c")
  case True
  then show ?thesis using assms(1,3) by simp
next
  case False
  then show ?thesis using assms(1,2,4) by (auto simp: auth_inv_def same_client_def)
qed

lemma auth_inv_interrupt: "auth_inv env a w0 hs c w \<Longrightarrow> interrupt env c w = (c', w') \<Longrightarrow> auth_inv env a w0 hs c' w'"
  using same_client_helpers(4) [of c env w]
  by (elim auth_inv_same) (auto simp: unknown_client_def interrupt_def discard_work_def split: conn_state.splits)

lemma auth_inv_timeout: "auth_inv env a w0 hs c w \<Longrightarrow> check_timeout env now c w = (c', w') \<Longrightarrow> auth_inv env a w0 hs c' w'"
  using same_client_helpers(6) [of c env now w]
  by (elim auth_inv_same) (auto simp: unknown_client_def check_timeout_def discard_work_def Let_def split: conn_state.splits if_splits)

lemma auth_inv_batch:
  "auth_inv env a w0 hs c w \<Longrightarrow> handle_batch env c w xs = (c', w', out) \<Longrightarrow> auth_inv env a w0 (hs \<union> item_hellos xs) c' w'"
proof (induction xs arbitrary: c w hs out)
  case (Cons x xs)
  obtain c1 w1 o1 where x: "handle_item env c w x = (c1, w1, o1)" using prod_cases3 by blast
  obtain o2 where r: "handle_batch env c1 w1 xs = (c', w', o2)" using Cons.prems(2) x by (auto split: prod.splits)
  have "auth_inv env a w0 (hs \<union> item_hellos [x]) c1 w1"
  proof (cases "unknown_client c")
    case True
    then have "conn_auth c = a" "w = w0" using Cons.prems(1) by (auto simp: auth_inv_def unknown_client_def)
    then show ?thesis using item_client [OF x] True by (auto simp: auth_inv_def item_hellos_def)
  next
    case False
    then have k: "conn_state c \<noteq> NotAuthenticated" using Cons.prems(1) by (auto simp: auth_inv_def)
    have "auth_inv env a w0 hs c1 w1"
      using item_client [OF x] item_leaves_start [OF x] k False by (intro auth_inv_same [OF Cons.prems(1)]) auto
    then show ?thesis by (rule auth_inv_mono) simp
  qed
  from Cons.IH [OF this r] show ?case by (rule auth_inv_mono) (auto simp: item_hellos_def)
qed (simp add: item_hellos_def)

lemma auth_inv_run:
  "auth_inv env a w0 hs c w \<Longrightarrow> conn_run env c w es = (c', w', out) \<Longrightarrow> auth_inv env a w0 (hs \<union> event_hellos es) c' w'"
proof (induction es arbitrary: c w hs out)
  case (Cons e es)
  show ?case
  proof (cases "conn_state c = Defunct")
    case True
    then have "auth_inv env a w0 hs c' w'" using Cons.prems by simp
    then show ?thesis by (rule auth_inv_mono) simp
  next
    case False
    obtain c1 w1 o1 where e: "conn_event env c w e = (c1, w1, o1)" using prod_cases3 by blast
    obtain o2 where r: "conn_run env c1 w1 es = (c', w', o2)" using Cons.prems(2) e False by (auto split: prod.splits)
    have "auth_inv env a w0 (hs \<union> event_hellos [e]) c1 w1"
    proof (cases e)
      case (Tick now)
      then have "check_timeout env now c w = (c1, w1)" using e by (auto simp: conn_event_def split: prod.splits)
      from auth_inv_timeout [OF Cons.prems(1) this] show ?thesis by (rule auth_inv_mono) simp
    next
      case (Batch xs)
      obtain c2 w2 where i: "(if list_ex (\<lambda>x. item_request x = Inr Reset) xs then interrupt env c w else (c, w)) = (c2, w2)" by fastforce
      have "auth_inv env a w0 hs c2 w2" using i auth_inv_interrupt [OF Cons.prems(1)] Cons.prems(1) by (auto split: if_splits)
      moreover have "handle_batch env c2 w2 xs = (c1, w1, o1)" using e i by (simp add: conn_event_def Batch)
      ultimately have "auth_inv env a w0 (hs \<union> item_hellos xs) c1 w1" by (rule auth_inv_batch)
      then show ?thesis by (simp add: event_hellos_def Batch)
    qed
    from Cons.IH [OF this r] show ?thesis by (rule auth_inv_mono) (auto simp: event_hellos_def)
  qed
qed (simp add: event_hellos_def)

section \<open>Properties\<close>


text \<open>C4. No transaction leaks, and results never get mixed up: over the whole life of a connection,
  whatever the client sends, whenever it resets, stalls or breaks the protocol, the world holds one
  open transaction of it exactly while the connection is in a transaction, so none once it is
  failed, interrupted or closed; and the ids of its open results are distinct, in order and below
  the last one handed out. The service is assumed to count: a successful begin opens one
  transaction, a commit or rollback ends one, and statements neither open nor end any.\<close>

theorem no_transaction_leaks:
  assumes "counts_txs env live" "live w = 0"
    "conn_run env (connection_new auth timeout cid version routing service) w es = (c', w', out)"
  shows "live w' = (case conn_state c' of InTx _ _ _ _ \<Rightarrow> 1 | _ \<Rightarrow> 0) \<and>
    (case conn_state c' of
       InTx _ _ _ cursors \<Rightarrow> ssorted (keys cursors) \<and> (\<forall>q \<in> set (keys cursors). 0 \<le> q \<and> q \<le> last_qid c')
     | _ \<Rightarrow> True)"
proof -
  have "conn_ok live (connection_new auth timeout cid version routing service) w"
    using assms(2) by (simp add: connection_new_def conn_ok_defs)
  from run_reply_ok [OF assms(1) this, of es] have "conn_ok live c' w'" by (simp add: assms(3))
  then show ?thesis by (auto simp: conn_ok_defs list_all_iff split: conn_state.splits)
qed



text \<open>A service that counts its transactions in a number, and a client that logs in, begins a
  transaction and then breaks the protocol by sending \<open>HELLO\<close> again.\<close>

definition counting_env :: "(nat, unit, unit) bolt_env" where
  "counting_env =
     \<lparr>env_dbg = (\<lambda>s. s), env_digest = (\<lambda>d. d), pkg_version = ''1'',
      svc_begin = (\<lambda>i r w. (Suc w, False, Inr ())),
      svc_run_auto_commit = (\<lambda>i r w. (w, False, Inr ())),
      svc_run_in_tx = (\<lambda>i tx r w. (w, False, (), Inr ())),
      env_rollback = (\<lambda>tx w. w - 1), env_commit = (\<lambda>tx w. (w - 1, Inr 1)),
      cursor_fields = (\<lambda>c. []), cursor_rows = (\<lambda>c n v. (c, Inr [])), cursor_discard = (\<lambda>c n. c),
      cursor_has_more = (\<lambda>c. False), cursor_summary = (\<lambda>c. [])\<rparr>"

definition request_item :: "client_message \<Rightarrow> item" where
  "request_item msg = \<lparr>item_raised = False, item_now = 1, item_later = 1, item_elapsed = 0, item_request = Inr msg\<rparr>"

definition open_hello :: client_message where
  "open_hello = Hello \<lparr>user_agent = None, hello_auth = AuthNone\<rparr>"

definition open_connection :: "(unit, unit) connection" where
  "open_connection = connection_new (authenticator_new None []) 30 ''c'' (5, 0) None True"

lemma counting_env_counts: "counts_txs counting_env (\<lambda>w. w)"
  by (simp add: counts_txs_def counting_env_def)

lemma login_then_begin:
  "handle_batch counting_env open_connection 0 [request_item open_hello, request_item (Other KBegin [PMap []])] =
     (open_connection\<lparr>conn_identity := Some FullAccess, conn_state := InTx () 1 1 []\<rparr>, 1,
      [hello_success ''1'' ''c'', Success []])"
  by (simp add: open_connection_def connection_new_def request_item_def open_hello_def handle_item_def handle_at_def check_timeout_def
      handle_connected_def authenticate_def auth_is_open_def authenticator_new_def counting_env_def handle_active_def touch_def
      handle_begin_def begin_from_fields_def database_field_def bookmarks_field_def mode_field_def tx_timeout_field_def
      tx_metadata_field_def map_get_def select_database_def Let_def)


lemma login_run:
  "conn_run counting_env open_connection 0 [Batch [request_item open_hello, request_item (Other KBegin [PMap []])]] =
     (open_connection\<lparr>conn_identity := Some FullAccess, conn_state := InTx () 1 1 []\<rparr>, 1, [hello_success ''1'' ''c'', Success []])"
proof -
  have "\<not> list_ex (\<lambda>x. item_request x = Inr Reset) [request_item open_hello, request_item (Other KBegin [PMap []])]"
    by (simp add: request_item_def open_hello_def)
  then have "conn_event counting_env open_connection 0 (Batch [request_item open_hello, request_item (Other KBegin [PMap []])]) =
      (open_connection\<lparr>conn_identity := Some FullAccess, conn_state := InTx () 1 1 []\<rparr>, 1, [hello_success ''1'' ''c'', Success []])"
    using login_then_begin by (simp add: conn_event_def del: handle_batch.simps)
  moreover have "conn_state open_connection \<noteq> Defunct" by (simp add: open_connection_def connection_new_def)
  ultimately show ?thesis by simp
qed

theorem no_transaction_leaks_witness:
  "\<exists>c' w' out. conn_run counting_env open_connection 0 [Batch [request_item open_hello, request_item (Other KBegin [PMap []])]] = (c', w', out) \<and>
     (\<exists>tx a b cs. conn_state c' = InTx tx a b cs) \<and> w' = 1"
  using no_transaction_leaks [OF counting_env_counts _ login_run [unfolded open_connection_def]] login_run by auto



end
