(* ===== verification/Graph_View.thy ===== *)
theory Graph_View
  imports Id_Map Interner Topology_View Visible_Set
begin

text \<open>
  The read view of a query, \<open>crates/core-query/src/view.rs\<close>: node keys, labels and symbols of a
  fold with a \<open>NodeLayer\<close> of later changes laid over them (a reader's delta tail, an open
  transaction). Reading through the layer is reading the state that applying the same changes
  would give. Maps of the code are association lists; a panic is \<open>None\<close>.
\<close>

section \<open>The layer of changes\<close>

record node_layer =
  id_floor :: u32
  layer_keys :: "string list"
  layer_labels :: "u32 list"
  by_key :: "(string \<times> u32) list"
  deleted :: "u32 set"
  relabeled :: "(u32 \<times> u32) list"
  renamed :: "(u32 \<times> string) list"
  sym_floor :: u32
  layer_syms :: "string list"
  by_sym :: "(string \<times> u32) list"

definition node_layer_new :: "id_map \<Rightarrow> interner \<Rightarrow> node_layer" where
  "node_layer_new ids syms =
     \<lparr>id_floor = of_nat (id_map_len ids), layer_keys = [], layer_labels = [], by_key = [], deleted = {},
      relabeled = [], renamed = [], sym_floor = of_nat (interner_len syms), layer_syms = [], by_sym = []\<rparr>"

definition layer_intern :: "node_layer \<Rightarrow> interner \<Rightarrow> string \<Rightarrow> node_layer \<times> u32" where
  "layer_intern l below name =
     (case get_sym below name of
        Some y \<Rightarrow> (l, y)
      | None \<Rightarrow>
          (case map_of (by_sym l) name of
             Some y \<Rightarrow> (l, y)
           | None \<Rightarrow>
               let y = sym_floor l + of_nat (length (layer_syms l))
               in (l\<lparr>layer_syms := layer_syms l @ [name], by_sym := AList.update name y (by_sym l)\<rparr>, y)))"

definition layer_insert :: "node_layer \<Rightarrow> string \<Rightarrow> u32 \<Rightarrow> node_layer \<times> u32" where
  "layer_insert l key label_y =
     (let i = id_floor l + of_nat (length (layer_keys l))
      in (l\<lparr>layer_keys := layer_keys l @ [key], layer_labels := layer_labels l @ [label_y],
            by_key := AList.update key i (by_key l)\<rparr>, i))"

text \<open>\<open>checked_sub\<close> of the floor.\<close>

definition above :: "u32 \<Rightarrow> u32 \<Rightarrow> nat option" where
  "above i floor = (if floor \<le> i then Some (unat (i - floor)) else None)"

definition layer_relabel :: "node_layer \<Rightarrow> u32 \<Rightarrow> u32 \<Rightarrow> node_layer option" where
  "layer_relabel l i label_y =
     (case above i (id_floor l) of
        Some n \<Rightarrow>
          if n < length (layer_labels l) then Some (l\<lparr>layer_labels := (layer_labels l)[n := label_y]\<rparr>) else None
      | None \<Rightarrow> Some (l\<lparr>relabeled := AList.update i label_y (relabeled l)\<rparr>))"

definition drop_key :: "node_layer \<Rightarrow> string \<Rightarrow> u32 \<Rightarrow> node_layer" where
  "drop_key l key i = (if map_of (by_key l) key = Some i then l\<lparr>by_key := AList.delete key (by_key l)\<rparr> else l)"

definition layer_rename :: "node_layer \<Rightarrow> u32 \<Rightarrow> string \<Rightarrow> string \<Rightarrow> node_layer option" where
  "layer_rename l i old new =
     (let l = drop_key l old i in
      map_option (\<lambda>l. l\<lparr>by_key := AList.update new i (by_key l)\<rparr>)
        (case above i (id_floor l) of
           Some n \<Rightarrow> if n < length (layer_keys l) then Some (l\<lparr>layer_keys := (layer_keys l)[n := new]\<rparr>) else None
         | None \<Rightarrow> Some (l\<lparr>renamed := AList.update i new (renamed l)\<rparr>)))"

definition layer_delete :: "node_layer \<Rightarrow> string \<Rightarrow> u32 \<Rightarrow> node_layer" where
  "layer_delete l key i = (let l = drop_key l key i in l\<lparr>deleted := insert i (deleted l)\<rparr>)"

definition is_deleted :: "node_layer \<Rightarrow> u32 \<Rightarrow> bool" where
  "is_deleted l i \<longleftrightarrow> deleted l \<noteq> {} \<and> i \<in> deleted l"

definition NO_LABEL :: u32 where "NO_LABEL = - 1"

definition below_label :: "node_layer \<Rightarrow> u32 \<Rightarrow> u32 \<Rightarrow> u32" where
  "below_label l i below =
     (if is_deleted l i then NO_LABEL
      else if relabeled l = [] then below
      else case map_of (relabeled l) i of Some y \<Rightarrow> y | None \<Rightarrow> below)"

section \<open>The view\<close>

text \<open>The fields that hold node identity, the topology and the mask. Columns, edge properties and the
  property index are carried by the code's view but read by none of the operations here.\<close>

record graph_view =
  gv_ids :: id_map
  gv_syms :: interner
  gv_labels :: "u32 list"
  gv_topo :: topology_view
  gv_mask :: "visible_set option"
  gv_layer :: "node_layer option"

definition visible :: "graph_view \<Rightarrow> u32 \<Rightarrow> bool" where
  "visible v i = (case gv_mask v of None \<Rightarrow> True | Some vs \<Rightarrow> vs_contains vs i)"

definition node_id :: "(string \<Rightarrow> u64) \<Rightarrow> graph_view \<Rightarrow> string \<Rightarrow> u32 option" where
  "node_id hash v key =
     (case gv_layer v of
        None \<Rightarrow> id_map_get hash (gv_ids v) key
      | Some l \<Rightarrow>
          (case map_of (by_key l) key of
             Some i \<Rightarrow> Some i
           | None \<Rightarrow>
               (case id_map_get hash (gv_ids v) key of
                  None \<Rightarrow> None
                | Some i \<Rightarrow> if \<not> is_deleted l i \<and> map_of (renamed l) i = None then Some i else None)))"

definition try_key_of :: "graph_view \<Rightarrow> u32 \<Rightarrow> string option option" where
  "try_key_of v i =
     (case gv_layer v of
        None \<Rightarrow> key_of (gv_ids v) i
      | Some l \<Rightarrow>
          if is_deleted l i then Some None
          else case above i (id_floor l) of
            Some n \<Rightarrow> Some (if n < length (layer_keys l) then Some (layer_keys l ! n) else None)
          | None \<Rightarrow> (case map_of (renamed l) i of Some key \<Rightarrow> Some (Some key) | None \<Rightarrow> key_of (gv_ids v) i))"

definition view_key_of :: "graph_view \<Rightarrow> u32 \<Rightarrow> string option" where
  "view_key_of v i = (case try_key_of v i of Some (Some key) \<Rightarrow> Some key | _ \<Rightarrow> None)"

definition id_bound :: "graph_view \<Rightarrow> u32" where
  "id_bound v =
     (case gv_layer v of
        None \<Rightarrow> of_nat (id_map_len (gv_ids v))
      | Some l \<Rightarrow> id_floor l + of_nat (length (layer_keys l)))"

definition view_sym :: "graph_view \<Rightarrow> string \<Rightarrow> u32 option" where
  "view_sym v name =
     (case get_sym (gv_syms v) name of
        Some y \<Rightarrow> Some y
      | None \<Rightarrow> (case gv_layer v of None \<Rightarrow> None | Some l \<Rightarrow> map_of (by_sym l) name))"

definition sym_name :: "graph_view \<Rightarrow> u32 \<Rightarrow> string option" where
  "sym_name v y =
     (case (case gv_layer v of None \<Rightarrow> None | Some l \<Rightarrow> map_option (\<lambda>n. (l, n)) (above y (sym_floor l))) of
        Some (l, n) \<Rightarrow> if n < length (layer_syms l) then Some (layer_syms l ! n) else None
      | None \<Rightarrow> resolve_sym (gv_syms v) y)"

text \<open>The iterator over the label slots: what is left of the slots below, the layer, the next id.\<close>

record label_syms =
  ls_below :: "u32 list"
  ls_layer :: "node_layer option"
  ls_next :: nat

definition label_syms_next :: "label_syms \<Rightarrow> label_syms \<times> u32 option" where
  "label_syms_next it =
     (let i = ls_next it; it = it\<lparr>ls_next := i + 1\<rparr> in
      case ls_below it of
        y # rest \<Rightarrow>
          (it\<lparr>ls_below := rest\<rparr>,
           Some (case ls_layer it of None \<Rightarrow> y | Some l \<Rightarrow> below_label l (of_nat i) y))
      | [] \<Rightarrow>
          (case ls_layer it of
             None \<Rightarrow> (it, None)
           | Some l \<Rightarrow>
               let floor = unat (id_floor l) in
               if i < floor then (it, Some NO_LABEL)
               else if i - floor < length (layer_labels l)
               then (it, Some (if is_deleted l (of_nat i) then NO_LABEL else layer_labels l ! (i - floor)))
               else (it, None)))"

text \<open>All it yields, up to its first \<open>None\<close>.\<close>

function label_syms_collect :: "label_syms \<Rightarrow> u32 list" where
  "label_syms_collect it =
     (case label_syms_next it of (_, None) \<Rightarrow> [] | (it, Some y) \<Rightarrow> y # label_syms_collect it)"
  by pat_completeness auto
termination
  by (relation "measure (\<lambda>it. length (ls_below it) +
        (case ls_layer it of None \<Rightarrow> 0 | Some l \<Rightarrow> unat (id_floor l) + length (layer_labels l) - ls_next it))")
    (auto simp: label_syms_next_def Let_def split: option.splits list.splits if_splits)

declare label_syms_collect.simps [simp del]

definition label_syms_of :: "graph_view \<Rightarrow> u32 list" where
  "label_syms_of v = label_syms_collect \<lparr>ls_below = gv_labels v, ls_layer = gv_layer v, ls_next = 0\<rparr>"

definition label_sym :: "graph_view \<Rightarrow> u32 \<Rightarrow> u32 option" where
  "label_sym v i =
     (let slot = (if unat i < length (gv_labels v) then Some (gv_labels v ! unat i) else None);
          y = (case gv_layer v of
                 None \<Rightarrow> slot
               | Some l \<Rightarrow>
                   (case above i (id_floor l) of
                      Some n \<Rightarrow>
                        if \<not> is_deleted l i
                        then (if n < length (layer_labels l) then Some (layer_labels l ! n) else None)
                        else None
                    | None \<Rightarrow> map_option (below_label l i) slot))
      in case y of None \<Rightarrow> None | Some y \<Rightarrow> if y \<noteq> NO_LABEL then Some y else None)"

definition label_of :: "graph_view \<Rightarrow> u32 \<Rightarrow> string option" where
  "label_of v i = (case label_sym v i of None \<Rightarrow> None | Some y \<Rightarrow> sym_name v y)"

text \<open>\<open>enumerate\<close> and \<open>filter_map\<close> over the slots.\<close>

definition slots_where :: "(u32 \<Rightarrow> u32 \<Rightarrow> bool) \<Rightarrow> u32 list \<Rightarrow> u32 list" where
  "slots_where P ys = map (\<lambda>(n, _). of_nat n) (filter (\<lambda>(n, y). P (of_nat n) y) (List.enumerate 0 ys))"

definition nodes_with_label :: "graph_view \<Rightarrow> string \<Rightarrow> u32 list" where
  "nodes_with_label v label =
     (case view_sym v label of
        None \<Rightarrow> []
      | Some sy \<Rightarrow>
          (case gv_layer v of
             None \<Rightarrow> slots_where (\<lambda>_ y. y = sy) (gv_labels v)
           | Some _ \<Rightarrow> slots_where (\<lambda>_ y. y = sy) (label_syms_of v)))"

definition nodes_all :: "graph_view \<Rightarrow> u32 list" where
  "nodes_all v =
     (let P = (\<lambda>i y. y \<noteq> NO_LABEL \<and> visible v i) in
      case gv_layer v of
        None \<Rightarrow> slots_where P (gv_labels v)
      | Some _ \<Rightarrow> slots_where P (label_syms_of v))"

section \<open>The state the changes lead to\<close>

text \<open>What the writer does with the same changes: keys and ids in the \<open>IdMap\<close>, symbols in the interner, one
  label slot per id, padded and stamped as \<open>apply\<close> does. A change is taken under the condition its caller
  has checked; the answer is the id or symbol it gives.\<close>

record node_store =
  st_ids :: id_map
  st_syms :: interner
  st_labels :: "u32 list"

datatype node_op =
  OIntern string | OInsert string u32 | ORelabel u32 u32 | ORename u32 string string | ODelete string u32

definition slot_label :: "u32 list \<Rightarrow> nat \<Rightarrow> u32" where
  "slot_label ys n = (if n < length ys then ys ! n else NO_LABEL)"

fun op_allowed :: "(string \<Rightarrow> u64) \<Rightarrow> node_store \<Rightarrow> node_op \<Rightarrow> bool" where
  "op_allowed hash st (OIntern _) \<longleftrightarrow> True"
| "op_allowed hash st (OInsert key _) \<longleftrightarrow> id_map_get hash (st_ids st) key = None"
| "op_allowed hash st (ORelabel i _) \<longleftrightarrow> slot_label (st_labels st) (unat i) \<noteq> NO_LABEL"
| "op_allowed hash st (ORename i old new) \<longleftrightarrow>
     id_map_get hash (st_ids st) old = Some i \<and> id_map_get hash (st_ids st) new = None"
| "op_allowed hash st (ODelete key i) \<longleftrightarrow> id_map_get hash (st_ids st) key = Some i"

definition set_label :: "u32 list \<Rightarrow> u32 \<Rightarrow> u32 \<Rightarrow> u32 list" where
  "set_label ys i y = (ys @ replicate (unat i + 1 - length ys) NO_LABEL)[unat i := y]"

fun store_apply :: "(string \<Rightarrow> u64) \<Rightarrow> node_store \<Rightarrow> node_op \<Rightarrow> (node_store \<times> u32) option" where
  "store_apply hash st (OIntern name) = (case intern (st_syms st) name of (syms, y) \<Rightarrow> Some (st\<lparr>st_syms := syms\<rparr>, y))"
| "store_apply hash st (OInsert key y) =
     (case id_map_try_insert hash (st_ids st) key of
        Some (ids, Inr i) \<Rightarrow> Some (st\<lparr>st_ids := ids, st_labels := set_label (st_labels st) i y\<rparr>, i)
      | _ \<Rightarrow> None)"
| "store_apply hash st (ORelabel i y) = Some (st\<lparr>st_labels := set_label (st_labels st) i y\<rparr>, i)"
| "store_apply hash st (ORename i old new) =
     (case id_map_rename hash (st_ids st) old new of
        Some (ids, Inr i) \<Rightarrow> Some (st\<lparr>st_ids := ids\<rparr>, i)
      | _ \<Rightarrow> None)"
| "store_apply hash st (ODelete key i) =
     (case id_map_delete hash (st_ids st) key of
        Some (ids, _) \<Rightarrow> Some (st\<lparr>st_ids := ids, st_labels := (st_labels st)[unat i := NO_LABEL]\<rparr>, i)
      | None \<Rightarrow> None)"

fun layer_apply :: "interner \<Rightarrow> node_layer \<Rightarrow> node_op \<Rightarrow> (node_layer \<times> u32) option" where
  "layer_apply below l (OIntern name) = Some (layer_intern l below name)"
| "layer_apply below l (OInsert key y) = Some (layer_insert l key y)"
| "layer_apply below l (ORelabel i y) = map_option (\<lambda>l. (l, i)) (layer_relabel l i y)"
| "layer_apply below l (ORename i old new) = map_option (\<lambda>l. (l, i)) (layer_rename l i old new)"
| "layer_apply below l (ODelete key i) = Some (layer_delete l key i, i)"

fun store_run :: "(string \<Rightarrow> u64) \<Rightarrow> node_op list \<Rightarrow> node_store \<Rightarrow> (node_store \<times> u32 list) option" where
  "store_run hash [] st = Some (st, [])"
| "store_run hash (a # as) st =
     (if op_allowed hash st a
      then (case store_apply hash st a of
              None \<Rightarrow> None
            | Some (st, i) \<Rightarrow> map_option (\<lambda>(st, is). (st, i # is)) (store_run hash as st))
      else None)"

fun layer_run :: "interner \<Rightarrow> node_op list \<Rightarrow> node_layer \<Rightarrow> (node_layer \<times> u32 list) option" where
  "layer_run below [] l = Some (l, [])"
| "layer_run below (a # as) l =
     (case layer_apply below l a of
        None \<Rightarrow> None
      | Some (l, i) \<Rightarrow> map_option (\<lambda>(l, is). (l, i # is)) (layer_run below as l))"

section \<open>The layer and the state it stands for\<close>

definition nodes_rel :: "(string \<Rightarrow> u64) \<Rightarrow> id_map \<Rightarrow> node_layer \<Rightarrow> id_map \<Rightarrow> bool" where
  "nodes_rel hash ids l ids' \<longleftrightarrow>
     id_map_ok hash ids \<and> id_map_ok hash ids' \<and> id_map_len ids' < 2 ^ 32 \<and> unat (id_floor l) = id_map_len ids \<and>
     fst (id_map_abs ids') =
       map (\<lambda>n. case map_of (renamed l) (of_nat n) of Some k \<Rightarrow> k | None \<Rightarrow> fst (id_map_abs ids) ! n)
         [0..<id_map_len ids] @ layer_keys l \<and>
     snd (id_map_abs ids') = snd (id_map_abs ids) \<union> deleted l \<and>
     (\<forall>k i. map_of (by_key l) k = Some i \<longleftrightarrow>
        id_map_get hash ids' k = Some i \<and> (id_map_len ids \<le> unat i \<or> map_of (renamed l) i \<noteq> None)) \<and>
     (\<forall>i. map_of (renamed l) i \<noteq> None \<longrightarrow> unat i < id_map_len ids \<and> i \<notin> snd (id_map_abs ids))"

definition layer_label :: "nat \<Rightarrow> u32 list \<Rightarrow> node_layer \<Rightarrow> nat \<Rightarrow> u32" where
  "layer_label floor ys l n =
     (if n < length ys then below_label l (of_nat n) (ys ! n)
      else if n < floor then NO_LABEL
      else if is_deleted l (of_nat n) then NO_LABEL
      else slot_label (layer_labels l) (n - floor))"

definition labels_rel :: "nat \<Rightarrow> u32 list \<Rightarrow> node_layer \<Rightarrow> u32 list \<Rightarrow> bool" where
  "labels_rel floor ys l ys' \<longleftrightarrow>
     unat (id_floor l) = floor \<and> length ys \<le> floor \<and> length ys' \<le> floor + length (layer_keys l) \<and>
     length (layer_labels l) = length (layer_keys l) \<and> floor + length (layer_keys l) < 2 ^ 32 \<and>
     (\<forall>n < 2 ^ 32. slot_label ys' n = layer_label floor ys l n)"

definition syms_rel :: "interner \<Rightarrow> node_layer \<Rightarrow> interner \<Rightarrow> bool" where
  "syms_rel syms l syms' \<longleftrightarrow>
     interner_ok syms \<and> interner_ok syms' \<and> interner_len syms' < 2 ^ 32 \<and> unat (sym_floor l) = interner_len syms \<and>
     to_str syms' = to_str syms @ layer_syms l \<and>
     (\<forall>name y. map_of (by_sym l) name = Some y \<longleftrightarrow> get_sym syms' name = Some y \<and> get_sym syms name = None)"

definition layer_rel :: "(string \<Rightarrow> u64) \<Rightarrow> node_store \<Rightarrow> node_layer \<Rightarrow> node_store \<Rightarrow> bool" where
  "layer_rel hash s l t \<longleftrightarrow>
     nodes_rel hash (st_ids s) l (st_ids t) \<and> labels_rel (id_map_len (st_ids s)) (st_labels s) l (st_labels t) \<and>
     syms_rel (st_syms s) l (st_syms t)"

lemma id_map_len_slots: "id_map_ok hash ids \<Longrightarrow> id_map_len ids = length (fst (id_map_abs ids))"
  using cv.len_list [OF id_map_okD(1)] by (simp add: id_map_len_def id_map_abs_def)

lemma nodes_relD:
  assumes "nodes_rel hash ids l ids'"
  shows "id_map_ok hash ids" "id_map_ok hash ids'" "id_map_len ids' < 2 ^ 32" "unat (id_floor l) = id_map_len ids"
    "snd (id_map_abs ids') = snd (id_map_abs ids) \<union> deleted l"
    "map_of (by_key l) k = Some i \<longleftrightarrow>
        id_map_get hash ids' k = Some i \<and> (id_map_len ids \<le> unat i \<or> map_of (renamed l) i \<noteq> None)"
    "map_of (renamed l) i = Some k \<Longrightarrow> unat i < id_map_len ids \<and> i \<notin> snd (id_map_abs ids)"
    "id_map_len ids' = id_map_len ids + length (layer_keys l)"
    "fst (id_map_abs ids') =
       map (\<lambda>n. case map_of (renamed l) (of_nat n) of Some k \<Rightarrow> k | None \<Rightarrow> fst (id_map_abs ids) ! n)
         [0..<id_map_len ids] @ layer_keys l"
proof -
  note A = assms [unfolded nodes_rel_def]
  show "id_map_ok hash ids" "id_map_ok hash ids'" "id_map_len ids' < 2 ^ 32" "unat (id_floor l) = id_map_len ids"
    "snd (id_map_abs ids') = snd (id_map_abs ids) \<union> deleted l"
    "map_of (by_key l) k = Some i \<longleftrightarrow>
        id_map_get hash ids' k = Some i \<and> (id_map_len ids \<le> unat i \<or> map_of (renamed l) i \<noteq> None)"
    "map_of (renamed l) i = Some k \<Longrightarrow> unat i < id_map_len ids \<and> i \<notin> snd (id_map_abs ids)"
    using A by blast+
  show 9: "fst (id_map_abs ids') =
       map (\<lambda>n. case map_of (renamed l) (of_nat n) of Some k \<Rightarrow> k | None \<Rightarrow> fst (id_map_abs ids) ! n)
         [0..<id_map_len ids] @ layer_keys l" using A by blast
  show "id_map_len ids' = id_map_len ids + length (layer_keys l)"
    using id_map_len_slots [of hash ids'] A 9 by simp
qed

lemma nodes_rel_slot:
  assumes "nodes_rel hash ids l ids'" "unat i < id_map_len ids"
  shows "fst (id_map_abs ids') ! unat i =
    (case map_of (renamed l) i of Some k \<Rightarrow> k | None \<Rightarrow> fst (id_map_abs ids) ! unat i)"
  unfolding nodes_relD(9) [OF assms(1)] using assms(2) by (simp add: nth_append split: option.split)

text \<open>Which ids are alive, and under which key.\<close>

lemma nodes_rel_get:
  assumes "nodes_rel hash ids l ids'"
  shows "id_map_get hash ids' k = Some i \<longleftrightarrow>
    (if id_map_len ids \<le> unat i
     then unat i - id_map_len ids < length (layer_keys l) \<and> i \<notin> deleted l \<and> layer_keys l ! (unat i - id_map_len ids) = k
     else i \<notin> deleted l \<and> i \<notin> snd (id_map_abs ids) \<and>
       (case map_of (renamed l) i of Some k' \<Rightarrow> k' = k | None \<Rightarrow> fst (id_map_abs ids) ! unat i = k))"
proof -
  note D = nodes_relD [OF assms]
  have len: "length (fst (id_map_abs ids')) = id_map_len ids + length (layer_keys l)"
    using D(8) id_map_len_slots [OF D(2)] by simp
  have old: "i \<in> snd (id_map_abs ids) \<Longrightarrow> unat i < id_map_len ids"
    using id_map_okD(5) [OF D(1), of i] id_map_len_slots [OF D(1)] by simp
  have "id_map_get hash ids' k = Some i \<longleftrightarrow>
      unat i < id_map_len ids + length (layer_keys l) \<and> i \<notin> snd (id_map_abs ids) \<union> deleted l \<and> fst (id_map_abs ids') ! unat i = k"
    using id_map_okD(6) [OF D(2), of k i] len D(5) by (simp add: live_slot_def)
  moreover have "fst (id_map_abs ids') ! unat i = layer_keys l ! (unat i - id_map_len ids)" if "id_map_len ids \<le> unat i"
    using that D(9) by (simp add: nth_append)
  ultimately show ?thesis
    using old nodes_rel_slot [OF assms, of i] by (cases "id_map_len ids \<le> unat i") (auto split: option.split)
qed

lemma id_map_get_slot:
  assumes "id_map_ok hash ids"
  shows "id_map_get hash ids k = Some i \<longleftrightarrow>
    unat i < id_map_len ids \<and> i \<notin> snd (id_map_abs ids) \<and> fst (id_map_abs ids) ! unat i = k"
  using id_map_okD(6) [OF assms, of k i] id_map_len_slots [OF assms] by (simp add: live_slot_def)

section \<open>Reading through the layer\<close>

lemma above_eq: "above i floor = (if unat floor \<le> unat i then Some (unat i - unat floor) else None)"
  by (simp add: above_def word_le_nat_alt unat_sub)

lemma layered_node_id:
  assumes "nodes_rel hash ids l ids'" "gv_ids v = ids" "gv_layer v = Some l"
  shows "node_id hash v key = id_map_get hash ids' key"
proof -
  note D = nodes_relD [OF assms(1)]
  show ?thesis
  proof (cases "id_map_get hash ids' key")
    case None
    have "map_of (by_key l) key = None" using D(6) [of key] None by (cases "map_of (by_key l) key") auto
    moreover have "is_deleted l i \<or> map_of (renamed l) i \<noteq> None" if "id_map_get hash ids key = Some i" for i
      using that None nodes_rel_get [OF assms(1), of key i] id_map_get_slot [OF D(1), of key i]
      by (auto simp: is_deleted_def)
    ultimately show ?thesis using None assms(2,3) by (auto simp: node_id_def split: option.split)
  next
    case (Some i)
    show ?thesis
    proof (cases "id_map_len ids \<le> unat i \<or> map_of (renamed l) i \<noteq> None")
      case True
      then have "map_of (by_key l) key = Some i" using D(6) [of key i] Some by blast
      then show ?thesis using Some assms(3) by (simp add: node_id_def)
    next
      case False
      have "map_of (by_key l) key = None"
        using D(6) [of key] Some False by (metis not_None_eq option.inject)
      moreover have "id_map_get hash ids key = Some i" "\<not> is_deleted l i"
        using Some nodes_rel_get [OF assms(1), of key i] id_map_get_slot [OF D(1), of key i] False
        by (auto simp: is_deleted_def)
      ultimately show ?thesis using Some False assms(2,3) by (simp add: node_id_def)
    qed
  qed
qed

lemma key_of_get:
  assumes "id_map_ok hash ids"
  shows "key_of ids i = Some x \<longleftrightarrow> (\<forall>k. x = Some k \<longleftrightarrow> id_map_get hash ids k = Some i)"
  unfolding key_of_correct [OF assms] id_map_okD(6) [OF assms] by (cases x) auto

lemma layered_key_of:
  assumes "nodes_rel hash ids l ids'" "gv_ids v = ids" "gv_layer v = Some l"
  shows "try_key_of v i = key_of ids' i"
proof -
  note D = nodes_relD [OF assms(1)]
  note get = nodes_rel_get [OF assms(1), where i = i]
  have old: "key_of ids i = Some x \<longleftrightarrow>
      (\<forall>k. x = Some k \<longleftrightarrow> unat i < id_map_len ids \<and> i \<notin> snd (id_map_abs ids) \<and> fst (id_map_abs ids) ! unat i = k)" for x
    unfolding key_of_get [OF D(1)] id_map_get_slot [OF D(1)] ..
  have retired: "i \<notin> snd (id_map_abs ids)" if "map_of (renamed l) i = Some k" for k
    using D(7) [OF that] by simp
  have "key_of ids' i = try_key_of v i"
  proof (cases "try_key_of v i")
    case None
    then show ?thesis using assms(2,3) key_of_correct [OF D(1), of i]
      by (auto simp: try_key_of_def split: option.splits if_splits)
  next
    case (Some x)
    then have "\<forall>k. x = Some k \<longleftrightarrow> id_map_get hash ids' k = Some i"
      unfolding get using assms(2,3) old retired
      by (auto simp: try_key_of_def above_eq D(4) is_deleted_def split: option.splits if_splits)
    then show ?thesis using Some key_of_get [OF D(2)] by simp
  qed
  then show ?thesis ..
qed

lemma syms_relD:
  assumes "syms_rel syms l syms'"
  shows "interner_ok syms" "interner_ok syms'" "interner_len syms' < 2 ^ 32" "unat (sym_floor l) = interner_len syms"
    "to_str syms' = to_str syms @ layer_syms l"
    "map_of (by_sym l) name = Some y \<longleftrightarrow> get_sym syms' name = Some y \<and> get_sym syms name = None"
  using assms unfolding syms_rel_def by blast+

lemma syms_rel_below:
  assumes "syms_rel syms l syms'" "get_sym syms name = Some y"
  shows "get_sym syms' name = Some y"
  using assms(2) syms_relD [OF assms(1)] by (auto simp: st.get_iff_resolve resolve_sym_def nth_append split: if_splits)

lemma layered_sym:
  assumes "syms_rel syms l syms'" "gv_syms v = syms" "gv_layer v = Some l"
  shows "view_sym v name = get_sym syms' name"
  using assms(2,3) syms_rel_below [OF assms(1), of name] syms_relD(6) [OF assms(1), of name]
  by (auto simp: view_sym_def split: option.split) (metis not_None_eq)

lemma layered_sym_name:
  assumes "syms_rel syms l syms'" "gv_syms v = syms" "gv_layer v = Some l"
  shows "sym_name v y = resolve_sym syms' y"
  using assms(2,3) syms_relD(4,5) [OF assms(1)]
  by (auto simp: sym_name_def above_eq resolve_sym_def interner_len_def nth_append)

lemma labels_relD:
  assumes "labels_rel floor ys l ys'"
  shows "unat (id_floor l) = floor" "length ys \<le> floor" "length ys' \<le> floor + length (layer_keys l)"
    "length (layer_labels l) = length (layer_keys l)" "floor + length (layer_keys l) < 2 ^ 32"
    "n < 2 ^ 32 \<Longrightarrow> slot_label ys' n = layer_label floor ys l n"
  using assms unfolding labels_rel_def by blast+

lemma layered_label_sym:
  assumes "labels_rel floor ys l ys'" "gv_labels v = ys" "gv_layer v = Some l"
  shows "label_sym v i = (if slot_label ys' (unat i) \<noteq> NO_LABEL then Some (slot_label ys' (unat i)) else None)"
  using assms(2,3) labels_relD(1,2,4) [OF assms(1)] labels_relD(6) [OF assms(1), of "unat i"] unat_bound [of i]
  by (auto simp: label_sym_def Let_def above_eq layer_label_def slot_label_def)

lemma collect_layered:
  assumes "length ys \<le> unat (id_floor l)"
  shows "label_syms_collect \<lparr>ls_below = drop n ys, ls_layer = Some l, ls_next = n\<rparr> =
    map (layer_label (unat (id_floor l)) ys l) [n..<unat (id_floor l) + length (layer_labels l)]"
proof (induction "unat (id_floor l) + length (layer_labels l) - n" arbitrary: n)
  case 0
  then show ?case using assms by (subst label_syms_collect.simps) (auto simp: label_syms_next_def Let_def)
next
  case (Suc m)
  let ?top = "unat (id_floor l) + length (layer_labels l)"
  have n: "n < ?top" using Suc.hyps(2) by simp
  have "label_syms_next \<lparr>ls_below = drop n ys, ls_layer = Some l, ls_next = n\<rparr> =
      (\<lparr>ls_below = drop (Suc n) ys, ls_layer = Some l, ls_next = Suc n\<rparr>, Some (layer_label (unat (id_floor l)) ys l n))"
  proof (cases "n < length ys")
    case True
    then show ?thesis
      by (simp add: label_syms_next_def Cons_nth_drop_Suc [symmetric] layer_label_def)
  next
    case False
    then show ?thesis using n
      by (auto simp: label_syms_next_def layer_label_def Let_def slot_label_def)
  qed
  moreover have "[n..<?top] = n # [Suc n..<?top]" using n by (simp add: upt_conv_Cons)
  ultimately show ?case
    using Suc.hyps(1) [of "Suc n"] Suc.hyps(2) by (subst label_syms_collect.simps) simp
qed

lemma enumerate_slots: "List.enumerate 0 ys = map (\<lambda>n. (n, slot_label ys n)) [0..<length ys]"
  by (rule nth_equalityI) (simp_all add: nth_enumerate_eq slot_label_def)

lemma slots_where_upto:
  assumes "\<And>i. \<not> P i NO_LABEL" "length ys \<le> N"
  shows "slots_where P ys = map of_nat (filter (\<lambda>n. P (of_nat n) (slot_label ys n)) [0..<N])"
proof -
  have "[0..<N] = [0..<length ys] @ [length ys..<N]" using assms(2) by (metis le0 le_add_diff_inverse upt_add_eq_append)
  moreover have "filter (\<lambda>n. P (of_nat n) (slot_label ys n)) [length ys..<N] = []"
    using assms(1) by (auto simp: slot_label_def filter_empty_conv)
  ultimately show ?thesis
    by (simp add: slots_where_def enumerate_slots filter_map comp_def)
qed

lemma slots_where_same:
  assumes "\<And>i. \<not> P i NO_LABEL" "length xs \<le> 2 ^ 32" "length ys \<le> 2 ^ 32"
    "\<And>n. n < 2 ^ 32 \<Longrightarrow> slot_label xs n = slot_label ys n"
  shows "slots_where P xs = slots_where P ys"
  unfolding slots_where_upto [of P xs "2 ^ 32", OF assms(1,2)] slots_where_upto [of P ys "2 ^ 32", OF assms(1,3)]
  by (rule arg_cong [of _ _ "map of_nat"], rule filter_cong) (simp_all add: assms(4))

lemma layered_slots:
  assumes "labels_rel floor ys l ys'" "gv_labels v = ys" "gv_layer v = Some l" "\<And>i. \<not> P i NO_LABEL"
  shows "slots_where P (label_syms_of v) = slots_where P ys'"
proof (rule slots_where_same)
  note D = labels_relD [OF assms(1)]
  have c: "label_syms_of v = map (layer_label floor ys l) [0..<floor + length (layer_labels l)]"
    using collect_layered [of ys l 0] D(1,2) assms(2,3) by (simp add: label_syms_of_def)
  show "length (label_syms_of v) \<le> 2 ^ 32" "length ys' \<le> 2 ^ 32" using c D(3,4,5) by simp_all
  show "slot_label (label_syms_of v) n = slot_label ys' n" if "n < 2 ^ 32" for n
    unfolding D(6) [OF that] c using D(2) by (auto simp: slot_label_def layer_label_def)
qed (rule assms(4))

section \<open>One change\<close>

lemma layer_intern_rel:
  assumes rel: "syms_rel syms l syms'" and small: "interner_len (fst (intern syms' name)) < 2 ^ 32"
  shows "\<exists>l'. layer_intern l syms name = (l', snd (intern syms' name)) \<and> syms_rel syms l' (fst (intern syms' name)) \<and>
    l' = l\<lparr>layer_syms := layer_syms l', by_sym := by_sym l'\<rparr>"
proof -
  note D = syms_relD [OF rel]
  consider y where "get_sym syms' name = Some y" | "get_sym syms' name = None" by fastforce
  then show ?thesis
  proof cases
    case 1
    then have i: "intern syms' name = (syms', y)" by (simp add: intern_def get_sym_def)
    have "layer_intern l syms name = (l, y)"
      using 1 D(6) [of name y] syms_rel_below [OF rel, of name] by (auto simp: layer_intern_def split: option.split)
    then show ?thesis using i rel by simp
  next
    case 2
    have none: "get_sym syms name = None" "map_of (by_sym l) name = None"
      using 2 syms_rel_below [OF rel, of name] D(6) [of name] by (cases "get_sym syms name"; force)+
    define y :: u32 where "y = of_nat (length (to_str syms'))"
    define syms'' where "syms'' = fst (intern syms' name)"
    have i: "intern syms' name = (syms'', y)" "to_str syms'' = to_str syms' @ [name]"
      "get_sym syms'' n = (if n = name then Some y else get_sym syms' n)" for n
      using 2 by (simp_all add: intern_def get_sym_def y_def Let_def syms''_def)
    have ok: "interner_ok syms''"
      using interner_ok_intern [OF D(2)] D(3) by (simp add: interner_len_def syms''_def)
    have "sym_floor l + of_nat (length (layer_syms l)) = y"
      using arg_cong [OF D(4), of "of_nat :: nat \<Rightarrow> u32"] D(5) by (simp add: y_def interner_len_def)
    then have "layer_intern l syms name =
        (l\<lparr>layer_syms := layer_syms l @ [name], by_sym := AList.update name y (by_sym l)\<rparr>, y)"
      using none by (simp add: layer_intern_def)
    moreover have "syms_rel syms (l\<lparr>layer_syms := layer_syms l @ [name], by_sym := AList.update name y (by_sym l)\<rparr>) syms''"
      using D i ok none small by (auto simp: syms_rel_def update_conv' syms''_def [symmetric])
    ultimately show ?thesis using i(1) by simp
  qed
qed

lemma spec_get_abs:
  assumes "id_map_ok hash ids" shows "spec_get (id_map_abs ids) k = id_map_get hash ids k"
  using id_map_get_spec [OF assms] by simp

text \<open>A rewriting of the invariant that the three changes of identity share: what they do to the slots, to
  the retired ids and to the keys of the layer.\<close>

lemma nodes_relI:
  assumes "nodes_rel hash ids l ids'" "id_map_ok hash ids''" "id_map_len ids'' < 2 ^ 32" "id_floor l' = id_floor l"
    "\<And>n. n < id_map_len ids \<Longrightarrow> fst (id_map_abs ids'') ! n =
       (case map_of (renamed l') (of_nat n) of Some k \<Rightarrow> k | None \<Rightarrow> fst (id_map_abs ids) ! n)"
    "drop (id_map_len ids) (fst (id_map_abs ids'')) = layer_keys l'"
    "id_map_len ids \<le> id_map_len ids''"
    "snd (id_map_abs ids'') = snd (id_map_abs ids) \<union> deleted l'"
    "\<And>k i. map_of (by_key l') k = Some i \<longleftrightarrow>
        id_map_get hash ids'' k = Some i \<and> (id_map_len ids \<le> unat i \<or> map_of (renamed l') i \<noteq> None)"
    "\<And>i k. map_of (renamed l') i = Some k \<Longrightarrow> unat i < id_map_len ids \<and> i \<notin> snd (id_map_abs ids)"
  shows "nodes_rel hash ids l' ids''"
proof -
  note D = nodes_relD [OF assms(1)]
  have len: "id_map_len ids'' = length (fst (id_map_abs ids''))" using id_map_len_slots [OF assms(2)] .
  have "take (id_map_len ids) (fst (id_map_abs ids'')) =
      map (\<lambda>n. case map_of (renamed l') (of_nat n) of Some k \<Rightarrow> k | None \<Rightarrow> fst (id_map_abs ids) ! n) [0..<id_map_len ids]"
    using assms(5,7) len by (intro nth_equalityI [where 'a = string]) (simp_all split: option.split)
  then have "fst (id_map_abs ids'') =
      map (\<lambda>n. case map_of (renamed l') (of_nat n) of Some k \<Rightarrow> k | None \<Rightarrow> fst (id_map_abs ids) ! n) [0..<id_map_len ids]
        @ layer_keys l'"
    using assms(6) by (metis append_take_drop_id)
  then show ?thesis using D(1,4) assms(2,3,4,8,9,10) unfolding nodes_rel_def by force
qed

lemma layer_insert_rel:
  assumes rel: "nodes_rel hash ids l ids'" and free: "id_map_get hash ids' key = None"
    and ins: "id_map_try_insert hash ids' key = Some (ids'', Inr i)" and small: "id_map_len ids'' < 2 ^ 32"
  shows "snd (layer_insert l key y) = i \<and> nodes_rel hash ids (fst (layer_insert l key y)) ids'' \<and>
    unat i = id_map_len ids' \<and> id_map_len ids'' = Suc (id_map_len ids')"
proof -
  note D = nodes_relD [OF rel]
  have ok: "id_map_ok hash ids''" and sp: "spec_insert key (id_map_abs ids') = (id_map_abs ids'', Inr i)"
    using id_map_try_insert_correct [OF D(2), of key] ins by auto
  obtain sl rt where s: "id_map_abs ids' = (sl, rt)" by fastforce
  have len: "id_map_len ids' = length sl" using id_map_len_slots [OF D(2)] s by simp
  have sp': "id_map_abs ids'' = (sl @ [key], rt)" "i = of_nat (length sl)"
    using sp spec_get_abs [OF D(2), of key] free by (auto simp: s split: if_splits)
  have len'': "id_map_len ids'' = Suc (length sl)" using id_map_len_slots [OF ok] sp' by simp
  have i: "unat i = length sl" using sp'(2) small len'' by (simp add: unat_of_nat)
  have idl: "id_floor l + of_nat (length (layer_keys l)) = i"
    using arg_cong [OF D(4), of "of_nat :: nat \<Rightarrow> u32"] arg_cong [OF D(8), of "of_nat :: nat \<Rightarrow> u32"] len sp'(2) by simp
  have slots: "sl = map (\<lambda>n. case map_of (renamed l) (of_nat n) of Some k \<Rightarrow> k | None \<Rightarrow> fst (id_map_abs ids) ! n)
         [0..<id_map_len ids] @ layer_keys l" using D(9) s by simp
  have get: "id_map_get hash ids'' k = Some j \<longleftrightarrow> (if k = key then j = i else id_map_get hash ids' k = Some j)" for k j
  proof -
    have "j = i \<longleftrightarrow> unat j = length sl" using i by (metis word_unat_eq_iff)
    moreover have "i \<notin> rt" using id_map_okD(5) [OF D(2), of i] i s by auto
    moreover have "id_map_get hash ids' key \<noteq> Some j" using free by simp
    ultimately show ?thesis
      unfolding id_map_get_slot [OF ok] using id_map_get_slot [OF D(2), of k j] sp'(1) len'' len s by (auto simp: nth_append less_Suc_eq)
  qed
  have "nodes_rel hash ids (fst (layer_insert l key y)) ids''"
  proof (rule nodes_relI [OF rel ok small])
    show "map_of (by_key (fst (layer_insert l key y))) k = Some j \<longleftrightarrow> id_map_get hash ids'' k = Some j \<and>
        (id_map_len ids \<le> unat j \<or> map_of (renamed (fst (layer_insert l key y))) j \<noteq> None)" for k j
      using D(6) [of k j] get [of k j] i len D(8) idl by (auto simp: layer_insert_def Let_def update_conv')
    show "map_of (renamed (fst (layer_insert l key y))) j = Some k \<Longrightarrow>
        unat j < id_map_len ids \<and> j \<notin> snd (id_map_abs ids)" for j k
      using D(7) [of j k] by (simp add: layer_insert_def Let_def)
    show "fst (id_map_abs ids'') ! n = (case map_of (renamed (fst (layer_insert l key y))) (of_nat n) of
        Some k \<Rightarrow> k | None \<Rightarrow> fst (id_map_abs ids) ! n)" if "n < id_map_len ids" for n
      using that by (simp add: sp' slots layer_insert_def Let_def nth_append split: option.split)
  qed (use D(5) s sp' slots len'' len D(8) in \<open>simp_all add: layer_insert_def Let_def\<close>)
  then show ?thesis using idl i len len'' by (simp add: layer_insert_def Let_def)
qed

lemma drop_key_rel:
  assumes rel: "nodes_rel hash ids l ids'" and key: "id_map_get hash ids' key = Some i"
  shows "map_of (by_key (drop_key l key i)) = (map_of (by_key l))(key := None)"
proof (cases "map_of (by_key l) key = Some i")
  case False
  then have "map_of (by_key l) key = None"
    using nodes_relD(6) [OF rel, of key] key by (metis not_None_eq option.inject)
  then show ?thesis using False by (auto simp: drop_key_def)
qed (simp add: drop_key_def delete_conv')

lemma drop_key_same:
  "drop_key l key i = l\<lparr>by_key := by_key (drop_key l key i)\<rparr>"
  by (simp add: drop_key_def)

lemma drop_key_fields [simp]:
  "id_floor (drop_key l key i) = id_floor l" "layer_keys (drop_key l key i) = layer_keys l"
  "layer_labels (drop_key l key i) = layer_labels l" "deleted (drop_key l key i) = deleted l"
  "relabeled (drop_key l key i) = relabeled l" "renamed (drop_key l key i) = renamed l"
  "sym_floor (drop_key l key i) = sym_floor l" "layer_syms (drop_key l key i) = layer_syms l"
  "by_sym (drop_key l key i) = by_sym l"
  by (simp_all add: drop_key_def)

lemma layer_rename_rel:
  assumes rel: "nodes_rel hash ids l ids'" and old: "id_map_get hash ids' old = Some i"
    and free: "id_map_get hash ids' new = None"
    and ren: "id_map_rename hash ids' old new = Some (ids'', Inr i')"
  shows "i' = i \<and> (\<exists>l'. layer_rename l i old new = Some l' \<and> nodes_rel hash ids l' ids'' \<and>
    l' = l\<lparr>layer_keys := layer_keys l', by_key := by_key l', renamed := renamed l'\<rparr> \<and>
    length (layer_keys l') = length (layer_keys l))"
proof -
  note D = nodes_relD [OF rel]
  have ok: "id_map_ok hash ids''" and sp: "spec_rename old new (id_map_abs ids') = (id_map_abs ids'', Inr i')"
    using id_map_rename_correct [OF D(2), of old new] ren by auto
  obtain sl rt where s: "id_map_abs ids' = (sl, rt)" by fastforce
  have sp': "id_map_abs ids'' = (sl[unat i := new], rt)" "i' = i"
    using sp spec_get_abs [OF D(2)] free old by (auto simp: s)
  have len: "id_map_len ids' = length sl" "id_map_len ids'' = length sl"
    using id_map_len_slots [OF D(2)] id_map_len_slots [OF ok] s sp' by simp_all
  have live: "unat i < length sl" "i \<notin> rt" "sl ! unat i = old"
    using id_map_get_slot [OF D(2), of old i] old s len by auto
  have get: "id_map_get hash ids'' k = Some j \<longleftrightarrow>
      (if k = new then j = i else k \<noteq> old \<and> id_map_get hash ids' k = Some j)" for k j
  proof -
    have "id_map_get hash ids' new \<noteq> Some j" "id_map_get hash ids' old = Some j \<longleftrightarrow> j = i" using free old by auto
    then show ?thesis
      unfolding id_map_get_slot [OF ok] id_map_get_slot [OF D(2)] sp' s len fst_conv snd_conv
      using live by (cases "j = i") (auto simp: nth_list_update)
  qed
  have slots: "sl = map (\<lambda>n. case map_of (renamed l) (of_nat n) of Some k \<Rightarrow> k | None \<Rightarrow> fst (id_map_abs ids) ! n)
         [0..<id_map_len ids] @ layer_keys l" using D(9) s by simp
  have lens: "length sl = id_map_len ids + length (layer_keys l)" using D(8) len by simp
  have small: "id_map_len ids'' < 2 ^ 32" using D(3) len by simp
  let ?l = "drop_key l old i"
  have olds: "old \<noteq> new" using old free by auto
  show ?thesis
  proof (cases "id_map_len ids \<le> unat i")
    case True
    define l' where "l' = ?l\<lparr>layer_keys := (layer_keys l)[unat i - id_map_len ids := new], by_key := AList.update new i (by_key ?l)\<rparr>"
    have "layer_rename l i old new = Some l'"
      using True lens live(1) D(4) by (auto simp: layer_rename_def above_eq l'_def Let_def)
    moreover have "nodes_rel hash ids l' ids''"
    proof (rule nodes_relI [OF rel ok small])
      show "map_of (by_key l') k = Some j \<longleftrightarrow>
          id_map_get hash ids'' k = Some j \<and> (id_map_len ids \<le> unat j \<or> map_of (renamed l') j \<noteq> None)" for k j
        using D(6) [of k j] get [of k j] True drop_key_rel [OF rel old] by (auto simp: l'_def update_conv')
      show "fst (id_map_abs ids'') ! n =
          (case map_of (renamed l') (of_nat n) of Some k \<Rightarrow> k | None \<Rightarrow> fst (id_map_abs ids) ! n)" if "n < id_map_len ids" for n
        using that True by (simp add: sp' slots l'_def nth_append nth_list_update split: option.split)
      show "drop (id_map_len ids) (fst (id_map_abs ids'')) = layer_keys l'"
        using True by (simp add: sp' slots l'_def list_update_append)
    qed (use D(5,7) s sp' len lens in \<open>auto simp: l'_def\<close>)
    moreover have "l' = l\<lparr>layer_keys := layer_keys l', by_key := by_key l', renamed := renamed l'\<rparr>"
      by (simp add: l'_def drop_key_def)
    ultimately show ?thesis using sp'(2) by (auto simp: l'_def)
  next
    case False
    define l' where "l' = ?l\<lparr>renamed := AList.update i new (renamed l), by_key := AList.update new i (by_key ?l)\<rparr>"
    have "layer_rename l i old new = Some l'"
      using False D(4) by (auto simp: layer_rename_def above_eq l'_def Let_def)
    moreover have "nodes_rel hash ids l' ids''"
    proof (rule nodes_relI [OF rel ok small])
      have inj': "k = old" if "id_map_get hash ids' k = Some i" for k using that old id_map_get_inj [OF D(2)] by blast
      show "map_of (by_key l') k = Some j \<longleftrightarrow>
          id_map_get hash ids'' k = Some j \<and> (id_map_len ids \<le> unat j \<or> map_of (renamed l') j \<noteq> None)" for k j
      proof (cases "k = new \<or> j = i")
        case True
        then show ?thesis using D(6) [of k j] get [of k j] drop_key_rel [OF rel old] inj' [of k]
          by (auto simp: l'_def update_conv')
      next
        case False
        then have "map_of (renamed l') j = map_of (renamed l) j" "map_of (by_key l') k = (if k = old then None else map_of (by_key l) k)"
          using drop_key_rel [OF rel old] by (simp_all add: l'_def update_conv')
        then show ?thesis using False D(6) [of k j] get [of k j] by (cases "k = old") simp_all
      qed
      show "fst (id_map_abs ids'') ! n =
          (case map_of (renamed l') (of_nat n) of Some k \<Rightarrow> k | None \<Rightarrow> fst (id_map_abs ids) ! n)" if n: "n < id_map_len ids" for n
      proof -
        have "unat (of_nat n :: u32) = n" using n D(3,8) by (simp add: unat_of_nat)
        then have "of_nat n = i \<longleftrightarrow> n = unat i" by (metis word_unat_eq_iff)
        then show ?thesis
          using n False live(1) lens by (auto simp: sp' slots l'_def update_conv' nth_append nth_list_update split: option.split)
      qed
      show "drop (id_map_len ids) (fst (id_map_abs ids'')) = layer_keys l'"
        using False by (simp add: sp' slots l'_def list_update_append)
      show "unat j < id_map_len ids \<and> j \<notin> snd (id_map_abs ids)" if "map_of (renamed l') j = Some k" for j k
        using that D(5,7) False live(2) s by (auto simp: l'_def update_conv' split: if_splits)
    qed (use D(5) s sp' len lens in \<open>auto simp: l'_def\<close>)
    moreover have "l' = l\<lparr>layer_keys := layer_keys l', by_key := by_key l', renamed := renamed l'\<rparr>"
      by (simp add: l'_def drop_key_def)
    ultimately show ?thesis using sp'(2) by (auto simp: l'_def)
  qed
qed

lemma layer_delete_rel:
  assumes rel: "nodes_rel hash ids l ids'" and key: "id_map_get hash ids' key = Some i"
    and del: "id_map_delete hash ids' key = Some (ids'', r)"
  shows "nodes_rel hash ids (layer_delete l key i) ids''"
proof -
  note D = nodes_relD [OF rel]
  have ok: "id_map_ok hash ids''" and sp: "spec_delete key (id_map_abs ids') = (id_map_abs ids'', r)"
    using id_map_delete_correct [OF D(2), of key] del by auto
  obtain sl rt where s: "id_map_abs ids' = (sl, rt)" by fastforce
  have sp': "id_map_abs ids'' = (sl, insert i rt)"
    using sp spec_get_abs [OF D(2)] key by (auto simp: s)
  have len: "id_map_len ids' = length sl" "id_map_len ids'' = length sl"
    using id_map_len_slots [OF D(2)] id_map_len_slots [OF ok] s sp' by simp_all
  have get: "id_map_get hash ids'' k = Some j \<longleftrightarrow> k \<noteq> key \<and> id_map_get hash ids' k = Some j" for k j
    using id_map_get_slot [OF ok, of k j] id_map_get_slot [OF D(2), of k j] id_map_get_slot [OF D(2), of key i] key s sp' len
      id_map_get_inj [OF D(2), of k i key] by auto
  show ?thesis
  proof (rule nodes_relI [OF rel ok])
    show "map_of (by_key (layer_delete l key i)) k = Some j \<longleftrightarrow> id_map_get hash ids'' k = Some j \<and>
        (id_map_len ids \<le> unat j \<or> map_of (renamed (layer_delete l key i)) j \<noteq> None)" for k j
      using D(6) [of k j] get [of k j] drop_key_rel [OF rel key] by (auto simp: layer_delete_def Let_def)
    show "fst (id_map_abs ids'') ! n = (case map_of (renamed (layer_delete l key i)) (of_nat n) of
        Some k \<Rightarrow> k | None \<Rightarrow> fst (id_map_abs ids) ! n)" if "n < id_map_len ids" for n
      using that nodes_rel_slot [OF rel, of "of_nat n"] D(3,8)
      by (simp add: sp' s layer_delete_def Let_def unat_of_nat split: option.splits)
    show "drop (id_map_len ids) (fst (id_map_abs ids'')) = layer_keys (layer_delete l key i)"
      using D(9) by (simp add: sp' s layer_delete_def Let_def)
  qed (use D(3,5,7,8) s sp' len in \<open>auto simp: layer_delete_def Let_def\<close>)
qed

text \<open>Labels.\<close>

lemma slot_set_label: "slot_label (set_label ys i y) n = (if n = unat i then y else slot_label ys n)"
  by (auto simp: set_label_def slot_label_def nth_list_update nth_append)

lemma length_set_label: "length (set_label ys i y) = max (length ys) (unat i + 1)"
  by (auto simp: set_label_def)

lemma is_deleted_iff [simp]: "is_deleted l i \<longleftrightarrow> i \<in> deleted l"
  by (auto simp: is_deleted_def)

lemma below_label_eq:
  "below_label l i y = (if i \<in> deleted l then NO_LABEL else case map_of (relabeled l) i of Some y' \<Rightarrow> y' | None \<Rightarrow> y)"
  by (auto simp: below_label_def)

lemma of_nat_eq_unat:
  assumes "n < 2 ^ 32" shows "of_nat n = (i :: u32) \<longleftrightarrow> n = unat i"
proof -
  have "unat (of_nat n :: u32) = n" using assms by (simp add: unat_of_nat)
  then show ?thesis by (metis word_unat_eq_iff)
qed

lemma slot_label_snoc: "slot_label (ys @ [y]) n = (if n = length ys then y else slot_label ys n)"
  by (auto simp: slot_label_def nth_append)

lemma slot_label_update: "slot_label (ys[k := y]) n = (if n = k \<and> k < length ys then y else slot_label ys n)"
  by (auto simp: slot_label_def nth_list_update)

lemma labels_rel_insert:
  assumes rel: "labels_rel floor ys l ys'" and new: "unat i = floor + length (layer_keys l)" "i \<notin> deleted l"
    and small: "Suc (unat i) < 2 ^ 32"
  shows "labels_rel floor ys (fst (layer_insert l key y)) (set_label ys' i y)"
proof -
  note D = labels_relD [OF rel]
  let ?l = "fst (layer_insert l key y)"
  have "slot_label (set_label ys' i y) n = layer_label floor ys ?l n" if n: "n < 2 ^ 32" for n
  proof (cases "n = unat i")
    case True
    then have "(of_nat n :: u32) \<notin> deleted l" using new(2) by simp
    then show ?thesis using True D(2,4) new(1) by (simp add: slot_set_label layer_label_def layer_insert_def Let_def slot_label_snoc)
  next
    case False
    then have "n - floor \<noteq> length (layer_labels l)" if "\<not> n < floor" using that new D(4) by simp
    then show ?thesis using False D(6) [OF n] D(2)
      by (simp add: slot_set_label layer_label_def layer_insert_def Let_def slot_label_snoc below_label_eq)
  qed
  then show ?thesis
    using D(1-5) new small unfolding labels_rel_def by (simp add: length_set_label layer_insert_def Let_def)
qed

lemma labels_rel_relabel:
  assumes rel: "labels_rel floor ys l ys'" and has: "slot_label ys' (unat i) \<noteq> NO_LABEL"
  shows "\<exists>l'. layer_relabel l i y = Some l' \<and> labels_rel floor ys l' (set_label ys' i y) \<and>
    l' = l\<lparr>layer_labels := layer_labels l', relabeled := relabeled l'\<rparr>"
proof -
  note D = labels_relD [OF rel]
  have b: "unat i < 2 ^ 32" using unat_bound [of i] by simp
  have has': "layer_label floor ys l (unat i) \<noteq> NO_LABEL" using has D(6) [OF b] by simp
  have top: "unat i < floor + length (layer_keys l)" using has D(3) by (auto simp: slot_label_def split: if_splits)
  show ?thesis
  proof (cases "floor \<le> unat i")
    case True
    define l' where "l' = l\<lparr>layer_labels := (layer_labels l)[unat i - floor := y]\<rparr>"
    have r: "layer_relabel l i y = Some l'"
      using True top D(1,4) by (auto simp: layer_relabel_def above_eq l'_def)
    have "slot_label (set_label ys' i y) n = layer_label floor ys l' n" if n: "n < 2 ^ 32" for n
      using D(2,4) D(6) [OF n] has' True top
      by (auto simp: slot_set_label layer_label_def l'_def below_label_eq slot_label_update)
    then show ?thesis
      using r D top unfolding labels_rel_def by (auto simp: length_set_label l'_def)
  next
    case False
    define l' where "l' = l\<lparr>relabeled := AList.update i y (relabeled l)\<rparr>"
    have r: "layer_relabel l i y = Some l'" using False D(1) by (auto simp: layer_relabel_def above_eq l'_def)
    have "slot_label (set_label ys' i y) n = layer_label floor ys l' n" if n: "n < 2 ^ 32" for n
      using D(2,4) D(6) [OF n] has' False of_nat_eq_unat [OF n, of i]
      by (auto simp: slot_set_label layer_label_def l'_def below_label_eq update_conv' split: if_splits)
    then show ?thesis
      using r D top unfolding labels_rel_def by (auto simp: length_set_label l'_def)
  qed
qed

lemma labels_rel_delete:
  assumes rel: "labels_rel floor ys l ys'"
  shows "labels_rel floor ys (layer_delete l key i) (ys'[unat i := NO_LABEL])"
proof -
  note D = labels_relD [OF rel]
  have "slot_label (ys'[unat i := NO_LABEL]) n = layer_label floor ys (layer_delete l key i) n" if n: "n < 2 ^ 32" for n
    using D(6) [OF n] of_nat_eq_unat [OF n, of i]
    by (auto simp: slot_label_update layer_delete_def Let_def layer_label_def below_label_eq) (simp_all add: slot_label_def [of ys'])
  then show ?thesis using D(1-5) unfolding labels_rel_def by (simp add: layer_delete_def Let_def)
qed

section \<open>Any changes\<close>

lemma rel_frames:
  "nodes_rel hash ids (l\<lparr>layer_syms := ss, by_sym := bs\<rparr>) ids' = nodes_rel hash ids l ids'"
  "nodes_rel hash ids (l\<lparr>layer_labels := ys, relabeled := rs\<rparr>) ids' = nodes_rel hash ids l ids'"
  "labels_rel n ys (l\<lparr>layer_syms := ss, by_sym := bs\<rparr>) ys' = labels_rel n ys l ys'"
  "length ks = length (layer_keys l) \<Longrightarrow>
     labels_rel n ys (l\<lparr>layer_keys := ks, by_key := bk, renamed := rn\<rparr>) ys' = labels_rel n ys l ys'"
  "syms_rel syms (l\<lparr>layer_labels := ys, relabeled := rs\<rparr>) syms' = syms_rel syms l syms'"
  "syms_rel syms (l\<lparr>layer_keys := ks, by_key := bk, renamed := rn\<rparr>) syms' = syms_rel syms l syms'"
  "syms_rel syms (fst (layer_insert l key y)) syms' = syms_rel syms l syms'"
  "syms_rel syms (layer_delete l key i) syms' = syms_rel syms l syms'"
  by (simp_all add: nodes_rel_def labels_rel_def syms_rel_def layer_label_def below_label_eq
      layer_insert_def layer_delete_def Let_def)

lemma store_apply_grows:
  assumes ok: "id_map_ok hash (st_ids t)" and step: "store_apply hash t a = Some (t', r)"
  shows "id_map_ok hash (st_ids t') \<and> id_map_len (st_ids t) \<le> id_map_len (st_ids t') \<and>
    interner_len (st_syms t) \<le> interner_len (st_syms t')"
proof -
  obtain sl rt where s: "id_map_abs (st_ids t) = (sl, rt)" by fastforce
  have len: "id_map_ok hash m \<Longrightarrow> id_map_abs m = (sl', rt') \<Longrightarrow> id_map_len m = length sl'" for m sl' rt'
    using id_map_len_slots by fastforce
  show ?thesis
  proof (cases a)
    case (OIntern name)
    then show ?thesis using step ok
      by (auto simp: intern_def interner_len_def Let_def split: option.splits prod.splits)
  next
    case (OInsert key y)
    then obtain ids where i: "id_map_try_insert hash (st_ids t) key = Some (ids, Inr r)"
        "t' = t\<lparr>st_ids := ids, st_labels := set_label (st_labels t) r y\<rparr>"
      using step by (auto split: option.splits sum.splits prod.splits)
    then have "id_map_ok hash ids" "spec_insert key (sl, rt) = (id_map_abs ids, Inr r)"
      using id_map_try_insert_correct [OF ok, of key] s by auto
    moreover obtain sl' rt' where "id_map_abs ids = (sl', rt')" by fastforce
    ultimately show ?thesis using i(2) len [OF ok s] len [of ids sl' rt'] by (auto split: option.splits if_splits)
  next
    case (ORename i old new)
    then obtain ids where i: "id_map_rename hash (st_ids t) old new = Some (ids, Inr r)" "t' = t\<lparr>st_ids := ids\<rparr>"
      using step by (auto split: option.splits sum.splits prod.splits)
    then have "id_map_ok hash ids" "spec_rename old new (sl, rt) = (id_map_abs ids, Inr r)"
      using id_map_rename_correct [OF ok, of old new] s by auto
    moreover obtain sl' rt' where "id_map_abs ids = (sl', rt')" by fastforce
    ultimately show ?thesis using i(2) len [OF ok s] len [of ids sl' rt'] by (auto split: option.splits if_splits)
  next
    case (ODelete key i)
    then obtain ids r' where i: "id_map_delete hash (st_ids t) key = Some (ids, r')"
        "t' = t\<lparr>st_ids := ids, st_labels := (st_labels t)[unat i := NO_LABEL]\<rparr>"
      using step by (auto split: option.splits prod.splits)
    then have "id_map_ok hash ids" "spec_delete key (sl, rt) = (id_map_abs ids, r')"
      using id_map_delete_correct [OF ok, of key] s by auto
    moreover obtain sl' rt' where "id_map_abs ids = (sl', rt')" by fastforce
    ultimately show ?thesis using i(2) len [OF ok s] len [of ids sl' rt'] by (auto split: option.splits)
  qed (use ok step in auto)
qed

lemma layer_step_rel:
  assumes rel: "layer_rel hash s l t" and allowed: "op_allowed hash t a" and step: "store_apply hash t a = Some (t', r)"
    and small: "id_map_len (st_ids t') < 2 ^ 32" "interner_len (st_syms t') < 2 ^ 32"
  shows "\<exists>l'. layer_apply (st_syms s) l a = Some (l', r) \<and> layer_rel hash s l' t'"
proof -
  have n: "nodes_rel hash (st_ids s) l (st_ids t)" and y: "labels_rel (id_map_len (st_ids s)) (st_labels s) l (st_labels t)"
    and m: "syms_rel (st_syms s) l (st_syms t)" using rel by (simp_all add: layer_rel_def)
  show ?thesis
  proof (cases a)
    case (OIntern name)
    then have t': "t' = t\<lparr>st_syms := fst (intern (st_syms t) name)\<rparr>" "r = snd (intern (st_syms t) name)"
      using step by (auto split: prod.splits)
    then obtain l' where "layer_intern l (st_syms s) name = (l', r)" "syms_rel (st_syms s) l' (st_syms t')"
        "l' = l\<lparr>layer_syms := layer_syms l', by_sym := by_sym l'\<rparr>"
      using layer_intern_rel [OF m, of name] small(2) by auto
    then show ?thesis using OIntern n y t' rel_frames(1,3) unfolding layer_rel_def
      by (metis layer_apply.simps(1) node_store.select_convs(1,3) node_store.surjective node_store.update_convs(2))
  next
    case (OInsert key lab)
    then obtain ids where i: "id_map_try_insert hash (st_ids t) key = Some (ids, Inr r)"
        "t' = t\<lparr>st_ids := ids, st_labels := set_label (st_labels t) r lab\<rparr>"
      using step by (auto split: option.splits sum.splits prod.splits)
    have free: "id_map_get hash (st_ids t) key = None" using allowed OInsert by simp
    have ins: "snd (layer_insert l key lab) = r" "nodes_rel hash (st_ids s) (fst (layer_insert l key lab)) ids"
        "unat r = id_map_len (st_ids t)" "id_map_len ids = Suc (id_map_len (st_ids t))"
      using layer_insert_rel [OF n free i(1), of lab] small(1) i(2) by auto
    have "r \<notin> snd (id_map_abs (st_ids t))"
      using id_map_okD(5) [OF nodes_relD(2) [OF n], of r] id_map_len_slots [OF nodes_relD(2) [OF n]] ins(3) by auto
    then have "labels_rel (id_map_len (st_ids s)) (st_labels s) (fst (layer_insert l key lab)) (set_label (st_labels t) r lab)"
      using labels_rel_insert [OF y, of r key lab] ins(3,4) nodes_relD(5,8) [OF n] small(1) i(2) by simp
    then show ?thesis using OInsert ins i(2) m rel_frames(7)
      by (intro exI [of _ "fst (layer_insert l key lab)"]) (simp add: layer_rel_def prod_eq_iff)
  next
    case (ORelabel i lab)
    then have t': "t' = t\<lparr>st_labels := set_label (st_labels t) i lab\<rparr>" "r = i" using step by auto
    obtain l' where "layer_relabel l i lab = Some l'"
        "labels_rel (id_map_len (st_ids s)) (st_labels s) l' (set_label (st_labels t) i lab)"
        "l' = l\<lparr>layer_labels := layer_labels l', relabeled := relabeled l'\<rparr>"
      using labels_rel_relabel [OF y, of i lab] allowed ORelabel by auto
    moreover have "nodes_rel hash (st_ids s) l' (st_ids t)" "syms_rel (st_syms s) l' (st_syms t)"
      using calculation(3) n m rel_frames(2,5) by metis+
    ultimately show ?thesis using ORelabel t' by (simp add: layer_rel_def)
  next
    case (ORename i old new)
    then obtain ids where i: "id_map_rename hash (st_ids t) old new = Some (ids, Inr r)" "t' = t\<lparr>st_ids := ids\<rparr>"
      using step by (auto split: option.splits sum.splits prod.splits)
    then obtain l' where "r = i" "layer_rename l i old new = Some l'" "nodes_rel hash (st_ids s) l' ids"
        and l': "l' = l\<lparr>layer_keys := layer_keys l', by_key := by_key l', renamed := renamed l'\<rparr>"
        and len: "length (layer_keys l') = length (layer_keys l)"
      using layer_rename_rel [OF n _ _ i(1)] allowed ORename by auto
    moreover have "labels_rel (id_map_len (st_ids s)) (st_labels s) l' (st_labels t)" "syms_rel (st_syms s) l' (st_syms t)"
      using y m rel_frames(4) [OF len] rel_frames(6) l' by metis+
    ultimately show ?thesis using ORename i(2) by (simp add: layer_rel_def)
  next
    case (ODelete key i)
    then obtain ids r' where i: "id_map_delete hash (st_ids t) key = Some (ids, r')" "r = i"
        "t' = t\<lparr>st_ids := ids, st_labels := (st_labels t)[unat i := NO_LABEL]\<rparr>"
      using step by (auto split: option.splits prod.splits)
    have "nodes_rel hash (st_ids s) (layer_delete l key i) ids"
      using layer_delete_rel [OF n _ i(1)] allowed ODelete by simp
    then show ?thesis using ODelete i labels_rel_delete [OF y] m rel_frames(8) by (simp add: layer_rel_def)
  qed
qed

lemma store_run_grows:
  assumes "id_map_ok hash (st_ids t)" "store_run hash as t = Some (t', rs)"
  shows "id_map_ok hash (st_ids t') \<and> id_map_len (st_ids t) \<le> id_map_len (st_ids t') \<and>
    interner_len (st_syms t) \<le> interner_len (st_syms t')"
  using assms
proof (induction as arbitrary: t rs)
  case (Cons a as)
  then obtain t1 r rs1 where "store_apply hash t a = Some (t1, r)" "store_run hash as t1 = Some (t', rs1)"
    by (auto split: if_splits option.splits)
  then show ?case using Cons.IH [of t1 rs1] store_apply_grows [OF Cons.prems(1)] by fastforce
qed simp

lemma layer_run_rel:
  assumes "layer_rel hash s l t" "store_run hash as t = Some (t', rs)"
    "id_map_len (st_ids t') < 2 ^ 32" "interner_len (st_syms t') < 2 ^ 32"
  shows "\<exists>l'. layer_run (st_syms s) as l = Some (l', rs) \<and> layer_rel hash s l' t'"
  using assms
proof (induction as arbitrary: l t rs)
  case (Cons a as)
  then obtain t1 r rs1 where a: "op_allowed hash t a" "store_apply hash t a = Some (t1, r)"
      and run: "store_run hash as t1 = Some (t', rs1)" "rs = r # rs1"
    by (auto split: if_splits option.splits)
  have ok: "id_map_ok hash (st_ids t1)"
    using store_apply_grows [OF _ a(2)] Cons.prems(1) by (simp add: layer_rel_def nodes_rel_def)
  then obtain l1 where l1: "layer_apply (st_syms s) l a = Some (l1, r)" "layer_rel hash s l1 t1"
    using layer_step_rel [OF Cons.prems(1) a] store_run_grows [OF ok run(1)] Cons.prems(3,4) by force
  then show ?case using Cons.IH [OF l1(2) run(1) Cons.prems(3,4)] run(2) by auto
qed auto

definition store_view :: "node_store \<Rightarrow> node_layer option \<Rightarrow> topology_view \<Rightarrow> visible_set option \<Rightarrow> graph_view" where
  "store_view s l topo allow =
     \<lparr>gv_ids = st_ids s, gv_syms = st_syms s, gv_labels = st_labels s, gv_topo = topo, gv_mask = allow, gv_layer = l\<rparr>"

lemma plain_reads [simp]:
  "node_id hash (store_view s None topo allow) key = id_map_get hash (st_ids s) key"
  "view_sym (store_view s None topo allow) key = get_sym (st_syms s) key"
  "sym_name (store_view s None topo allow) y = resolve_sym (st_syms s) y"
  by (simp_all add: store_view_def node_id_def view_sym_def sym_name_def split: option.split)

lemma layer_rel_new:
  assumes "id_map_ok hash (st_ids s)" "interner_ok (st_syms s)" "length (st_labels s) \<le> id_map_len (st_ids s)"
    "id_map_len (st_ids s) < 2 ^ 32" "interner_len (st_syms s) < 2 ^ 32"
  shows "layer_rel hash s (node_layer_new (st_ids s) (st_syms s)) s"
proof -
  have floors: "unat (of_nat (id_map_len (st_ids s)) :: u32) = id_map_len (st_ids s)"
    "unat (of_nat (interner_len (st_syms s)) :: u32) = interner_len (st_syms s)"
    using assms(4,5) by (simp_all add: unat_of_nat)
  have "fst (id_map_abs (st_ids s)) = map ((!) (fst (id_map_abs (st_ids s)))) [0..<id_map_len (st_ids s)]"
    using id_map_len_slots [OF assms(1)] by (simp add: map_nth)
  moreover have "id_map_get hash (st_ids s) k = Some i \<Longrightarrow> \<not> id_map_len (st_ids s) \<le> unat i" for k i
    using id_map_get_slot [OF assms(1), of k i] by simp
  ultimately show ?thesis
    using assms floors
    by (auto simp: layer_rel_def nodes_rel_def labels_rel_def syms_rel_def node_layer_new_def layer_label_def
        below_label_eq slot_label_def get_sym_def interner_len_def)
qed

lemma sym_not_sentinel:
  assumes "interner_ok syms" "interner_len syms < 2 ^ 32" "get_sym syms name = Some y"
  shows "y \<noteq> NO_LABEL"
proof -
  have "unat y < length (to_str syms)" using assms(1,3) by (auto simp: interner_ok_def get_sym_def)
  then have "unat y < 2 ^ 32 - 1" using assms(2) by (simp add: interner_len_def)
  moreover have "unat NO_LABEL = 2 ^ 32 - 1" by (simp add: NO_LABEL_def unsigned_minus_1_eq_mask mask_eq_exp_minus_1)
  ultimately show ?thesis by auto
qed

lemma layered_reads:
  assumes rel: "layer_rel hash s l t" and v: "v = store_view s (Some l) topo allow" "w = store_view t None topo allow"
  shows "node_id hash v key = node_id hash w key" "try_key_of v i = try_key_of w i" "id_bound v = id_bound w"
    "view_sym v key = view_sym w key" "sym_name v i = sym_name w i" "label_sym v i = label_sym w i"
    "label_of v i = label_of w i" "nodes_with_label v key = nodes_with_label w key" "nodes_all v = nodes_all w"
proof -
  have n: "nodes_rel hash (st_ids s) l (st_ids t)" and y: "labels_rel (id_map_len (st_ids s)) (st_labels s) l (st_labels t)"
    and m: "syms_rel (st_syms s) l (st_syms t)" using rel by (simp_all add: layer_rel_def)
  have fv: "gv_ids v = st_ids s" "gv_syms v = st_syms s" "gv_labels v = st_labels s" "gv_layer v = Some l"
    and fw: "gv_ids w = st_ids t" "gv_syms w = st_syms t" "gv_labels w = st_labels t" "gv_layer w = None"
    and vis: "visible v = visible w"
    using v by (auto simp: store_view_def visible_def)
  show "node_id hash v key = node_id hash w key"
    using layered_node_id [OF n fv(1,4)] fw by (simp add: node_id_def [of _ w])
  show "try_key_of v i = try_key_of w i"
    using layered_key_of [OF n fv(1,4)] fw by (simp add: try_key_of_def [of w])
  show "id_bound v = id_bound w"
    using fv fw nodes_relD(8) [OF n] arg_cong [OF nodes_relD(4) [OF n], of "of_nat :: nat \<Rightarrow> u32"] by (simp add: id_bound_def)
  show sy: "view_sym v key = view_sym w key" for key
    using layered_sym [OF m fv(2,4)] fw by (simp add: view_sym_def [of w] split: option.split)
  show nm: "sym_name v i = sym_name w i" for i
    using layered_sym_name [OF m fv(2,4)] fw by (simp add: sym_name_def [of w])
  show "label_sym v i = label_sym w i"
    using layered_label_sym [OF y fv(3,4), of i] fw by (auto simp: label_sym_def [of w] slot_label_def)
  then show "label_of v i = label_of w i" by (simp add: label_of_def nm split: option.split)
  show "nodes_all v = nodes_all w"
    using layered_slots [OF y fv(3,4), of "\<lambda>i y. y \<noteq> NO_LABEL \<and> visible w i"] fv(4) fw(3,4) vis
    by (simp add: nodes_all_def Let_def)
  show "nodes_with_label v key = nodes_with_label w key"
  proof (cases "view_sym w key")
    case None
    then show ?thesis by (simp add: nodes_with_label_def sy)
  next
    case (Some sym_y)
    then have "sym_y \<noteq> NO_LABEL"
      using sym_not_sentinel [OF syms_relD(2,3) [OF m]] fw(2,4) by (auto simp: view_sym_def split: option.splits)
    then show ?thesis
      using layered_slots [OF y fv(3,4), of "\<lambda>_ y. y = sym_y"] Some fv(4) fw(3,4)
      by (simp add: nodes_with_label_def sy)
  qed
qed

text \<open>C8. A layer reads as the state its changes lead to: take any store and any changes its writer could
  make (symbols interned, nodes inserted, relabelled, renamed and deleted, each under the condition its caller
  checks), and lay them over the unchanged store instead. The layer gives the same ids and symbols as the
  writer gives, and through it every key, id, label, symbol and scan reads as in the store the writer ends
  with.\<close>

theorem layer_reads_as_applied:
  assumes "id_map_ok hash (st_ids s)" "interner_ok (st_syms s)" "length (st_labels s) \<le> id_map_len (st_ids s)"
    and run: "store_run hash as s = Some (t, rs)"
    and small: "id_map_len (st_ids t) < 2 ^ 32" "interner_len (st_syms t) < 2 ^ 32"
  shows "\<exists>l. layer_run (st_syms s) as (node_layer_new (st_ids s) (st_syms s)) = Some (l, rs) \<and>
    (let v = store_view s (Some l) topo allow; w = store_view t None topo allow in
      node_id hash v = node_id hash w \<and> try_key_of v = try_key_of w \<and> id_bound v = id_bound w \<and>
      view_sym v = view_sym w \<and> sym_name v = sym_name w \<and> label_sym v = label_sym w \<and> label_of v = label_of w \<and>
      nodes_with_label v = nodes_with_label w \<and> nodes_all v = nodes_all w)"
proof -
  have "layer_rel hash s (node_layer_new (st_ids s) (st_syms s)) s"
    using store_run_grows [OF assms(1) run] small by (intro layer_rel_new assms(1-3)) simp_all
  then obtain l where l: "layer_run (st_syms s) as (node_layer_new (st_ids s) (st_syms s)) = Some (l, rs)" "layer_rel hash s l t"
    using layer_run_rel [OF _ run small] by blast
  then show ?thesis using layered_reads [OF l(2) refl refl] by (auto simp: Let_def fun_eq_iff intro!: exI [of _ l])
qed

text \<open>From the empty store, with every key in one bucket: two nodes, the first renamed, the second deleted.\<close>

definition demo_changes :: "node_op list" where
  "demo_changes = [OIntern ''P'', OInsert ''a'' 0, OInsert ''b'' 0, ORename 0 ''a'' ''c'', ODelete ''b'' 1]"

definition empty_store :: node_store where
  "empty_store = \<lparr>st_ids = id_map_new, st_syms = interner_new, st_labels = []\<rparr>"

lemma demo_changes_run:
  "\<exists>t. store_run (\<lambda>_. 0) demo_changes empty_store = Some (t, [0, 0, 1, 0, 1]) \<and>
    id_map_len (st_ids t) < 2 ^ 32 \<and> interner_len (st_syms t) < 2 ^ 32"
proof -
  let ?h = "\<lambda>_ :: string. 0 :: u64"
  have new: "id_map_ok ?h id_map_new" "id_map_abs id_map_new = ([], {})" by (rule id_map_new_ok)+
  obtain m1 where m1: "id_map_try_insert ?h id_map_new ''a'' = Some (m1, Inr 0)" "id_map_ok ?h m1" "id_map_abs m1 = ([''a''], {})"
    using id_map_try_insert_correct [OF new(1), of "''a''"] by (auto simp: new(2) spec_get_def)
  obtain m2 where m2: "id_map_try_insert ?h m1 ''b'' = Some (m2, Inr 1)" "id_map_ok ?h m2" "id_map_abs m2 = ([''a'', ''b''], {})"
    using id_map_try_insert_correct [OF m1(2), of "''b''"] by (auto simp: m1(3) spec_get_def)
  obtain m3 where m3: "id_map_rename ?h m2 ''a'' ''c'' = Some (m3, Inr 0)" "id_map_ok ?h m3" "id_map_abs m3 = ([''c'', ''b''], {})"
    using id_map_rename_correct [OF m2(2), of "''a''" "''c''"] by (auto simp: m2(3) spec_get_def)
  obtain m4 where m4: "id_map_delete ?h m3 ''b'' = Some (m4, Some 1)" "id_map_ok ?h m4" "id_map_abs m4 = ([''c'', ''b''], {1})"
    using id_map_delete_correct [OF m3(2), of "''b''"] by (auto simp: m3(3) spec_get_def)
  have gets: "id_map_get ?h id_map_new ''a'' = None" "id_map_get ?h m1 ''b'' = None" "id_map_get ?h m2 ''a'' = Some 0"
      "id_map_get ?h m2 ''c'' = None" "id_map_get ?h m3 ''b'' = Some 1"
    using spec_get_abs [OF new(1), of "''a''"] spec_get_abs [OF m1(2), of "''b''"] spec_get_abs [OF m2(2), of "''a''"]
      spec_get_abs [OF m2(2), of "''c''"] spec_get_abs [OF m3(2), of "''b''"]
    by (simp_all add: new(2) m1(3) m2(3) m3(3) spec_get_def)
  have "id_map_len m4 = 2" using id_map_len_slots [OF m4(2)] m4(3) by simp
  then show ?thesis using m1(1) m2(1) m3(1) m4(1) gets
    by (simp add: demo_changes_def empty_store_def intern_def interner_new_def Let_def interner_len_def)
qed

theorem layer_reads_as_applied_witness:
  "\<exists>t l. store_run (\<lambda>_. 0) demo_changes empty_store = Some (t, [0, 0, 1, 0, 1]) \<and>
    layer_run interner_new demo_changes (node_layer_new id_map_new interner_new) = Some (l, [0, 0, 1, 0, 1]) \<and>
    node_id (\<lambda>_. 0) (store_view empty_store (Some l) demo_view None) ''c'' =
      node_id (\<lambda>_. 0) (store_view t None demo_view None) ''c'' \<and>
    nodes_with_label (store_view empty_store (Some l) demo_view None) ''P'' =
      nodes_with_label (store_view t None demo_view None) ''P''"
proof -
  obtain t where t: "store_run (\<lambda>_. 0) demo_changes empty_store = Some (t, [0, 0, 1, 0, 1])"
      "id_map_len (st_ids t) < 2 ^ 32" "interner_len (st_syms t) < 2 ^ 32"
    using demo_changes_run by blast
  have "id_map_ok (\<lambda>_. 0) (st_ids empty_store)" "interner_ok (st_syms empty_store)"
      "length (st_labels empty_store) \<le> id_map_len (st_ids empty_store)"
    by (simp_all add: empty_store_def id_map_new_ok interner_ok_new)
  from layer_reads_as_applied [OF this t, of demo_view None] t(1) show ?thesis
    by (auto simp: Let_def empty_store_def)
qed

end
