(* ===== verification/Traverse.thy ===== *)
theory Traverse
  imports Graph_View "HOL-Library.Product_Lexorder"
begin

text \<open>
  Walking the graph, \<open>crates/core-query/src/traverse.rs\<close>: the edges at a node and the breadth-first
  neighbourhood of a node through the nodes a view shows. An \<open>EdgeRef\<close> is its triple of type, source
  and destination, ordered as the derived order is; an ordered set of them is the set, read out in
  ascending order. The specification is the shortest distance in the graph of the view's edges
  between visible nodes.
\<close>

section \<open>Expansion and neighbourhood\<close>

datatype dir = DirOut | DirIn | DirBoth

type_synonym edge_ref = "u32 \<times> u32 \<times> u32"

definition push_unique :: "edge_ref list \<times> edge_ref set \<Rightarrow> edge_ref \<Rightarrow> edge_ref list \<times> edge_ref set" where
  "push_unique acc e = (case acc of (out, seen) \<Rightarrow> if e \<in> seen then (out, seen) else (out @ [e], insert e seen))"

definition expand_type :: "graph_view \<Rightarrow> u32 \<Rightarrow> dir \<Rightarrow> edge_ref list \<times> edge_ref set \<Rightarrow> u32 \<Rightarrow> edge_ref list \<times> edge_ref set" where
  "expand_type v i d acc etype =
     (let acc = (if d = DirOut \<or> d = DirBoth
                 then foldl push_unique acc (map (\<lambda>dst. (etype, i, dst)) (view_neighbors (gv_topo v) etype Out i)) else acc)
      in if d = DirIn \<or> d = DirBoth
         then foldl push_unique acc (map (\<lambda>src. (etype, src, i)) (view_neighbors (gv_topo v) etype In i)) else acc)"

definition expand :: "graph_view \<Rightarrow> u32 \<Rightarrow> u32 list option \<Rightarrow> dir \<Rightarrow> edge_ref list" where
  "expand v i ets d =
     (let types = (case ets of Some ts \<Rightarrow> sort_dedup ts | None \<Rightarrow> view_etypes (gv_topo v))
      in fst (foldl (expand_type v i d) ([], {}) types))"

record neighborhood =
  nb_nodes :: "(u32 \<times> u32) list"
  nb_edges :: "edge_ref list"

text \<open>The state of the walk: what was visited, the queue, the nodes found and the edges used.\<close>

type_synonym walk = "u32 set \<times> (u32 \<times> u32) list \<times> (u32 \<times> u32) list \<times> edge_ref set"

definition edge_end :: "u32 \<Rightarrow> edge_ref \<Rightarrow> u32" where
  "edge_end i e = (case e of (_, src, dst) \<Rightarrow> if src = i then dst else src)"

definition visit_edge :: "graph_view \<Rightarrow> u32 \<Rightarrow> u32 \<Rightarrow> walk \<Rightarrow> edge_ref \<Rightarrow> walk" where
  "visit_edge v i d wk e =
     (case wk of (visited, queue, nodes, used) \<Rightarrow>
        let nbr = edge_end i e in
        if \<not> visible v nbr then (visited, queue, nodes, used)
        else let used = insert e used in
             if nbr \<in> visited then (visited, queue, nodes, used)
             else let nd = d + 1 in (insert nbr visited, queue @ [(nbr, nd)], nodes @ [(nbr, nd)], used))"

section \<open>The walk ends\<close>

text \<open>A node is queued when it is first seen, so the length of the queue and the number of nodes not yet
  seen together go down with every node taken from it.\<close>

lemma visit_edges_measure:
  assumes "foldl (visit_edge v i d) (visited, queue, nodes, used) es = (visited', queue', nodes', used')"
  shows "length queue' + card (- visited') = length queue + card (- visited)"
  using assms
proof (induction es arbitrary: visited queue nodes used)
  case (Cons e es)
  have "card (- visited) = Suc (card (- insert n visited))" if "n \<notin> visited" for n
    using that card_Suc_Diff1 [of "- visited" n] by (simp add: Compl_insert)
  then show ?case
    using Cons.prems Cons.IH by (auto simp: visit_edge_def Let_def split: if_splits)
qed auto

definition walk_size :: "walk \<Rightarrow> nat" where
  "walk_size wk = (case wk of (visited, queue, _) \<Rightarrow> length queue + card (- visited))"

lemma visit_edges_smaller:
  "walk_size (foldl (visit_edge v i d) (visited, queue, nodes, used) es) < walk_size (visited, (i, d) # queue, nodes, used)"
  using visit_edges_measure [of v i d visited queue nodes used es]
  by (cases "foldl (visit_edge v i d) (visited, queue, nodes, used) es") (auto simp: walk_size_def)

function walk_loop :: "graph_view \<Rightarrow> u32 \<Rightarrow> u32 list option \<Rightarrow> dir \<Rightarrow> walk \<Rightarrow> walk" where
  "walk_loop v depth ets dr (visited, [], nodes, used) = (visited, [], nodes, used)"
| "walk_loop v depth ets dr (visited, (i, d) # queue, nodes, used) =
     (if d \<ge> depth then walk_loop v depth ets dr (visited, queue, nodes, used)
      else walk_loop v depth ets dr
             (foldl (visit_edge v i d) (visited, queue, nodes, used) (expand v i ets dr)))"
  by pat_completeness auto
termination
  by (relation "measure (\<lambda>(v, depth, ets, dr, wk). walk_size wk)") (simp_all add: visit_edges_smaller, simp add: walk_size_def)

definition neighborhood_of :: "graph_view \<Rightarrow> u32 \<Rightarrow> u32 \<Rightarrow> u32 list option \<Rightarrow> dir \<Rightarrow> neighborhood" where
  "neighborhood_of v start depth ets dr =
     (case walk_loop v depth ets dr ({start}, [(start, 0)], [], {}) of
        (_, _, nodes, used) \<Rightarrow> \<lparr>nb_nodes = nodes, nb_edges = sorted_list_of_set used\<rparr>)"

section \<open>What an expansion holds\<close>

lemma push_unique_fold:
  assumes "distinct out" "set out = seen"
  shows "\<exists>more. foldl push_unique (out, seen) es = (out @ more, seen \<union> set es) \<and> distinct (out @ more) \<and> set (out @ more) = seen \<union> set es"
  using assms
proof (induction es arbitrary: out seen)
  case (Cons e es)
  show ?case
  proof (cases "e \<in> seen")
    case True
    then show ?thesis using Cons.IH [OF Cons.prems] by (auto simp: push_unique_def insert_absorb)
  next
    case False
    then obtain more where "foldl push_unique (out @ [e], insert e seen) es = ((out @ [e]) @ more, insert e seen \<union> set es)"
        "distinct ((out @ [e]) @ more)" "set ((out @ [e]) @ more) = insert e seen \<union> set es"
      using Cons.IH [of "out @ [e]" "insert e seen"] Cons.prems by auto
    moreover have "push_unique (out, seen) e = (out @ [e], insert e seen)" using False by (simp add: push_unique_def)
    ultimately show ?thesis by (intro exI [of _ "e # more"]) simp
  qed
qed simp

definition at_node :: "graph_view \<Rightarrow> u32 \<Rightarrow> dir \<Rightarrow> u32 \<Rightarrow> edge_ref set" where
  "at_node v i d etype =
     (if d = DirOut \<or> d = DirBoth then (\<lambda>dst. (etype, i, dst)) ` set (view_neighbors (gv_topo v) etype Out i) else {}) \<union>
     (if d = DirIn \<or> d = DirBoth then (\<lambda>src. (etype, src, i)) ` set (view_neighbors (gv_topo v) etype In i) else {})"

lemma expand_type_set:
  assumes "distinct (fst acc)" "set (fst acc) = snd acc"
  shows "distinct (fst (expand_type v i d acc etype)) \<and> set (fst (expand_type v i d acc etype)) = snd (expand_type v i d acc etype) \<and>
    snd (expand_type v i d acc etype) = snd acc \<union> at_node v i d etype"
proof -
  have keeps: "distinct (fst (foldl push_unique a es)) \<and> set (fst (foldl push_unique a es)) = snd (foldl push_unique a es) \<and>
      snd (foldl push_unique a es) = snd a \<union> set es" if "distinct (fst a)" "set (fst a) = snd a" for a es
    using push_unique_fold [OF that, of es] by (cases a) auto
  show ?thesis
    using assms by (auto simp: expand_type_def at_node_def Let_def keeps)
qed

definition walk_types :: "graph_view \<Rightarrow> u32 list option \<Rightarrow> u32 set" where
  "walk_types v ets = (case ets of Some ts \<Rightarrow> set ts | None \<Rightarrow> set (view_etypes (gv_topo v)))"

lemma expand_set:
  "distinct (expand v i ets d) \<and> set (expand v i ets d) = (\<Union>t \<in> walk_types v ets. at_node v i d t)"
proof -
  have "distinct (fst (foldl (expand_type v i d) acc ts)) \<and>
      set (fst (foldl (expand_type v i d) acc ts)) = snd acc \<union> (\<Union>t \<in> set ts. at_node v i d t)"
    if "distinct (fst acc)" "set (fst acc) = snd acc" for acc ts
    using that
  proof (induction ts arbitrary: acc)
    case (Cons t ts)
    then show ?case using expand_type_set [OF Cons.prems, of v i d t] Cons.IH [of "expand_type v i d acc t"] by auto
  qed simp
  from this [of "([], {})"] show ?thesis
    by (auto simp: expand_def walk_types_def Let_def split: option.split)
qed

section \<open>Distances\<close>

text \<open>One hop: an edge of an allowed type in the walked direction, to a node the view shows.\<close>

definition hop :: "graph_view \<Rightarrow> u32 list option \<Rightarrow> dir \<Rightarrow> (u32 \<times> u32) set" where
  "hop v ets dr = {(a, b). visible v b \<and> (\<exists>t \<in> walk_types v ets.
     (dr \<noteq> DirIn \<and> (t, a, b) \<in> view_edges (gv_topo v)) \<or> (dr \<noteq> DirOut \<and> (t, b, a) \<in> view_edges (gv_topo v)))}"

definition distance :: "('a \<times> 'a) set \<Rightarrow> 'a \<Rightarrow> 'a \<Rightarrow> nat \<Rightarrow> bool" where
  "distance R s x k \<longleftrightarrow> (s, x) \<in> R ^^ k \<and> (\<forall>j < k. (s, x) \<notin> R ^^ j)"

lemma distance_0 [simp]: "distance R s x 0 \<longleftrightarrow> x = s"
  by (auto simp: distance_def)

lemma distance_unique: "distance R s x j \<Longrightarrow> distance R s x k \<Longrightarrow> j = k"
  unfolding distance_def by (metis linorder_neqE_nat)

lemma distance_le: "(s, x) \<in> R ^^ k \<Longrightarrow> \<exists>j \<le> k. distance R s x j"
  unfolding distance_def
  by (intro exI [of _ "LEAST j. (s, x) \<in> R ^^ j"] conjI allI impI)
    (auto intro: LeastI Least_le dest: not_less_Least)

lemma distance_pred:
  assumes "distance R s x (Suc k)"
  obtains y where "distance R s y k" "(y, x) \<in> R"
proof -
  obtain y where y: "(s, y) \<in> R ^^ k" "(y, x) \<in> R" using assms by (auto simp: distance_def)
  moreover have "(s, y) \<notin> R ^^ j" if "j < k" for j
    using assms y(2) that unfolding distance_def by (metis Suc_mono relpow_Suc_I)
  ultimately show thesis using that by (auto simp: distance_def)
qed

lemma view_etypes_all:
  assumes "view_ok w" "(e, s, d) \<in> view_edges w"
  shows "e \<in> set (view_etypes w)"
proof -
  have own: "e \<in> set (etypes t)" if "(e, s, d) \<in> edges t" for t
    using that by (force simp: edges_def nbr_ids_def adj_at_def etypes_def split: option.splits dest: map_of_SomeD)
  have base: "e \<in> set (map etype_id (csr_etypes b))" if "(e, s, d) \<in> base_edges b" for b
    using that by (auto simp: base_edges_def base_ids_def archived_csr_row_def split: option.splits sum.splits
        dest!: binary_search_Inr_D)
  show ?thesis
    using assms(2) own base
    by (fastforce simp: view_edges_def below_edges_def view_etypes_def split: option.splits)
qed

lemma at_node_edges:
  assumes "view_ok (gv_topo v)"
  shows "at_node v i dr t = {e \<in> view_edges (gv_topo v). fst e = t \<and>
    (dr \<noteq> DirIn \<and> fst (snd e) = i \<or> dr \<noteq> DirOut \<and> snd (snd e) = i)}"
proof -
  have "set (view_neighbors (gv_topo v) t Out i) = {d. (t, i, d) \<in> view_edges (gv_topo v)}"
      "set (view_neighbors (gv_topo v) t In i) = {s. (t, s, i) \<in> view_edges (gv_topo v)}"
    using view_neighbors_correct [OF assms, of t Out i] view_neighbors_correct [OF assms, of t In i]
      view_ids_edges [OF assms, of t i] by auto
  then show ?thesis by (cases dr) (auto simp: at_node_def)
qed

text \<open>The edges a walk may use at a node, and where they lead.\<close>

definition usable :: "graph_view \<Rightarrow> u32 list option \<Rightarrow> dir \<Rightarrow> u32 \<Rightarrow> edge_ref set" where
  "usable v ets dr i = {e \<in> view_edges (gv_topo v). fst e \<in> walk_types v ets \<and> visible v (edge_end i e) \<and>
     (dr \<noteq> DirIn \<and> fst (snd e) = i \<or> dr \<noteq> DirOut \<and> snd (snd e) = i)}"

lemma expand_usable:
  assumes "view_ok (gv_topo v)"
  shows "{e \<in> set (expand v i ets dr). visible v (edge_end i e)} = usable v ets dr i"
  using expand_set [of v i ets dr] by (auto simp: at_node_edges [OF assms] usable_def)

lemma usable_hop: "edge_end i ` usable v ets dr i = {b. (i, b) \<in> hop v ets dr}"
proof -
  have "b \<in> edge_end i ` usable v ets dr i" if "(i, b) \<in> hop v ets dr" for b
  proof -
    obtain t where t: "t \<in> walk_types v ets" "visible v b" and
        e: "dr \<noteq> DirIn \<and> (t, i, b) \<in> view_edges (gv_topo v) \<or> dr \<noteq> DirOut \<and> (t, b, i) \<in> view_edges (gv_topo v)"
      using \<open>(i, b) \<in> hop v ets dr\<close> by (auto simp: hop_def)
    from e show ?thesis
    proof
      assume "dr \<noteq> DirIn \<and> (t, i, b) \<in> view_edges (gv_topo v)"
      then show ?thesis using t by (intro image_eqI [of _ _ "(t, i, b)"]) (auto simp: usable_def edge_end_def)
    next
      assume "dr \<noteq> DirOut \<and> (t, b, i) \<in> view_edges (gv_topo v)"
      then show ?thesis using t by (intro image_eqI [of _ _ "(t, b, i)"]) (auto simp: usable_def edge_end_def)
    qed
  qed
  then show ?thesis by (auto simp: usable_def hop_def edge_end_def)
qed

section \<open>One round of the walk\<close>

lemma visit_edges:
  assumes "foldl (visit_edge v i d) (visited, queue, nodes, used) es = (visited', queue', nodes', used')"
  shows "\<exists>new. queue' = queue @ map (\<lambda>b. (b, d + 1)) new \<and> nodes' = nodes @ map (\<lambda>b. (b, d + 1)) new \<and>
    distinct new \<and> set new = edge_end i ` {e \<in> set es. visible v (edge_end i e)} - visited \<and>
    visited' = visited \<union> set new \<and> used' = used \<union> {e \<in> set es. visible v (edge_end i e)}"
  using assms
proof (induction es arbitrary: visited queue nodes used)
  case (Cons e es)
  let ?b = "edge_end i e"
  consider "\<not> visible v ?b" | "visible v ?b" "?b \<in> visited" | "visible v ?b" "?b \<notin> visited" by blast
  then show ?case
  proof cases
    case 1
    have "visit_edge v i d (visited, queue, nodes, used) e = (visited, queue, nodes, used)"
      using 1 by (simp add: visit_edge_def Let_def)
    then obtain new where "queue' = queue @ map (\<lambda>b. (b, d + 1)) new" "nodes' = nodes @ map (\<lambda>b. (b, d + 1)) new"
        "distinct new" "set new = edge_end i ` {e \<in> set es. visible v (edge_end i e)} - visited"
        "visited' = visited \<union> set new" "used' = used \<union> {e \<in> set es. visible v (edge_end i e)}"
      using Cons.IH [of visited queue nodes used] Cons.prems by auto
    then show ?thesis using 1 by (intro exI [of _ new]) auto
  next
    case 2
    have "visit_edge v i d (visited, queue, nodes, used) e = (visited, queue, nodes, insert e used)"
      using 2 by (simp add: visit_edge_def Let_def)
    then obtain new where "queue' = queue @ map (\<lambda>b. (b, d + 1)) new" "nodes' = nodes @ map (\<lambda>b. (b, d + 1)) new"
        "distinct new" "set new = edge_end i ` {e \<in> set es. visible v (edge_end i e)} - visited"
        "visited' = visited \<union> set new" "used' = insert e used \<union> {e \<in> set es. visible v (edge_end i e)}"
      using Cons.IH [of visited queue nodes "insert e used"] Cons.prems by auto
    then show ?thesis using 2 by (intro exI [of _ new]) auto
  next
    case 3
    have "visit_edge v i d (visited, queue, nodes, used) e =
        (insert ?b visited, queue @ [(?b, d + 1)], nodes @ [(?b, d + 1)], insert e used)"
      using 3 by (simp add: visit_edge_def Let_def)
    then obtain new where "queue' = (queue @ [(?b, d + 1)]) @ map (\<lambda>b. (b, d + 1)) new"
        "nodes' = (nodes @ [(?b, d + 1)]) @ map (\<lambda>b. (b, d + 1)) new"
        "distinct new" "set new = edge_end i ` {e \<in> set es. visible v (edge_end i e)} - insert ?b visited"
        "visited' = insert ?b visited \<union> set new" "used' = insert e used \<union> {e \<in> set es. visible v (edge_end i e)}"
      using Cons.IH [of "insert ?b visited" "queue @ [(?b, d + 1)]" "nodes @ [(?b, d + 1)]" "insert e used"] Cons.prems by auto
    then show ?thesis using 3 by (intro exI [of _ "?b # new"]) auto
  qed
qed simp

section \<open>The invariant of the walk\<close>

text \<open>The nodes found so far, the start among them, are those already expanded and those in the queue, in
  order of their distance; what was expanded has all its neighbours among them.\<close>

definition walk_inv :: "graph_view \<Rightarrow> u32 \<Rightarrow> u32 \<Rightarrow> u32 list option \<Rightarrow> dir \<Rightarrow> (u32 \<times> u32) list \<Rightarrow> walk \<Rightarrow> bool" where
  "walk_inv v start depth ets dr expanded wk \<longleftrightarrow> (case wk of (visited, queue, nodes, used) \<Rightarrow>
     (start, 0) # nodes = expanded @ queue \<and>
     visited = fst ` set ((start, 0) # nodes) \<and> distinct (map fst ((start, 0) # nodes)) \<and>
     (\<forall>(n, k) \<in> set ((start, 0) # nodes). distance (hop v ets dr) start n (unat k) \<and> k \<le> depth) \<and>
     sorted (map snd ((start, 0) # nodes)) \<and>
     (\<forall>(i, d) \<in> set queue. \<forall>(n, k) \<in> set nodes. unat k \<le> Suc (unat d)) \<and>
     (\<forall>(n, k) \<in> set expanded. k < depth \<longrightarrow> (\<forall>b. (n, b) \<in> hop v ets dr \<longrightarrow> b \<in> visited)) \<and>
     used = (\<Union>(n, k) \<in> {x \<in> set expanded. snd x < depth}. usable v ets dr n))"

lemma walk_invD:
  assumes "walk_inv v start depth ets dr expanded (visited, queue, nodes, used)"
  shows "(start, 0) # nodes = expanded @ queue" "visited = fst ` set ((start, 0) # nodes)"
    "distinct (map fst ((start, 0) # nodes))"
    "(n, k) \<in> set ((start, 0) # nodes) \<Longrightarrow> distance (hop v ets dr) start n (unat k) \<and> k \<le> depth"
    "sorted (map snd ((start, 0) # nodes))"
    "(i, d) \<in> set queue \<Longrightarrow> (n, k) \<in> set nodes \<Longrightarrow> unat k \<le> Suc (unat d)"
    "(n, k) \<in> set expanded \<Longrightarrow> k < depth \<Longrightarrow> (n, b) \<in> hop v ets dr \<Longrightarrow> b \<in> visited"
    "used = (\<Union>(n, k) \<in> {x \<in> set expanded. snd x < depth}. usable v ets dr n)"
  using assms unfolding walk_inv_def by blast+

text \<open>Everything as near as what is expanded next has been found.\<close>

lemma near_found:
  assumes inv: "walk_inv v start depth ets dr expanded (visited, queue, nodes, used)"
    and bound: "\<And>n k. (n, k) \<in> set queue \<Longrightarrow> m \<le> unat k" and m: "m \<le> unat depth"
    and x: "distance (hop v ets dr) start x j" "j \<le> m"
  shows "\<exists>k. (x, k) \<in> set ((start, 0) # nodes) \<and> unat k = j"
  using x
proof (induction j arbitrary: x)
  case 0
  then show ?case by (intro exI [of _ 0]) simp
next
  case (Suc j)
  note D = walk_invD [OF inv]
  obtain y where y: "distance (hop v ets dr) start y j" "(y, x) \<in> hop v ets dr"
    using Suc.prems(1) by (rule distance_pred)
  then obtain k where k: "(y, k) \<in> set ((start, 0) # nodes)" "unat k = j" using Suc.IH [of y] Suc.prems(2) by auto
  have "(y, k) \<notin> set queue" using bound [of y k] k(2) Suc.prems(2) by auto
  then have "(y, k) \<in> set expanded" using k(1) unfolding D(1) by simp
  moreover have "k < depth" using k(2) Suc.prems(2) m by (simp add: word_less_nat_alt)
  ultimately have "x \<in> visited" using D(7) y(2) by blast
  then obtain k' where "(x, k') \<in> set ((start, 0) # nodes)" unfolding D(2) by (metis imageE prod.collapse)
  moreover from this have "unat k' = Suc j" using D(4) distance_unique [OF Suc.prems(1)] by metis
  ultimately show ?case by blast
qed

lemma walk_inv_skip:
  assumes inv: "walk_inv v start depth ets dr expanded (visited, (i, d) # queue, nodes, used)" and d: "depth \<le> d"
  shows "walk_inv v start depth ets dr (expanded @ [(i, d)]) (visited, queue, nodes, used)"
  using assms unfolding walk_inv_def
  by (auto simp: not_less [symmetric])

lemma queue_sorted:
  assumes "walk_inv v start depth ets dr expanded (visited, (i, d) # queue, nodes, used)"
  shows "(n, k) \<in> set ((i, d) # queue) \<Longrightarrow> d \<le> k" "(n, k) \<in> set expanded \<Longrightarrow> k \<le> d"
    "(i, d) \<in> set ((start, 0) # nodes)"
proof -
  note D = walk_invD [OF assms]
  have "sorted (map snd expanded @ d # map snd queue)" using D(5) unfolding D(1) by simp
  then show "(n, k) \<in> set ((i, d) # queue) \<Longrightarrow> d \<le> k" "(n, k) \<in> set expanded \<Longrightarrow> k \<le> d"
    by (fastforce simp: sorted_append)+
  show "(i, d) \<in> set ((start, 0) # nodes)" unfolding D(1) by simp
qed

lemma walk_inv_step:
  assumes inv: "walk_inv v start depth ets dr expanded (visited, (i, d) # queue, nodes, used)" and d: "d < depth"
    and ok: "view_ok (gv_topo v)"
  shows "walk_inv v start depth ets dr (expanded @ [(i, d)])
    (foldl (visit_edge v i d) (visited, queue, nodes, used) (expand v i ets dr))"
proof -
  note D = walk_invD [OF inv] and Q = queue_sorted [OF inv]
  let ?R = "hop v ets dr"
  obtain visited' queue' nodes' used' where step:
      "foldl (visit_edge v i d) (visited, queue, nodes, used) (expand v i ets dr) = (visited', queue', nodes', used')"
    by (metis prod_cases4)
  obtain new where new: "queue' = queue @ map (\<lambda>b. (b, d + 1)) new" "nodes' = nodes @ map (\<lambda>b. (b, d + 1)) new"
      "distinct new" "set new = {b. (i, b) \<in> ?R} - visited" "visited' = visited \<union> set new"
      "used' = used \<union> usable v ets dr i"
    using visit_edges [OF step] unfolding expand_usable [OF ok] usable_hop by blast
  have "unat d + 1 < 2 ^ 32" using d unat_bound [of depth] by (simp add: word_less_nat_alt)
  then have d1: "unat (d + 1) = Suc (unat d)" by (simp add: unat_word_ariths)
  have dist_i: "distance ?R start i (unat d)" using D(4) Q(3) by blast
  have far: "distance ?R start b (Suc (unat d))" if "b \<in> set new" for b
  proof -
    have "(start, i) \<in> ?R ^^ unat d" "(i, b) \<in> ?R" using dist_i that new(4) by (simp_all add: distance_def)
    then have "(start, b) \<in> ?R ^^ Suc (unat d)" by (rule relpow_Suc_I)
    from distance_le [OF this] obtain j where j: "j \<le> Suc (unat d)" "distance ?R start b j" by auto
    have "\<not> j \<le> unat d"
    proof
      assume "j \<le> unat d"
      then have "\<exists>k. (b, k) \<in> set ((start, 0) # nodes) \<and> unat k = j"
        using Q(1) d j(2) by (intro near_found [OF inv, of "unat d"]) (auto simp: word_less_nat_alt word_le_nat_alt)
      then have "b \<in> visited" unfolding D(2) by force
      then show False using that new(4) by simp
    qed
    then have "j = Suc (unat d)" using j(1) by simp
    then show ?thesis using j(2) by simp
  qed
  have all: "(start, 0) # nodes' = (expanded @ [(i, d)]) @ queue'" using D(1) new(1,2) by simp
  have "visited' = fst ` set ((start, 0) # nodes')" unfolding new(2,5) D(2) by force
  moreover have "distinct (map fst ((start, 0) # nodes'))"
    using D(3) new(3,4) unfolding new(2) D(2) by (auto simp: comp_def)
  moreover have "\<forall>(n, k) \<in> set ((start, 0) # nodes'). distance ?R start n (unat k) \<and> k \<le> depth"
    using D(4) far d d1 unfolding new(2) by (auto simp: word_less_nat_alt word_le_nat_alt)
  moreover have "sorted (map snd ((start, 0) # nodes'))"
  proof -
    have "snd x \<le> d + 1" if "x \<in> set ((start, 0) # nodes)" for x
      using that D(6) [of i d "fst x" "snd x"] d1 by (auto simp: word_le_nat_alt)
    then have "\<forall>x \<in> set (map snd ((start, 0) # nodes)). x \<le> d + 1" by simp
    moreover have "map snd ((start, 0) # nodes') = map snd ((start, 0) # nodes) @ replicate (length new) (d + 1)"
      by (simp add: new(2) comp_def map_replicate_const)
    ultimately show ?thesis using D(5) by (simp only: sorted_append) (auto simp: sorted_replicate)
  qed
  moreover have "\<forall>(j, e) \<in> set queue'. \<forall>(n, k) \<in> set nodes'. unat k \<le> Suc (unat e)"
  proof -
    have "unat k \<le> Suc (unat d)" if "(n, k) \<in> set nodes'" for n k
      using that D(6) [of i d n k] d1 by (auto simp: new(2))
    moreover have "unat d \<le> unat e" if "(j, e) \<in> set queue'" for j e
      using that Q(1) [of j e] d1 by (auto simp: new(1) word_le_nat_alt)
    ultimately show ?thesis by fastforce
  qed
  moreover have "\<forall>(n, k) \<in> set (expanded @ [(i, d)]). k < depth \<longrightarrow> (\<forall>b. (n, b) \<in> ?R \<longrightarrow> b \<in> visited')"
    using D(7) new(4,5) by auto
  moreover have "used' = (\<Union>(n, k) \<in> {x \<in> set (expanded @ [(i, d)]). snd x < depth}. usable v ets dr n)"
    unfolding new(6) D(8) using d by auto
  ultimately show ?thesis unfolding step walk_inv_def prod.case using all by blast
qed

lemma walk_loop_inv:
  assumes "walk_inv v start depth ets dr expanded wk" "view_ok (gv_topo v)"
  shows "\<exists>expanded' visited nodes used. walk_loop v depth ets dr wk = (visited, [], nodes, used) \<and>
    walk_inv v start depth ets dr expanded' (visited, [], nodes, used)"
  using assms
proof (induction v depth ets dr wk arbitrary: expanded rule: walk_loop.induct)
  case (2 v depth ets dr visited i d queue nodes used)
  show ?case
  proof (cases "depth \<le> d")
    case True
    then show ?thesis using 2(1) [OF True walk_inv_skip [OF 2(3) True] 2(4)] by simp
  next
    case False
    then have "d < depth" by simp
    then show ?thesis using 2(2) [OF False walk_inv_step [OF 2(3) _ 2(4)] 2(4)] by (simp only: walk_loop.simps False if_False)
  qed
qed auto

section \<open>Properties\<close>

text \<open>C9. The neighbourhood is exact and the walk ends: on any graph, whatever its cycles, it finds precisely
  the nodes whose shortest distance from the start, over edges of the asked types and directions and
  through visible nodes only, is between one and the asked depth. Each is found once, at that distance,
  in order of distance, and the edges are exactly those that lead from a node nearer than the depth to a
  visible node.\<close>

theorem neighborhood_exact:
  assumes "view_ok (gv_topo v)"
  shows "set (nb_nodes (neighborhood_of v start depth ets dr)) =
      {(n, k). distance (hop v ets dr) start n (unat k) \<and> 0 < k \<and> k \<le> depth} \<and>
    distinct (map fst (nb_nodes (neighborhood_of v start depth ets dr))) \<and>
    sorted (map snd (nb_nodes (neighborhood_of v start depth ets dr))) \<and>
    nb_edges (neighborhood_of v start depth ets dr) =
      sorted_list_of_set (\<Union>n \<in> {n. \<exists>k < unat depth. distance (hop v ets dr) start n k}. usable v ets dr n)"
proof -
  let ?R = "hop v ets dr"
  have "walk_inv v start depth ets dr [] ({start}, [(start, 0)], [], {})" by (simp add: walk_inv_def)
  then obtain expanded visited nodes used where
      run: "walk_loop v depth ets dr ({start}, [(start, 0)], [], {}) = (visited, [], nodes, used)"
      and inv: "walk_inv v start depth ets dr expanded (visited, [], nodes, used)"
    using walk_loop_inv assms by blast
  note D = walk_invD [OF inv]
  have res: "nb_nodes (neighborhood_of v start depth ets dr) = nodes"
      "nb_edges (neighborhood_of v start depth ets dr) = sorted_list_of_set used"
    unfolding neighborhood_of_def run by simp_all
  have found: "\<exists>k. (n, k) \<in> set ((start, 0) # nodes) \<and> unat k = j"
    if "distance ?R start n j" "j \<le> unat depth" for n j
    using that by (intro near_found [OF inv, of "unat depth"]) auto
  have pos: "0 < k" if "(n, k) \<in> set nodes" for n k
  proof (rule ccontr)
    assume "\<not> 0 < k"
    then have "n = start" using D(4) [of n k] that by (simp add: word_gt_0)
    then show False using D(3) that by force
  qed
  have "set nodes = {(n, k). distance ?R start n (unat k) \<and> 0 < k \<and> k \<le> depth}"
  proof (intro set_eqI iffI; clarify)
    fix n k assume "distance ?R start n (unat k)" "0 < k" "k \<le> depth"
    then show "(n, k) \<in> set nodes"
      using found [of n "unat k"] by (auto simp: word_le_nat_alt word_unat_eq_iff [symmetric])
  qed (use D(4) pos in auto)
  moreover have "used = (\<Union>n \<in> {n. \<exists>k < unat depth. distance ?R start n k}. usable v ets dr n)"
  proof -
    have "{n. \<exists>k < unat depth. distance ?R start n k} = fst ` {x \<in> set expanded. snd x < depth}"
    proof (intro set_eqI iffI; clarify)
      fix n j assume "distance ?R start n j" "j < unat depth"
      then obtain k where "(n, k) \<in> set expanded" "unat k = j" using found [of n j] D(1) by auto
      then show "n \<in> fst ` {x \<in> set expanded. snd x < depth}"
        using \<open>j < unat depth\<close> by (force simp: word_less_nat_alt)
    next
      fix n k assume "(n, k) \<in> set expanded" "snd (n, k) < depth"
      then show "\<exists>j < unat depth. distance ?R start (fst (n, k)) j"
        using D(1) D(4) [of n k] by (auto simp: word_less_nat_alt)
    qed
    then show ?thesis using D(8) by auto
  qed
  moreover have "distinct (map fst nodes)" "sorted (map snd nodes)" using D(3,5) by simp_all
  ultimately show ?thesis unfolding res by simp
qed

theorem neighborhood_exact_witness:
  "let v = store_view empty_store None demo_view None; nb = neighborhood_of v 5 2 None DirOut in
    set (nb_nodes nb) = {(n, k). distance (hop v None DirOut) 5 n (unat k) \<and> 0 < k \<and> k \<le> 2} \<and>
    distinct (map fst (nb_nodes nb)) \<and> sorted (map snd (nb_nodes nb)) \<and>
    nb_edges nb = sorted_list_of_set (\<Union>n \<in> {n. \<exists>k < unat (2 :: u32). distance (hop v None DirOut) 5 n k}. usable v None DirOut n)"
  using neighborhood_exact [of "store_view empty_store None demo_view None" 5 2 None DirOut] demo_view_ok(1)
  by (simp only: Let_def store_view_def graph_view.simps)

text \<open>With no types asked for, every edge of the view counts.\<close>

lemma hop_all_types:
  assumes "view_ok (gv_topo v)"
  shows "hop v None dr = {(a, b). visible v b \<and> (\<exists>t.
     (dr \<noteq> DirIn \<and> (t, a, b) \<in> view_edges (gv_topo v)) \<or> (dr \<noteq> DirOut \<and> (t, b, a) \<in> view_edges (gv_topo v)))}"
  using view_etypes_all [OF assms] by (fastforce simp: hop_def walk_types_def)

text \<open>How often the loop takes a node from the queue.\<close>

function walk_rounds :: "graph_view \<Rightarrow> u32 \<Rightarrow> u32 list option \<Rightarrow> dir \<Rightarrow> walk \<Rightarrow> nat" where
  "walk_rounds v depth ets dr (visited, [], nodes, used) = 0"
| "walk_rounds v depth ets dr (visited, (i, d) # queue, nodes, used) =
     Suc (if d \<ge> depth then walk_rounds v depth ets dr (visited, queue, nodes, used)
      else walk_rounds v depth ets dr
             (foldl (visit_edge v i d) (visited, queue, nodes, used) (expand v i ets dr)))"
  by pat_completeness auto
termination
  by (relation "measure (\<lambda>(v, depth, ets, dr, wk). walk_size wk)") (simp_all add: visit_edges_smaller, simp add: walk_size_def)

lemma walk_rounds_count:
  "length (fst (snd (snd (walk_loop v depth ets dr wk)))) + length (fst (snd wk)) =
   length (fst (snd (snd wk))) + walk_rounds v depth ets dr wk"
proof (induction v depth ets dr wk rule: walk_loop.induct)
  case (2 v depth ets dr visited i d queue nodes used)
  show ?case
  proof (cases "depth \<le> d")
    case True
    then show ?thesis using 2(1) [OF True] by simp
  next
    case False
    obtain visited' queue' nodes' used' where step:
        "foldl (visit_edge v i d) (visited, queue, nodes, used) (expand v i ets dr) = (visited', queue', nodes', used')"
      by (metis prod_cases4)
    have "length queue' + length nodes = length queue + length nodes'" using visit_edges [OF step] by auto
    then show ?thesis using 2(2) [OF False] unfolding step by (simp add: step False)
  qed
qed simp


end
