(* ===== verification/Delta_Layer.thy ===== *)
theory Delta_Layer
  imports Traverse Edge_Props Wal
begin

text \<open>
  The changes since a fold as one layer over it, \<open>crates/core-api/src/layer.rs\<close>: the nodes, edges,
  properties and edge properties a run of log records changed, each in a layer of its own
  (\<open>NodeLayer\<close>, a \<open>Topology\<close>, the \<open>PropLayer\<close> of \<open>crates/core-storage/src/v8/seam.rs\<close>, an
  \<open>EdgeProps\<close>), read together over the unchanged fold. Reading through it is reading the state the
  records lead to when they are applied. The columns of the fold are the parameter \<open>fz_column\<close>: what
  they answer for a node and a field. A panic is \<open>None\<close>, an error a value of the sum.
\<close>

section \<open>Property writes over the columns\<close>

record prop_layer =
  pl_nodes :: "(u32 \<times> (string \<times> val option) list) list"
  pl_fields :: "string set"

definition prop_layer_new :: prop_layer where
  "prop_layer_new = \<lparr>pl_nodes = [], pl_fields = {}\<rparr>"

definition pl_entry :: "prop_layer \<Rightarrow> u32 \<Rightarrow> string \<Rightarrow> val option \<Rightarrow> prop_layer" where
  "pl_entry p node field x =
     p\<lparr>pl_fields := insert field (pl_fields p),
       pl_nodes := AList.update node (alist_ins field x (entry_or [] node (pl_nodes p))) (pl_nodes p)\<rparr>"

definition pl_set :: "prop_layer \<Rightarrow> u32 \<Rightarrow> string \<Rightarrow> val \<Rightarrow> prop_layer" where
  "pl_set p node field x = pl_entry p node field (Some x)"

definition pl_remove :: "prop_layer \<Rightarrow> u32 \<Rightarrow> string \<Rightarrow> prop_layer" where
  "pl_remove p node field = pl_entry p node field None"

definition pl_remove_all :: "prop_layer \<Rightarrow> u32 \<Rightarrow> prop_layer" where
  "pl_remove_all p node = p\<lparr>pl_nodes := AList.delete node (pl_nodes p)\<rparr>"

definition pl_get :: "prop_layer \<Rightarrow> u32 \<Rightarrow> string \<Rightarrow> val option option" where
  "pl_get p node field = (case map_of (pl_nodes p) node of None \<Rightarrow> None | Some m \<Rightarrow> map_of m field)"

section \<open>The fold and the layer over it\<close>

record frozen =
  fz_nodes :: node_store
  fz_topo :: topology
  fz_csr :: "csr_data option"
  fz_column :: "u32 \<Rightarrow> string \<Rightarrow> val option"
  fz_eprops :: "val edge_props"
  fz_ebase :: "edge_prop_entry list option"

record delta_layer =
  dl_nodes :: node_layer
  dl_topo :: topology
  dl_props :: prop_layer
  dl_eprops :: "val edge_props"

definition delta_layer_new :: "frozen \<Rightarrow> delta_layer" where
  "delta_layer_new fz =
     \<lparr>dl_nodes = node_layer_new (st_ids (fz_nodes fz)) (st_syms (fz_nodes fz)), dl_topo = topology_new,
      dl_props = prop_layer_new, dl_eprops = edge_props_new\<rparr>"

text \<open>The parts of the view of a fold with its layer: node identity and topology, one property, the edge
  properties.\<close>

definition dl_topo_view :: "frozen \<Rightarrow> delta_layer \<Rightarrow> topology_view" where
  "dl_topo_view fz dl = \<lparr>overlay = fz_topo fz, base = fz_csr fz, layer = Some (dl_topo dl)\<rparr>"

definition dl_view :: "frozen \<Rightarrow> delta_layer \<Rightarrow> visible_set option \<Rightarrow> graph_view" where
  "dl_view fz dl allow = store_view (fz_nodes fz) (Some (dl_nodes dl)) (dl_topo_view fz dl) allow"

definition dl_prop :: "frozen \<Rightarrow> delta_layer \<Rightarrow> u32 \<Rightarrow> string \<Rightarrow> val option" where
  "dl_prop fz dl i field =
     (case pl_get (dl_props dl) i field of Some own \<Rightarrow> own | None \<Rightarrow> fz_column fz i field)"

definition dl_eview :: "frozen \<Rightarrow> delta_layer \<Rightarrow> val edge_props_view" where
  "dl_eview fz dl = \<lparr>ev_overlay = fz_eprops fz, ev_base = fz_ebase fz, ev_layer = Some (dl_eprops dl)\<rparr>"

section \<open>Laying records over the layer\<close>

datatype delta_error =
    InternMismatch string u32 u32
  | UnknownLabel u32
  | UnknownField u32
  | RenameFailed string string

type_synonym 'a outcome = "(delta_error + 'a) option"

definition bind_out :: "'a outcome \<Rightarrow> ('a \<Rightarrow> 'b outcome) \<Rightarrow> 'b outcome" where
  "bind_out r f = (case r of None \<Rightarrow> None | Some (Inl e) \<Rightarrow> Some (Inl e) | Some (Inr x) \<Rightarrow> f x)"

definition EDGE_COUNT_PROP :: string where "EDGE_COUNT_PROP = ''count''"

definition dl_remove_edge :: "delta_layer \<Rightarrow> edge_ref \<Rightarrow> delta_layer option" where
  "dl_remove_edge dl e =
     (case e of (etype, src, dst) \<Rightarrow>
        case remove_overlay_edge (dl_topo dl) etype src dst of
          None \<Rightarrow> None
        | Some (t, _) \<Rightarrow> map_option (\<lambda>(t, _). dl\<lparr>dl_topo := t\<rparr>) (remove_edge t etype src dst))"

definition dl_add_edge :: "delta_layer \<Rightarrow> u32 \<Rightarrow> u32 \<Rightarrow> u32 \<Rightarrow> delta_layer option" where
  "dl_add_edge dl etype src dst = map_option (\<lambda>(t, _). dl\<lparr>dl_topo := t\<rparr>) (add_edge (dl_topo dl) etype src dst)"

definition dl_insert_node :: "(string \<Rightarrow> u64) \<Rightarrow> frozen \<Rightarrow> delta_layer \<Rightarrow> string \<Rightarrow> u32 \<Rightarrow> (delta_layer \<times> u32) option" where
  "dl_insert_node hash fz dl key label_y =
     (case node_id hash (dl_view fz dl None) key of
        Some i \<Rightarrow> map_option (\<lambda>l. (dl\<lparr>dl_nodes := l\<rparr>, i)) (layer_relabel (dl_nodes dl) i label_y)
      | None \<Rightarrow> (case layer_insert (dl_nodes dl) key label_y of (l, i) \<Rightarrow> Some (dl\<lparr>dl_nodes := l\<rparr>, i)))"

definition dl_doomed :: "topology_view \<Rightarrow> u32 \<Rightarrow> edge_ref list" where
  "dl_doomed topo i =
     concat (map (\<lambda>etype.
       map (\<lambda>dst. (etype, i, dst)) (view_neighbors topo etype Out i) @
       map (\<lambda>src. (etype, src, i)) (filter (\<lambda>src. src \<noteq> i) (view_neighbors topo etype In i)))
       (view_etypes topo))"

fun dl_sweep :: "edge_ref list \<Rightarrow> delta_layer \<Rightarrow> delta_layer option" where
  "dl_sweep [] dl = Some dl"
| "dl_sweep (e # es) dl =
     (case dl_remove_edge dl e of
        None \<Rightarrow> None
      | Some dl \<Rightarrow> dl_sweep es (dl\<lparr>dl_eprops := ep_remove_edge (dl_eprops dl) e\<rparr>))"

definition dl_delete_node :: "(string \<Rightarrow> u64) \<Rightarrow> frozen \<Rightarrow> delta_layer \<Rightarrow> string \<Rightarrow> delta_layer option" where
  "dl_delete_node hash fz dl key =
     (case node_id hash (dl_view fz dl None) key of
        None \<Rightarrow> Some dl
      | Some i \<Rightarrow>
          let doomed = dl_doomed (dl_topo_view fz dl) i
          in dl_sweep doomed (dl\<lparr>dl_nodes := layer_delete (dl_nodes dl) key i, dl_props := pl_remove_all (dl_props dl) i\<rparr>))"

definition dl_field_name :: "frozen \<Rightarrow> delta_layer \<Rightarrow> u32 \<Rightarrow> delta_error + string" where
  "dl_field_name fz dl y = (case sym_name (dl_view fz dl None) y of Some name \<Rightarrow> Inr name | None \<Rightarrow> Inl (UnknownField y))"

definition dl_remove_edge_prop ::
  "(u8 list \<Rightarrow> val fields option) \<Rightarrow> frozen \<Rightarrow> delta_layer \<Rightarrow> edge_key \<Rightarrow> string \<Rightarrow> delta_layer" where
  "dl_remove_edge_prop deser fz dl e field =
     (let props = ev_props_of deser (dl_eview fz dl) e in
      if map_of props field \<noteq> None then dl\<lparr>dl_eprops := ep_replace (dl_eprops dl) e (alist_del field props)\<rparr> else dl)"

definition dl_write_edge_prop ::
  "(string \<Rightarrow> u64) \<Rightarrow> (u8 list \<Rightarrow> val fields option) \<Rightarrow> frozen \<Rightarrow> delta_layer \<Rightarrow> string \<times> string \<times> string \<Rightarrow> string \<Rightarrow> val option \<Rightarrow> delta_layer" where
  "dl_write_edge_prop hash deser fz dl e field x =
     (case e of (edge_type, src_key, dst_key) \<Rightarrow>
        let v = dl_view fz dl None in
        case (view_sym v edge_type, node_id hash v src_key, node_id hash v dst_key) of
          (Some etype, Some src, Some dst) \<Rightarrow>
            (case x of
               Some x \<Rightarrow> dl\<lparr>dl_eprops := ep_set (dl_eprops dl) (etype, src, dst) field x\<rparr>
             | None \<Rightarrow> dl_remove_edge_prop deser fz dl (etype, src, dst) field)
        | _ \<Rightarrow> dl)"

definition dl_set_prop :: "delta_layer \<Rightarrow> u32 \<Rightarrow> string \<Rightarrow> val \<Rightarrow> delta_layer" where
  "dl_set_prop dl i field x = dl\<lparr>dl_props := pl_set (dl_props dl) i field x\<rparr>"

definition dl_intern :: "frozen \<Rightarrow> delta_layer \<Rightarrow> string \<Rightarrow> delta_layer \<times> u32" where
  "dl_intern fz dl name =
     (case layer_intern (dl_nodes dl) (st_syms (fz_nodes fz)) name of (l, y) \<Rightarrow> (dl\<lparr>dl_nodes := l\<rparr>, y))"

fun dl_set_fields :: "frozen \<Rightarrow> u32 \<Rightarrow> (u32 \<times> val) list \<Rightarrow> delta_layer \<Rightarrow> delta_error + delta_layer" where
  "dl_set_fields fz i [] dl = Inr dl"
| "dl_set_fields fz i ((y, x) # props) dl =
     bind_res (dl_field_name fz dl y) (\<lambda>field. dl_set_fields fz i props (dl_set_prop dl i field x))"

fun dl_apply :: "(string \<Rightarrow> u64) \<Rightarrow> (u8 list \<Rightarrow> val fields option) \<Rightarrow> frozen \<Rightarrow> wal_record \<Rightarrow> delta_layer \<Rightarrow> delta_layer outcome"
  and dl_apply_all :: "(string \<Rightarrow> u64) \<Rightarrow> (u8 list \<Rightarrow> val fields option) \<Rightarrow> frozen \<Rightarrow> wal_record list \<Rightarrow> delta_layer \<Rightarrow> delta_layer outcome" where
  "dl_apply hash deser fz (Intern i name) dl =
     (case dl_intern fz dl name of (dl, got) \<Rightarrow>
        Some (if got \<noteq> i then Inl (InternMismatch name i got) else Inr dl))"
| "dl_apply hash deser fz (InsertNodeId label key props) dl =
     (if sym_name (dl_view fz dl None) label = None then Some (Inl (UnknownLabel label))
      else case dl_insert_node hash fz dl key label of
        None \<Rightarrow> None
      | Some (dl, i) \<Rightarrow> Some (dl_set_fields fz i props dl))"
| "dl_apply hash deser fz (InsertNode label key props) dl =
     (case dl_intern fz dl label of (dl, y) \<Rightarrow>
        case dl_insert_node hash fz dl key y of
          None \<Rightarrow> None
        | Some (dl, i) \<Rightarrow> Some (Inr (foldl (\<lambda>dl (field, x). dl_set_prop dl i field x) dl props)))"
| "dl_apply hash deser fz (SetPropId i field x) dl =
     (case sym_name (dl_view fz dl None) field of
        Some field \<Rightarrow> Some (Inr (dl_set_prop dl i field x))
      | None \<Rightarrow> Some (Inr dl))"
| "dl_apply hash deser fz (SetProp key field x) dl =
     (case node_id hash (dl_view fz dl None) key of
        Some i \<Rightarrow> Some (Inr (dl_set_prop dl i field x))
      | None \<Rightarrow> Some (Inr dl))"
| "dl_apply hash deser fz (RemoveProp key field) dl =
     (case node_id hash (dl_view fz dl None) key of
        Some i \<Rightarrow> Some (Inr (dl\<lparr>dl_props := pl_remove (dl_props dl) i field\<rparr>))
      | None \<Rightarrow> Some (Inr dl))"
| "dl_apply hash deser fz (DeleteNode key) dl = map_option Inr (dl_delete_node hash fz dl key)"
| "dl_apply hash deser fz (InsertEdgeId etype src dst) dl = map_option Inr (dl_add_edge dl etype src dst)"
| "dl_apply hash deser fz (InsertEdge edge_type src_key dst_key) dl =
     (case dl_intern fz dl edge_type of (dl, etype) \<Rightarrow>
        let v = dl_view fz dl None in
        case (node_id hash v src_key, node_id hash v dst_key) of
          (Some src, Some dst) \<Rightarrow> map_option Inr (dl_add_edge dl etype src dst)
        | _ \<Rightarrow> Some (Inr dl))"
| "dl_apply hash deser fz (DeleteEdge edge_type src_key dst_key) dl =
     (let v = dl_view fz dl None in
      case (view_sym v edge_type, node_id hash v src_key, node_id hash v dst_key) of
        (Some etype, Some src, Some dst) \<Rightarrow> map_option Inr (dl_remove_edge dl (etype, src, dst))
      | _ \<Rightarrow> Some (Inr dl))"
| "dl_apply hash deser fz (SetEdgeCount etype src dst n) dl =
     Some (Inr (if n > 0 then dl\<lparr>dl_eprops := ep_set (dl_eprops dl) (etype, src, dst) EDGE_COUNT_PROP (VInt (sint n))\<rparr> else dl))"
| "dl_apply hash deser fz (SetEdgePropId etype src dst field x) dl =
     Some (bind_res (dl_field_name fz dl field) (\<lambda>name.
       Inr (dl\<lparr>dl_eprops := ep_set (dl_eprops dl) (etype, src, dst) name x\<rparr>)))"
| "dl_apply hash deser fz (RemoveEdgePropId etype src dst field) dl =
     Some (bind_res (dl_field_name fz dl field) (\<lambda>name. Inr (dl_remove_edge_prop deser fz dl (etype, src, dst) name)))"
| "dl_apply hash deser fz (RenameNode old_key new_key) dl =
     (let v = dl_view fz dl None in
      case node_id hash v old_key of
        None \<Rightarrow> Some (Inr dl)
      | Some i \<Rightarrow>
          if node_id hash v new_key \<noteq> None then Some (Inl (RenameFailed old_key new_key))
          else map_option (\<lambda>l. Inr (dl\<lparr>dl_nodes := l\<rparr>)) (layer_rename (dl_nodes dl) i old_key new_key))"
| "dl_apply hash deser fz (Batch inner) dl = dl_apply_all hash deser fz inner dl"
| "dl_apply hash deser fz _ dl = Some (Inr dl)"
| "dl_apply_all hash deser fz [] dl = Some (Inr dl)"
| "dl_apply_all hash deser fz (r # rs) dl = bind_out (dl_apply hash deser fz r dl) (dl_apply_all hash deser fz rs)"

text \<open>A commit: its records, the edges rules derived and retracted, the values of views and the edge
  properties that have no record of their own.\<close>

record commit_delta =
  cd_records :: "wal_record list"
  cd_inserts :: "edge_ref list"
  cd_deletes :: "edge_ref list"
  cd_values :: "(u32 \<times> string \<times> val option) list"
  cd_eprops :: "(edge_key \<times> val edge_props_entry) list"

fun dl_derive :: "edge_ref list \<Rightarrow> delta_layer \<Rightarrow> delta_layer option" where
  "dl_derive [] dl = Some dl"
| "dl_derive ((etype, src, dst) # es) dl =
     (case dl_add_edge dl etype src dst of None \<Rightarrow> None | Some dl \<Rightarrow> dl_derive es dl)"

fun dl_retract :: "edge_ref list \<Rightarrow> delta_layer \<Rightarrow> delta_layer option" where
  "dl_retract [] dl = Some dl"
| "dl_retract (e # es) dl = (case dl_remove_edge dl e of None \<Rightarrow> None | Some dl \<Rightarrow> dl_retract es dl)"

definition dl_values :: "(u32 \<times> string \<times> val option) list \<Rightarrow> delta_layer \<Rightarrow> delta_layer" where
  "dl_values vs dl =
     foldl (\<lambda>dl (i, field, x). case x of
         Some x \<Rightarrow> dl_set_prop dl i field x
       | None \<Rightarrow> dl\<lparr>dl_props := pl_remove (dl_props dl) i field\<rparr>) dl vs"

definition dl_restore :: "(edge_key \<times> val edge_props_entry) list \<Rightarrow> delta_layer \<Rightarrow> delta_layer" where
  "dl_restore es dl = foldl (\<lambda>dl (e, entry). dl\<lparr>dl_eprops := ep_restore_entry (dl_eprops dl) e entry\<rparr>) dl es"

definition dl_apply_delta ::
  "(string \<Rightarrow> u64) \<Rightarrow> (u8 list \<Rightarrow> val fields option) \<Rightarrow> frozen \<Rightarrow> commit_delta \<Rightarrow> delta_layer \<Rightarrow> delta_layer outcome" where
  "dl_apply_delta hash deser fz cd dl =
     bind_out (dl_apply_all hash deser fz (cd_records cd) dl) (\<lambda>dl.
       case dl_derive (cd_inserts cd) dl of
         None \<Rightarrow> None
       | Some dl \<Rightarrow>
           (case dl_retract (cd_deletes cd) dl of
              None \<Rightarrow> None
            | Some dl \<Rightarrow> Some (Inr (dl_restore (cd_eprops cd) (dl_values (cd_values cd) dl)))))"

fun dl_extend ::
  "(string \<Rightarrow> u64) \<Rightarrow> (u8 list \<Rightarrow> val fields option) \<Rightarrow> frozen \<Rightarrow> commit_delta list \<Rightarrow> delta_layer \<Rightarrow> delta_layer outcome" where
  "dl_extend hash deser fz [] dl = Some (Inr dl)"
| "dl_extend hash deser fz (cd # cds) dl = bind_out (dl_apply_delta hash deser fz cd dl) (dl_extend hash deser fz cds)"

definition dl_from_deltas ::
  "(string \<Rightarrow> u64) \<Rightarrow> (u8 list \<Rightarrow> val fields option) \<Rightarrow> frozen \<Rightarrow> commit_delta list \<Rightarrow> delta_layer outcome" where
  "dl_from_deltas hash deser fz cds = dl_extend hash deser fz cds (delta_layer_new fz)"

section \<open>The state the records lead to\<close>

text \<open>The same records on plain state: the writer's ids, symbols and labels, a set of edges, one value per node
  and field, one per edge and field. It is undefined where ids or symbols run out.\<close>

record graph_state =
  gs_nodes :: node_store
  gs_edges :: "edge_ref set"
  gs_prop :: "u32 \<Rightarrow> string \<Rightarrow> val option"
  gs_eprop :: "edge_key \<Rightarrow> string \<Rightarrow> val option"

definition gs_change :: "(string \<Rightarrow> u64) \<Rightarrow> node_op \<Rightarrow> graph_state \<Rightarrow> (graph_state \<times> u32) option" where
  "gs_change hash a g =
     (case store_apply hash (gs_nodes g) a of
        None \<Rightarrow> None
      | Some (st, r) \<Rightarrow>
          if id_map_len (st_ids st) < 2 ^ 32 \<and> interner_len (st_syms st) < 2 ^ 32 then Some (g\<lparr>gs_nodes := st\<rparr>, r) else None)"

definition gs_id :: "(string \<Rightarrow> u64) \<Rightarrow> graph_state \<Rightarrow> string \<Rightarrow> u32 option" where
  "gs_id hash g key = id_map_get hash (st_ids (gs_nodes g)) key"

definition gs_put :: "graph_state \<Rightarrow> u32 \<Rightarrow> string \<Rightarrow> val option \<Rightarrow> graph_state" where
  "gs_put g i field x = g\<lparr>gs_prop := (gs_prop g)(i := (gs_prop g i)(field := x))\<rparr>"

definition gs_eput :: "graph_state \<Rightarrow> edge_key \<Rightarrow> string \<Rightarrow> val option \<Rightarrow> graph_state" where
  "gs_eput g e field x = g\<lparr>gs_eprop := (gs_eprop g)(e := (gs_eprop g e)(field := x))\<rparr>"

definition gs_insert_node :: "(string \<Rightarrow> u64) \<Rightarrow> string \<Rightarrow> u32 \<Rightarrow> graph_state \<Rightarrow> (graph_state \<times> u32) option" where
  "gs_insert_node hash key y g =
     gs_change hash (case gs_id hash g key of Some i \<Rightarrow> ORelabel i y | None \<Rightarrow> OInsert key y) g"

definition gs_delete_node :: "(string \<Rightarrow> u64) \<Rightarrow> string \<Rightarrow> graph_state \<Rightarrow> graph_state option" where
  "gs_delete_node hash key g =
     (case gs_id hash g key of
        None \<Rightarrow> Some g
      | Some i \<Rightarrow>
          let doomed = {e \<in> gs_edges g. fst (snd e) = i \<or> snd (snd e) = i} in
          map_option (\<lambda>(g, _). g\<lparr>gs_edges := gs_edges g - doomed,
              gs_eprop := (\<lambda>e. if e \<in> doomed then Map.empty else gs_eprop g e)\<rparr>)
            (gs_change hash (ODelete key i) g))"

fun gs_set_fields :: "u32 \<Rightarrow> (u32 \<times> val) list \<Rightarrow> graph_state \<Rightarrow> delta_error + graph_state" where
  "gs_set_fields i [] g = Inr g"
| "gs_set_fields i ((y, x) # props) g =
     (case resolve_sym (st_syms (gs_nodes g)) y of
        None \<Rightarrow> Inl (UnknownField y)
      | Some field \<Rightarrow> gs_set_fields i props (gs_put g i field (Some x)))"

fun gs_apply :: "(string \<Rightarrow> u64) \<Rightarrow> wal_record \<Rightarrow> graph_state \<Rightarrow> graph_state outcome"
  and gs_apply_all :: "(string \<Rightarrow> u64) \<Rightarrow> wal_record list \<Rightarrow> graph_state \<Rightarrow> graph_state outcome" where
  "gs_apply hash (Intern i name) g =
     map_option (\<lambda>(g, got). if got \<noteq> i then Inl (InternMismatch name i got) else Inr g) (gs_change hash (OIntern name) g)"
| "gs_apply hash (InsertNodeId label key props) g =
     (if resolve_sym (st_syms (gs_nodes g)) label = None then Some (Inl (UnknownLabel label))
      else map_option (\<lambda>(g, i). gs_set_fields i props g) (gs_insert_node hash key label g))"
| "gs_apply hash (InsertNode label key props) g =
     (case gs_change hash (OIntern label) g of
        None \<Rightarrow> None
      | Some (g, y) \<Rightarrow>
          map_option (\<lambda>(g, i). Inr (foldl (\<lambda>g (field, x). gs_put g i field (Some x)) g props)) (gs_insert_node hash key y g))"
| "gs_apply hash (SetPropId i field x) g =
     Some (Inr (case resolve_sym (st_syms (gs_nodes g)) field of Some field \<Rightarrow> gs_put g i field (Some x) | None \<Rightarrow> g))"
| "gs_apply hash (SetProp key field x) g =
     Some (Inr (case gs_id hash g key of Some i \<Rightarrow> gs_put g i field (Some x) | None \<Rightarrow> g))"
| "gs_apply hash (RemoveProp key field) g =
     Some (Inr (case gs_id hash g key of Some i \<Rightarrow> gs_put g i field None | None \<Rightarrow> g))"
| "gs_apply hash (DeleteNode key) g = map_option Inr (gs_delete_node hash key g)"
| "gs_apply hash (InsertEdgeId etype src dst) g = Some (Inr (g\<lparr>gs_edges := insert (etype, src, dst) (gs_edges g)\<rparr>))"
| "gs_apply hash (InsertEdge edge_type src_key dst_key) g =
     map_option (\<lambda>(g, etype). Inr (case (gs_id hash g src_key, gs_id hash g dst_key) of
         (Some src, Some dst) \<Rightarrow> g\<lparr>gs_edges := insert (etype, src, dst) (gs_edges g)\<rparr>
       | _ \<Rightarrow> g)) (gs_change hash (OIntern edge_type) g)"
| "gs_apply hash (DeleteEdge edge_type src_key dst_key) g =
     Some (Inr (case (get_sym (st_syms (gs_nodes g)) edge_type, gs_id hash g src_key, gs_id hash g dst_key) of
         (Some etype, Some src, Some dst) \<Rightarrow> g\<lparr>gs_edges := gs_edges g - {(etype, src, dst)}\<rparr>
       | _ \<Rightarrow> g))"
| "gs_apply hash (SetEdgeCount etype src dst n) g =
     Some (Inr (if n > 0 then gs_eput g (etype, src, dst) EDGE_COUNT_PROP (Some (VInt (sint n))) else g))"
| "gs_apply hash (SetEdgePropId etype src dst field x) g =
     Some (case resolve_sym (st_syms (gs_nodes g)) field of
         None \<Rightarrow> Inl (UnknownField field) | Some name \<Rightarrow> Inr (gs_eput g (etype, src, dst) name (Some x)))"
| "gs_apply hash (RemoveEdgePropId etype src dst field) g =
     Some (case resolve_sym (st_syms (gs_nodes g)) field of
         None \<Rightarrow> Inl (UnknownField field) | Some name \<Rightarrow> Inr (gs_eput g (etype, src, dst) name None))"
| "gs_apply hash (RenameNode old_key new_key) g =
     (case gs_id hash g old_key of
        None \<Rightarrow> Some (Inr g)
      | Some i \<Rightarrow>
          if gs_id hash g new_key \<noteq> None then Some (Inl (RenameFailed old_key new_key))
          else map_option (\<lambda>(g, _). Inr g) (gs_change hash (ORename i old_key new_key) g))"
| "gs_apply hash (Batch inner) g = gs_apply_all hash inner g"
| "gs_apply hash _ g = Some (Inr g)"
| "gs_apply_all hash [] g = Some (Inr g)"
| "gs_apply_all hash (r # rs) g = bind_out (gs_apply hash r g) (gs_apply_all hash rs)"

text \<open>The rest of a commit. An edge-property entry stands over what the fold shows of the edge.\<close>

definition gs_entry :: "(edge_key \<Rightarrow> string \<Rightarrow> val option) \<Rightarrow> edge_key \<Rightarrow> val edge_props_entry \<Rightarrow> string \<Rightarrow> val option" where
  "gs_entry below e entry =
     (let own = (case fst entry of None \<Rightarrow> Map.empty | Some m \<Rightarrow> map_of m)
      in if snd entry then own else below e ++ own)"

definition gs_apply_delta ::
  "(string \<Rightarrow> u64) \<Rightarrow> (edge_key \<Rightarrow> string \<Rightarrow> val option) \<Rightarrow> commit_delta \<Rightarrow> graph_state \<Rightarrow> graph_state outcome" where
  "gs_apply_delta hash below cd g =
     bind_out (gs_apply_all hash (cd_records cd) g) (\<lambda>g.
       let g = g\<lparr>gs_edges := gs_edges g \<union> set (cd_inserts cd) - set (cd_deletes cd)\<rparr>;
           g = foldl (\<lambda>g (i, field, x). gs_put g i field x) g (cd_values cd)
       in Some (Inr (foldl (\<lambda>g (e, entry). g\<lparr>gs_eprop := (gs_eprop g)(e := gs_entry below e entry)\<rparr>) g (cd_eprops cd))))"

fun gs_extend ::
  "(string \<Rightarrow> u64) \<Rightarrow> (edge_key \<Rightarrow> string \<Rightarrow> val option) \<Rightarrow> commit_delta list \<Rightarrow> graph_state \<Rightarrow> graph_state outcome" where
  "gs_extend hash below [] g = Some (Inr g)"
| "gs_extend hash below (cd # cds) g = bind_out (gs_apply_delta hash below cd g) (gs_extend hash below cds)"

text \<open>What a fold holds.\<close>

definition fold_eprops :: "(u8 list \<Rightarrow> val fields option) \<Rightarrow> frozen \<Rightarrow> edge_key \<Rightarrow> string \<Rightarrow> val option" where
  "fold_eprops deser fz = lay_over (fz_eprops fz) (base_store deser (fz_ebase fz))"

definition gs_of :: "(u8 list \<Rightarrow> val fields option) \<Rightarrow> frozen \<Rightarrow> graph_state" where
  "gs_of deser fz =
     \<lparr>gs_nodes = fz_nodes fz,
      gs_edges = view_edges \<lparr>overlay = fz_topo fz, base = fz_csr fz, layer = None\<rparr>,
      gs_prop = fz_column fz, gs_eprop = fold_eprops deser fz\<rparr>"

definition frozen_ok :: "(string \<Rightarrow> u64) \<Rightarrow> frozen \<Rightarrow> bool" where
  "frozen_ok hash fz \<longleftrightarrow>
     id_map_ok hash (st_ids (fz_nodes fz)) \<and> interner_ok (st_syms (fz_nodes fz)) \<and>
     length (st_labels (fz_nodes fz)) \<le> id_map_len (st_ids (fz_nodes fz)) \<and>
     id_map_len (st_ids (fz_nodes fz)) < 2 ^ 32 \<and> interner_len (st_syms (fz_nodes fz)) < 2 ^ 32 \<and>
     (\<forall>k i. id_map_get hash (st_ids (fz_nodes fz)) k = Some i \<longrightarrow> slot_label (st_labels (fz_nodes fz)) (unat i) \<noteq> NO_LABEL) \<and>
     view_ok \<lparr>overlay = fz_topo fz, base = fz_csr fz, layer = None\<rparr> \<and> ep_ok (fz_eprops fz)"

section \<open>The simulation\<close>

definition delta_rel :: "(string \<Rightarrow> u64) \<Rightarrow> (u8 list \<Rightarrow> val fields option) \<Rightarrow> frozen \<Rightarrow> delta_layer \<Rightarrow> graph_state \<Rightarrow> bool" where
  "delta_rel hash deser fz dl g \<longleftrightarrow>
     layer_rel hash (fz_nodes fz) (dl_nodes dl) (gs_nodes g) \<and>
     (\<forall>k i. gs_id hash g k = Some i \<longrightarrow> slot_label (st_labels (gs_nodes g)) (unat i) \<noteq> NO_LABEL) \<and>
     view_ok (dl_topo_view fz dl) \<and> view_edges (dl_topo_view fz dl) = gs_edges g \<and>
     ep_ok (fz_eprops fz) \<and> ep_ok (dl_eprops dl) \<and> lay_over (dl_eprops dl) (fold_eprops deser fz) = gs_eprop g \<and>
     (\<forall>i field. i \<notin> snd (id_map_abs (st_ids (gs_nodes g))) \<longrightarrow> dl_prop fz dl i field = gs_prop g i field)"

lemma delta_relD:
  assumes "delta_rel hash deser fz dl g"
  shows "layer_rel hash (fz_nodes fz) (dl_nodes dl) (gs_nodes g)"
    "gs_id hash g k = Some i \<Longrightarrow> slot_label (st_labels (gs_nodes g)) (unat i) \<noteq> NO_LABEL"
    "view_ok (dl_topo_view fz dl)" "view_edges (dl_topo_view fz dl) = gs_edges g"
    "ep_ok (fz_eprops fz)" "ep_ok (dl_eprops dl)" "lay_over (dl_eprops dl) (fold_eprops deser fz) = gs_eprop g"
    "i \<notin> snd (id_map_abs (st_ids (gs_nodes g))) \<Longrightarrow> dl_prop fz dl i field = gs_prop g i field"
  using assms unfolding delta_rel_def by blast+

lemma delta_reads:
  assumes "delta_rel hash deser fz dl g"
  shows "node_id hash (dl_view fz dl allow) key = gs_id hash g key"
    "view_sym (dl_view fz dl allow) key = get_sym (st_syms (gs_nodes g)) key"
    "sym_name (dl_view fz dl allow) y = resolve_sym (st_syms (gs_nodes g)) y"
proof -
  note r = layered_reads [OF delta_relD(1) [OF assms] refl refl, of "dl_topo_view fz dl" allow]
  show "node_id hash (dl_view fz dl allow) key = gs_id hash g key"
    using r(1) [of key] by (simp add: dl_view_def gs_id_def)
  show "view_sym (dl_view fz dl allow) key = get_sym (st_syms (gs_nodes g)) key"
    using r(4) [of key] by (simp add: dl_view_def)
  show "sym_name (dl_view fz dl allow) y = resolve_sym (st_syms (gs_nodes g)) y"
    using r(5) [of y] by (simp add: dl_view_def)
qed

text \<open>Changes of node identity.\<close>

lemma delta_change:
  assumes rel: "delta_rel hash deser fz dl g" and allowed: "op_allowed hash (gs_nodes g) a"
    and step: "gs_change hash a g = Some (g', r)"
    and labelled: "\<And>k i. gs_id hash g' k = Some i \<Longrightarrow> slot_label (st_labels (gs_nodes g')) (unat i) \<noteq> NO_LABEL"
    and kept: "snd (id_map_abs (st_ids (gs_nodes g))) \<subseteq> snd (id_map_abs (st_ids (gs_nodes g')))"
  shows "\<exists>l. layer_apply (st_syms (fz_nodes fz)) (dl_nodes dl) a = Some (l, r) \<and> delta_rel hash deser fz (dl\<lparr>dl_nodes := l\<rparr>) g'"
proof -
  note D = delta_relD [OF rel]
  obtain st where st: "store_apply hash (gs_nodes g) a = Some (st, r)" "id_map_len (st_ids st) < 2 ^ 32"
      "interner_len (st_syms st) < 2 ^ 32" "g' = g\<lparr>gs_nodes := st\<rparr>"
    using step by (auto simp: gs_change_def split: option.splits if_splits)
  obtain l where "layer_apply (st_syms (fz_nodes fz)) (dl_nodes dl) a = Some (l, r)" "layer_rel hash (fz_nodes fz) l st"
    using layer_step_rel [OF D(1) allowed st(1-3)] by blast
  moreover have "dl_topo_view fz (dl\<lparr>dl_nodes := l\<rparr>) = dl_topo_view fz dl"
      "dl_prop fz (dl\<lparr>dl_nodes := l\<rparr>) i field = dl_prop fz dl i field" for i field
    by (simp_all add: dl_topo_view_def dl_prop_def)
  moreover have "dl_prop fz dl i field = gs_prop g i field" if "i \<notin> snd (id_map_abs (st_ids st))" for i field
    using that D(8) [of i field] kept st(4) by auto
  ultimately show ?thesis
    using D(3-7) labelled st(4) by (intro exI [of _ l]) (simp add: delta_rel_def)
qed

lemma delta_rel_ids:
  assumes "delta_rel hash deser fz dl g"
  shows "id_map_ok hash (st_ids (gs_nodes g))" "interner_ok (st_syms (gs_nodes g))" "interner_len (st_syms (gs_nodes g)) < 2 ^ 32"
  using delta_relD(1) [OF assms] by (simp_all add: layer_rel_def nodes_rel_def syms_rel_def)

lemma delta_intern:
  assumes rel: "delta_rel hash deser fz dl g" and step: "gs_change hash (OIntern name) g = Some (g', y)"
  shows "\<exists>dl'. dl_intern fz dl name = (dl', y) \<and> delta_rel hash deser fz dl' g'"
    "resolve_sym (st_syms (gs_nodes g')) y = Some name" "st_ids (gs_nodes g') = st_ids (gs_nodes g)"
proof -
  obtain syms where i: "intern (st_syms (gs_nodes g)) name = (syms, y)" by (cases "intern (st_syms (gs_nodes g)) name")
      (use step in \<open>auto simp: gs_change_def split: if_splits\<close>)
  then have g': "g' = g\<lparr>gs_nodes := (gs_nodes g)\<lparr>st_syms := syms\<rparr>\<rparr>" using step by (auto simp: gs_change_def split: if_splits)
  have "\<exists>l. layer_apply (st_syms (fz_nodes fz)) (dl_nodes dl) (OIntern name) = Some (l, y) \<and> delta_rel hash deser fz (dl\<lparr>dl_nodes := l\<rparr>) g'"
    by (rule delta_change [OF rel _ step]) (use delta_relD(2) [OF rel] g' in \<open>auto simp: gs_id_def\<close>)
  then show "\<exists>dl'. dl_intern fz dl name = (dl', y) \<and> delta_rel hash deser fz dl' g'" by (auto simp: dl_intern_def)
  show "resolve_sym (st_syms (gs_nodes g')) y = Some name"
    using st.resolve_intern [OF delta_rel_ids(2,3) [OF rel], of name] i g' by simp
  show "st_ids (gs_nodes g') = st_ids (gs_nodes g)" using g' by simp
qed

lemma resolved_not_sentinel:
  assumes "interner_len syms < 2 ^ 32" "resolve_sym syms y \<noteq> None" shows "y \<noteq> NO_LABEL"
proof -
  have "unat y < 2 ^ 32 - 1" using assms by (auto simp: resolve_sym_def interner_len_def split: if_splits)
  moreover have "unat NO_LABEL = 2 ^ 32 - 1" by (simp add: NO_LABEL_def unsigned_minus_1_eq_mask mask_eq_exp_minus_1)
  ultimately show ?thesis by auto
qed

lemma delta_insert_node:
  assumes rel: "delta_rel hash deser fz dl g" and y: "y \<noteq> NO_LABEL"
    and step: "gs_insert_node hash key y g = Some (g', i)"
  shows "\<exists>dl'. dl_insert_node hash fz dl key y = Some (dl', i) \<and> delta_rel hash deser fz dl' g'"
proof (cases "gs_id hash g key")
  case (Some j)
  then have c: "gs_change hash (ORelabel j y) g = Some (g', i)" using step by (simp add: gs_insert_node_def)
  then have g': "g' = g\<lparr>gs_nodes := (gs_nodes g)\<lparr>st_labels := set_label (st_labels (gs_nodes g)) j y\<rparr>\<rparr>" "i = j"
    by (auto simp: gs_change_def split: if_splits)
  have "\<exists>l. layer_apply (st_syms (fz_nodes fz)) (dl_nodes dl) (ORelabel j y) = Some (l, i) \<and> delta_rel hash deser fz (dl\<lparr>dl_nodes := l\<rparr>) g'"
    by (rule delta_change [OF rel _ c]) (use delta_relD(2) [OF rel] Some g' y in \<open>auto simp: gs_id_def slot_set_label\<close>)
  then show ?thesis using Some g'(2) delta_reads(1) [OF rel] by (auto simp: dl_insert_node_def)
next
  case None
  then have c: "gs_change hash (OInsert key y) g = Some (g', i)" using step by (simp add: gs_insert_node_def)
  have free: "id_map_get hash (st_ids (gs_nodes g)) key = None" using None by (simp add: gs_id_def)
  obtain ids where ids: "id_map_try_insert hash (st_ids (gs_nodes g)) key = Some (ids, Inr i)"
      "g' = g\<lparr>gs_nodes := (gs_nodes g)\<lparr>st_ids := ids, st_labels := set_label (st_labels (gs_nodes g)) i y\<rparr>\<rparr>"
    using c by (auto simp: gs_change_def split: option.splits sum.splits prod.splits if_splits)
  note ok = delta_rel_ids(1) [OF rel]
  have sp: "spec_insert key (id_map_abs (st_ids (gs_nodes g))) = (id_map_abs ids, Inr i)" "id_map_ok hash ids"
    using id_map_try_insert_correct [OF ok, of key] ids(1) by auto
  obtain sl rt where s: "id_map_abs (st_ids (gs_nodes g)) = (sl, rt)" by fastforce
  have sp': "id_map_abs ids = (sl @ [key], rt)" "i = of_nat (length sl)"
    using sp(1) spec_get_abs [OF ok, of key] free by (auto simp: s split: if_splits)
  have "\<exists>l. layer_apply (st_syms (fz_nodes fz)) (dl_nodes dl) (OInsert key y) = Some (l, i) \<and> delta_rel hash deser fz (dl\<lparr>dl_nodes := l\<rparr>) g'"
  proof (rule delta_change [OF rel _ c])
    fix k j assume k: "gs_id hash g' k = Some j"
    then have "j = i \<or> gs_id hash g k = Some j"
      using id_map_get_slot [OF sp(2), of k j] id_map_get_slot [OF ok, of k j] id_map_len_slots [OF sp(2)] id_map_len_slots [OF ok]
        sp' s ids(2) unat_of_nat_slot [of "length sl" "sl @ [key]"] id_map_okD(4) [OF sp(2)]
      by (auto simp: gs_id_def nth_append less_Suc_eq word_unat_eq_iff)
    then show "slot_label (st_labels (gs_nodes g')) (unat j) \<noteq> NO_LABEL"
      using delta_relD(2) [OF rel] y ids(2) by (auto simp: slot_set_label)
  qed (use free ids(2) sp' s in auto)
  then show ?thesis using None delta_reads(1) [OF rel] by (auto simp: dl_insert_node_def)
qed

text \<open>Changes of edges.\<close>

lemma delta_topo:
  assumes rel: "delta_rel hash deser fz dl g" and t: "topology_ok t" "tombs_mirror t"
    and e: "edges t \<union> (below_edges (dl_topo_view fz dl) - tombs t) = E"
  shows "delta_rel hash deser fz (dl\<lparr>dl_topo := t\<rparr>) (g\<lparr>gs_edges := E\<rparr>)"
proof -
  have "below_edges (dl_topo_view fz (dl\<lparr>dl_topo := t\<rparr>)) = below_edges (dl_topo_view fz dl)"
    by (simp add: dl_topo_view_def below_edges_def)
  then have "view_edges (dl_topo_view fz (dl\<lparr>dl_topo := t\<rparr>)) = E"
    using e by (simp add: view_edges_def) (simp add: dl_topo_view_def)
  moreover have "view_ok (dl_topo_view fz (dl\<lparr>dl_topo := t\<rparr>))"
    using delta_relD(3) [OF rel] t by (simp add: view_ok_def dl_topo_view_def)
  moreover have "dl_prop fz (dl\<lparr>dl_topo := t\<rparr>) = dl_prop fz dl" by (simp add: dl_prop_def fun_eq_iff)
  ultimately show ?thesis using delta_relD [OF rel] by (simp add: delta_rel_def gs_id_def)
qed

lemma delta_topo_parts:
  assumes "delta_rel hash deser fz dl g"
  shows "topology_ok (dl_topo dl)" "tombs_mirror (dl_topo dl)"
    "gs_edges g = edges (dl_topo dl) \<union> (below_edges (dl_topo_view fz dl) - tombs (dl_topo dl))"
proof -
  show "topology_ok (dl_topo dl)" "tombs_mirror (dl_topo dl)"
    using delta_relD(3) [OF assms] by (simp_all add: view_ok_def dl_topo_view_def)
  show "gs_edges g = edges (dl_topo dl) \<union> (below_edges (dl_topo_view fz dl) - tombs (dl_topo dl))"
    using delta_relD(4) [OF assms] by (simp add: view_edges_def) (simp add: dl_topo_view_def)
qed

lemma delta_add_edge:
  assumes rel: "delta_rel hash deser fz dl g"
  shows "\<exists>dl'. dl_add_edge dl etype src dst = Some dl' \<and> delta_rel hash deser fz dl' (g\<lparr>gs_edges := insert (etype, src, dst) (gs_edges g)\<rparr>)"
proof -
  note T = delta_topo_parts [OF rel]
  obtain t where t: "add_edge (dl_topo dl) etype src dst = Some (t, (etype, src, dst) \<notin> edges (dl_topo dl))" "topology_ok t"
      "edges t = insert (etype, src, dst) (edges (dl_topo dl))" "tombs t = tombs (dl_topo dl)" "tombs_mirror t"
    using add_edge_correct [OF T(1), of etype src dst] tombs_cong [of _ "dl_topo dl"] T(2) by metis
  then show ?thesis
    using delta_topo [OF rel t(2,5)] T(3) by (simp add: dl_add_edge_def)
qed

lemma delta_remove_edge:
  assumes rel: "delta_rel hash deser fz dl g"
  shows "\<exists>dl'. dl_remove_edge dl e = Some dl' \<and> delta_rel hash deser fz dl' (g\<lparr>gs_edges := gs_edges g - {e}\<rparr>)"
proof -
  note T = delta_topo_parts [OF rel]
  obtain etype src dst where e: "e = (etype, src, dst)" by (cases e)
  obtain t1 where t1: "remove_overlay_edge (dl_topo dl) etype src dst = Some (t1, e \<in> edges (dl_topo dl))" "topology_ok t1"
      "edges t1 = edges (dl_topo dl) - {e}" "tombs t1 = tombs (dl_topo dl)" "tombs_mirror t1"
    using remove_overlay_edge_correct [OF T(1), of etype src dst] tombs_cong [of _ "dl_topo dl"] T(2) unfolding e by metis
  obtain t r where t: "remove_edge t1 etype src dst = Some (t, r)" "topology_ok t" "tombs_mirror t" "edges t = edges t1 - {e}"
      "tombs t = insert e (tombs t1)"
    using remove_edge_correct [OF t1(2,5), of etype src dst] t1(3) unfolding e by auto
  have "edges t \<union> (below_edges (dl_topo_view fz dl) - tombs t) = gs_edges g - {e}"
    using t(4,5) t1(3,4) T(3) by auto
  then show ?thesis
    using delta_topo [OF rel t(2,3)] t(1) t1(1) by (simp add: dl_remove_edge_def e)
qed

text \<open>Changes of properties.\<close>

lemma pl_get_entry: "pl_get (pl_entry p n f x) i field = (if i = n \<and> field = f then Some x else pl_get p i field)"
  by (auto simp: pl_get_def pl_entry_def update_conv' entry_or_def map_of_alist_ins split: option.splits)

lemma delta_put:
  assumes rel: "delta_rel hash deser fz dl g"
  shows "delta_rel hash deser fz (dl\<lparr>dl_props := pl_entry (dl_props dl) i field x\<rparr>) (gs_put g i field x)"
proof -
  have "dl_topo_view fz (dl\<lparr>dl_props := p\<rparr>) = dl_topo_view fz dl" for p by (simp add: dl_topo_view_def)
  moreover have "dl_prop fz (dl\<lparr>dl_props := pl_entry (dl_props dl) i field x\<rparr>) j f =
      (if j = i \<and> f = field then x else dl_prop fz dl j f)" for j f
    by (simp add: dl_prop_def pl_get_entry)
  ultimately show ?thesis using delta_relD [OF rel] by (auto simp: delta_rel_def gs_put_def gs_id_def)
qed

lemma delta_set_prop:
  "delta_rel hash deser fz dl g \<Longrightarrow> delta_rel hash deser fz (dl_set_prop dl i field x) (gs_put g i field (Some x))"
  unfolding dl_set_prop_def pl_set_def by (rule delta_put)

lemma delta_eprops:
  assumes rel: "delta_rel hash deser fz dl g" and p: "ep_ok p" "lay_over p (fold_eprops deser fz) = P"
  shows "delta_rel hash deser fz (dl\<lparr>dl_eprops := p\<rparr>) (g\<lparr>gs_eprop := P\<rparr>)"
proof -
  have "dl_topo_view fz (dl\<lparr>dl_eprops := p\<rparr>) = dl_topo_view fz dl" "dl_prop fz (dl\<lparr>dl_eprops := p\<rparr>) = dl_prop fz dl"
    by (simp_all add: dl_topo_view_def dl_prop_def fun_eq_iff)
  then show ?thesis using delta_relD [OF rel] p by (simp add: delta_rel_def gs_id_def)
qed

lemma delta_ep_step:
  assumes rel: "delta_rel hash deser fz dl g"
  shows "delta_rel hash deser fz (dl\<lparr>dl_eprops := ep_step a (dl_eprops dl)\<rparr>) (g\<lparr>gs_eprop := plain_step a (gs_eprop g)\<rparr>)"
  by (rule delta_eprops [OF rel ep_step_correct(1) [OF delta_relD(6) [OF rel]]])
    (simp add: ep_step_correct(2) [OF delta_relD(6) [OF rel]] delta_relD(7) [OF rel])

lemma delta_eput:
  assumes "delta_rel hash deser fz dl g"
  shows "delta_rel hash deser fz (dl\<lparr>dl_eprops := ep_set (dl_eprops dl) e field x\<rparr>) (gs_eput g e field (Some x))"
  using delta_ep_step [OF assms, of "SetField e field x"] by (simp add: gs_eput_def)

lemma delta_props_of:
  assumes "delta_rel hash deser fz dl g"
  shows "map_of (ev_props_of deser (dl_eview fz dl) e) = gs_eprop g e" "ev_get deser (dl_eview fz dl) e field = gs_eprop g e field"
proof -
  have "view_store deser (dl_eview fz dl) = gs_eprop g"
    using delta_relD(7) [OF assms] by (simp add: view_store_def dl_eview_def fold_eprops_def)
  then show "map_of (ev_props_of deser (dl_eview fz dl) e) = gs_eprop g e" "ev_get deser (dl_eview fz dl) e field = gs_eprop g e field"
    using view_readers [of "dl_eview fz dl" deser] delta_relD(5,6) [OF assms] by (simp_all add: dl_eview_def)
qed

lemma delta_remove_edge_prop:
  assumes rel: "delta_rel hash deser fz dl g"
  shows "delta_rel hash deser fz (dl_remove_edge_prop deser fz dl e field) (gs_eput g e field None)"
proof (cases "gs_eprop g e field")
  case None
  then have "gs_eput g e field None = g" by (simp add: gs_eput_def fun_upd_idem)
  then show ?thesis using None rel delta_props_of(1) [OF rel, of e] by (simp add: dl_remove_edge_prop_def)
next
  case (Some x)
  let ?props = "ev_props_of deser (dl_eview fz dl) e"
  have "map_of (alist_del field ?props) = (gs_eprop g e)(field := None)"
    using delta_props_of(1) [OF rel, of e] by (simp add: map_of_alist_del)
  then show ?thesis
    using delta_ep_step [OF rel, of "ReplaceProps e (alist_del field ?props)"] Some delta_props_of(1) [OF rel, of e]
    by (simp add: dl_remove_edge_prop_def gs_eput_def)
qed

text \<open>The edges a deleted node takes with it.\<close>

lemma doomed_edges:
  assumes "view_ok topo"
  shows "set (dl_doomed topo i) = {e \<in> view_edges topo. fst (snd e) = i \<or> snd (snd e) = i}"
proof -
  have n: "set (view_neighbors topo t Out i) = {d. (t, i, d) \<in> view_edges topo}"
      "set (view_neighbors topo t In i) = {s. (t, s, i) \<in> view_edges topo}" for t
    using view_neighbors_correct [OF assms, of t Out i] view_neighbors_correct [OF assms, of t In i]
      view_ids_edges [OF assms, of t i] by auto
  show ?thesis
    using view_etypes_all [OF assms] by (force simp: dl_doomed_def n)
qed

lemma delta_sweep:
  assumes "delta_rel hash deser fz dl g"
  shows "\<exists>dl'. dl_sweep es dl = Some dl' \<and> delta_rel hash deser fz dl'
    (g\<lparr>gs_edges := gs_edges g - set es, gs_eprop := (\<lambda>e. if e \<in> set es then Map.empty else gs_eprop g e)\<rparr>)"
  using assms
proof (induction es arbitrary: dl g)
  case (Cons e es)
  obtain dl1 where dl1: "dl_remove_edge dl e = Some dl1" "delta_rel hash deser fz dl1 (g\<lparr>gs_edges := gs_edges g - {e}\<rparr>)"
    using delta_remove_edge [OF Cons.prems] by blast
  have rel: "delta_rel hash deser fz (dl1\<lparr>dl_eprops := ep_remove_edge (dl_eprops dl1) e\<rparr>)
      (g\<lparr>gs_edges := gs_edges g - {e}, gs_eprop := (gs_eprop g)(e := Map.empty)\<rparr>)"
    using delta_ep_step [OF dl1(2), of "RemoveProps e"] by simp
  let ?g = "g\<lparr>gs_edges := gs_edges g - {e}, gs_eprop := (gs_eprop g)(e := Map.empty)\<rparr>"
  have "?g\<lparr>gs_edges := gs_edges ?g - set es, gs_eprop := (\<lambda>x. if x \<in> set es then Map.empty else gs_eprop ?g x)\<rparr> =
      g\<lparr>gs_edges := gs_edges g - set (e # es), gs_eprop := (\<lambda>x. if x \<in> set (e # es) then Map.empty else gs_eprop g x)\<rparr>"
    by (intro graph_state.equality) (auto simp: fun_eq_iff)
  then show ?case using Cons.IH [OF rel] dl1(1) by (simp only: dl_sweep.simps option.case)
qed simp

lemma delta_delete_node:
  assumes rel: "delta_rel hash deser fz dl g" and step: "gs_delete_node hash key g = Some g'"
  shows "\<exists>dl'. dl_delete_node hash fz dl key = Some dl' \<and> delta_rel hash deser fz dl' g'"
proof (cases "gs_id hash g key")
  case None
  then show ?thesis using step rel delta_reads(1) [OF rel] by (simp add: gs_delete_node_def dl_delete_node_def)
next
  case (Some i)
  let ?doomed = "{e \<in> gs_edges g. fst (snd e) = i \<or> snd (snd e) = i}"
  obtain g1 r where c: "gs_change hash (ODelete key i) g = Some (g1, r)"
    using step Some by (auto simp: gs_delete_node_def Let_def)
  then obtain ids r' where ids: "id_map_delete hash (st_ids (gs_nodes g)) key = Some (ids, r')"
      "g1 = g\<lparr>gs_nodes := (gs_nodes g)\<lparr>st_ids := ids, st_labels := (st_labels (gs_nodes g))[unat i := NO_LABEL]\<rparr>\<rparr>"
    by (auto simp: gs_change_def split: option.splits prod.splits if_splits)
  have g': "g' = g1\<lparr>gs_edges := gs_edges g1 - ?doomed, gs_eprop := (\<lambda>e. if e \<in> ?doomed then Map.empty else gs_eprop g1 e)\<rparr>"
    using step Some c by (simp add: gs_delete_node_def Let_def)
  note ok = delta_rel_ids(1) [OF rel]
  have key: "id_map_get hash (st_ids (gs_nodes g)) key = Some i" using Some by (simp add: gs_id_def)
  have sp: "spec_delete key (id_map_abs (st_ids (gs_nodes g))) = (id_map_abs ids, r')" "id_map_ok hash ids"
    using id_map_delete_correct [OF ok, of key] ids(1) by auto
  obtain sl rt where s: "id_map_abs (st_ids (gs_nodes g)) = (sl, rt)" by fastforce
  have sp': "id_map_abs ids = (sl, insert i rt)"
    using sp(1) spec_get_abs [OF ok, of key] key by (auto simp: s)
  have "\<exists>l. layer_apply (st_syms (fz_nodes fz)) (dl_nodes dl) (ODelete key i) = Some (l, r) \<and> delta_rel hash deser fz (dl\<lparr>dl_nodes := l\<rparr>) g1"
  proof (rule delta_change [OF rel _ c])
    fix k j assume "gs_id hash g1 k = Some j"
    then have "j \<noteq> i" "gs_id hash g k = Some j"
      using id_map_get_slot [OF sp(2), of k j] id_map_get_slot [OF ok, of k j] id_map_len_slots [OF sp(2)] id_map_len_slots [OF ok]
        sp' s ids(2) by (auto simp: gs_id_def)
    then show "slot_label (st_labels (gs_nodes g1)) (unat j) \<noteq> NO_LABEL"
      using delta_relD(2) [OF rel] ids(2) by (auto simp: slot_label_update simp flip: word_unat_eq_iff)
  qed (use key ids(2) sp' s in auto)
  then have rel1: "delta_rel hash deser fz (dl\<lparr>dl_nodes := layer_delete (dl_nodes dl) key i\<rparr>) g1" by auto
  let ?dl = "dl\<lparr>dl_nodes := layer_delete (dl_nodes dl) key i, dl_props := pl_remove_all (dl_props dl) i\<rparr>"
  have "dl_prop fz ?dl j f = dl_prop fz dl j f" if "j \<noteq> i" for j f
    using that by (simp add: dl_prop_def pl_remove_all_def pl_get_def delete_conv')
  moreover have "i \<in> snd (id_map_abs (st_ids (gs_nodes g1)))" using ids(2) sp' by simp
  ultimately have "dl_prop fz ?dl j f = gs_prop g1 j f" if "j \<notin> snd (id_map_abs (st_ids (gs_nodes g1)))" for j f
    using that delta_relD(8) [OF rel1, of j f] by (cases "j = i") (auto simp: dl_prop_def)
  then have "delta_rel hash deser fz ?dl g1"
    using delta_relD [OF rel1] unfolding delta_rel_def by (auto simp: dl_topo_view_def)
  moreover have "set (dl_doomed (dl_topo_view fz dl) i) = ?doomed"
    using doomed_edges [OF delta_relD(3) [OF rel]] delta_relD(4) [OF rel] by simp
  ultimately show ?thesis
    using delta_sweep [of hash deser fz ?dl g1 "dl_doomed (dl_topo_view fz dl) i"] Some delta_reads(1) [OF rel]
    by (simp add: dl_delete_node_def g' Let_def)
qed

lemma delta_rename:
  assumes rel: "delta_rel hash deser fz dl g" and ids: "gs_id hash g old = Some i" "gs_id hash g new = None"
    and step: "gs_change hash (ORename i old new) g = Some (g', r)"
  shows "\<exists>l. layer_rename (dl_nodes dl) i old new = Some l \<and> delta_rel hash deser fz (dl\<lparr>dl_nodes := l\<rparr>) g'"
proof -
  obtain m where m: "id_map_rename hash (st_ids (gs_nodes g)) old new = Some (m, Inr r)" "g' = g\<lparr>gs_nodes := (gs_nodes g)\<lparr>st_ids := m\<rparr>\<rparr>"
    using step by (auto simp: gs_change_def split: option.splits sum.splits prod.splits if_splits)
  note ok = delta_rel_ids(1) [OF rel]
  have sp: "spec_rename old new (id_map_abs (st_ids (gs_nodes g))) = (id_map_abs m, Inr r)" "id_map_ok hash m"
    using id_map_rename_correct [OF ok, of old new] m(1) by auto
  obtain sl rt where s: "id_map_abs (st_ids (gs_nodes g)) = (sl, rt)" by fastforce
  have sp': "id_map_abs m = (sl[unat i := new], rt)"
    using sp(1) spec_get_abs [OF ok] ids by (auto simp: s gs_id_def)
  have "\<exists>l. layer_apply (st_syms (fz_nodes fz)) (dl_nodes dl) (ORename i old new) = Some (l, r) \<and> delta_rel hash deser fz (dl\<lparr>dl_nodes := l\<rparr>) g'"
  proof (rule delta_change [OF rel _ step])
    fix k j assume "gs_id hash g' k = Some j"
    then have "gs_id hash g (sl ! unat j) = Some j"
      using id_map_get_slot [OF sp(2), of k j] id_map_get_slot [OF ok, of "sl ! unat j" j] id_map_len_slots [OF sp(2)] id_map_len_slots [OF ok]
        sp' s m(2) by (auto simp: gs_id_def)
    then show "slot_label (st_labels (gs_nodes g')) (unat j) \<noteq> NO_LABEL" using delta_relD(2) [OF rel] m(2) by simp
  qed (use ids m(2) sp' s in \<open>auto simp: gs_id_def\<close>)
  then show ?thesis by auto
qed

lemma delta_set_fields:
  assumes "delta_rel hash deser fz dl g"
  shows "rel_sum (=) (delta_rel hash deser fz) (dl_set_fields fz i props dl) (gs_set_fields i props g)"
  using assms
proof (induction i props g arbitrary: dl rule: gs_set_fields.induct)
  case (2 i y x props g)
  show ?case
  proof (cases "resolve_sym (st_syms (gs_nodes g)) y")
    case None
    then show ?thesis using delta_reads(3) [OF 2(2)] by (simp add: dl_field_name_def)
  next
    case (Some field)
    then show ?thesis
      using delta_reads(3) [OF 2(2)] 2(1) [OF Some delta_set_prop [OF 2(2)]] by (simp add: dl_field_name_def)
  qed
qed simp

lemma delta_set_props:
  assumes "delta_rel hash deser fz dl g"
  shows "delta_rel hash deser fz (foldl (\<lambda>dl (field, x). dl_set_prop dl i field x) dl props)
    (foldl (\<lambda>g (field, x). gs_put g i field (Some x)) g props)"
  using assms by (induction props arbitrary: dl g) (auto intro: delta_set_prop)

text \<open>Whole records and batches.\<close>

abbreviation sims :: "(string \<Rightarrow> u64) \<Rightarrow> (u8 list \<Rightarrow> val fields option) \<Rightarrow> frozen \<Rightarrow> delta_layer outcome \<Rightarrow> graph_state outcome \<Rightarrow> bool" where
  "sims hash deser fz r s \<equiv> s \<noteq> None \<longrightarrow> rel_option (rel_sum (=) (delta_rel hash deser fz)) r s"

lemma sims_bind:
  assumes "sims hash deser fz r s" "\<And>dl g. delta_rel hash deser fz dl g \<Longrightarrow> sims hash deser fz (f dl) (h g)"
  shows "sims hash deser fz (bind_out r f) (bind_out s h)"
proof (cases s)
  case (Some x)
  then have "rel_option (rel_sum (=) (delta_rel hash deser fz)) r (Some x)" using assms(1) by simp
  then show ?thesis using Some assms(2) by (cases x; cases r; cases "the r") (auto simp: bind_out_def)
qed (simp add: bind_out_def)

lemma sims_insert_id:
  assumes rel: "delta_rel hash deser fz dl g"
  shows "sims hash deser fz (dl_apply hash deser fz (InsertNodeId label key props) dl) (gs_apply hash (InsertNodeId label key props) g)"
proof (cases "resolve_sym (st_syms (gs_nodes g)) label = None \<or> gs_insert_node hash key label g = None")
  case True
  then show ?thesis using delta_reads(3) [OF rel] by auto
next
  case False
  then obtain g1 i where g1: "gs_insert_node hash key label g = Some (g1, i)" by fastforce
  have "label \<noteq> NO_LABEL" using resolved_not_sentinel [OF delta_rel_ids(3) [OF rel]] False by blast
  from delta_insert_node [OF rel this g1] obtain dl1
    where "dl_insert_node hash fz dl key label = Some (dl1, i)" "delta_rel hash deser fz dl1 g1" by blast
  then show ?thesis using False delta_reads(3) [OF rel] g1 delta_set_fields [of hash deser fz dl1 g1 i props] by auto
qed

lemma sims_insert:
  assumes rel: "delta_rel hash deser fz dl g"
  shows "sims hash deser fz (dl_apply hash deser fz (InsertNode label key props) dl) (gs_apply hash (InsertNode label key props) g)"
proof (cases "gs_change hash (OIntern label) g")
  case (Some a)
  then obtain g1 y where g1: "gs_change hash (OIntern label) g = Some (g1, y)" by (cases a) auto
  obtain dl1 where dl1: "dl_intern fz dl label = (dl1, y)" "delta_rel hash deser fz dl1 g1"
    using delta_intern(1) [OF rel g1] by blast
  have y: "y \<noteq> NO_LABEL"
    using resolved_not_sentinel [OF delta_rel_ids(3) [OF dl1(2)]] delta_intern(2) [OF rel g1] by simp
  show ?thesis
  proof (cases "gs_insert_node hash key y g1")
    case (Some b)
    then obtain g2 i where g2: "gs_insert_node hash key y g1 = Some (g2, i)" by (cases b) auto
    from delta_insert_node [OF dl1(2) y g2] obtain dl2
      where "dl_insert_node hash fz dl1 key y = Some (dl2, i)" "delta_rel hash deser fz dl2 g2" by blast
    then show ?thesis using g1 g2 dl1(1) delta_set_props [of hash deser fz dl2 g2 i props] by simp
  qed (simp add: g1)
qed simp

lemma sims_insert_edge:
  assumes rel: "delta_rel hash deser fz dl g"
  shows "sims hash deser fz (dl_apply hash deser fz (InsertEdge edge_type src_key dst_key) dl) (gs_apply hash (InsertEdge edge_type src_key dst_key) g)"
proof (cases "gs_change hash (OIntern edge_type) g")
  case (Some a)
  then obtain g1 y where g1: "gs_change hash (OIntern edge_type) g = Some (g1, y)" by (cases a) auto
  obtain dl1 where dl1: "dl_intern fz dl edge_type = (dl1, y)" "delta_rel hash deser fz dl1 g1"
    using delta_intern(1) [OF rel g1] by blast
  show ?thesis
  proof (cases "\<exists>src dst. gs_id hash g1 src_key = Some src \<and> gs_id hash g1 dst_key = Some dst")
    case True
    then obtain src dst where e: "gs_id hash g1 src_key = Some src" "gs_id hash g1 dst_key = Some dst" by blast
    obtain dl2 where "dl_add_edge dl1 y src dst = Some dl2" "delta_rel hash deser fz dl2 (g1\<lparr>gs_edges := insert (y, src, dst) (gs_edges g1)\<rparr>)"
      using delta_add_edge [OF dl1(2)] by blast
    then show ?thesis using g1 dl1 delta_reads(1) [OF dl1(2)] e by simp
  qed (use g1 dl1 delta_reads(1) [OF dl1(2)] in \<open>auto split: option.split\<close>)
qed simp

lemma sims_delete_edge:
  assumes rel: "delta_rel hash deser fz dl g"
  shows "sims hash deser fz (dl_apply hash deser fz (DeleteEdge edge_type src_key dst_key) dl) (gs_apply hash (DeleteEdge edge_type src_key dst_key) g)"
proof (cases "\<exists>etype src dst. get_sym (st_syms (gs_nodes g)) edge_type = Some etype \<and> gs_id hash g src_key = Some src \<and>
    gs_id hash g dst_key = Some dst")
  case True
  then obtain etype src dst where e: "get_sym (st_syms (gs_nodes g)) edge_type = Some etype"
      "gs_id hash g src_key = Some src" "gs_id hash g dst_key = Some dst" by blast
  obtain dl1 where "dl_remove_edge dl (etype, src, dst) = Some dl1"
      "delta_rel hash deser fz dl1 (g\<lparr>gs_edges := gs_edges g - {(etype, src, dst)}\<rparr>)"
    using delta_remove_edge [OF rel] by blast
  then show ?thesis using e delta_reads(1,2) [OF rel] by simp
qed (use rel delta_reads(1,2) [OF rel] in \<open>auto split: option.split\<close>)

lemma sims_rename:
  assumes rel: "delta_rel hash deser fz dl g"
  shows "sims hash deser fz (dl_apply hash deser fz (RenameNode old_key new_key) dl) (gs_apply hash (RenameNode old_key new_key) g)"
proof (cases "gs_id hash g old_key")
  case (Some i)
  note R = delta_reads(1) [OF rel]
  show ?thesis
  proof (cases "gs_id hash g new_key = None \<and> gs_change hash (ORename i old_key new_key) g \<noteq> None")
    case True
    then obtain g1 r where g1: "gs_change hash (ORename i old_key new_key) g = Some (g1, r)" by auto
    from delta_rename [OF rel Some _ g1] True show ?thesis using Some R g1 by auto
  qed (use Some R in auto)
qed (use rel delta_reads(1) [OF rel] in simp)

lemma delta_apply:
  "delta_rel hash deser fz dl g \<Longrightarrow> sims hash deser fz (dl_apply hash deser fz r dl) (gs_apply hash r g)"
  "delta_rel hash deser fz dl g \<Longrightarrow> sims hash deser fz (dl_apply_all hash deser fz rs dl) (gs_apply_all hash rs g)"
proof (induction hash r g and hash rs g arbitrary: dl and dl rule: gs_apply_gs_apply_all.induct)
  case (1 hash i name g)
  then show ?case
    using delta_intern(1) [OF 1] by (cases "gs_change hash (OIntern name) g") fastforce+
next
  case (2 hash label key props g)
  then show ?case by (rule sims_insert_id)
next
  case (3 hash label key props g)
  then show ?case by (rule sims_insert)
next
  case (4 hash i field x g)
  then show ?case using delta_reads(3) [OF 4] delta_set_prop [OF 4] by (simp split: option.split)
next
  case (5 hash key field x g)
  then show ?case using delta_reads(1) [OF 5] delta_set_prop [OF 5] by (simp split: option.split)
next
  case (6 hash key field g)
  then show ?case using delta_reads(1) [OF 6] delta_put [OF 6] by (simp add: pl_remove_def split: option.split)
next
  case (7 hash key g)
  then show ?case using delta_delete_node [OF 7] by (cases "gs_delete_node hash key g") fastforce+
next
  case (8 hash etype src dst g)
  then show ?case using delta_add_edge [OF 8, of etype src dst] by auto
next
  case (9 hash edge_type src_key dst_key g)
  then show ?case by (rule sims_insert_edge)
next
  case (10 hash edge_type src_key dst_key g)
  then show ?case by (rule sims_delete_edge)
next
  case (11 hash etype src dst n g)
  then show ?case using delta_eput [OF 11] by simp
next
  case (12 hash etype src dst field x g)
  then show ?case using delta_reads(3) [OF 12] delta_eput [OF 12] by (simp add: dl_field_name_def split: option.split)
next
  case (13 hash etype src dst field g)
  then show ?case
    using delta_reads(3) [OF 13] delta_remove_edge_prop [OF 13] by (simp add: dl_field_name_def split: option.split)
next
  case (14 hash old_key new_key g)
  then show ?case by (rule sims_rename)
next
  case (18 hash r rs g)
  show ?case unfolding dl_apply_all.simps gs_apply_all.simps
    by (rule sims_bind [OF 18(1) [OF 18(3)] 18(2)])
qed simp_all

section \<open>Whole commits\<close>

definition entry_ok :: "val edge_props_entry \<Rightarrow> bool" where
  "entry_ok entry \<longleftrightarrow> (\<forall>m. fst entry = Some m \<longrightarrow> \<not> snd entry \<longrightarrow> ssorted (keys m))"

definition commit_ok :: "commit_delta \<Rightarrow> bool" where
  "commit_ok cd \<longleftrightarrow> list_all (entry_ok \<circ> snd) (cd_eprops cd)"

lemma delta_derive:
  assumes "delta_rel hash deser fz dl g"
  shows "\<exists>dl'. dl_derive es dl = Some dl' \<and> delta_rel hash deser fz dl' (g\<lparr>gs_edges := gs_edges g \<union> set es\<rparr>)"
  using assms
proof (induction es arbitrary: dl g)
  case (Cons e es)
  obtain etype src dst where e: "e = (etype, src, dst)" by (cases e)
  obtain dl1 where dl1: "dl_add_edge dl etype src dst = Some dl1"
      "delta_rel hash deser fz dl1 (g\<lparr>gs_edges := insert e (gs_edges g)\<rparr>)"
    using delta_add_edge [OF Cons.prems] e by blast
  then show ?case using Cons.IH [OF dl1(2)] e by (simp add: Un_commute insert_commute)
qed simp

lemma delta_retract:
  assumes "delta_rel hash deser fz dl g"
  shows "\<exists>dl'. dl_retract es dl = Some dl' \<and> delta_rel hash deser fz dl' (g\<lparr>gs_edges := gs_edges g - set es\<rparr>)"
  using assms
proof (induction es arbitrary: dl g)
  case (Cons e es)
  obtain dl1 where dl1: "dl_remove_edge dl e = Some dl1" "delta_rel hash deser fz dl1 (g\<lparr>gs_edges := gs_edges g - {e}\<rparr>)"
    using delta_remove_edge [OF Cons.prems] by blast
  have "gs_edges g - {e} - set es = gs_edges g - set (e # es)" by auto
  then show ?case using Cons.IH [OF dl1(2)] dl1(1) by simp
qed simp

lemma delta_values:
  assumes "delta_rel hash deser fz dl g"
  shows "delta_rel hash deser fz (dl_values vs dl) (foldl (\<lambda>g (i, field, x). gs_put g i field x) g vs)"
  using assms unfolding dl_values_def
  by (induction vs arbitrary: dl g) (auto simp: dl_set_prop_def pl_set_def pl_remove_def delta_put split: option.split)

lemma restore_entry_over:
  assumes "ep_ok p" "entry_ok entry"
  shows "ep_ok (ep_restore_entry p e entry)"
    "lay_over (ep_restore_entry p e entry) below = (lay_over p below)(e := gs_entry below e entry)"
  using assms
  by (auto simp: ep_ok_def entry_ok_def ep_restore_entry_def map_of_alist_ins map_of_alist_del lay_over_def own_fields_def
      gs_entry_def fun_eq_iff split: option.splits if_splits)

lemma delta_restore:
  assumes "delta_rel hash deser fz dl g" "list_all (entry_ok \<circ> snd) es"
  shows "delta_rel hash deser fz (dl_restore es dl)
    (foldl (\<lambda>g (e, entry). g\<lparr>gs_eprop := (gs_eprop g)(e := gs_entry (fold_eprops deser fz) e entry)\<rparr>) g es)"
  using assms unfolding dl_restore_def
proof (induction es arbitrary: dl g)
  case (Cons a es)
  obtain e entry where a: "a = (e, entry)" by (cases a)
  have "delta_rel hash deser fz (dl\<lparr>dl_eprops := ep_restore_entry (dl_eprops dl) e entry\<rparr>)
      (g\<lparr>gs_eprop := (gs_eprop g)(e := gs_entry (fold_eprops deser fz) e entry)\<rparr>)"
    using restore_entry_over [OF delta_relD(6) [OF Cons.prems(1)], of entry e] Cons.prems(2) a
      delta_relD(7) [OF Cons.prems(1)] by (intro delta_eprops [OF Cons.prems(1)]) simp_all
  then show ?case using Cons.IH Cons.prems(2) a by (simp only: foldl.simps prod.case list.pred_inject)
qed simp

lemma delta_apply_delta:
  assumes rel: "delta_rel hash deser fz dl g" and entries: "commit_ok cd"
  shows "sims hash deser fz (dl_apply_delta hash deser fz cd dl) (gs_apply_delta hash (fold_eprops deser fz) cd g)"
  unfolding dl_apply_delta_def gs_apply_delta_def
proof (rule sims_bind [OF delta_apply(2) [OF rel]])
  fix dl1 g1 assume "delta_rel hash deser fz dl1 g1"
  then obtain dl2 where dl2: "dl_derive (cd_inserts cd) dl1 = Some dl2"
      "delta_rel hash deser fz dl2 (g1\<lparr>gs_edges := gs_edges g1 \<union> set (cd_inserts cd)\<rparr>)"
    using delta_derive by blast
  then obtain dl3 where dl3: "dl_retract (cd_deletes cd) dl2 = Some dl3"
      "delta_rel hash deser fz dl3 (g1\<lparr>gs_edges := gs_edges g1 \<union> set (cd_inserts cd) - set (cd_deletes cd)\<rparr>)"
    using delta_retract [OF dl2(2), of "cd_deletes cd"] by auto
  show "sims hash deser fz (case dl_derive (cd_inserts cd) dl1 of None \<Rightarrow> None | Some dl \<Rightarrow>
       (case dl_retract (cd_deletes cd) dl of None \<Rightarrow> None
        | Some dl \<Rightarrow> Some (Inr (dl_restore (cd_eprops cd) (dl_values (cd_values cd) dl)))))
     (let g = g1\<lparr>gs_edges := gs_edges g1 \<union> set (cd_inserts cd) - set (cd_deletes cd)\<rparr>;
          g = foldl (\<lambda>g (i, field, x). gs_put g i field x) g (cd_values cd)
      in Some (Inr (foldl (\<lambda>g (e, entry). g\<lparr>gs_eprop := (gs_eprop g)(e := gs_entry (fold_eprops deser fz) e entry)\<rparr>) g (cd_eprops cd))))"
    using dl2(1) dl3(1) delta_restore [OF delta_values [OF dl3(2)], of "cd_eprops cd" "cd_values cd"] entries
    by (simp add: Let_def commit_ok_def)
qed

lemma delta_extend:
  assumes "delta_rel hash deser fz dl g" "list_all commit_ok cds"
  shows "sims hash deser fz (dl_extend hash deser fz cds dl) (gs_extend hash (fold_eprops deser fz) cds g)"
  using assms
proof (induction cds arbitrary: dl g)
  case (Cons cd cds)
  show ?case unfolding dl_extend.simps gs_extend.simps
    by (rule sims_bind [OF delta_apply_delta [OF Cons.prems(1)]]) (use Cons in auto)
qed simp

section \<open>Properties\<close>

lemma delta_rel_new:
  assumes "frozen_ok hash fz"
  shows "delta_rel hash deser fz (delta_layer_new fz) (gs_of deser fz)"
proof -
  have "layer_rel hash (fz_nodes fz) (dl_nodes (delta_layer_new fz)) (fz_nodes fz)"
    using assms layer_rel_new [of hash "fz_nodes fz"] by (simp add: frozen_ok_def delta_layer_new_def)
  moreover have "view_edges (dl_topo_view fz (delta_layer_new fz)) =
      view_edges \<lparr>overlay = fz_topo fz, base = fz_csr fz, layer = None\<rparr>"
    by (simp add: view_edges_def dl_topo_view_def delta_layer_new_def topology_new_ok topology_new_tombs below_edges_def)
  moreover have "view_ok (dl_topo_view fz (delta_layer_new fz))"
    using assms by (simp add: frozen_ok_def view_ok_def dl_topo_view_def delta_layer_new_def topology_new_ok topology_new_tombs)
  moreover have "dl_prop fz (delta_layer_new fz) i field = fz_column fz i field" for i field
    by (simp add: dl_prop_def delta_layer_new_def prop_layer_new_def pl_get_def)
  ultimately show ?thesis
    using assms by (simp add: delta_rel_def frozen_ok_def gs_of_def gs_id_def edge_props_new_ok delta_layer_new_def)
qed


text \<open>Two nodes, a property and an edge over the empty fold.\<close>

definition empty_fold :: frozen where
  "empty_fold = \<lparr>fz_nodes = empty_store, fz_topo = topology_new, fz_csr = None, fz_column = (\<lambda>_ _. None),
     fz_eprops = edge_props_new, fz_ebase = None\<rparr>"

definition demo_commit :: commit_delta where
  "demo_commit = \<lparr>cd_records = [InsertNode ''P'' ''a'' [(''x'', VInt 1)], InsertNode ''P'' ''b'' [], InsertEdge ''K'' ''a'' ''b''],
     cd_inserts = [], cd_deletes = [], cd_values = [], cd_eprops = []\<rparr>"

lemma empty_fold_ok: "frozen_ok (\<lambda>_. 0) empty_fold"
proof -
  have len: "id_map_len id_map_new = 0" by (rule id_map_len_new)
  have "id_map_get (\<lambda>_. 0) id_map_new k \<noteq> Some i" for k i
    using id_map_get_slot [OF id_map_new_ok(1), of "\<lambda>_. 0" k i] len by simp
  moreover have "interner_len interner_new = 0" by (simp add: interner_len_def interner_new_def)
  ultimately show ?thesis
    using len by (simp add: frozen_ok_def empty_fold_def empty_store_def id_map_new_ok interner_ok_new topology_new_ok
        topology_new_tombs edge_props_new_ok view_ok_def)
qed

lemma demo_commit_state:
  "\<exists>g. gs_extend (\<lambda>_. 0) (fold_eprops (\<lambda>_. None) empty_fold) [demo_commit] (gs_of (\<lambda>_. None) empty_fold) = Some (Inr g) \<and>
    gs_edges g = {(1, 0, 1)} \<and> gs_prop g 0 ''x'' = Some (VInt 1) \<and> key_of (st_ids (gs_nodes g)) 0 = Some (Some ''a'')"
proof -
  let ?h = "\<lambda>_ :: string. 0 :: u64"
  have new: "id_map_ok ?h id_map_new" "id_map_abs id_map_new = ([], {})" by (rule id_map_new_ok)+
  obtain m1 where m1: "id_map_try_insert ?h id_map_new ''a'' = Some (m1, Inr 0)" "id_map_ok ?h m1" "id_map_abs m1 = ([''a''], {})"
    using id_map_try_insert_correct [OF new(1), of "''a''"] by (auto simp: new(2) spec_get_def)
  obtain m2 where m2: "id_map_try_insert ?h m1 ''b'' = Some (m2, Inr 1)" "id_map_ok ?h m2" "id_map_abs m2 = ([''a'', ''b''], {})"
    using id_map_try_insert_correct [OF m1(2), of "''b''"] by (auto simp: m1(3) spec_get_def)
  have gets: "id_map_get ?h id_map_new ''a'' = None" "id_map_get ?h m1 ''b'' = None" "id_map_get ?h m2 ''a'' = Some 0"
      "id_map_get ?h m2 ''b'' = Some 1"
    using spec_get_abs [OF new(1), of "''a''"] spec_get_abs [OF m1(2), of "''b''"] spec_get_abs [OF m2(2), of "''a''"]
      spec_get_abs [OF m2(2), of "''b''"] by (simp_all add: new(2) m1(3) m2(3) spec_get_def)
  have lens: "id_map_len id_map_new = 0" "id_map_len m1 = 1" "id_map_len m2 = 2"
    using id_map_len_new id_map_len_slots [OF m1(2)] id_map_len_slots [OF m2(2)] by (simp_all add: m1(3) m2(3))
  have "key_of m2 0 = Some (Some ''a'')" using key_of_correct [OF m2(2), of 0] m2(3) by (simp add: live_slot_def)
  moreover have "view_edges \<lparr>overlay = topology_new, base = None, layer = None\<rparr> = {}"
    by (simp add: view_edges_def below_edges_def topology_new_ok)
  ultimately show ?thesis
    using m1(1) m2(1) gets lens
    by (simp add: gs_apply_delta_def demo_commit_def gs_of_def empty_fold_def empty_store_def gs_change_def gs_insert_node_def
        gs_id_def intern_def interner_new_def interner_len_def bind_out_def gs_put_def Let_def)
qed


end
