(* ===== verification/Cypher_Lexer.thy ===== *)
theory Cypher_Lexer
  imports Prelude
begin

text \<open>
  The lexer of the Cypher subset, \<open>crates/core-query/src/cypher/lexer.rs\<close>. A \<open>str\<close> is the list of its
  characters, each its code point; \<open>char_indices\<close> pairs them with their byte positions, which only
  error messages use. A slice of the input between two positions is the list of the characters read
  between them. Reading a float from its text is the parameter \<open>parse_f64\<close>. Every error message is a
  constructor with the values formatted into it.
\<close>

section \<open>Characters\<close>

type_synonym uchar = nat

definition scalar :: "uchar \<Rightarrow> bool" where
  "scalar c \<longleftrightarrow> c < 0xD800 \<or> (0xE000 \<le> c \<and> c < 0x110000)"

definition len_utf8 :: "uchar \<Rightarrow> nat" where
  "len_utf8 c = (if c < 0x80 then 1 else if c < 0x800 then 2 else if c < 0x10000 then 3 else 4)"

fun char_indices :: "nat \<Rightarrow> uchar list \<Rightarrow> (nat \<times> uchar) list" where
  "char_indices p [] = []"
| "char_indices p (c # s) = (p, c) # char_indices (p + len_utf8 c) s"

abbreviation ch :: "char \<Rightarrow> uchar" where "ch c \<equiv> of_char c"

text \<open>\<open>char::is_whitespace\<close>: the Unicode property White\_Space.\<close>

definition is_whitespace :: "uchar \<Rightarrow> bool" where
  "is_whitespace c \<longleftrightarrow> (9 \<le> c \<and> c \<le> 13) \<or> c = 0x20 \<or> c = 0x85 \<or> c = 0xA0 \<or> c = 0x1680 \<or> (0x2000 \<le> c \<and> c \<le> 0x200A) \<or>
     c = 0x2028 \<or> c = 0x2029 \<or> c = 0x202F \<or> c = 0x205F \<or> c = 0x3000"

definition is_ascii_digit :: "uchar \<Rightarrow> bool" where "is_ascii_digit c \<longleftrightarrow> 48 \<le> c \<and> c \<le> 57"

definition is_ascii_alphabetic :: "uchar \<Rightarrow> bool" where
  "is_ascii_alphabetic c \<longleftrightarrow> (65 \<le> c \<and> c \<le> 90) \<or> (97 \<le> c \<and> c \<le> 122)"

definition is_ident_start :: "uchar \<Rightarrow> bool" where
  "is_ident_start c \<longleftrightarrow> is_ascii_alphabetic c \<or> c = 95"

definition is_ident_cont :: "uchar \<Rightarrow> bool" where
  "is_ident_cont c \<longleftrightarrow> is_ascii_alphabetic c \<or> is_ascii_digit c \<or> c = 95"

definition to_ascii_lowercase :: "uchar \<Rightarrow> uchar" where
  "to_ascii_lowercase c = (if 65 \<le> c \<and> c \<le> 90 then c + 32 else c)"

definition to_digit16 :: "uchar \<Rightarrow> nat option" where
  "to_digit16 c =
     (if 48 \<le> c \<and> c \<le> 57 then Some (c - 48)
      else if 97 \<le> c \<and> c \<le> 102 then Some (c - 97 + 10)
      else if 65 \<le> c \<and> c \<le> 70 then Some (c - 65 + 10) else None)"

definition from_u32 :: "nat \<Rightarrow> uchar option" where
  "from_u32 v = (if scalar v then Some v else None)"

section \<open>Tokens\<close>

datatype tok =
    TMatch | TWhere | TReturn | TOrder | TBy | TSkip | TLimit | TAs | TAnd | TOr | TNot | TAsc | TDesc
  | TWith | TUnwind | TOptional | TCreate | TSet | TDelete | TDetach | TMerge
  | TIdent "uchar list" | TStr "uchar list" | TInt int | TFloat u64 | TParam "uchar list"
  | LParen | RParen | LBracket | RBracket | LBrace | RBrace | Colon | Pipe | Comma | Dot
  | TEq | TNe | TLt | TLe | TGt | TGe | Dash | Star | Plus | Slash | Percent | Caret

datatype lex_error =
    RegexMatch
  | IllegalCharacter uchar nat
  | UnterminatedIdent nat
  | EmptyIdent nat
  | UnterminatedString nat
  | InvalidEscape uchar nat
  | InvalidUnicodeEscape nat
  | InvalidParameter nat
  | InvalidFloat nat
  | DigitExpected nat
  | InvalidInteger nat

type_synonym chars = "(nat \<times> uchar) list"

definition ascii :: "string \<Rightarrow> uchar list" where "ascii s = map of_char s"

definition keyword :: "uchar list \<Rightarrow> tok option" where
  "keyword word = map_of
     [(ascii ''match'', TMatch), (ascii ''where'', TWhere), (ascii ''return'', TReturn), (ascii ''order'', TOrder),
      (ascii ''by'', TBy), (ascii ''skip'', TSkip), (ascii ''limit'', TLimit), (ascii ''as'', TAs), (ascii ''and'', TAnd),
      (ascii ''or'', TOr), (ascii ''not'', TNot), (ascii ''asc'', TAsc), (ascii ''desc'', TDesc), (ascii ''with'', TWith),
      (ascii ''unwind'', TUnwind), (ascii ''optional'', TOptional), (ascii ''create'', TCreate), (ascii ''set'', TSet),
      (ascii ''delete'', TDelete), (ascii ''detach'', TDetach), (ascii ''merge'', TMerge)]
     (map to_ascii_lowercase word)"

section \<open>The parts of the lexer\<close>

fun lex_quoted_ident :: "nat \<Rightarrow> chars \<Rightarrow> uchar list \<Rightarrow> lex_error + (tok \<times> chars)" where
  "lex_quoted_ident start [] out = Inl (UnterminatedIdent start)"
| "lex_quoted_ident start ((p, c) # rest) out =
     (if c = ch CHR 0x60 then
        (case rest of
           (q, d) # rest' \<Rightarrow>
             if d = ch CHR 0x60 then lex_quoted_ident start rest' (out @ [d])
             else if out = [] then Inl (EmptyIdent start) else Inr (TIdent out, rest)
         | [] \<Rightarrow> if out = [] then Inl (EmptyIdent start) else Inr (TIdent out, rest))
      else lex_quoted_ident start rest (out @ [c]))"

fun hex_digits :: "nat \<Rightarrow> nat \<Rightarrow> chars \<Rightarrow> nat \<Rightarrow> lex_error + (nat \<times> chars)" where
  "hex_digits pos 0 cs v = Inr (v, cs)"
| "hex_digits pos (Suc n) [] v = Inl (InvalidUnicodeEscape pos)"
| "hex_digits pos (Suc n) ((_, c) # cs) v =
     (case to_digit16 c of None \<Rightarrow> Inl (InvalidUnicodeEscape pos) | Some d \<Rightarrow> hex_digits pos n cs (v * 16 + d))"

abbreviation hex4 :: "nat \<Rightarrow> chars \<Rightarrow> lex_error + (nat \<times> chars)" where "hex4 pos cs \<equiv> hex_digits pos 4 cs 0"

definition lex_unicode_escape :: "nat \<Rightarrow> chars \<Rightarrow> lex_error + (uchar \<times> chars)" where
  "lex_unicode_escape pos cs =
     (let bad = Inl (InvalidUnicodeEscape pos) in
      bind_res (hex4 pos cs) (\<lambda>(v1, cs).
        if 0xD800 \<le> v1 \<and> v1 < 0xDC00 then
          (case cs of
             (_, b) # (_, u) # cs \<Rightarrow>
               if b = ch CHR 0x5C \<and> u = ch CHR ''u'' then
                 bind_res (hex4 pos cs) (\<lambda>(v2, cs).
                   if 0xDC00 \<le> v2 \<and> v2 < 0xE000 then
                     (case from_u32 (0x10000 + (v1 - 0xD800) * 2 ^ 10 + (v2 - 0xDC00)) of
                        Some c \<Rightarrow> Inr (c, cs) | None \<Rightarrow> bad)
                   else bad)
               else bad
           | _ \<Rightarrow> bad)
        else (case from_u32 v1 of Some c \<Rightarrow> Inr (c, cs) | None \<Rightarrow> bad)))"

lemma hex_digits_shorter: "hex_digits pos n cs v = Inr (w, cs') \<Longrightarrow> length cs' + n = length cs"
  by (induction pos n cs v rule: hex_digits.induct) (auto split: option.splits)

lemma unicode_escape_shorter: "lex_unicode_escape pos cs = Inr (c, cs') \<Longrightarrow> length cs' < length cs"
  by (auto simp: lex_unicode_escape_def Let_def bind_res_Inr_iff split: if_splits list.splits option.splits
      dest!: hex_digits_shorter)

function lex_string :: "nat \<Rightarrow> uchar \<Rightarrow> chars \<Rightarrow> uchar list \<Rightarrow> lex_error + (tok \<times> chars)" where
  "lex_string start quote cs out =
     (case cs of
        [] \<Rightarrow> Inl (UnterminatedString start)
      | (_, c) # rest \<Rightarrow>
          if c = quote then Inr (TStr out, rest)
          else if c = ch CHR 0x5C then
            (case rest of
               [] \<Rightarrow> Inl (UnterminatedString start)
             | (pos, e) # rest' \<Rightarrow>
                 if e = ch CHR 0x27 \<or> e = ch CHR 0x22 \<or> e = ch CHR 0x5C then lex_string start quote rest' (out @ [e])
                 else if e = ch CHR ''n'' then lex_string start quote rest' (out @ [10])
                 else if e = ch CHR ''t'' then lex_string start quote rest' (out @ [9])
                 else if e = ch CHR ''r'' then lex_string start quote rest' (out @ [13])
                 else if e = ch CHR ''b'' then lex_string start quote rest' (out @ [8])
                 else if e = ch CHR ''f'' then lex_string start quote rest' (out @ [12])
                 else if e = ch CHR ''u'' then
                   (case lex_unicode_escape pos rest' of
                      Inl err \<Rightarrow> Inl err
                    | Inr (c, rest'') \<Rightarrow> lex_string start quote rest'' (out @ [c]))
                 else Inl (InvalidEscape e pos))
          else lex_string start quote rest (out @ [c]))"
  by pat_completeness auto
termination
  by (relation "measure (\<lambda>(start, quote, cs, out). length cs)") (auto dest: unicode_escape_shorter)

declare lex_string.simps [simp del]

text \<open>The characters of a run and what is left: the loops over \<open>peek\<close>.\<close>

definition run_of :: "(uchar \<Rightarrow> bool) \<Rightarrow> chars \<Rightarrow> uchar list" where "run_of P cs = map snd (takeWhile (P \<circ> snd) cs)"
definition after_run :: "(uchar \<Rightarrow> bool) \<Rightarrow> chars \<Rightarrow> chars" where "after_run P cs = dropWhile (P \<circ> snd) cs"

definition take_ident :: "chars \<Rightarrow> uchar list \<times> chars" where
  "take_ident cs = (case cs of [] \<Rightarrow> ([], []) | (_, c) # rest \<Rightarrow> (c # run_of is_ident_cont rest, after_run is_ident_cont rest))"

definition lex_param :: "nat \<Rightarrow> chars \<Rightarrow> lex_error + (tok \<times> chars)" where
  "lex_param start cs =
     (case cs of
        (_, c) # _ \<Rightarrow>
          if is_ident_start c then (case take_ident cs of (name, rest) \<Rightarrow> Inr (TParam name, rest))
          else Inl (InvalidParameter start)
      | [] \<Rightarrow> Inl (InvalidParameter start))"

text \<open>\<open>str::parse::<i64>\<close> of a run of digits.\<close>

definition digits_value :: "uchar list \<Rightarrow> nat" where "digits_value ds = foldl (\<lambda>v c. v * 10 + (c - 48)) 0 ds"

definition parse_i64_digits :: "uchar list \<Rightarrow> int option" where
  "parse_i64_digits ds = (if digits_value ds < 2 ^ 63 then Some (int (digits_value ds)) else None)"

definition lex_number :: "(uchar list \<Rightarrow> u64 option) \<Rightarrow> nat \<Rightarrow> uchar \<Rightarrow> chars \<Rightarrow> lex_error + (tok \<times> chars)" where
  "lex_number parse_f64 start first cs =
     (let whole = first # run_of is_ascii_digit cs; rest = after_run is_ascii_digit cs;
          integer = (case parse_i64_digits whole of Some v \<Rightarrow> Inr (TInt v, rest) | None \<Rightarrow> Inl (InvalidInteger start))
      in case rest of
           (_, dot) # rest' \<Rightarrow>
             if dot \<noteq> ch CHR ''.'' then integer
             else (case rest' of
                 (_, c) # _ \<Rightarrow>
                   if is_ascii_digit c then
                     (case parse_f64 (whole @ [dot] @ run_of is_ascii_digit rest') of
                        Some v \<Rightarrow> Inr (TFloat v, after_run is_ascii_digit rest')
                      | None \<Rightarrow> Inl (InvalidFloat start))
                   else if c = ch CHR ''.'' then integer
                   else Inl (DigitExpected start)
               | [] \<Rightarrow> Inl (DigitExpected start))
         | [] \<Rightarrow> integer)"

definition lex_word :: "uchar \<Rightarrow> chars \<Rightarrow> tok \<times> chars" where
  "lex_word first cs =
     (let word = first # run_of is_ident_cont cs
      in (case keyword word of Some t \<Rightarrow> t | None \<Rightarrow> TIdent word, after_run is_ident_cont cs))"

definition next_is :: "char \<Rightarrow> chars \<Rightarrow> bool" where
  "next_is c cs \<longleftrightarrow> (case cs of (_, d) # _ \<Rightarrow> d = ch c | [] \<Rightarrow> False)"

definition punct :: "uchar \<Rightarrow> tok option" where
  "punct c = map_of
     [(ch CHR ''('', LParen), (ch CHR '')'', RParen), (ch CHR ''['', LBracket), (ch CHR '']'', RBracket),
      (ch CHR ''{'', LBrace), (ch CHR ''}'', RBrace), (ch CHR '':'', Colon), (ch CHR ''|'', Pipe), (ch CHR '','', Comma),
      (ch CHR ''.'', Dot), (ch CHR ''='', TEq), (ch CHR ''*'', Star), (ch CHR ''-'', Dash), (ch CHR ''+'', Plus),
      (ch CHR ''/'', Slash), (ch CHR ''%'', Percent), (ch CHR ''^'', Caret)] c"

text \<open>One turn of the main loop: the token the first character starts, if any, and what is left.\<close>

definition lex_one :: "(uchar list \<Rightarrow> u64 option) \<Rightarrow> nat \<Rightarrow> uchar \<Rightarrow> chars \<Rightarrow> lex_error + (tok list \<times> chars)" where
  "lex_one parse_f64 i c cs =
     (if is_whitespace c then Inr ([], cs)
      else if c = ch CHR ''='' \<and> next_is CHR ''~'' cs then Inl RegexMatch
      else case punct c of
        Some t \<Rightarrow> Inr ([t], cs)
      | None \<Rightarrow>
          if c = ch CHR ''<'' then
            (if next_is CHR ''='' cs then Inr ([TLe], tl cs) else if next_is CHR ''>'' cs then Inr ([TNe], tl cs) else Inr ([TLt], cs))
          else if c = ch CHR ''>'' then (if next_is CHR ''='' cs then Inr ([TGe], tl cs) else Inr ([TGt], cs))
          else if c = ch CHR 0x27 \<or> c = ch CHR 0x22 then bind_res (lex_string i c cs []) (\<lambda>(t, cs). Inr ([t], cs))
          else if c = ch CHR 0x60 then bind_res (lex_quoted_ident i cs []) (\<lambda>(t, cs). Inr ([t], cs))
          else if c = ch CHR ''$'' then bind_res (lex_param i cs) (\<lambda>(t, cs). Inr ([t], cs))
          else if is_ascii_digit c then bind_res (lex_number parse_f64 i c cs) (\<lambda>(t, cs). Inr ([t], cs))
          else if is_ident_start c then (case lex_word c cs of (t, cs) \<Rightarrow> Inr ([t], cs))
          else Inl (IllegalCharacter c i))"

lemma after_run_shorter: "length (after_run P cs) \<le> length cs"
  by (simp add: after_run_def length_dropWhile_le)

lemma string_shorter_upto:
  "length cs \<le> n \<Longrightarrow> lex_string start quote cs out = Inr (t, cs') \<Longrightarrow> length cs' < length cs"
proof (induction n arbitrary: cs out)
  case 0
  then show ?case by (simp add: lex_string.simps)
next
  case (Suc n)
  note unicode_escape_shorter [dest]
  show ?case
    using Suc.prems unfolding lex_string.simps [of start quote cs out]
    by (auto split: list.splits if_splits sum.splits prod.splits dest!: Suc.IH [rotated])
qed

lemmas string_shorter = string_shorter_upto [OF order.refl]

lemma quoted_shorter_upto:
  "length cs \<le> n \<Longrightarrow> lex_quoted_ident start cs out = Inr (t, cs') \<Longrightarrow> length cs' < length cs"
proof (induction n arbitrary: cs out)
  case (Suc n)
  show ?case
  proof (cases cs)
    case (Cons a rest)
    obtain p c where a: "a = (p, c)" by (cases a)
    show ?thesis
      using Suc.prems(1) Suc.prems(2) [unfolded Cons a lex_quoted_ident.simps] unfolding Cons
      by (auto split: list.splits if_splits dest!: Suc.IH [rotated])
  qed (use Suc.prems in simp)
qed simp

lemmas quoted_shorter = quoted_shorter_upto [OF order.refl]

lemma param_shorter: "lex_param start cs = Inr (t, cs') \<Longrightarrow> length cs' \<le> length cs"
  using after_run_shorter [of is_ident_cont "tl cs"]
  by (auto simp: lex_param_def take_ident_def split: list.splits if_splits)

lemma number_shorter:
  assumes "lex_number parse_f64 start c cs = Inr (t, cs')" shows "length cs' \<le> length cs"
proof -
  let ?rest = "after_run is_ascii_digit cs"
  have "length ?rest \<le> length cs" "length (after_run is_ascii_digit (tl ?rest)) \<le> length cs"
    using after_run_shorter [of is_ascii_digit cs] after_run_shorter [of is_ascii_digit "tl ?rest"] by simp_all
  moreover have "cs' = ?rest \<or> cs' = after_run is_ascii_digit (tl ?rest)"
    using assms by (auto simp: lex_number_def Let_def split: list.splits if_splits option.splits)
  ultimately show ?thesis by auto
qed

lemma lex_one_shorter: "lex_one parse_f64 i c cs = Inr (ts, cs') \<Longrightarrow> length cs' \<le> length cs"
  using after_run_shorter [of is_ident_cont cs]
  by (auto simp: lex_one_def bind_res_Inr_iff lex_word_def Let_def split: if_splits option.splits
      dest: string_shorter quoted_shorter param_shorter number_shorter)

function lex_loop :: "(uchar list \<Rightarrow> u64 option) \<Rightarrow> chars \<Rightarrow> tok list \<Rightarrow> lex_error + tok list" where
  "lex_loop parse_f64 [] toks = Inr toks"
| "lex_loop parse_f64 ((i, c) # cs) toks =
     (case lex_one parse_f64 i c cs of Inl e \<Rightarrow> Inl e | Inr (ts, cs) \<Rightarrow> lex_loop parse_f64 cs (toks @ ts))"
  by pat_completeness auto
termination
  by (relation "measure (\<lambda>(_, cs, _). length cs)") (auto dest: lex_one_shorter)

definition lex :: "(uchar list \<Rightarrow> u64 option) \<Rightarrow> uchar list \<Rightarrow> lex_error + tok list" where
  "lex parse_f64 input = lex_loop parse_f64 (char_indices 0 input) []"

section \<open>Spelling tokens\<close>

text \<open>A spelling of every token: words in lower case, identifiers in backticks, strings in single quotes with
  everything outside printable ASCII as \<open>u\<close> escapes, surrogate pairs included. Floats are spelled by the
  parameter \<open>show_f64\<close>.\<close>

fun dec_digits :: "nat \<Rightarrow> uchar list" where
  "dec_digits n = (if n < 10 then [48 + n] else dec_digits (n div 10) @ [48 + n mod 10])"

declare dec_digits.simps [simp del]

definition hex_char :: "nat \<Rightarrow> uchar" where "hex_char d = (if d < 10 then 48 + d else 87 + d)"

definition hex4_text :: "nat \<Rightarrow> uchar list" where
  "hex4_text v = [hex_char (v div 4096 mod 16), hex_char (v div 256 mod 16), hex_char (v div 16 mod 16), hex_char (v mod 16)]"

definition u_escape :: "nat \<Rightarrow> uchar list" where "u_escape v = ch CHR 0x5C # ch CHR ''u'' # hex4_text v"

definition spell_char :: "uchar \<Rightarrow> uchar list" where
  "spell_char c =
     (if c = ch CHR 0x27 \<or> c = ch CHR 0x5C then [ch CHR 0x5C, c]
      else if 0x20 \<le> c \<and> c < 0x7F then [c]
      else if c < 0x10000 then u_escape c
      else u_escape (0xD800 + (c - 0x10000) div 1024) @ u_escape (0xDC00 + (c - 0x10000) mod 1024))"

definition spell_ident_char :: "uchar \<Rightarrow> uchar list" where
  "spell_ident_char c = (if c = ch CHR 0x60 then [c, c] else [c])"

definition fixed_spelling :: "(tok \<times> uchar list) list" where
  "fixed_spelling =
     [(TMatch, ascii ''match''), (TWhere, ascii ''where''), (TReturn, ascii ''return''), (TOrder, ascii ''order''),
      (TBy, ascii ''by''), (TSkip, ascii ''skip''), (TLimit, ascii ''limit''), (TAs, ascii ''as''), (TAnd, ascii ''and''),
      (TOr, ascii ''or''), (TNot, ascii ''not''), (TAsc, ascii ''asc''), (TDesc, ascii ''desc''), (TWith, ascii ''with''),
      (TUnwind, ascii ''unwind''), (TOptional, ascii ''optional''), (TCreate, ascii ''create''), (TSet, ascii ''set''),
      (TDelete, ascii ''delete''), (TDetach, ascii ''detach''), (TMerge, ascii ''merge''),
      (LParen, ascii ''(''), (RParen, ascii '')''), (LBracket, ascii ''[''), (RBracket, ascii '']''), (LBrace, ascii ''{''),
      (RBrace, ascii ''}''), (Colon, ascii '':''), (Pipe, ascii ''|''), (Comma, ascii '',''), (Dot, ascii ''.''),
      (TEq, ascii ''=''), (TNe, ascii ''<>''), (TLt, ascii ''<''), (TLe, ascii ''<=''), (TGt, ascii ''>''), (TGe, ascii ''>=''),
      (Dash, ascii ''-''), (Star, ascii ''*''), (Plus, ascii ''+''), (Slash, ascii ''/''), (Percent, ascii ''%''), (Caret, ascii ''^'')]"

fun spell :: "(u64 \<Rightarrow> uchar list) \<Rightarrow> tok \<Rightarrow> uchar list" where
  "spell show_f64 (TIdent s) = [ch CHR 0x60] @ concat (map spell_ident_char s) @ [ch CHR 0x60]"
| "spell show_f64 (TStr s) = [ch CHR 0x27] @ concat (map spell_char s) @ [ch CHR 0x27]"
| "spell show_f64 (TInt i) = dec_digits (nat i)"
| "spell show_f64 (TFloat f) = show_f64 f"
| "spell show_f64 (TParam s) = ch CHR ''$'' # s"
| "spell show_f64 t = the (map_of fixed_spelling t)"

definition spell_all :: "(u64 \<Rightarrow> uchar list) \<Rightarrow> tok list \<Rightarrow> uchar list" where
  "spell_all show_f64 toks = concat (map (\<lambda>t. spell show_f64 t @ [0x20]) toks)"

text \<open>The shape of a token: what the lexer can produce.\<close>

definition is_ident :: "uchar list \<Rightarrow> bool" where
  "is_ident s \<longleftrightarrow> (case s of [] \<Rightarrow> False | c # cs \<Rightarrow> is_ident_start c \<and> list_all is_ident_cont cs)"

fun tok_ok :: "tok \<Rightarrow> bool" where
  "tok_ok (TIdent s) \<longleftrightarrow> s \<noteq> [] \<and> list_all scalar s"
| "tok_ok (TStr s) \<longleftrightarrow> list_all scalar s"
| "tok_ok (TInt i) \<longleftrightarrow> 0 \<le> i \<and> i < 2 ^ 63"
| "tok_ok (TParam s) \<longleftrightarrow> is_ident s"
| "tok_ok _ \<longleftrightarrow> True"

text \<open>What is asked of the two float parameters: a float's text is digits, a point and digits, and reads back
  as that float.\<close>

definition float_text :: "(uchar list \<Rightarrow> u64 option) \<Rightarrow> (u64 \<Rightarrow> uchar list) \<Rightarrow> u64 \<Rightarrow> bool" where
  "float_text parse_f64 show_f64 f \<longleftrightarrow> parse_f64 (show_f64 f) = Some f \<and>
     (\<exists>a b. show_f64 f = a @ [ch CHR ''.''] @ b \<and> a \<noteq> [] \<and> b \<noteq> [] \<and> list_all is_ascii_digit (a @ b))"

section \<open>Reading a spelling back\<close>

lemma char_indices_append:
  "char_indices p (s @ t) = char_indices p s @ char_indices (p + sum_list (map len_utf8 s)) t"
  by (induction s arbitrary: p) (simp_all add: add.assoc)

lemma run_of_indices:
  assumes "list_all P s" "\<not> P c"
  shows "run_of P (char_indices p (s @ c # r)) = s"
    "after_run P (char_indices p (s @ c # r)) = char_indices (p + sum_list (map len_utf8 s)) (c # r)"
proof -
  have all: "list_all P s \<Longrightarrow> \<forall>x \<in> set (char_indices q s). P (snd x)" for q s by (induction s arbitrary: q) auto
  have snd: "map snd (char_indices q s) = s" for q s by (induction s arbitrary: q) auto
  show "run_of P (char_indices p (s @ c # r)) = s"
    "after_run P (char_indices p (s @ c # r)) = char_indices (p + sum_list (map len_utf8 s)) (c # r)"
    using all [OF assms(1)] assms(2) snd
    by (simp_all add: run_of_def after_run_def char_indices_append takeWhile_append2 dropWhile_append2 comp_def)
qed

lemma hex_char_digit: "d < 16 \<Longrightarrow> to_digit16 (hex_char d) = Some d \<and> len_utf8 (hex_char d) = 1"
  by (auto simp: to_digit16_def hex_char_def len_utf8_def)

lemma hex4_reads:
  assumes "v < 0x10000"
  shows "hex4 pos (char_indices p (hex4_text v @ r)) = Inr (v, char_indices (p + 4) r)"
proof -
  have "v div 4096 mod 16 = v div 16 div 16 div 16" using assms by (simp add: div_mult2_eq [symmetric])
  moreover have "v div 256 mod 16 = v div 16 div 16 mod 16" by (simp add: div_mult2_eq [symmetric])
  moreover have "x div 16 * 16 + x mod 16 = x" for x :: nat by simp
  ultimately have v: "((v div 4096 mod 16 * 16 + v div 256 mod 16) * 16 + v div 16 mod 16) * 16 + v mod 16 = v" by metis
  have "hex_digits pos (Suc (Suc (Suc (Suc 0)))) (char_indices p (hex4_text v @ r)) 0 =
      Inr (((v div 4096 mod 16 * 16 + v div 256 mod 16) * 16 + v div 16 mod 16) * 16 + v mod 16, char_indices (Suc (Suc (Suc (Suc p)))) r)"
    by (simp add: hex4_text_def hex_char_digit del: add_mult_distrib add_mult_distrib2)
  moreover have "(4 :: nat) = Suc (Suc (Suc (Suc 0)))" "p + 4 = Suc (Suc (Suc (Suc p)))" by simp_all
  ultimately show ?thesis using v by (simp only:)
qed

lemma unicode_escape_reads:
  assumes "scalar c" "c < 0x10000"
  shows "lex_unicode_escape pos (char_indices p (hex4_text c @ r)) = Inr (c, char_indices (p + 4) r)"
  using assms by (simp add: lex_unicode_escape_def hex4_reads from_u32_def Let_def) (auto simp: scalar_def)

lemma unicode_pair_reads:
  assumes "scalar c" "0x10000 \<le> c"
  shows "\<exists>p'. lex_unicode_escape pos (char_indices p (hex4_text (0xD800 + (c - 0x10000) div 1024) @
    u_escape (0xDC00 + (c - 0x10000) mod 1024) @ r)) = Inr (c, char_indices p' r)"
proof -
  let ?v = "c - 0x10000"
  have "?v < 0x100000" using assms by (auto simp: scalar_def)
  then have hi: "?v div 1024 < 1024" by (simp add: less_mult_imp_div_less)
  have lo: "?v mod 1024 < 1024" by simp
  have "0x10000 + ?v div 1024 * 2 ^ 10 + ?v mod 1024 = c" using assms(2) div_mult_mod_eq [of ?v 1024] by simp
  then show ?thesis
    using hi lo assms(1) hex4_reads [of "0xD800 + ?v div 1024"] hex4_reads [of "0xDC00 + ?v mod 1024"]
    by (simp add: lex_unicode_escape_def u_escape_def from_u32_def Let_def) blast
qed

lemma string_char_reads:
  assumes "scalar c"
  shows "\<exists>p'. lex_string start (ch CHR 0x27) (char_indices p (spell_char c @ r)) out =
    lex_string start (ch CHR 0x27) (char_indices p' r) (out @ [c])"
proof -
  consider "c = 0x27 \<or> c = 0x5C" | "c \<noteq> 0x27" "c \<noteq> 0x5C" "0x20 \<le> c" "c < 0x7F"
    | "\<not> (0x20 \<le> c \<and> c < 0x7F)" "c < 0x10000" | "0x10000 \<le> c" by linarith
  then show ?thesis
  proof cases
    case 1
    then show ?thesis by (subst lex_string.simps) (auto simp: spell_char_def)
  next
    case 2
    then show ?thesis by (subst lex_string.simps) (auto simp: spell_char_def)
  next
    case 3
    then have "spell_char c = u_escape c" by (auto simp: spell_char_def)
    then show ?thesis
      using unicode_escape_reads [OF assms 3(2)] by (subst lex_string.simps) (auto simp: u_escape_def)
  next
    case 4
    then have "spell_char c = u_escape (0xD800 + (c - 0x10000) div 1024) @ u_escape (0xDC00 + (c - 0x10000) mod 1024)"
      by (auto simp: spell_char_def)
    then have sp: "spell_char c @ r = ch CHR 0x5C # ch CHR ''u'' # hex4_text (0xD800 + (c - 0x10000) div 1024) @
        u_escape (0xDC00 + (c - 0x10000) mod 1024) @ r" by (simp add: u_escape_def)
    obtain p' where "lex_unicode_escape (p + len_utf8 0x5C) (char_indices (p + len_utf8 0x5C + len_utf8 (ch CHR ''u''))
        (hex4_text (0xD800 + (c - 0x10000) div 1024) @ u_escape (0xDC00 + (c - 0x10000) mod 1024) @ r)) = Inr (c, char_indices p' r)"
      using unicode_pair_reads [OF assms 4] by blast
    then show ?thesis unfolding sp by (subst lex_string.simps) (auto simp: add.assoc)
  qed
qed

lemma string_reads:
  "list_all scalar s \<Longrightarrow> \<exists>p'. lex_string start (ch CHR 0x27) (char_indices p (concat (map spell_char s) @ ch CHR 0x27 # r)) out =
    Inr (TStr (out @ s), char_indices p' r)"
proof (induction s arbitrary: p out)
  case Nil
  then show ?case by (subst lex_string.simps) auto
next
  case (Cons c s)
  obtain p1 where p1: "lex_string start (ch CHR 0x27) (char_indices p (spell_char c @ concat (map spell_char s) @ ch CHR 0x27 # r)) out =
      lex_string start (ch CHR 0x27) (char_indices p1 (concat (map spell_char s) @ ch CHR 0x27 # r)) (out @ [c])"
    using string_char_reads [of c start p "concat (map spell_char s) @ ch CHR 0x27 # r" out] Cons.prems by auto
  then show ?case using Cons.IH [of p1 "out @ [c]"] Cons.prems by simp
qed

lemma ident_reads:
  assumes "s \<noteq> [] \<or> out \<noteq> []"
  shows "\<exists>p'. lex_quoted_ident start (char_indices p (concat (map spell_ident_char s) @ ch CHR 0x60 # 0x20 # r)) out =
    Inr (TIdent (out @ s), char_indices p' (0x20 # r))"
  using assms
proof (induction s arbitrary: p out)
  case Nil
  then show ?case by auto
next
  case (Cons c s)
  have step: "\<exists>p'. lex_quoted_ident start (char_indices p (spell_ident_char c @ t)) out = lex_quoted_ident start (char_indices p' t) (out @ [c])" for t
    by (auto simp: spell_ident_char_def)
  obtain p1 where "lex_quoted_ident start (char_indices p (spell_ident_char c @ concat (map spell_ident_char s) @ ch CHR 0x60 # 0x20 # r)) out =
      lex_quoted_ident start (char_indices p1 (concat (map spell_ident_char s) @ ch CHR 0x60 # 0x20 # r)) (out @ [c])"
    using step by blast
  then show ?case using Cons.IH [of "out @ [c]" p1] by simp
qed

lemma dec_digits_reads: "digits_value (dec_digits n) = n \<and> list_all is_ascii_digit (dec_digits n) \<and> dec_digits n \<noteq> []"
proof (induction n rule: dec_digits.induct)
  case (1 n)
  show ?case
  proof (cases "n < 10")
    case True
    then show ?thesis by (subst (1 2 3) dec_digits.simps) (simp add: digits_value_def is_ascii_digit_def)
  next
    case False
    have "is_ascii_digit (48 + n mod 10)" by (simp add: is_ascii_digit_def)
    then show ?thesis using 1 False by (subst (1 2 3) dec_digits.simps) (simp add: digits_value_def)
  qed
qed

text \<open>Which branch of the main loop a first character takes.\<close>

lemma ident_start_branch:
  assumes "is_ident_start c"
  shows "lex_one parse_f64 i c cs = (case lex_word c cs of (t, cs) \<Rightarrow> Inr ([t], cs))"
proof -
  have "\<not> is_whitespace c" "punct c = None" "\<not> is_ascii_digit c" "c \<notin> {0x3C, 0x3E, 0x27, 0x22, 0x60, 0x24, 0x3D}"
    using assms by (auto simp: is_ident_start_def is_ascii_alphabetic_def is_whitespace_def punct_def is_ascii_digit_def)
  then show ?thesis using assms by (simp add: lex_one_def)
qed

lemma digit_branch:
  assumes "is_ascii_digit c"
  shows "lex_one parse_f64 i c cs = bind_res (lex_number parse_f64 i c cs) (\<lambda>(t, cs). Inr ([t], cs))"
proof -
  have "\<not> is_whitespace c" "punct c = None" "c \<notin> {0x3C, 0x3E, 0x27, 0x22, 0x60, 0x24, 0x3D}"
    using assms by (auto simp: is_ascii_digit_def is_whitespace_def punct_def)
  then show ?thesis using assms by (simp add: lex_one_def)
qed

lemma quote_branches:
  "lex_one parse_f64 i (ch CHR 0x27) cs = bind_res (lex_string i (ch CHR 0x27) cs []) (\<lambda>(t, cs). Inr ([t], cs))"
  "lex_one parse_f64 i (ch CHR 0x60) cs = bind_res (lex_quoted_ident i cs []) (\<lambda>(t, cs). Inr ([t], cs))"
  "lex_one parse_f64 i (ch CHR ''$'') cs = bind_res (lex_param i cs) (\<lambda>(t, cs). Inr ([t], cs))"
  by (simp_all add: lex_one_def is_whitespace_def punct_def)

text \<open>A token's spelling with a blank behind it is read as that token, up to the blank.\<close>

definition reads_as :: "(uchar list \<Rightarrow> u64 option) \<Rightarrow> uchar list \<Rightarrow> tok \<Rightarrow> bool" where
  "reads_as parse_f64 w t \<longleftrightarrow> (\<forall>p r. \<exists>c cs p'. char_indices p (w @ 0x20 # r) = (p, c) # cs \<and>
     lex_one parse_f64 p c cs = Inr ([t], char_indices p' (0x20 # r)))"

lemma word_reads:
  assumes "is_ident w" "keyword w = Some t"
  shows "reads_as parse_f64 w t"
proof -
  obtain c cs where w: "w = c # cs" "is_ident_start c" "list_all is_ident_cont cs"
    using assms(1) by (auto simp: is_ident_def split: list.splits)
  have "\<not> is_ident_cont 0x20" by (simp add: is_ident_cont_def is_ascii_alphabetic_def is_ascii_digit_def)
  then show ?thesis
    using run_of_indices [OF w(3)] assms(2) w
    by (simp add: reads_as_def ident_start_branch lex_word_def Let_def)
qed

lemma keyword_reads:
  "(t, w) \<in> set (take 21 fixed_spelling) \<Longrightarrow> reads_as parse_f64 w t"
  by (rule word_reads)
    (auto simp: fixed_spelling_def is_ident_def is_ident_start_def is_ident_cont_def is_ascii_alphabetic_def ascii_def
      keyword_def to_ascii_lowercase_def)

lemma char_reads:
  assumes "\<And>p cs. \<not> next_is CHR ''~'' cs \<Longrightarrow> \<not> next_is CHR ''='' cs \<Longrightarrow> \<not> next_is CHR ''>'' cs \<Longrightarrow> lex_one parse_f64 p c cs = Inr ([t], cs)"
  shows "reads_as parse_f64 [c] t"
  unfolding reads_as_def
proof (intro allI)
  fix p r
  have "lex_one parse_f64 p c (char_indices (p + len_utf8 c) (0x20 # r)) = Inr ([t], char_indices (p + len_utf8 c) (0x20 # r))"
    by (rule assms) (simp_all add: next_is_def)
  then show "\<exists>d cs p'. char_indices p ([c] @ 0x20 # r) = (p, d) # cs \<and>
      lex_one parse_f64 p d cs = Inr ([t], char_indices p' (0x20 # r))" by auto
qed

lemma punct_reads:
  "(t, w) \<in> set (drop 21 fixed_spelling) \<Longrightarrow> reads_as parse_f64 w t"
proof -
  have single: "reads_as parse_f64 [c] t" if "punct c = Some t" "\<not> is_whitespace c" for c t
    using that by (intro char_reads) (simp add: lex_one_def)
  have "reads_as parse_f64 [ch CHR ''<''] TLt" "reads_as parse_f64 [ch CHR ''>''] TGt"
    by (intro char_reads; simp add: lex_one_def is_whitespace_def punct_def)+
  moreover have "reads_as parse_f64 [ch CHR ''<'', ch CHR ''=''] TLe" "reads_as parse_f64 [ch CHR ''<'', ch CHR ''>''] TNe"
      "reads_as parse_f64 [ch CHR ''>'', ch CHR ''=''] TGe"
    by (fastforce simp: reads_as_def lex_one_def is_whitespace_def punct_def next_is_def)+
  moreover assume "(t, w) \<in> set (drop 21 fixed_spelling)"
  ultimately show ?thesis
    using single by (auto simp: fixed_spelling_def ascii_def) (auto intro!: single simp: punct_def is_whitespace_def)
qed

lemma blank_ends_runs: "\<not> is_ident_cont 0x20" "\<not> is_ascii_digit 0x20" "\<not> is_ascii_digit (ch CHR ''.'')"
  by (simp_all add: is_ident_cont_def is_ascii_alphabetic_def is_ascii_digit_def)

lemma str_spelling_reads: "list_all scalar s \<Longrightarrow> reads_as parse_f64 (spell show_f64 (TStr s)) (TStr s)"
  unfolding reads_as_def
proof (intro allI)
  fix p r
  assume "list_all scalar s"
  then obtain p' where "lex_string p (ch CHR 0x27) (char_indices (p + len_utf8 (ch CHR 0x27))
      (concat (map spell_char s) @ ch CHR 0x27 # 0x20 # r)) [] = Inr (TStr ([] @ s), char_indices p' (0x20 # r))"
    using string_reads by blast
  then show "\<exists>c cs p'. char_indices p (spell show_f64 (TStr s) @ 0x20 # r) = (p, c) # cs \<and>
      lex_one parse_f64 p c cs = Inr ([TStr s], char_indices p' (0x20 # r))"
    using quote_branches(1) [of parse_f64 p] by auto
qed

lemma ident_spelling_reads: "s \<noteq> [] \<Longrightarrow> reads_as parse_f64 (spell show_f64 (TIdent s)) (TIdent s)"
  unfolding reads_as_def
proof (intro allI)
  fix p r
  assume "s \<noteq> []"
  then obtain p' where "lex_quoted_ident p (char_indices (p + len_utf8 (ch CHR 0x60))
      (concat (map spell_ident_char s) @ ch CHR 0x60 # 0x20 # r)) [] = Inr (TIdent ([] @ s), char_indices p' (0x20 # r))"
    using ident_reads [of s "[]" p] by blast
  then show "\<exists>c cs p'. char_indices p (spell show_f64 (TIdent s) @ 0x20 # r) = (p, c) # cs \<and>
      lex_one parse_f64 p c cs = Inr ([TIdent s], char_indices p' (0x20 # r))"
    using quote_branches(2) [of parse_f64 p] by auto
qed

lemma param_spelling_reads:
  assumes "is_ident s"
  shows "reads_as parse_f64 (spell show_f64 (TParam s)) (TParam s)"
proof -
  obtain c cs where s: "s = c # cs" "is_ident_start c" "list_all is_ident_cont cs"
    using assms by (auto simp: is_ident_def split: list.splits)
  then show ?thesis
    using run_of_indices [OF s(3) blank_ends_runs(1)] quote_branches(3)
    by (simp add: reads_as_def lex_param_def take_ident_def)
qed

lemma int_spelling_reads:
  assumes "0 \<le> i" "i < 2 ^ 63"
  shows "reads_as parse_f64 (spell show_f64 (TInt i)) (TInt i)"
proof -
  note d = dec_digits_reads [of "nat i"]
  obtain c cs where w: "dec_digits (nat i) = c # cs" "is_ascii_digit c" "list_all is_ascii_digit cs"
    using d by (cases "dec_digits (nat i)") auto
  have "nat i < 2 ^ 63" using assms by (simp add: nat_less_iff)
  then have "parse_i64_digits (c # cs) = Some i" using d assms(1) unfolding parse_i64_digits_def w(1) by simp
  then show ?thesis
    using w run_of_indices [OF w(3) blank_ends_runs(2)]
    by (simp add: reads_as_def digit_branch lex_number_def Let_def)
qed

lemma float_spelling_reads:
  assumes "float_text parse_f64 show_f64 f"
  shows "reads_as parse_f64 (spell show_f64 (TFloat f)) (TFloat f)"
proof -
  obtain c as d bs where sh: "show_f64 f = (c # as) @ [ch CHR ''.''] @ d # bs" "is_ascii_digit c" "is_ascii_digit d"
      "list_all is_ascii_digit as" "list_all is_ascii_digit bs" and ok: "parse_f64 (show_f64 f) = Some f"
    using assms by (auto simp: float_text_def neq_Nil_conv)
  have "parse_f64 ((c # as) @ [ch CHR ''.''] @ d # bs) = Some f" using ok sh(1) by simp
  moreover have "list_all is_ascii_digit (d # bs)" using sh by simp
  ultimately show ?thesis
    using sh run_of_indices [OF sh(4) blank_ends_runs(3)] run_of_indices [of is_ascii_digit "d # bs", OF _ blank_ends_runs(2)]
    by (simp add: reads_as_def digit_branch lex_number_def Let_def)
qed

fun float_ok :: "(uchar list \<Rightarrow> u64 option) \<Rightarrow> (u64 \<Rightarrow> uchar list) \<Rightarrow> tok \<Rightarrow> bool" where
  "float_ok parse_f64 show_f64 (TFloat f) \<longleftrightarrow> float_text parse_f64 show_f64 f"
| "float_ok parse_f64 show_f64 _ \<longleftrightarrow> True"

lemma fixed_reads: "(t, w) \<in> set fixed_spelling \<Longrightarrow> reads_as parse_f64 w t"
  using keyword_reads [of t w] punct_reads [of t w] by (metis Un_iff append_take_drop_id set_append)

lemma fixed_spelling_of: "map_of fixed_spelling t = Some w \<Longrightarrow> reads_as parse_f64 w t"
  by (rule fixed_reads) (rule map_of_SomeD)

lemma spell_reads:
  assumes "tok_ok t" "float_ok parse_f64 show_f64 t"
  shows "reads_as parse_f64 (spell show_f64 t) t"
proof (cases t)
  case (TStr s)
  then show ?thesis using assms str_spelling_reads by simp
next
  case (TIdent s)
  then show ?thesis using assms ident_spelling_reads by simp
next
  case (TParam s)
  then show ?thesis using assms param_spelling_reads by simp
next
  case (TInt i)
  then show ?thesis using assms int_spelling_reads by simp
next
  case (TFloat f)
  then show ?thesis using assms float_spelling_reads by simp
qed (simp_all, (rule fixed_spelling_of, simp add: fixed_spelling_def)+)

lemma loop_reads:
  "list_all (\<lambda>t. reads_as parse_f64 (spell show_f64 t) t) toks \<Longrightarrow>
   lex_loop parse_f64 (char_indices p (spell_all show_f64 toks)) out = Inr (out @ toks)"
proof (induction toks arbitrary: p out)
  case Nil
  then show ?case by (simp add: spell_all_def)
next
  case (Cons t toks)
  have all: "spell_all show_f64 (t # toks) = spell show_f64 t @ 0x20 # spell_all show_f64 toks" by (simp add: spell_all_def)
  obtain c cs p' where "char_indices p (spell_all show_f64 (t # toks)) = (p, c) # cs"
      "lex_one parse_f64 p c cs = Inr ([t], char_indices p' (0x20 # spell_all show_f64 toks))"
    using Cons.prems unfolding all list.pred_inject reads_as_def by blast
  moreover have "lex_one parse_f64 q 0x20 cs = Inr ([], cs)" for q cs by (simp add: lex_one_def is_whitespace_def)
  ultimately show ?case using Cons by simp
qed

section \<open>What the lexer produces\<close>

definition scalars :: "chars \<Rightarrow> bool" where "scalars cs \<longleftrightarrow> list_all (scalar \<circ> snd) cs"

lemma scalars_simps [simp]: "scalars []" "scalars ((p, c) # cs) \<longleftrightarrow> scalar c \<and> scalars cs"
  by (simp_all add: scalars_def)

lemma scalars_after: "scalars cs \<Longrightarrow> scalars (after_run P cs)"
  by (auto simp: scalars_def after_run_def list_all_iff dest: set_dropWhileD)

lemma run_of_all: "list_all P (run_of P cs)"
  by (auto simp: run_of_def list_all_iff dest: set_takeWhileD)

lemma ident_cont_scalar: "is_ident_cont c \<Longrightarrow> scalar c" "is_ident_start c \<Longrightarrow> scalar c"
  by (auto simp: is_ident_cont_def is_ident_start_def is_ascii_alphabetic_def is_ascii_digit_def scalar_def)

lemma hex_digits_scalars: "hex_digits pos n cs v = Inr (w, cs') \<Longrightarrow> scalars cs \<Longrightarrow> scalars cs'"
  by (induction pos n cs v rule: hex_digits.induct) (auto split: option.splits)

lemma unicode_escape_scalar:
  "lex_unicode_escape pos cs = Inr (c, cs') \<Longrightarrow> scalars cs \<Longrightarrow> scalar c \<and> scalars cs'"
  by (auto simp: lex_unicode_escape_def Let_def bind_res_Inr_iff from_u32_def split: if_splits list.splits option.splits
      dest!: hex_digits_scalars)

definition good :: "lex_error + (tok \<times> chars) \<Rightarrow> bool" where
  "good r \<longleftrightarrow> (case r of Inl _ \<Rightarrow> True | Inr (t, cs) \<Rightarrow> tok_ok t \<and> scalars cs)"

lemma good_simps [simp]: "good (Inl e)" "good (Inr (t, cs)) \<longleftrightarrow> tok_ok t \<and> scalars cs"
  by (simp_all add: good_def)

lemma string_good_upto:
  "length cs \<le> n \<Longrightarrow> scalars cs \<Longrightarrow> list_all scalar out \<Longrightarrow> good (lex_string start quote cs out)"
proof (induction n arbitrary: cs out)
  case 0
  then show ?case by (simp add: lex_string.simps)
next
  case (Suc n)
  have controls: "scalar 8" "scalar 9" "scalar 10" "scalar 12" "scalar 13" by (simp_all add: scalar_def)
  have escape: "good (lex_string start quote rest (out @ [e]))" if "scalars rest" "length rest \<le> n" "scalar e" for rest e
    using Suc.IH [of rest "out @ [e]"] Suc.prems(3) that by simp
  have unicode: "good (case lex_unicode_escape pos rest of Inl err \<Rightarrow> Inl err | Inr (c, rest') \<Rightarrow> lex_string start quote rest' (out @ [c]))"
    if "scalars rest" "length rest \<le> n" for pos rest
    using that unicode_escape_shorter [of pos rest] unicode_escape_scalar [of pos rest]
    by (auto split: sum.split intro!: escape simp: less_imp_le order_trans [OF less_imp_le])
  show ?case
    using Suc.prems unfolding lex_string.simps [of start quote cs out]
    by (auto split: list.split intro!: escape unicode controls)
qed

lemmas string_good = string_good_upto [OF order.refl]

lemma quoted_good_upto:
  "length cs \<le> n \<Longrightarrow> scalars cs \<Longrightarrow> list_all scalar out \<Longrightarrow> good (lex_quoted_ident start cs out)"
proof (induction n arbitrary: cs out)
  case (Suc n)
  have further: "good (lex_quoted_ident start rest (out @ [c]))" if "scalars rest" "length rest \<le> n" "scalar c" for rest c
    using Suc.IH [of rest "out @ [c]"] Suc.prems(3) that by simp
  show ?case
  proof (cases cs)
    case (Cons a rest)
    obtain p c where a: "a = (p, c)" by (cases a)
    show ?thesis
      using Suc.prems further unfolding Cons a lex_quoted_ident.simps(2)
      by (auto simp del: lex_quoted_ident.simps split: list.split)
  qed simp
qed simp

lemmas quoted_good = quoted_good_upto [OF order.refl]

lemma param_good: "scalars cs \<Longrightarrow> good (lex_param start cs)"
  using run_of_all scalars_after by (auto simp: lex_param_def take_ident_def is_ident_def split: list.split)

lemma parse_i64_range: "parse_i64_digits ds = Some v \<Longrightarrow> 0 \<le> v \<and> v < 2 ^ 63"
  using of_nat_less_iff [of "digits_value ds" "2 ^ 63", where 'a = int] by (auto simp: parse_i64_digits_def split: if_splits)

lemma number_good:
  assumes "scalars cs" shows "good (lex_number parse_f64 start c cs)"
proof -
  let ?rest = "after_run is_ascii_digit cs"
  have "scalars ?rest" using assms scalars_after by blast
  moreover have "scalars (after_run is_ascii_digit r)" if "?rest = x # r" for x r
    using calculation that by (cases x) (simp add: scalars_after)
  ultimately show ?thesis
    by (auto simp: lex_number_def Let_def split: list.split option.split dest: parse_i64_range)
qed

lemma keyword_ok: "keyword w = Some t \<Longrightarrow> tok_ok t"
  unfolding keyword_def by (drule map_of_SomeD) auto

lemma word_good: "is_ident_start c \<Longrightarrow> scalars cs \<Longrightarrow> good (Inr (lex_word c cs))"
  using run_of_all [of is_ident_cont cs] ident_cont_scalar
  by (auto simp: lex_word_def Let_def scalars_after list_all_iff split: option.split dest: keyword_ok)

lemma punct_ok: "punct c = Some t \<Longrightarrow> tok_ok t"
  unfolding punct_def by (drule map_of_SomeD) auto

lemma lex_one_good:
  assumes "scalars cs" "lex_one parse_f64 i c cs = Inr (ts, cs')"
  shows "list_all tok_ok ts \<and> scalars cs'"
proof -
  have good: "tok_ok t \<and> scalars cs''" if "good r" "r = Inr (t, cs'')" for r t cs'' using that by simp
  have tl: "scalars (tl cs)" using assms(1) by (cases cs) auto
  have nil: "list_all scalar []" by simp
  note parts = good [OF string_good [OF assms(1) nil]] good [OF quoted_good [OF assms(1) nil]]
    good [OF param_good [OF assms(1)]] good [OF number_good [OF assms(1)]] good [OF word_good [OF _ assms(1)]]
  show ?thesis
    using assms tl
    by (auto simp: lex_one_def bind_res_Inr_iff punct_ok split: if_splits option.splits prod.splits dest: parts)
qed

lemma lex_loop_good:
  "lex_loop parse_f64 cs out = Inr toks \<Longrightarrow> scalars cs \<Longrightarrow> list_all tok_ok out \<Longrightarrow> list_all tok_ok toks"
  by (induction parse_f64 cs out rule: lex_loop.induct) (auto split: sum.splits dest: lex_one_good)

lemma scalars_indices: "list_all scalar s \<Longrightarrow> scalars (char_indices p s)"
  by (induction s arbitrary: p) auto

section \<open>The properties of the lexer\<close>

text \<open>C39. A query text spelled from tokens is read back as exactly those tokens: every keyword and operator, every
  identifier in backticks whatever its characters, every string with its quotes, backslashes and non-ASCII
  characters escaped (those beyond the basic plane as surrogate pairs), every integer below 2^63, every
  parameter. Floats are read by \<open>parse_f64\<close>; what is asked of it is that it reads what \<open>show_f64\<close> prints.\<close>

theorem lex_reads_spelling:
  assumes "list_all tok_ok toks" "list_all (float_ok parse_f64 show_f64) toks"
  shows "lex parse_f64 (spell_all show_f64 toks) = Inr toks"
proof -
  have "list_all (\<lambda>t. reads_as parse_f64 (spell show_f64 t) t) toks"
    using assms spell_reads by (auto simp: list_all_iff)
  then show ?thesis by (simp add: lex_def loop_reads)
qed

text \<open>C40. Whatever the text, if the lexer accepts it then every token it returns has the shape its type promises the
  parser: an identifier is never empty, a parameter's name is an identifier, an integer is a non-negative
  \<open>i64\<close>, and every string and identifier is made of Unicode scalar values only, so no surrogate gets through
  an escape.\<close>

theorem lex_tokens_typed:
  assumes "list_all scalar input" "lex parse_f64 input = Inr toks"
  shows "list_all tok_ok toks"
  using assms(2) unfolding lex_def by (rule lex_loop_good) (simp_all add: assms(1) scalars_indices)

definition sample_parse :: "uchar list \<Rightarrow> u64 option" where
  "sample_parse s = (if s = ascii ''2.5'' then Some 0x4004000000000000 else None)"

definition sample_show :: "u64 \<Rightarrow> uchar list" where "sample_show f = ascii ''2.5''"

lemma sample_float: "float_text sample_parse sample_show 0x4004000000000000"
proof -
  have "sample_show 0x4004000000000000 = ascii ''2'' @ [ch CHR ''.''] @ ascii ''5''" by (simp add: sample_show_def ascii_def)
  moreover have "list_all is_ascii_digit (ascii ''2'' @ ascii ''5'')" "ascii ''2'' \<noteq> []" "ascii ''5'' \<noteq> []"
    by (simp_all add: ascii_def is_ascii_digit_def)
  moreover have "sample_parse (sample_show 0x4004000000000000) = Some 0x4004000000000000"
    by (simp add: sample_parse_def sample_show_def)
  ultimately show ?thesis unfolding float_text_def by blast
qed

theorem lex_reads_spelling_witness:
  "lex sample_parse (spell_all sample_show
     [TMatch, TIdent [0x63, 0x60, 0x64], TStr [0x27, 0x1F344], TInt 42, TFloat 0x4004000000000000, TParam (ascii ''p''), TLe]) =
   Inr [TMatch, TIdent [0x63, 0x60, 0x64], TStr [0x27, 0x1F344], TInt 42, TFloat 0x4004000000000000, TParam (ascii ''p''), TLe]"
  by (rule lex_reads_spelling) (simp_all add: scalar_def is_ident_def ascii_def is_ident_start_def is_ascii_alphabetic_def sample_float)

theorem lex_tokens_typed_witness:
  "lex sample_parse (ascii ''Match'') = Inr [TMatch] \<and> list_all tok_ok [TMatch]"
proof -
  have sc: "list_all scalar (ascii ''Match'')" by (simp add: ascii_def scalar_def)
  have "lex sample_parse (ascii ''Match'') = Inr [TMatch]"
    by (simp add: lex_def ascii_def len_utf8_def ident_start_branch is_ident_start_def is_ascii_alphabetic_def lex_word_def
        run_of_def after_run_def is_ident_cont_def keyword_def to_ascii_lowercase_def Let_def)
  then show ?thesis using lex_tokens_typed [OF sc] by blast
qed

end
