(* ===== verification/Spec2Isabelle.thy ===== *)
theory Spec2Isabelle
  imports Prelude Pack Interner Cow_Vec Cow_Map Cow_Map_Build Cow_Map_Range Id_Set Hash_Index Id_Map
    Topology Topology_View Edge_Props Commit_Times
    Calendar Iso_Text Duration_Text Base64 Value Wal Packstream Bolt_Wire
    Visible_Set Value_Ops Roles Scope Access Tx_Store Bolt_Message Bolt_Connection
    Graph_View Traverse Delta_Layer Cypher_Lexer
begin

text \<open>
  A verification of the storage core of mushroomdb.
\<close>

end
